(* ===== verification/Prelude.thy ===== *)
theory Prelude
  imports Main "HOL-Library.Word" "HOL-Library.Multiset"
begin

text \<open>
  Shared vocabulary of the development: the machine types of \<^verbatim>\<open>src/src/types.h\<close>, the
  constants of \<^verbatim>\<open>arch/x86_64/paging.h\<close>, the collections of rewrite rules that carry the
  component proofs, and generic facts about words, lists and the option type that several
  components use.
\<close>

unbundle bit_operations_syntax

section \<open>Machine types\<close>

type_synonym u8 = "8 word"
type_synonym u16 = "16 word"
type_synonym u32 = "32 word"
type_synonym u64 = "64 word"

text \<open>Pointers, \<open>size_t\<close>, \<open>offset_t\<close> and \<open>sect_t\<close> are all 64 bits wide on x86-64.\<close>

type_synonym addr = u64

abbreviation NULL :: addr where
  "NULL \<equiv> 0"

definition PAGE_SIZE :: u64 where
  "PAGE_SIZE = 0x1000"

text \<open>
  The collections: \<open>defs\<close> holds the definitions of straight-line operations that proofs unfold,
  \<open>frame\<close> the facts that an operation leaves a part of the state alone.
\<close>

named_theorems defs
named_theorems frame

section \<open>Words\<close>

lemma unat_less_pow [simp]: "unat (x :: u64) < 2 ^ 64"
  using unsigned_less [of x] by simp

lemma unat_add_no_wrap:
  "unat a + unat b < 2 ^ 64 \<Longrightarrow> unat (a + b) = unat a + unat (b :: u64)"
  by (simp add: unat_add_lem [THEN iffD1])

lemma word_add_right_cancel_eq [simp]: "(a + c = b + c) = (a = (b :: 'a::len word))"
  by simp

lemma word_add_diff_back [simp]: "(a :: 'a::len word) - b + b = a" "a + b - b = a"
  by simp_all

lemma unat_pred_less: "x \<noteq> 0 \<Longrightarrow> unat (x - 1) < unat (x :: 'a::len word)"
  by (simp add: unat_gt_0 unat_minus_one)

lemma word_dist_step: "cur \<noteq> end \<Longrightarrow> unat (end - (cur + 1)) < unat (end - (cur :: u64))"
  using unat_pred_less [of "end - cur"] by (simp add: diff_diff_eq [symmetric])

text \<open>The distance from \<open>a\<close> up to \<open>x\<close>, measured upwards with wrap-around: what a loop that
  increments a pointer until it meets another one counts.\<close>

lemma word_dist_succ:
  "x \<noteq> a \<Longrightarrow> unat (x - (a + 1)) = unat (x - (a :: u64)) - 1"
  using unat_minus_one [of "x - a"] by (simp add: diff_diff_eq [symmetric])

lemma ucast_up_down [simp]:
  "ucast (ucast (x :: u8) :: u32) = x" "ucast (ucast (y :: u16) :: u32) = y"
  by (rule bit_word_eqI, simp add: bit_ucast_iff)+

lemma unat_uminus: "a \<noteq> 0 \<Longrightarrow> unat (- a) = 2 ^ 64 - unat (a :: u64)"
  using unat_sub_if' [of 0 a] by (simp add: unat_eq_zero)

lemma unat_succ_less: "a < b \<Longrightarrow> unat (a + 1) = Suc (unat (a :: u64))"
  using unat_less_pow [of b] by (simp add: word_less_nat_alt unat_word_ariths)

lemma sint_eq_iff [simp]: "sint a = sint b \<longleftrightarrow> a = (b :: 'a::len word)"
  by (metis of_int_sint scast_id)

section \<open>Lists and options\<close>

lemma distinct_map_add_right:
  "distinct (map (\<lambda>d. d + (k :: 'a::len word)) ds) = distinct ds"
  by (simp add: distinct_map inj_on_def)

lemma inj_on_add_right [simp]: "inj_on (\<lambda>d. d + (k :: 'a::len word)) S"
  by (simp add: inj_on_def)

lemma of_nat_less_word: "n < unat (b :: 'a::len word) \<Longrightarrow> of_nat n < b"
  by (simp add: word_less_nat_alt unat_of_nat le_less_trans [OF mod_less_eq_dividend])

lemma sint_u32: "unat (w :: 32 word) < 2 ^ 31 \<Longrightarrow> sint w = int (unat w)"
proof -
  assume a: "unat w < 2 ^ 31"
  have "sint w = signed_take_bit 31 (int (unat w))"
    unfolding uint_nat [symmetric] by (simp only: sint_uint) simp
  moreover have "int (unat w) < int (2 ^ 31)" using a by (simp only: of_nat_less_iff)
  then have "int (unat w) < 2 ^ 31" by simp
  moreover have "- (2 ^ 31) \<le> int (unat w)" by (rule order_trans [of _ 0]) simp_all
  ultimately show ?thesis
    by (simp only: signed_take_bit_int_eq_self)
qed

end
