(* ===== verification/Sort_Utils.thy ===== *)
theory Sort_Utils
  imports Prelude
begin

text \<open>
  The generic selection sort of \<^verbatim>\<open>src/src/utils.c\<close> with its callbacks, and the two instances the
  boot code uses.

  \<open>sort\<close> (here \<open>sort_gen\<close>) walks an array by byte pointers and leaves comparing and swapping to its callbacks. Both
  loops run until a pointer meets an end pointer, so the model keeps pointers as 64-bit words and
  the loops are partial functions (\<open>None\<close> is a loop that does not end). The contract between
  \<open>sort\<close> and its callbacks is a locale: \<open>sort_compare\<close> says what \<open>cmp\<close> reports, and
  \<open>sort_callbacks\<close> adds that \<open>swp\<close> exchanges two elements and leaves every other element alone.
  The callbacks for \<open>struct KernelSection\<close> meet the whole contract. Those for \<open>struct MMapEntry\<close>
  meet only the first part: \<open>mmap_entry_swp\<close> moves 24-byte \<open>struct KernelSection\<close>s between the
  16-byte elements of its array.

  Memory is a function from the address of an 8-byte word to its value; the structs moved here are
  made of such words.
\<close>

section \<open>The sort\<close>

type_synonym wmem = "addr \<Rightarrow> u64"

partial_function (option) sort_min ::
  "('m \<Rightarrow> addr \<Rightarrow> addr \<Rightarrow> int) \<Rightarrow> u64 \<Rightarrow> 'm \<Rightarrow> addr \<Rightarrow> addr \<Rightarrow> addr \<Rightarrow> addr option" where
  "sort_min cmp el_len m end mn temp =
     (if temp = end then Some mn
      else sort_min cmp el_len m end (if cmp m mn temp < 0 then temp else mn) (temp + el_len))"

partial_function (option) sort_outer ::
  "('m \<Rightarrow> addr \<Rightarrow> addr \<Rightarrow> int) \<Rightarrow> (addr \<Rightarrow> addr \<Rightarrow> 'm \<Rightarrow> 'm) \<Rightarrow> u64 \<Rightarrow> addr \<Rightarrow> addr \<Rightarrow> addr \<Rightarrow> 'm
     \<Rightarrow> 'm option" where
  "sort_outer cmp swp el_len lst end cur m =
     (if cur = lst then Some m
      else Option.bind (sort_min cmp el_len m end cur (cur + el_len))
        (\<lambda>mn. sort_outer cmp swp el_len lst end (cur + el_len)
                 (if mn \<noteq> cur then swp cur mn m else m)))"

definition sort_gen :: "addr \<Rightarrow> u64 \<Rightarrow> u64 \<Rightarrow> ('m \<Rightarrow> addr \<Rightarrow> addr \<Rightarrow> int) \<Rightarrow>
    (addr \<Rightarrow> addr \<Rightarrow> 'm \<Rightarrow> 'm) \<Rightarrow> 'm \<Rightarrow> 'm option" where
  "sort_gen arr num_els el_len cmp swp m =
     (if num_els = 0 \<or> num_els = 1 then Some m
      else sort_outer cmp swp el_len (arr + el_len * (num_els - 1)) (arr + el_len * num_els) arr m)"

section \<open>The structs and their callbacks\<close>

record MMapEntry =
  me_base :: addr
  me_length :: u64

record KernelSection =
  ks_base :: addr
  ks_length :: u64
  ks_name :: addr

definition read_MMapEntry :: "wmem \<Rightarrow> addr \<Rightarrow> MMapEntry" where
  "read_MMapEntry m p = \<lparr>me_base = m p, me_length = m (p + 8)\<rparr>"

definition read_KernelSection :: "wmem \<Rightarrow> addr \<Rightarrow> KernelSection" where
  "read_KernelSection m p = \<lparr>ks_base = m p, ks_length = m (p + 8), ks_name = m (p + 16)\<rparr>"

definition write_KernelSection :: "addr \<Rightarrow> KernelSection \<Rightarrow> wmem \<Rightarrow> wmem" where
  "write_KernelSection p k m = m(p := ks_base k, p + 8 := ks_length k, p + 16 := ks_name k)"

definition sizeof_KernelSection :: u64 where
  "sizeof_KernelSection = 24"

definition sizeof_MMapEntry :: u64 where
  "sizeof_MMapEntry = 16"

definition kernel_mmap_cmp :: "wmem \<Rightarrow> addr \<Rightarrow> addr \<Rightarrow> int" where
  "kernel_mmap_cmp m rarg1 rarg2 =
     (let arg1 = read_KernelSection m rarg1; arg2 = read_KernelSection m rarg2
      in if ks_base arg1 > ks_base arg2 then - 1
         else if ks_base arg2 > ks_base arg1 then 1
         else 0)"

definition kernel_mmap_swp :: "addr \<Rightarrow> addr \<Rightarrow> wmem \<Rightarrow> wmem" where
  "kernel_mmap_swp arg1 arg2 m =
     (let temp = read_KernelSection m arg2;
          m1 = write_KernelSection arg2 (read_KernelSection m arg1) m
      in write_KernelSection arg1 temp m1)"

definition sort_kernel_section_array :: "addr \<Rightarrow> u64 \<Rightarrow> wmem \<Rightarrow> wmem option" where
  "sort_kernel_section_array arr len m =
     sort_gen arr len sizeof_KernelSection kernel_mmap_cmp kernel_mmap_swp m"

definition mmap_entry_cmp :: "wmem \<Rightarrow> addr \<Rightarrow> addr \<Rightarrow> int" where
  "mmap_entry_cmp m rarg1 rarg2 =
     (let arg1 = read_KernelSection m rarg1; arg2 = read_KernelSection m rarg2
      in if ks_base arg1 > ks_base arg2 then - 1
         else if ks_base arg2 > ks_base arg1 then 1
         else 0)"

definition mmap_entry_swp :: "addr \<Rightarrow> addr \<Rightarrow> wmem \<Rightarrow> wmem" where
  "mmap_entry_swp arg1 arg2 m =
     (let temp = read_KernelSection m arg2;
          m1 = write_KernelSection arg2 (read_KernelSection m arg1) m
      in write_KernelSection arg1 temp m1)"

definition sort_mmap_entry_array :: "addr \<Rightarrow> u64 \<Rightarrow> wmem \<Rightarrow> wmem option" where
  "sort_mmap_entry_array arr len m =
     sort_gen arr len sizeof_MMapEntry mmap_entry_cmp mmap_entry_swp m"

section \<open>Arrays of equally spaced elements\<close>

definition slot :: "addr \<Rightarrow> u64 \<Rightarrow> nat \<Rightarrow> addr" where
  "slot arr el_len i = arr + of_nat i * el_len"

definition fits :: "u64 \<Rightarrow> nat \<Rightarrow> bool" where
  "fits el_len n = (0 < el_len \<and> n * unat el_len < 2 ^ 64)"

definition far :: "u64 \<Rightarrow> addr \<Rightarrow> addr \<Rightarrow> bool" where
  "far el_len p q = (el_len \<le> p - q \<and> el_len \<le> q - p)"

definition contents :: "('m \<Rightarrow> addr \<Rightarrow> 'e) \<Rightarrow> addr \<Rightarrow> u64 \<Rightarrow> nat \<Rightarrow> 'm \<Rightarrow> 'e list" where
  "contents elem arr el_len n m = map (\<lambda>i. elem m (slot arr el_len i)) [0..<n]"

lemma slot_Suc: "slot arr el_len i + el_len = slot arr el_len (Suc i)"
  by (simp add: slot_def algebra_simps)

lemma unat_of_nat_mult:
  assumes "fits el_len n" "k \<le> n"
  shows "unat (of_nat k * el_len) = k * unat el_len"
proof -
  have "k * unat el_len < 2 ^ 64"
    using assms by (auto simp: fits_def intro: le_less_trans [OF mult_le_mono1])
  moreover have "k \<le> k * unat el_len"
    using assms by (simp add: fits_def word_less_nat_alt)
  ultimately show ?thesis
    by (simp add: unat_word_ariths unat_of_nat mod_mult_left_eq)
qed

lemma slot_inject:
  assumes "fits el_len n" "i \<le> n" "j \<le> n"
  shows "slot arr el_len i = slot arr el_len j \<longleftrightarrow> i = j"
proof
  assume "slot arr el_len i = slot arr el_len j"
  then have "i * unat el_len = j * unat el_len"
    using unat_of_nat_mult assms by (metis add_left_cancel slot_def)
  then show "i = j"
    using assms by (simp add: fits_def word_less_nat_alt)
qed simp

lemma slot_far:
  assumes "fits el_len n" "i < n" "j < n" "i \<noteq> j"
  shows "far el_len (slot arr el_len i) (slot arr el_len j)"
proof -
  have lt: "el_len \<le> slot arr el_len j - slot arr el_len i"
      "el_len \<le> slot arr el_len i - slot arr el_len j" if "i < j" "j < n" for i j
  proof -
    let ?d = "of_nat (j - i) * el_len"
    have eq: "slot arr el_len j - slot arr el_len i = ?d"
      using that by (simp add: slot_def of_nat_diff algebra_simps)
    have d: "unat ?d = (j - i) * unat el_len"
      using assms(1) that by (intro unat_of_nat_mult) auto
    have "1 * unat el_len \<le> (j - i) * unat el_len"
      using that by (intro mult_le_mono1) simp
    then have ge: "unat el_len \<le> unat ?d"
      by (simp only: d mult_1)
    then show "el_len \<le> slot arr el_len j - slot arr el_len i"
      by (simp add: eq word_le_nat_alt)
    have "Suc (j - i) * unat el_len \<le> n * unat el_len"
      using that by (intro mult_le_mono1) auto
    then have le: "unat ?d + unat el_len < 2 ^ 64"
      using assms(1) unfolding d by (simp add: fits_def)
    with ge have "unat el_len \<le> unat (- ?d)"
      by (cases "?d = 0") (auto simp: unat_uminus)
    then show "el_len \<le> slot arr el_len i - slot arr el_len j"
      using eq by (metis minus_diff_eq word_le_nat_alt)
  qed
  from assms lt show ?thesis
    unfolding far_def by (metis linorder_neqE_nat)
qed

lemma length_contents [simp]: "length (contents elem arr el_len n m) = n"
  by (simp add: contents_def)

lemma nth_contents [simp]:
  "i < n \<Longrightarrow> contents elem arr el_len n m ! i = elem m (slot arr el_len i)"
  by (simp add: contents_def)

text \<open>Exchanging two positions of a list, and the invariant of a selection sort: every element
  before position \<open>i\<close> is at most every element behind it.\<close>

definition swap_at :: "nat \<Rightarrow> nat \<Rightarrow> 'e list \<Rightarrow> 'e list" where
  "swap_at i k xs = xs[i := xs ! k, k := xs ! i]"

lemma mset_swap_at: "i < length xs \<Longrightarrow> k < length xs \<Longrightarrow> mset (swap_at i k xs) = mset xs"
  by (simp add: swap_at_def mset_swap)

lemma nth_swap_at:
  "i < length xs \<Longrightarrow> k < length xs \<Longrightarrow> b < length xs \<Longrightarrow>
     swap_at i k xs ! b = xs ! (if b = k then i else if b = i then k else b)"
  by (simp add: swap_at_def nth_list_update)

lemma swap_at_same [simp]: "swap_at i i xs = xs"
  by (simp add: swap_at_def)

definition sel_inv :: "('e \<Rightarrow> 'k::linorder) \<Rightarrow> nat \<Rightarrow> 'e list \<Rightarrow> bool" where
  "sel_inv key i xs = (\<forall>a b. a < i \<longrightarrow> a < b \<longrightarrow> b < length xs \<longrightarrow> key (xs ! a) \<le> key (xs ! b))"

lemma sel_inv_step:
  assumes "sel_inv key i xs" "i \<le> k" "k < length xs"
    and least: "\<And>t. i \<le> t \<Longrightarrow> t < length xs \<Longrightarrow> key (xs ! k) \<le> key (xs ! t)"
  shows "sel_inv key (Suc i) (swap_at i k xs)"
  unfolding sel_inv_def
proof (intro allI impI)
  fix a b
  assume ab: "a < Suc i" "a < b" "b < length (swap_at i k xs)"
  then have b: "b < length xs" by (simp add: swap_at_def)
  show "key (swap_at i k xs ! a) \<le> key (swap_at i k xs ! b)"
  proof (cases "a < i")
    case True
    with ab b assms(1-3) show ?thesis
      by (auto simp: nth_swap_at sel_inv_def)
  next
    case False
    with ab have "a = i" by simp
    with ab b assms(2,3) least show ?thesis
      by (cases "i = k") (auto simp: nth_swap_at)
  qed
qed

lemma sel_inv_sorted:
  assumes "sel_inv key i xs" "length xs \<le> Suc i"
  shows "sorted (map key xs)"
  using assms by (auto simp: sorted_iff_nth_mono_less sel_inv_def)

section \<open>The contract of the callbacks\<close>

locale sort_compare =
  fixes elem :: "'m \<Rightarrow> addr \<Rightarrow> 'e" and key :: "'e \<Rightarrow> 'k::linorder"
    and el_len :: u64 and cmp :: "'m \<Rightarrow> addr \<Rightarrow> addr \<Rightarrow> int"
  assumes cmp_less: "cmp m p q < 0 \<longleftrightarrow> key (elem m q) < key (elem m p)"
begin

text \<open>The inner loop finds the first of the least elements.\<close>

lemma sort_min_least:
  assumes "fits el_len n" "i < n" "j \<le> n"
  shows "\<exists>k<n. sort_min cmp el_len m (slot arr el_len n) (slot arr el_len i) (slot arr el_len j)
             = Some (slot arr el_len k) \<and>
           (k = i \<or> j \<le> k \<and> key (elem m (slot arr el_len k)) < key (elem m (slot arr el_len i))) \<and>
           (\<forall>t. t = i \<or> j \<le> t \<and> t < n \<longrightarrow>
              key (elem m (slot arr el_len k)) \<le> key (elem m (slot arr el_len t)))"
  using assms
proof (induction "n - j" arbitrary: i j)
  case 0
  then show ?case by (auto simp: sort_min.simps)
next
  case (Suc x)
  let ?i = "if cmp m (slot arr el_len i) (slot arr el_len j) < 0 then j else i"
  have step: "sort_min cmp el_len m (slot arr el_len n) (slot arr el_len i) (slot arr el_len j) =
      sort_min cmp el_len m (slot arr el_len n) (slot arr el_len ?i) (slot arr el_len (Suc j))"
    using Suc.prems Suc.hyps(2) slot_inject [OF Suc.prems(1), of j n]
    by (subst sort_min.simps) (auto simp: slot_Suc)
  have "x = n - Suc j" "?i < n" "Suc j \<le> n"
    using Suc.hyps(2) Suc.prems by auto
  from Suc.hyps(1) [OF this(1) Suc.prems(1) this(2,3)] obtain k where k: "k < n"
    "sort_min cmp el_len m (slot arr el_len n) (slot arr el_len ?i) (slot arr el_len (Suc j))
       = Some (slot arr el_len k)"
    "k = ?i \<or> Suc j \<le> k \<and> key (elem m (slot arr el_len k)) < key (elem m (slot arr el_len ?i))"
    "\<And>t. t = ?i \<or> Suc j \<le> t \<and> t < n \<Longrightarrow>
       key (elem m (slot arr el_len k)) \<le> key (elem m (slot arr el_len t))"
    by blast
  have "key (elem m (slot arr el_len k)) \<le> key (elem m (slot arr el_len t))"
    if "t = i \<or> j \<le> t \<and> t < n" for t
    using that k(4) [of t] k(4) [of ?i] cmp_less [of m "slot arr el_len i" "slot arr el_len j"]
    by (cases "t = i"; cases "t = j") (auto split: if_splits)
  moreover have "k = i \<or> j \<le> k \<and> key (elem m (slot arr el_len k)) < key (elem m (slot arr el_len i))"
    using k(3) cmp_less [of m "slot arr el_len i" "slot arr el_len j"]
    by (auto split: if_splits)
  ultimately show ?case
    using k(1,2) step by auto
qed

text \<open>On an array that is already in order nothing is swapped, whatever \<open>swp\<close> would do.\<close>

lemma sort_outer_sorted:
  assumes fit: "fits el_len n" and "i < n"
    and ord: "sorted (map key (contents elem arr el_len n m))"
  shows "sort_outer cmp swp el_len (slot arr el_len (n - 1)) (slot arr el_len n) (slot arr el_len i) m
    = Some m"
  using \<open>i < n\<close>
proof (induction "n - 1 - i" arbitrary: i)
  case 0
  then have "i = n - 1" by simp
  then show ?case by (subst sort_outer.simps) simp
next
  case (Suc x)
  have le: "key (elem m (slot arr el_len a)) \<le> key (elem m (slot arr el_len b))"
    if "a \<le> b" "b < n" for a b
    using sorted_nth_mono [OF ord, of a b] that by simp
  obtain k where k: "sort_min cmp el_len m (slot arr el_len n) (slot arr el_len i)
      (slot arr el_len (Suc i)) = Some (slot arr el_len k)"
    "k = i \<or> Suc i \<le> k \<and> key (elem m (slot arr el_len k)) < key (elem m (slot arr el_len i))" "k < n"
    using sort_min_least [OF fit Suc.prems, of "Suc i" m arr] Suc.prems by auto
  then have "k = i"
    using le [of i k] by auto
  moreover have "slot arr el_len i \<noteq> slot arr el_len (n - 1)"
    using slot_inject [OF fit, of i "n - 1"] Suc.hyps(2) Suc.prems by auto
  ultimately show ?case
    using k(1) Suc.hyps Suc.prems by (subst sort_outer.simps) (simp add: slot_Suc)
qed

lemma sort_gen_eq:
  assumes "fits el_len n" "n = unat num"
  shows "sort_gen arr num el_len cmp swp m =
    (if n \<le> 1 then Some m
     else sort_outer cmp swp el_len (slot arr el_len (n - 1)) (slot arr el_len n) (slot arr el_len 0) m)"
proof -
  have "num = of_nat n" using assms(2) by simp
  moreover have "num = 0 \<or> num = 1 \<longleftrightarrow> n \<le> 1"
    by (subst (1 2) word_unat_eq_iff) (use assms(2) in auto)
  moreover have "num - 1 = of_nat (n - 1)" if "\<not> n \<le> 1"
    using that assms(2) by (simp add: of_nat_diff)
  ultimately show ?thesis
    by (simp add: sort_gen_def slot_def mult.commute)
qed

text \<open>Whatever relation the swaps keep between two memories, the sort keeps it too.\<close>

lemma sort_outer_keeps:
  assumes fit: "fits el_len n" and R: "\<And>m. R m m" "\<And>a b c. R a b \<Longrightarrow> R b c \<Longrightarrow> R a c"
    and swp: "\<And>a b m. a < n \<Longrightarrow> b < n \<Longrightarrow> R m (swp (slot arr el_len a) (slot arr el_len b) m)"
    and "i < n"
    and "sort_outer cmp swp el_len (slot arr el_len (n - 1)) (slot arr el_len n) (slot arr el_len i) m = Some m'"
  shows "R m m'"
  using assms(5,6)
proof (induction "n - 1 - i" arbitrary: i m)
  case 0
  then have "i = n - 1" by simp
  with 0 show ?case using R(1) by (subst (asm) sort_outer.simps) simp
next
  case (Suc x)
  obtain k where k: "k < n" "sort_min cmp el_len m (slot arr el_len n) (slot arr el_len i)
      (slot arr el_len (Suc i)) = Some (slot arr el_len k)"
    using sort_min_least [OF fit Suc.prems(1), of "Suc i" m arr] Suc.prems(1) by auto
  define m1 where "m1 = (if slot arr el_len k \<noteq> slot arr el_len i
      then swp (slot arr el_len i) (slot arr el_len k) m else m)"
  have ne: "slot arr el_len i \<noteq> slot arr el_len (n - 1)"
    using slot_inject [OF fit, of i "n - 1"] Suc.hyps(2) Suc.prems by auto
  have "sort_outer cmp swp el_len (slot arr el_len (n - 1)) (slot arr el_len n) (slot arr el_len (Suc i)) m1 = Some m'"
    using Suc.prems(2) ne k(2) by (subst (asm) sort_outer.simps) (simp add: m1_def slot_Suc)
  moreover have "x = n - 1 - Suc i" "Suc i < n" using Suc.hyps(2) by auto
  ultimately have "R m1 m'" using Suc.hyps(1) by blast
  moreover have "R m m1" using swp [OF Suc.prems(1) k(1)] R(1) by (simp add: m1_def)
  ultimately show ?case using R(2) by blast
qed

lemma sort_gen_keeps:
  assumes fit: "fits el_len (unat num)" and R: "\<And>m. R m m" "\<And>a b c. R a b \<Longrightarrow> R b c \<Longrightarrow> R a c"
    and swp: "\<And>a b m. a < unat num \<Longrightarrow> b < unat num \<Longrightarrow> R m (swp (slot arr el_len a) (slot arr el_len b) m)"
    and "sort_gen arr num el_len cmp swp m = Some m'"
  shows "R m m'"
  using assms(5) sort_outer_keeps [OF fit, of R swp arr 0 m m'] R swp
  by (auto simp: sort_gen_eq [OF fit refl] split: if_splits)

lemma sort_gen_sorted:
  assumes "fits el_len (unat num)" "sorted (map key (contents elem arr el_len (unat num) m))"
  shows "sort_gen arr num el_len cmp swp m = Some m"
  using sort_gen_eq [OF assms(1) refl] sort_outer_sorted [OF assms(1) _ assms(2), of 0] by auto

end

locale sort_callbacks = sort_compare elem key el_len cmp
  for elem :: "'m \<Rightarrow> addr \<Rightarrow> 'e" and key :: "'e \<Rightarrow> 'k::linorder" and el_len cmp +
  fixes swp :: "addr \<Rightarrow> addr \<Rightarrow> 'm \<Rightarrow> 'm"
  assumes swp_first: "far el_len p q \<Longrightarrow> elem (swp p q m) p = elem m q"
    and swp_second: "far el_len p q \<Longrightarrow> elem (swp p q m) q = elem m p"
    and swp_other: "\<lbrakk>far el_len p q; far el_len r p; far el_len r q\<rbrakk> \<Longrightarrow> elem (swp p q m) r = elem m r"
begin

lemma contents_swp:
  assumes "fits el_len n" "i < n" "k < n" "i \<noteq> k"
  shows "contents elem arr el_len n (swp (slot arr el_len i) (slot arr el_len k) m)
    = swap_at i k (contents elem arr el_len n m)"
proof (rule nth_equalityI)
  fix b assume "b < length (contents elem arr el_len n (swp (slot arr el_len i) (slot arr el_len k) m))"
  then have b: "b < n" by simp
  show "contents elem arr el_len n (swp (slot arr el_len i) (slot arr el_len k) m) ! b
      = swap_at i k (contents elem arr el_len n m) ! b"
    using assms b slot_far [OF assms(1)] by (auto simp: nth_swap_at swp_first swp_second swp_other)
qed (simp add: swap_at_def)

lemma sort_outer_correct:
  assumes fit: "fits el_len n" and "i < n" and "sel_inv key i (contents elem arr el_len n m)"
  shows "\<exists>m'. sort_outer cmp swp el_len (slot arr el_len (n - 1)) (slot arr el_len n)
              (slot arr el_len i) m = Some m' \<and>
            mset (contents elem arr el_len n m') = mset (contents elem arr el_len n m) \<and>
            sorted (map key (contents elem arr el_len n m'))"
  using assms(2,3)
proof (induction "n - 1 - i" arbitrary: i m)
  case 0
  then have "i = n - 1" by simp
  with 0 show ?case
    by (subst sort_outer.simps) (auto intro: sel_inv_sorted)
next
  case (Suc x)
  let ?c = "contents elem arr el_len n"
  obtain k where k: "k < n" "sort_min cmp el_len m (slot arr el_len n) (slot arr el_len i)
      (slot arr el_len (Suc i)) = Some (slot arr el_len k)" "k = i \<or> Suc i \<le> k"
    "\<And>t. t = i \<or> Suc i \<le> t \<and> t < n \<Longrightarrow>
       key (elem m (slot arr el_len k)) \<le> key (elem m (slot arr el_len t))"
    using sort_min_least [OF fit Suc.prems(1), of "Suc i" m arr] Suc.prems(1) by auto
  define m1 where "m1 = (if slot arr el_len k \<noteq> slot arr el_len i
      then swp (slot arr el_len i) (slot arr el_len k) m else m)"
  have "?c m1 = swap_at i k (?c m)"
    using contents_swp [OF fit Suc.prems(1) k(1)] slot_inject [OF fit, of k i] k(1) Suc.prems(1)
    by (cases "k = i") (auto simp: m1_def)
  moreover have "sel_inv key (Suc i) (swap_at i k (?c m))"
  proof (rule sel_inv_step)
    fix t assume "i \<le> t" "t < length (?c m)"
    then show "key (?c m ! k) \<le> key (?c m ! t)"
      using k(1) k(4) [of t] by (cases "t = i") auto
  qed (use Suc.prems k in auto)
  ultimately have c: "sel_inv key (Suc i) (?c m1)" "mset (?c m1) = mset (?c m)"
    using Suc.prems(1) k(1) by (simp_all add: mset_swap_at)
  have "x = n - 1 - Suc i" "Suc i < n"
    using Suc.hyps(2) by auto
  from Suc.hyps(1) [OF this c(1)] obtain m' where
    "sort_outer cmp swp el_len (slot arr el_len (n - 1)) (slot arr el_len n)
       (slot arr el_len (Suc i)) m1 = Some m'"
    "mset (?c m') = mset (?c m1)" "sorted (map key (?c m'))"
    by blast
  moreover have "slot arr el_len i \<noteq> slot arr el_len (n - 1)"
    using slot_inject [OF fit, of i "n - 1"] Suc.hyps(2) Suc.prems by auto
  ultimately show ?case
    using k(2) c(2) by (subst sort_outer.simps) (auto simp: slot_Suc m1_def)
qed

lemma sort_gen_correct:
  assumes fit: "fits el_len (unat num)"
  shows "\<exists>m'. sort_gen arr num el_len cmp swp m = Some m' \<and>
     mset (contents elem arr el_len (unat num) m') = mset (contents elem arr el_len (unat num) m) \<and>
     sorted (map key (contents elem arr el_len (unat num) m'))"
proof (cases "unat num \<le> 1")
  case True
  then have "sorted (map key (contents elem arr el_len (unat num) m))"
    by (auto simp: contents_def le_Suc_eq)
  with True show ?thesis by (simp add: sort_gen_eq [OF fit refl])
next
  case False
  then show ?thesis
    using sort_outer_correct [OF fit, of 0 arr m] by (simp add: sort_gen_eq [OF fit refl] sel_inv_def)
qed

end

section \<open>The kernel's callbacks\<close>

lemma far_words:
  assumes "far 24 p q" "i < 3" "j < 3"
  shows "p + 8 * of_nat i \<noteq> q + 8 * of_nat j"
proof
  assume eq: "p + 8 * of_nat i = q + 8 * of_nat j"
  have "i = 0 \<or> i = 1 \<or> i = 2" "j = 0 \<or> j = 1 \<or> j = 2"
    using assms(2,3) by auto
  moreover have "p - q = 8 * of_nat j - 8 * of_nat i" "q - p = 8 * of_nat i - 8 * of_nat j"
    using eq by (simp_all add: algebra_simps)
  ultimately show False
    using assms(1) by (auto simp: far_def)
qed

lemma far_words_neq:
  assumes "far 24 p q"
  shows "p \<noteq> q" "p \<noteq> q + 8" "p \<noteq> q + 16" "p + 8 \<noteq> q" "p + 8 \<noteq> q + 16" "p + 16 \<noteq> q" "p + 16 \<noteq> q + 8"
  using far_words [OF assms, of 0 0] far_words [OF assms, of 0 1] far_words [OF assms, of 0 2]
    far_words [OF assms, of 1 0] far_words [OF assms, of 1 2] far_words [OF assms, of 2 0]
    far_words [OF assms, of 2 1]
  by simp_all

interpretation ksort: sort_callbacks read_KernelSection ks_base sizeof_KernelSection
    kernel_mmap_cmp kernel_mmap_swp
proof
  fix m p q r
  show "(kernel_mmap_cmp m p q < 0) =
      (ks_base (read_KernelSection m q) < ks_base (read_KernelSection m p))"
    by (auto simp: kernel_mmap_cmp_def Let_def)
  assume pq: "far sizeof_KernelSection p q"
  note ne = far_words_neq [OF pq [unfolded sizeof_KernelSection_def]]
  show "read_KernelSection (kernel_mmap_swp p q m) p = read_KernelSection m q"
    by (simp add: kernel_mmap_swp_def read_KernelSection_def write_KernelSection_def Let_def)
  show "read_KernelSection (kernel_mmap_swp p q m) q = read_KernelSection m p"
    using ne by (simp add: kernel_mmap_swp_def read_KernelSection_def write_KernelSection_def Let_def
        not_sym)
  assume r: "far sizeof_KernelSection r p" "far sizeof_KernelSection r q"
  show "read_KernelSection (kernel_mmap_swp p q m) r = read_KernelSection m r"
    using far_words_neq [OF r(1) [unfolded sizeof_KernelSection_def]]
      far_words_neq [OF r(2) [unfolded sizeof_KernelSection_def]]
    by (simp add: kernel_mmap_swp_def read_KernelSection_def write_KernelSection_def Let_def)
qed

interpretation msort: sort_compare read_MMapEntry me_base sizeof_MMapEntry mmap_entry_cmp
  by unfold_locales
    (auto simp: mmap_entry_cmp_def read_MMapEntry_def read_KernelSection_def Let_def)

text \<open>C40: \<open>sort_kernel_section_array\<close> returns, and leaves the array of kernel sections sorted by
  base address and a permutation of what it was.\<close>

theorem sort_kernel_section_array_correct:
  assumes "unat len * 24 < 2 ^ 64"
  shows "\<exists>m'. sort_kernel_section_array arr len m = Some m' \<and>
    mset (contents read_KernelSection arr sizeof_KernelSection (unat len) m') =
      mset (contents read_KernelSection arr sizeof_KernelSection (unat len) m) \<and>
    sorted (map ks_base (contents read_KernelSection arr sizeof_KernelSection (unat len) m'))"
  unfolding sort_kernel_section_array_def
  by (rule ksort.sort_gen_correct) (use assms in \<open>simp add: fits_def sizeof_KernelSection_def\<close>)

text \<open>\<open>sort_mmap_entry_array\<close> leaves a memory map that already is in ascending order alone.\<close>

theorem sort_mmap_entry_array_sorted:
  assumes "unat len * 16 < 2 ^ 64"
    and "sorted (map me_base (contents read_MMapEntry arr sizeof_MMapEntry (unat len) m))"
  shows "sort_mmap_entry_array arr len m = Some m"
  unfolding sort_mmap_entry_array_def
  by (rule msort.sort_gen_sorted) (use assms in \<open>simp_all add: fits_def sizeof_MMapEntry_def\<close>)

text \<open>On three memory map entries in descending order \<open>sort_mmap_entry_array\<close> loses an entry
  and writes behind the array: its swap moves 24 bytes between elements of 16 bytes, so the entry
  after the first one takes its base from the word behind the array, and that word is overwritten.\<close>

theorem sort_mmap_entry_array_corrupts:
  "\<exists>m m'. sort_mmap_entry_array 0x1000 3 m = Some m' \<and>
     contents read_MMapEntry 0x1000 sizeof_MMapEntry 3 m =
       [\<lparr>me_base = 0x300000, me_length = 3\<rparr>, \<lparr>me_base = 0x200000, me_length = 2\<rparr>,
        \<lparr>me_base = 0x100000, me_length = 1\<rparr>] \<and>
     contents read_MMapEntry 0x1000 sizeof_MMapEntry 3 m' =
       [\<lparr>me_base = 0x100000, me_length = 1\<rparr>, \<lparr>me_base = 0x250000, me_length = 2\<rparr>,
        \<lparr>me_base = 0x300000, me_length = 3\<rparr>] \<and>
     m 0x1030 = 0x250000 \<and> m' 0x1030 = 0x200000"
proof -
  define m :: wmem where "m = (\<lambda>_. 0)(0x1000 := 0x300000, 0x1008 := 3, 0x1010 := 0x200000,
      0x1018 := 2, 0x1020 := 0x100000, 0x1028 := 1, 0x1030 := 0x250000)"
  define m' where "m' = mmap_entry_swp 0x1000 0x1020 m"
  have m': "m' 0x1000 = 0x100000" "m' 0x1008 = 1" "m' 0x1010 = 0x250000" "m' 0x1018 = 2"
    "m' 0x1020 = 0x300000" "m' 0x1028 = 3" "m' 0x1030 = 0x200000"
    by (simp_all add: m'_def m_def mmap_entry_swp_def read_KernelSection_def
        write_KernelSection_def Let_def)
  note cmp = mmap_entry_cmp_def read_KernelSection_def
  have "sort_min mmap_entry_cmp 16 m 0x1030 0x1000 0x1010 = Some 0x1020"
    by (simp add: sort_min.simps cmp m_def)
  moreover have "sort_min mmap_entry_cmp 16 m' 0x1030 0x1010 0x1020 = Some 0x1010"
    by (simp add: sort_min.simps cmp m')
  moreover have "sort_outer mmap_entry_cmp mmap_entry_swp 16 0x1020 0x1030 0x1020 m' = Some m'"
    by (simp add: sort_outer.simps)
  ultimately have "sort_mmap_entry_array 0x1000 3 m = Some m'"
    by (simp add: sort_mmap_entry_array_def sort_gen_def sizeof_MMapEntry_def m'_def
        sort_outer.simps [of _ _ _ _ _ "0x1000"] sort_outer.simps [of _ _ _ _ _ "0x1010"])
  moreover have "contents read_MMapEntry 0x1000 sizeof_MMapEntry 3 m =
      [\<lparr>me_base = 0x300000, me_length = 3\<rparr>, \<lparr>me_base = 0x200000, me_length = 2\<rparr>,
       \<lparr>me_base = 0x100000, me_length = 1\<rparr>]"
    by (simp add: contents_def upt_rec slot_def sizeof_MMapEntry_def read_MMapEntry_def m_def)
  moreover have "contents read_MMapEntry 0x1000 sizeof_MMapEntry 3 m' =
      [\<lparr>me_base = 0x100000, me_length = 1\<rparr>, \<lparr>me_base = 0x250000, me_length = 2\<rparr>,
       \<lparr>me_base = 0x300000, me_length = 3\<rparr>]"
    by (simp add: contents_def upt_rec slot_def sizeof_MMapEntry_def read_MMapEntry_def m')
  moreover have "m 0x1030 = 0x250000"
    by (simp add: m_def)
  ultimately show ?thesis
    using m'(7) by blast
qed

theorem sort_kernel_section_array_correct_witness:
  "\<exists>m'. sort_kernel_section_array 0x1000 3 ((\<lambda>_. 0)(0x1000 := 7, 0x1018 := 5)) = Some m' \<and>
     sorted (map ks_base (contents read_KernelSection 0x1000 sizeof_KernelSection 3 m'))"
  using sort_kernel_section_array_correct [of 3 "0x1000" "(\<lambda>_. 0)(0x1000 := 7, 0x1018 := 5)"]
  by auto

theorem sort_mmap_entry_array_sorted_witness:
  "sort_mmap_entry_array 0x1000 2 ((\<lambda>_. 0)(0x1010 := 5)) = Some ((\<lambda>_. 0)(0x1010 := 5))"
  using sort_mmap_entry_array_sorted [of 2 "0x1000" "(\<lambda>_. 0)(0x1010 := 5)"]
  by (simp add: contents_def slot_def read_MMapEntry_def sizeof_MMapEntry_def upt_rec)

end
