(* ===== verification/String_Ops.thy ===== *)
theory String_Ops
  imports Prelude
begin

text \<open>
  The memory and string routines of \<^verbatim>\<open>src/src/string.c\<close> over a byte-addressed memory.

  Loops that stop when a pointer meets another one (\<open>memset\<close>, \<open>memcpy\<close>) end after the distance
  between the two, taken modulo \<open>2 ^ 64\<close>, so they are total functions; \<open>strlen\<close>, \<open>strcpy\<close>
  and \<open>strcmp\<close> look for a terminator and are partial: \<open>None\<close> is the run that never ends. Bytes
  are read as the signed \<open>char\<close> of the x86-64 ABI where the source subtracts them.
\<close>

type_synonym bmem = "addr \<Rightarrow> u8"

section \<open>The routines\<close>

function memset_loop :: "addr \<Rightarrow> addr \<Rightarrow> u8 \<Rightarrow> bmem \<Rightarrow> bmem" where
  "memset_loop cur end c m =
     (if cur = end then m else memset_loop (cur + 1) end c (m(cur := c)))"
  by pat_completeness auto
termination
  by (relation "measure (\<lambda>(cur, end, c, m). unat (end - cur))") (auto simp: word_dist_step)

definition memset :: "addr \<Rightarrow> u32 \<Rightarrow> u64 \<Rightarrow> bmem \<Rightarrow> addr \<times> bmem" where
  "memset dest c n m = (dest, memset_loop dest (dest + n) (ucast c) m)"

function memcpy_loop :: "addr \<Rightarrow> addr \<Rightarrow> addr \<Rightarrow> bmem \<Rightarrow> bmem" where
  "memcpy_loop dcur end scur m =
     (if dcur = end then m else memcpy_loop (dcur + 1) end (scur + 1) (m(dcur := m scur)))"
  by pat_completeness auto
termination
  by (relation "measure (\<lambda>(dcur, end, scur, m). unat (end - dcur))") (auto simp: word_dist_step)

definition memcpy :: "addr \<Rightarrow> addr \<Rightarrow> u64 \<Rightarrow> bmem \<Rightarrow> addr \<times> bmem" where
  "memcpy dest src n m = (dest, memcpy_loop dest (dest + n) src m)"

definition char_diff :: "u8 \<Rightarrow> u8 \<Rightarrow> int" where
  "char_diff a b = sint a - sint b"

function memcmp_loop :: "bmem \<Rightarrow> addr \<Rightarrow> addr \<Rightarrow> u64 \<Rightarrow> u64 \<Rightarrow> int" where
  "memcmp_loop m m1 m2 n cur =
     (if cur < n then
        (if m (m1 + cur) \<noteq> m (m2 + cur) then char_diff (m (m1 + cur)) (m (m2 + cur))
         else memcmp_loop m m1 m2 n (cur + 1))
      else 0)"
  by pat_completeness auto
termination
  by (relation "measure (\<lambda>(m, m1, m2, n, cur). unat (n - cur))")
    (auto simp: intro!: word_dist_step)

definition memcmp :: "bmem \<Rightarrow> addr \<Rightarrow> addr \<Rightarrow> u64 \<Rightarrow> int" where
  "memcmp m m1 m2 n = memcmp_loop m m1 m2 n 0"

partial_function (option) strlen_loop :: "bmem \<Rightarrow> addr \<Rightarrow> u64 \<Rightarrow> u64 option" where
  "strlen_loop m cur cnt =
     (if m cur \<noteq> 0 then strlen_loop m (cur + 1) (cnt + 1) else Some cnt)"

definition strlen :: "bmem \<Rightarrow> addr \<Rightarrow> u64 option" where
  "strlen m s = strlen_loop m s 0"

text \<open>The body of the \<open>do ... while\<close> runs before its test, which looks at the next byte.\<close>

partial_function (option) strcpy_loop :: "addr \<Rightarrow> addr \<Rightarrow> bmem \<Rightarrow> bmem option" where
  "strcpy_loop dcur scur m =
     (let m' = m(dcur := m scur)
      in if m' (scur + 1) \<noteq> 0 then strcpy_loop (dcur + 1) (scur + 1) m' else Some m')"

definition strcpy :: "addr \<Rightarrow> addr \<Rightarrow> bmem \<Rightarrow> (addr \<times> bmem) option" where
  "strcpy dest src m = map_option (\<lambda>m'. (dest, m')) (strcpy_loop dest src m)"

partial_function (option) strcmp :: "bmem \<Rightarrow> addr \<Rightarrow> addr \<Rightarrow> int option" where
  "strcmp m s1 s2 =
     (if m s1 \<noteq> 0 \<and> m s2 \<noteq> 0 then
        (if m s1 \<noteq> m s2 then Some (char_diff (m s1) (m s2)) else strcmp m (s1 + 1) (s2 + 1))
      else if m s1 \<noteq> 0 \<or> m s2 \<noteq> 0 then Some (char_diff (m s1) (m s2))
      else Some 0)"

declare memset_loop.simps [simp del] memcpy_loop.simps [simp del] memcmp_loop.simps [simp del]

section \<open>Numbers in memory\<close>

text \<open>Little-endian numbers of two, four and eight bytes.\<close>

definition load16 :: "addr \<Rightarrow> bmem \<Rightarrow> u16" where
  "load16 a m = ucast (m a) OR push_bit 8 (ucast (m (a + 1)))"

definition store16 :: "addr \<Rightarrow> u16 \<Rightarrow> bmem \<Rightarrow> bmem" where
  "store16 a v m = m(a := ucast v, a + 1 := ucast (drop_bit 8 v))"

definition load32 :: "addr \<Rightarrow> bmem \<Rightarrow> u32" where
  "load32 a m = ucast (load16 a m) OR push_bit 16 (ucast (load16 (a + 2) m))"

definition load64 :: "addr \<Rightarrow> bmem \<Rightarrow> u64" where
  "load64 a m = ucast (load32 a m) OR push_bit 32 (ucast (load32 (a + 4) m))"

section \<open>Strings in memory\<close>

text \<open>\<open>cstr m a bs\<close>: the bytes \<open>bs\<close>, none of them zero, stand at \<open>a\<close> and a terminator follows.\<close>

fun cstr :: "bmem \<Rightarrow> addr \<Rightarrow> u8 list \<Rightarrow> bool" where
  "cstr m a [] = (m a = 0)"
| "cstr m a (b # bs) = (m a = b \<and> b \<noteq> 0 \<and> cstr m (a + 1) bs)"

text \<open>\<open>in_range x a n\<close>: the address \<open>x\<close> is one of the \<open>n\<close> addresses from \<open>a\<close> upwards.\<close>

definition in_range :: "addr \<Rightarrow> addr \<Rightarrow> nat \<Rightarrow> bool" where
  "in_range x a n = (unat (x - a) < n)"

lemma in_range_0 [simp]: "\<not> in_range x a 0"
  by (simp add: in_range_def)

lemma in_range_self [simp]: "in_range a a n \<longleftrightarrow> 0 < n"
  by (simp add: in_range_def)

lemma in_range_step:
  "in_range x a (Suc n) \<longleftrightarrow> x = a \<or> x \<noteq> a \<and> in_range x (a + 1) n"
proof (cases "x = a")
  case False
  then have "0 < unat (x - a)" by (simp add: unat_gt_0)
  with False word_dist_succ [OF False] show ?thesis by (auto simp: in_range_def)
qed simp

lemma unat_dist_Suc: "cur \<noteq> end \<Longrightarrow> unat (end - cur) = Suc (unat (end - (cur + 1 :: u64)))"
  using word_dist_succ [of "end" cur] by (simp add: unat_gt_0)

lemma not_in_range_pred: "n < 2 ^ 64 \<Longrightarrow> \<not> in_range d (d + 1) n"
proof -
  have "unat (d - (d + 1)) = 2 ^ 64 - 1"
    by (simp add: unsigned_minus_1_eq_mask mask_eq_exp_minus_1)
  then show "n < 2 ^ 64 \<Longrightarrow> \<not> in_range d (d + 1) n"
    by (simp add: in_range_def)
qed

lemma memset_loop_spec:
  "memset_loop cur end c m x = (if in_range x cur (unat (end - cur)) then c else m x)"
proof (induction cur "end" c m rule: memset_loop.induct)
  case (1 cur "end" c m)
  then show ?case
    by (cases "cur = end")
      (auto simp: memset_loop.simps [of cur] memset_loop.simps [of "end"] in_range_step
        unat_dist_Suc fun_upd_def)
qed

text \<open>
  A forward copy is exact when the destination does not start inside the part of the source that
  is still to be read; a destination below an overlapping source is fine.
\<close>

lemma memcpy_loop_spec:
  assumes "unat (end - d) \<le> unat (d - s) \<or> d = s"
  shows "memcpy_loop d end s m x =
           (if in_range x d (unat (end - d)) then m (s + (x - d)) else m x)"
  using assms
proof (induction d "end" s m rule: memcpy_loop.induct)
  case (1 d "end" s m)
  show ?case
  proof (cases "d = end")
    case True
    then show ?thesis by (simp add: memcpy_loop.simps)
  next
    case False
    let ?m = "m(d := m s)"
    have n: "unat (end - d) = Suc (unat (end - (d + 1)))"
      using False by (rule unat_dist_Suc)
    have IH: "memcpy_loop (d + 1) end (s + 1) ?m x =
        (if in_range x (d + 1) (unat (end - (d + 1))) then ?m (s + (x - d)) else ?m x)"
      using "1.IH" [OF False] "1.prems" n by (auto simp: algebra_simps fun_upd_def)
    have "?m (s + (x - d)) = m (s + (x - d))" if "in_range x d (unat (end - d))"
    proof (cases "s + (x - d) = d")
      case True
      then have "x - d = d - s" by (simp add: algebra_simps)
      with that "1.prems" True show ?thesis by (auto simp: in_range_def)
    qed simp
    then show ?thesis
      using False IH n not_in_range_pred [of "unat (end - (d + 1))" d]
      by (auto simp: memcpy_loop.simps [of d] in_range_step)
  qed
qed

lemma memcmp_loop_zero:
  "memcmp_loop m p q n cur = 0 \<longleftrightarrow>
     (\<forall>i. cur \<le> i \<and> i < n \<longrightarrow> m (p + i) = m (q + i))"
proof (induction m p q n cur rule: memcmp_loop.induct)
  case (1 m p q n cur)
  have diff: "char_diff (m (p + cur)) (m (q + cur)) = 0 \<longleftrightarrow> m (p + cur) = m (q + cur)"
    by (simp add: char_diff_def)
  have step: "cur \<le> i \<longleftrightarrow> i = cur \<or> cur + 1 \<le> i" if "i < n" "cur < n" for i
    using that unat_succ_less [of cur n]
    by (auto simp: word_le_nat_alt word_less_nat_alt word_unat_eq_iff)
  show ?case
  proof (cases "cur < n")
    case False
    then show ?thesis by (auto simp: memcmp_loop.simps)
  next
    case True
    then show ?thesis
      using 1 diff step by (auto simp: memcmp_loop.simps [of m p q n cur])
  qed
qed

lemma strlen_loop_cstr:
  "cstr m a bs \<Longrightarrow> strlen_loop m a k = Some (k + of_nat (length bs))"
  by (induction bs arbitrary: a k) (simp_all add: strlen_loop.simps algebra_simps)

lemma strlen_cstr: "cstr m a bs \<Longrightarrow> strlen m a = Some (of_nat (length bs))"
  by (simp add: strlen_def strlen_loop_cstr)

lemma strcmp_cstr:
  assumes "cstr m a xs" "cstr m b ys"
  shows "\<exists>r. strcmp m a b = Some r \<and> (r = 0 \<longleftrightarrow> xs = ys)"
  using assms
proof (induction xs arbitrary: a b ys)
  case Nil
  then show ?case
    by (cases ys) (auto simp: strcmp.simps char_diff_def simp flip: sint_eq_iff)
next
  case (Cons x xs)
  show ?case
  proof (cases ys)
    case Nil
    with Cons.prems show ?thesis
      by (auto simp: strcmp.simps char_diff_def simp flip: sint_eq_iff)
  next
    case (Cons y zs)
    with Cons.prems Cons.IH [of "a + 1" "b + 1" zs] show ?thesis
      by (auto simp: strcmp.simps [of m a b] char_diff_def)
  qed
qed

lemma cstr_cong:
  assumes "length bs < 2 ^ 64" "\<And>x. in_range x a (Suc (length bs)) \<Longrightarrow> m' x = m x"
  shows "cstr m' a bs = cstr m a bs"
  using assms
proof (induction bs arbitrary: a)
  case Nil
  then show ?case by simp
next
  case (Cons b bs)
  then have "cstr m' (a + 1) bs = cstr m (a + 1) bs"
    using not_in_range_pred [of "Suc (length bs)" a]
    by (intro Cons.IH) (auto simp: in_range_step [of _ a])
  with Cons.prems(2) [of a] show ?case by simp
qed

text \<open>
  \<open>strcpy\<close> copies the bytes of a non-empty string and stops before its terminator: the byte after
  the copy keeps its old value.
\<close>

lemma strcpy_loop_cstr:
  assumes "cstr m src bs" "bs \<noteq> []" "length bs < 2 ^ 64"
    and "\<And>x. in_range x src (Suc (length bs)) \<Longrightarrow> \<not> in_range x dest (length bs)"
  shows "strcpy_loop dest src m =
    Some (\<lambda>x. if in_range x dest (length bs) then m (src + (x - dest)) else m x)"
  using assms
proof (induction bs arbitrary: dest src m)
  case Nil
  then show ?case by simp
next
  case (Cons b bs)
  let ?m = "m(dest := m src)"
  have far: "dest \<noteq> src + 1" "\<not> in_range dest (src + 1) (Suc (length bs))"
    using Cons.prems(4) [of dest] by (auto simp: in_range_step [of dest src])
  show ?case
  proof (cases "bs = []")
    case True
    with Cons.prems far show ?thesis
      by (subst strcpy_loop.simps) (auto simp: fun_eq_iff in_range_def unat_eq_zero)
  next
    case False
    have c: "cstr ?m (src + 1) bs"
      using Cons.prems far
      by (subst cstr_cong [of _ _ _ m]) auto
    have sep: "\<not> in_range x (dest + 1) (length bs)" if "in_range x (src + 1) (Suc (length bs))" for x
      using Cons.prems(3) Cons.prems(4) [of x] that not_in_range_pred [of "Suc (length bs)" src]
      by (auto simp: in_range_step [of x src] in_range_step [of x dest])
    have "strcpy_loop (dest + 1) (src + 1) ?m =
        Some (\<lambda>x. if in_range x (dest + 1) (length bs) then ?m (src + 1 + (x - (dest + 1))) else ?m x)"
      using Cons.prems(3) by (intro Cons.IH [OF c False _ sep]) auto
    moreover have "?m (src + 1) \<noteq> 0"
      using Cons.prems(1) False far by (cases bs) auto
    moreover have "src + (x - dest) \<noteq> dest" if "in_range x dest (Suc (length bs))" for x
    proof
      assume "src + (x - dest) = dest"
      then have "x - dest = dest - src" by (simp add: algebra_simps)
      with Cons.prems(4) [of dest] that show False by (auto simp: in_range_def)
    qed
    ultimately show ?thesis
      using not_in_range_pred [of "length bs" dest] Cons.prems(3)
      by (subst strcpy_loop.simps) (auto simp: Let_def fun_eq_iff in_range_step)
  qed
qed

section \<open>What the routines do\<close>

text \<open>\<open>memset\<close> returns its destination and sets exactly the \<open>n\<close> bytes from it to the low
  byte of \<open>c\<close>; every other byte of memory keeps its value, also when the range wraps around.\<close>

theorem memset_spec:
  "memset dest c n m = (dest, \<lambda>x. if in_range x dest (unat n) then ucast c else m x)"
  by (auto simp: memset_def memset_loop_spec fun_eq_iff)

text \<open>\<open>memcpy\<close> is a faithful forward copy, also between overlapping ranges, whenever the
  destination does not start inside the source behind its first byte (in particular whenever the
  destination lies below the source, as the screen's scrolling has it).\<close>

theorem memcpy_spec:
  assumes "unat n \<le> unat (dest - src) \<or> dest = src"
  shows "memcpy dest src n m =
    (dest, \<lambda>x. if in_range x dest (unat n) then m (src + (x - dest)) else m x)"
  using assms memcpy_loop_spec [of "dest + n" dest src m]
  by (auto simp: memcpy_def fun_eq_iff)

text \<open>On two terminated strings \<open>strcmp\<close> returns, and it returns 0 exactly when the
  strings are equal. Device and file lookup by name rests on this.\<close>

theorem strcmp_spec:
  assumes "cstr m a xs" "cstr m b ys"
  shows "\<exists>r. strcmp m a b = Some r \<and> (r = 0 \<longleftrightarrow> xs = ys)"
  using assms by (rule strcmp_cstr)

text \<open>On a non-empty string that does not overlap the destination, \<open>strcpy\<close> copies the
  bytes of the string but not its terminator: the byte behind the copy is what it was.\<close>

theorem strcpy_spec:
  assumes "cstr m src bs" "bs \<noteq> []" "length bs < 2 ^ 64"
    and "\<And>x. in_range x src (Suc (length bs)) \<Longrightarrow> \<not> in_range x dest (length bs)"
  shows "strcpy dest src m =
    Some (dest, \<lambda>x. if in_range x dest (length bs) then m (src + (x - dest)) else m x)"
  by (simp add: strcpy_def strcpy_loop_cstr [OF assms])

text \<open>Example memories for the properties above.\<close>

definition str_example :: bmem where
  "str_example = (\<lambda>_. 0)(0x10 := 0x61, 0x11 := 0x62, 0x20 := 0x61, 0x21 := 0x63)"

lemma str_example_cstr: "cstr str_example 0x10 [0x61, 0x62]" "cstr str_example 0x20 [0x61, 0x63]"
  by (simp_all add: str_example_def)

theorem memcpy_spec_witness: "snd (memcpy 0x0F 0x10 2 str_example) 0x10 = 0x62"
  using memcpy_spec [of 2 "0x0F" "0x10" str_example]
  by (simp add: unsigned_minus_1_eq_mask mask_eq_exp_minus_1 in_range_def str_example_def)

theorem strcmp_spec_witness: "\<exists>r. strcmp str_example 0x10 0x20 = Some r \<and> r \<noteq> 0"
  using strcmp_spec [OF str_example_cstr] by simp

theorem strcpy_spec_witness:
  "\<exists>m'. strcpy 0x40 0x10 (str_example(0x42 := 0x7A)) = Some (0x40, m') \<and> m' 0x41 = 0x62 \<and> m' 0x42 = 0x7A"
proof -
  have c: "cstr (str_example(0x42 := 0x7A)) 0x10 [0x61, 0x62]"
    by (simp add: str_example_def)
  have s: "\<not> in_range x 0x40 2" if "in_range x 0x10 3" for x
  proof -
    define d where "d = x - 0x10"
    have "x - 0x40 = d - 0x30" "unat d < 3"
      using that by (simp_all add: d_def in_range_def)
    then show ?thesis
      by (simp add: in_range_def unat_sub_if')
  qed
  have "strcpy 0x40 0x10 (str_example(0x42 := 0x7A)) = Some (0x40, \<lambda>x.
      if in_range x 0x40 (length [0x61 :: u8, 0x62]) then (str_example(0x42 := 0x7A)) (0x10 + (x - 0x40))
      else (str_example(0x42 := 0x7A)) x)"
  proof (rule strcpy_spec [OF c])
    fix x :: addr
    assume "in_range x 0x10 (Suc (length [0x61 :: u8, 0x62]))"
    then show "\<not> in_range x 0x40 (length [0x61 :: u8, 0x62])"
      using s [of x] by (simp add: in_range_def)
  qed simp_all
  then show ?thesis
    by (simp add: in_range_def) (simp add: str_example_def)
qed

end
