(* ===== verification/Kernel_Base.thy ===== *)
theory Kernel_Base
  imports Prelude
begin

text \<open>
  What every part of the kernel reaches: the log (\<^verbatim>\<open>src/src/klog.h\<close>), port I/O
  (\<^verbatim>\<open>arch/x86_64/io.h\<close>), atomic counters (\<^verbatim>\<open>arch/x86_64/atomic.c\<close>), the interrupt flag
  and the handler table. The record \<open>kbase\<close> holds that state; the records of the other
  components extend it, so an operation defined here applies to all of them.

  The hardware behind the ports is not part of the repository. It is a parameter: a
  \<open>device\<close> says what a port read returns and how reads and writes change the state \<open>'d\<close> of the
  hardware, and every operation that does port I/O takes it as an argument.

  \<open>klog\<close> is recorded as the sequence of messages that pass the level filter, each with its level,
  its format string and its integer or pointer arguments.
\<close>

section \<open>The log\<close>

definition KLOG_LEVEL_DEBUG :: nat where "KLOG_LEVEL_DEBUG = 1"
definition KLOG_LEVEL_INFO :: nat where "KLOG_LEVEL_INFO = 3"
definition KLOG_LEVEL_WARN :: nat where "KLOG_LEVEL_WARN = 7"
definition KLOG_LEVEL_ERR :: nat where "KLOG_LEVEL_ERR = 9"
definition KLOG_LEVEL_CRIT :: nat where "KLOG_LEVEL_CRIT = 11"
definition KLOG_LEVEL_EMERG :: nat where "KLOG_LEVEL_EMERG = 13"
definition KLOG_MIN_LOG_LEVEL :: nat where "KLOG_MIN_LOG_LEVEL = KLOG_LEVEL_DEBUG"

lemmas klog_levels = KLOG_LEVEL_DEBUG_def KLOG_LEVEL_INFO_def KLOG_LEVEL_WARN_def
  KLOG_LEVEL_ERR_def KLOG_LEVEL_CRIT_def KLOG_LEVEL_EMERG_def KLOG_MIN_LOG_LEVEL_def

type_synonym klog_entry = "nat \<times> string \<times> u64 list"

section \<open>The state\<close>

text \<open>The interrupt handlers the kernel installs, by the name of their function.\<close>

datatype irq_handler = Page_fault_handler | IRQ_syscall_handler | X86_serial_isr | Ps2_isr | Ata_isr

record IRQHandler =
  handler :: "irq_handler option"
  arg :: addr

record 'd kbase =
  irq_semaphore :: u32
  int_flag :: bool
  handlers :: "IRQHandler list"
  klogs :: "klog_entry list"
  devst :: 'd

definition klog :: "nat \<Rightarrow> string \<Rightarrow> u64 list \<Rightarrow> ('d, 'a) kbase_scheme \<Rightarrow> ('d, 'a) kbase_scheme" where
  "klog level fmt args s =
     (if level > KLOG_MIN_LOG_LEVEL then s\<lparr>klogs := klogs s @ [(level, fmt, args)]\<rparr> else s)"

section \<open>Port I/O\<close>

text \<open>Port, width in bits, and for a write the value.\<close>

record 'd device =
  dev_in :: "u16 \<Rightarrow> nat \<Rightarrow> 'd \<Rightarrow> u32 \<times> 'd"
  dev_out :: "u16 \<Rightarrow> nat \<Rightarrow> u32 \<Rightarrow> 'd \<Rightarrow> 'd"

definition outb :: "'d device \<Rightarrow> u16 \<Rightarrow> u8 \<Rightarrow> ('d, 'a) kbase_scheme \<Rightarrow> ('d, 'a) kbase_scheme" where
  "outb dev port val s = s\<lparr>devst := dev_out dev port 8 (ucast val) (devst s)\<rparr>"

definition inb :: "'d device \<Rightarrow> u16 \<Rightarrow> ('d, 'a) kbase_scheme \<Rightarrow> u8 \<times> ('d, 'a) kbase_scheme" where
  "inb dev port s = (let (v, d) = dev_in dev port 8 (devst s) in (ucast v, s\<lparr>devst := d\<rparr>))"

definition outw :: "'d device \<Rightarrow> u16 \<Rightarrow> u16 \<Rightarrow> ('d, 'a) kbase_scheme \<Rightarrow> ('d, 'a) kbase_scheme" where
  "outw dev port val s = s\<lparr>devst := dev_out dev port 16 (ucast val) (devst s)\<rparr>"

definition inw :: "'d device \<Rightarrow> u16 \<Rightarrow> ('d, 'a) kbase_scheme \<Rightarrow> u16 \<times> ('d, 'a) kbase_scheme" where
  "inw dev port s = (let (v, d) = dev_in dev port 16 (devst s) in (ucast v, s\<lparr>devst := d\<rparr>))"

definition outl :: "'d device \<Rightarrow> u16 \<Rightarrow> u32 \<Rightarrow> ('d, 'a) kbase_scheme \<Rightarrow> ('d, 'a) kbase_scheme" where
  "outl dev port val s = s\<lparr>devst := dev_out dev port 32 val (devst s)\<rparr>"

definition inl :: "'d device \<Rightarrow> u16 \<Rightarrow> ('d, 'a) kbase_scheme \<Rightarrow> u32 \<times> ('d, 'a) kbase_scheme" where
  "inl dev port s = (let (v, d) = dev_in dev port 32 (devst s) in (v, s\<lparr>devst := d\<rparr>))"

section \<open>Atomic counters\<close>

definition atomic_add :: "u32 \<Rightarrow> u32 \<Rightarrow> u32" where
  "atomic_add mem add = mem + add"

definition atomic_sub :: "u32 \<Rightarrow> u32 \<Rightarrow> u32" where
  "atomic_sub mem sub = mem - sub"

definition atomic_get :: "u32 \<Rightarrow> u32" where
  "atomic_get mem = mem"

section \<open>Frame facts\<close>

lemma klog_frame [simp]:
  "irq_semaphore (klog l f a s) = irq_semaphore s" "int_flag (klog l f a s) = int_flag s"
  "handlers (klog l f a s) = handlers s" "devst (klog l f a s) = devst s"
  "kbase.more (klog l f a s) = kbase.more s"
  by (simp_all add: klog_def)

end
