(* ===== verification/Interrupts.thy ===== *)
theory Interrupts
  imports Kernel_Base
begin

text \<open>
  \<^verbatim>\<open>arch/x86_64/interrupts.c\<close> up to the common interrupt entry: the masks and end-of-interrupt
  commands of the two cascaded interrupt controllers, the handler table, and the nesting counter
  \<open>irq_semaphore\<close> that \<open>IRQ_disable\<close> and \<open>IRQ_enable\<close> keep around the processor's interrupt flag.
  The entry itself, \<open>IRQ_generic_isr\<close>, switches processes and is in the theory of the scheduler.

  A handler number of 256 passes the check of \<open>IRQ_set_handler\<close> and writes behind the table of 256
  entries; that undefined write is the result \<open>None\<close>.
\<close>

section \<open>Interrupt controllers\<close>

definition PIC_MASTER_COMMAND :: u16 where "PIC_MASTER_COMMAND = 0x20"
definition PIC_MASTER_DATA :: u16 where "PIC_MASTER_DATA = 0x21"
definition PIC_SLAVE_COMMAND :: u16 where "PIC_SLAVE_COMMAND = 0xA0"
definition PIC_SLAVE_DATA :: u16 where "PIC_SLAVE_DATA = 0xA1"
definition PIC_EOI :: u8 where "PIC_EOI = 0x20"
definition PIC_MASTER_REMAP_BASE :: int where "PIC_MASTER_REMAP_BASE = 0x20"
definition PIC_SLAVE_REMAP_BASE :: int where "PIC_SLAVE_REMAP_BASE = 0x28"

lemmas pic_consts = PIC_MASTER_COMMAND_def PIC_MASTER_DATA_def PIC_SLAVE_COMMAND_def
  PIC_SLAVE_DATA_def PIC_EOI_def PIC_MASTER_REMAP_BASE_def PIC_SLAVE_REMAP_BASE_def

definition SYSCALL_TRAP_NUMBER :: nat where "SYSCALL_TRAP_NUMBER = 123"
definition PAGE_FAULT_IRQ :: nat where "PAGE_FAULT_IRQ = 0xE"

definition PIC_sendEOI :: "'d device \<Rightarrow> u8 \<Rightarrow> ('d, 'a) kbase_scheme \<Rightarrow> ('d, 'a) kbase_scheme" where
  "PIC_sendEOI dev irq s =
     outb dev PIC_MASTER_COMMAND PIC_EOI
       (if irq \<ge> 8 then outb dev PIC_SLAVE_COMMAND PIC_EOI s else s)"

text \<open>The port of a line and the bit \<open>1 << IRQline\<close> of the source, cut to the 8 bits of
  \<open>value\<close>; a shift count above 31 is taken modulo 32, as the shift instruction does.\<close>

definition irq_port :: "int \<Rightarrow> u16 \<times> int" where
  "irq_port IRQline = (if IRQline < 8 then (PIC_MASTER_DATA, IRQline)
     else (PIC_SLAVE_DATA, IRQline - 8))"

definition irq_bit :: "int \<Rightarrow> u8" where
  "irq_bit IRQline = ucast (push_bit (nat (IRQline mod 32)) (1 :: u32))"

definition IRQ_set_mask :: "'d device \<Rightarrow> u8 \<Rightarrow> ('d, 'a) kbase_scheme \<Rightarrow> ('d, 'a) kbase_scheme" where
  "IRQ_set_mask dev irq s =
     (let IRQline = uint irq - PIC_MASTER_REMAP_BASE
      in if IRQline < 0 \<or> IRQline > 0x2F
         then klog KLOG_LEVEL_ERR ''masking not supported on irq %d'' [ucast irq] s
         else let (port, line) = irq_port IRQline;
                  (v, s') = inb dev port s
              in outb dev port (v OR irq_bit line) s')"

definition IRQ_clear_mask :: "'d device \<Rightarrow> u8 \<Rightarrow> ('d, 'a) kbase_scheme \<Rightarrow> ('d, 'a) kbase_scheme" where
  "IRQ_clear_mask dev irq s =
     (let IRQline = uint irq - PIC_MASTER_REMAP_BASE
      in if IRQline < 0 \<or> IRQline > 0x2F
         then klog KLOG_LEVEL_ERR ''masking not supported on irq %d'' [ucast irq] s
         else let (port, line) = irq_port IRQline;
                  (v, s') = inb dev port s
              in outb dev port (v AND NOT (irq_bit line)) s')"

definition IRQ_end_of_interrupt :: "'d device \<Rightarrow> u8 \<Rightarrow> ('d, 'a) kbase_scheme \<Rightarrow> ('d, 'a) kbase_scheme" where
  "IRQ_end_of_interrupt dev irq s =
     (let IRQline = uint irq - PIC_MASTER_REMAP_BASE
      in if IRQline < 0 \<or> IRQline > 0x2F
         then klog KLOG_LEVEL_ERR ''end of interrupt not supported on irq %d'' [ucast irq] s
         else PIC_sendEOI dev (word_of_int IRQline) s)"

fun mask_lines :: "'d device \<Rightarrow> nat list \<Rightarrow> ('d, 'a) kbase_scheme \<Rightarrow> ('d, 'a) kbase_scheme" where
  "mask_lines dev [] s = s"
| "mask_lines dev (i # is) s =
     mask_lines dev is
       (if i \<noteq> 2 then IRQ_set_mask dev (of_nat i + word_of_int PIC_MASTER_REMAP_BASE) s else s)"

definition PIC_init :: "'d device \<Rightarrow> ('d, 'a) kbase_scheme \<Rightarrow> ('d, 'a) kbase_scheme" where
  "PIC_init dev s =
     (let (a1, s) = inb dev PIC_MASTER_DATA s;
          (a2, s) = inb dev PIC_SLAVE_DATA s;
          s = outb dev PIC_MASTER_COMMAND (0x10 OR 0x01) s;
          s = outb dev PIC_SLAVE_COMMAND (0x10 OR 0x01) s;
          s = outb dev PIC_MASTER_DATA (word_of_int PIC_MASTER_REMAP_BASE) s;
          s = outb dev PIC_SLAVE_DATA (word_of_int PIC_SLAVE_REMAP_BASE) s;
          s = outb dev PIC_MASTER_DATA 4 s;
          s = outb dev PIC_SLAVE_DATA 2 s;
          s = outb dev PIC_MASTER_DATA 0x01 s;
          s = outb dev PIC_SLAVE_DATA 0x01 s;
          s = outb dev PIC_MASTER_DATA a1 s;
          s = outb dev PIC_SLAVE_DATA a2 s
      in mask_lines dev [0..<16] s)"

section \<open>Enabling and disabling\<close>

definition IRQ_enable :: "('d, 'a) kbase_scheme \<Rightarrow> ('d, 'a) kbase_scheme" where
  "IRQ_enable s =
     (if atomic_get (irq_semaphore s) = 0 then s
      else let s1 = s\<lparr>irq_semaphore := atomic_sub (irq_semaphore s) 1\<rparr>
           in if atomic_get (irq_semaphore s1) = 0 then s1\<lparr>int_flag := True\<rparr> else s1)"

definition IRQ_disable :: "('d, 'a) kbase_scheme \<Rightarrow> ('d, 'a) kbase_scheme" where
  "IRQ_disable s =
     (let s1 = (if atomic_get (irq_semaphore s) = 0 then s\<lparr>int_flag := False\<rparr> else s)
      in s1\<lparr>irq_semaphore := atomic_add (irq_semaphore s1) 1\<rparr>)"

section \<open>Handlers\<close>

definition IRQ_set_handler ::
  "int \<Rightarrow> irq_handler option \<Rightarrow> addr \<Rightarrow> ('d, 'a) kbase_scheme \<Rightarrow> ('d, 'a) kbase_scheme option" where
  "IRQ_set_handler irq h a s =
     (if irq > 256 \<or> irq < 0
      then Some (klog KLOG_LEVEL_WARN ''cannot setup interrupt handler on irq %d'' [word_of_int irq] s)
      else if nat irq < length (handlers s)
      then Some (s\<lparr>handlers := (handlers s)[nat irq := \<lparr>handler = h, arg = a\<rparr>]\<rparr>)
      else None)"

text \<open>\<open>IDT_init\<close> is generated by \<^verbatim>\<open>scripts/idt_gen.py\<close> when the kernel is built and is a parameter.\<close>

definition IRQ_x86_64_init ::
  "'d device \<Rightarrow> (('d, 'a) kbase_scheme \<Rightarrow> ('d, 'a) kbase_scheme) \<Rightarrow> ('d, 'a) kbase_scheme
     \<Rightarrow> ('d, 'a) kbase_scheme option" where
  "IRQ_x86_64_init dev IDT_init s =
     (let s = s\<lparr>handlers := replicate 256 \<lparr>handler = None, arg = NULL\<rparr>\<rparr>;
          s = PIC_init dev s;
          s = IDT_init s;
          s = s\<lparr>irq_semaphore := 0\<rparr>
      in Option.bind (IRQ_set_handler (int SYSCALL_TRAP_NUMBER) (Some IRQ_syscall_handler) NULL s)
           (\<lambda>s. Some (s\<lparr>int_flag := True\<rparr>)))"

section \<open>Nesting\<close>

text \<open>The counter and the flag agree: interrupts are on exactly when nobody has them disabled.\<close>

definition irq_ok :: "('d, 'a) kbase_scheme \<Rightarrow> bool" where
  "irq_ok s = (int_flag s \<longleftrightarrow> irq_semaphore s = 0)"

lemma IRQ_disable_frame [simp]:
  "handlers (IRQ_disable s) = handlers s" "klogs (IRQ_disable s) = klogs s"
  "devst (IRQ_disable s) = devst s" "kbase.more (IRQ_disable s) = kbase.more s"
  "irq_semaphore (IRQ_disable s) = irq_semaphore s + 1"
  by (simp_all add: IRQ_disable_def atomic_add_def Let_def)

lemma IRQ_enable_frame [simp]:
  "handlers (IRQ_enable s) = handlers s" "klogs (IRQ_enable s) = klogs s"
  "devst (IRQ_enable s) = devst s" "kbase.more (IRQ_enable s) = kbase.more s"
  by (simp_all add: IRQ_enable_def Let_def)

lemma IRQ_disable_enable [simp]:
  assumes "irq_ok s" "irq_semaphore s + 1 \<noteq> 0"
  shows "IRQ_enable (IRQ_disable s) = s"
  using assms
  by (cases s) (auto simp: IRQ_enable_def IRQ_disable_def irq_ok_def atomic_get_def atomic_add_def
      atomic_sub_def Let_def)

lemma IRQ_disable_ok [simp]: "irq_semaphore s + 1 \<noteq> 0 \<Longrightarrow> irq_ok s \<Longrightarrow> irq_ok (IRQ_disable s)"
  by (auto simp: irq_ok_def IRQ_disable_def atomic_get_def atomic_add_def Let_def)

lemma IRQ_enable_ok [simp]: "irq_ok s \<Longrightarrow> irq_ok (IRQ_enable s)"
  by (auto simp: irq_ok_def IRQ_enable_def atomic_get_def atomic_sub_def Let_def)

lemma IRQ_disable_pow:
  assumes "irq_ok s" "unat (irq_semaphore s) + n < 2 ^ 32"
  shows "irq_ok ((IRQ_disable ^^ n) s)"
    and "unat (irq_semaphore ((IRQ_disable ^^ n) s)) = unat (irq_semaphore s) + n"
  using assms(2)
proof (induction n)
  case 0
  { case 1 from assms(1) show ?case by simp }
  { case 2 show ?case by simp }
next
  case (Suc n)
  let ?t = "(IRQ_disable ^^ n) s"
  { case 1
    then have "unat (irq_semaphore ?t + 1) = unat (irq_semaphore s) + Suc n"
      using Suc by (simp add: unat_word_ariths)
    then have "irq_semaphore ?t + 1 \<noteq> 0"
      by (metis add_Suc_right nat.distinct(1) unat_0)
    with Suc 1 show ?case by simp }
  { case 2
    then show ?case using Suc by (simp add: unat_word_ariths) }
qed

text \<open>Leaving \<open>k\<close> of \<open>n\<close> nested critical sections is being inside \<open>n - k\<close> of them.\<close>

lemma IRQ_enable_pow:
  assumes "irq_ok s" "unat (irq_semaphore s) + n < 2 ^ 32" "k \<le> n"
  shows "(IRQ_enable ^^ k) ((IRQ_disable ^^ n) s) = (IRQ_disable ^^ (n - k)) s"
  using assms(3)
proof (induction k)
  case 0
  then show ?case by simp
next
  case (Suc k)
  let ?t = "(IRQ_disable ^^ (n - Suc k)) s"
  have n: "n - k = Suc (n - Suc k)" and lt: "unat (irq_semaphore s) + (n - Suc k) < 2 ^ 32"
    using Suc.prems assms(2) by auto
  have "irq_ok ?t" "unat (irq_semaphore ?t) = unat (irq_semaphore s) + (n - Suc k)"
    using IRQ_disable_pow [OF assms(1) lt] by auto
  moreover from this(2) have "irq_semaphore ?t + 1 \<noteq> 0"
    using Suc.prems assms(2) by (auto simp: word_unat_eq_iff unat_word_ariths)
  ultimately show ?case
    using Suc n by simp
qed

section \<open>What the interrupt code guarantees\<close>

text \<open>C38: critical sections nest. After \<open>n\<close> calls of \<open>IRQ_disable\<close> the interrupt flag stays off
  until the last of \<open>n\<close> calls of \<open>IRQ_enable\<close>, which restores the state there was before.\<close>

theorem irq_nesting:
  assumes "irq_ok s" "unat (irq_semaphore s) + n < 2 ^ 32"
  shows "(IRQ_enable ^^ n) ((IRQ_disable ^^ n) s) = s \<and>
    (\<forall>k<n. \<not> int_flag ((IRQ_enable ^^ k) ((IRQ_disable ^^ n) s)))"
proof (intro conjI allI impI)
  show "(IRQ_enable ^^ n) ((IRQ_disable ^^ n) s) = s"
    using IRQ_enable_pow [OF assms, of n] by simp
  fix k assume "k < n"
  then have lt: "unat (irq_semaphore s) + (n - k) < 2 ^ 32" and pos: "0 < n - k"
    using assms(2) by auto
  show "\<not> int_flag ((IRQ_enable ^^ k) ((IRQ_disable ^^ n) s))"
    using IRQ_disable_pow [OF assms(1) lt] pos \<open>k < n\<close> IRQ_enable_pow [OF assms, of k]
    by (auto simp: irq_ok_def)
qed

text \<open>
  The mask register of an interrupt controller, as its data port shows it outside of
  initialisation: a read returns the mask last written to that port and changes nothing.
\<close>

definition mask_register :: "'d device \<Rightarrow> (u16 \<Rightarrow> 'd \<Rightarrow> u8) \<Rightarrow> bool" where
  "mask_register dev imr \<longleftrightarrow>
     (\<forall>p \<in> {PIC_MASTER_DATA, PIC_SLAVE_DATA}. \<forall>d v q.
        dev_in dev p 8 d = (ucast (imr p d), d) \<and>
        imr q (dev_out dev p 8 v d) = (if q = p then ucast v else imr q d))"

lemma mask_registerD:
  assumes "mask_register dev imr" "p \<in> {PIC_MASTER_DATA, PIC_SLAVE_DATA}"
  shows "dev_in dev p 8 d = (ucast (imr p d), d)"
    and "imr q (dev_out dev p 8 v d) = (if q = p then ucast v else imr q d)"
  using assms by (auto simp: mask_register_def)

text \<open>The sixteen lines the controllers have, as interrupt numbers \<open>0x20\<close> to \<open>0x2F\<close>.\<close>

definition line_port :: "nat \<Rightarrow> u16" where
  "line_port i = (if i < 8 then PIC_MASTER_DATA else PIC_SLAVE_DATA)"

lemma irq_port_line:
  "i < 16 \<Longrightarrow> irq_port (int i) = (line_port i, int (i mod 8))"
  by (auto simp: irq_port_def line_port_def nat_less_iff) presburger

lemma bit_irq_bit: "i < 16 \<Longrightarrow> bit (irq_bit (int (i mod 8))) j \<longleftrightarrow> j = i mod 8"
proof -
  have "i mod 8 < 8" "int (i mod 8) mod 32 = int (i mod 8)" by simp_all
  then show ?thesis
    by (auto simp: irq_bit_def bit_ucast_iff bit_push_bit_iff bit_1_iff bit_exp_iff)
qed

lemma uint_line:
  assumes "i < 16"
  shows "uint (0x20 + of_nat i :: u8) = 0x20 + int i"
proof -
  have "unat (0x20 + of_nat i :: u8) = 0x20 + i"
    using assms by (simp add: unat_word_ariths unat_of_nat)
  then have "int (unat (0x20 + of_nat i :: u8)) = int (0x20 + i)"
    by (rule arg_cong)
  then show ?thesis
    by (simp only: of_nat_unat of_nat_add of_nat_numeral)
qed

lemma IRQ_mask_devst:
  assumes "mask_register dev imr" "i < 16"
  shows "devst (IRQ_set_mask dev (0x20 + of_nat i) s) =
      dev_out dev (line_port i) 8 (ucast (imr (line_port i) (devst s) OR irq_bit (int (i mod 8)))) (devst s)"
    and "devst (IRQ_clear_mask dev (0x20 + of_nat i) s) =
      dev_out dev (line_port i) 8
        (ucast (imr (line_port i) (devst s) AND NOT (irq_bit (int (i mod 8))))) (devst s)"
  using assms mask_registerD(1) [OF assms(1), of "line_port i" "devst s"]
  by (simp_all add: IRQ_set_mask_def IRQ_clear_mask_def uint_line irq_port_line
      PIC_MASTER_REMAP_BASE_def inb_def outb_def line_port_def Let_def)

text \<open>On controllers whose data port shows the mask register, \<open>IRQ_set_mask\<close> and
  \<open>IRQ_clear_mask\<close> of one of the sixteen lines change the mask bit of that line, on the right
  controller, and of no other line.\<close>

theorem irq_mask_exact:
  assumes "mask_register dev imr" "i < 16" "j < 16"
  shows "(bit (imr (line_port j) (devst (IRQ_set_mask dev (0x20 + of_nat i) s))) (j mod 8) \<longleftrightarrow>
            j = i \<or> bit (imr (line_port j) (devst s)) (j mod 8)) \<and>
         (bit (imr (line_port j) (devst (IRQ_clear_mask dev (0x20 + of_nat i) s))) (j mod 8) \<longleftrightarrow>
            j \<noteq> i \<and> bit (imr (line_port j) (devst s)) (j mod 8))"
proof -
  have mod8: "k mod 8 = (if k < 8 then k else k - 8)" if "k < 16" for k :: nat
    using that by (simp add: mod_if)
  have "line_port j = line_port i \<longleftrightarrow> (j < 8 \<longleftrightarrow> i < 8)"
    by (simp add: line_port_def pic_consts)
  then have eq: "line_port j = line_port i \<Longrightarrow> j mod 8 = i mod 8 \<longleftrightarrow> j = i"
    using assms(2,3) by (auto simp: mod8)
  have "line_port i \<in> {PIC_MASTER_DATA, PIC_SLAVE_DATA}"
    by (simp add: line_port_def)
  note upd = mask_registerD(2) [OF assms(1) this]
  have "j mod 8 < 8" by simp
  show ?thesis
  proof (cases "line_port j = line_port i")
    case True
    with eq \<open>j mod 8 < 8\<close> show ?thesis
      by (auto simp: IRQ_mask_devst [OF assms(1,2)] upd bit_or_iff bit_and_iff bit_not_iff
          bit_irq_bit [OF assms(2)])
  next
    case False
    then show ?thesis
      by (auto simp: IRQ_mask_devst [OF assms(1,2)] upd)
  qed
qed

definition kbase_example :: "(u16 \<Rightarrow> u8) kbase" where
  "kbase_example = \<lparr>irq_semaphore = 0, int_flag = True, handlers = [], klogs = [], devst = (\<lambda>_. 0)\<rparr>"

definition pic_example :: "(u16 \<Rightarrow> u8) device" where
  "pic_example = \<lparr>dev_in = (\<lambda>p w d. (ucast (d p), d)), dev_out = (\<lambda>p w v d. d(p := ucast v))\<rparr>"

theorem irq_nesting_witness:
  "irq_ok kbase_example \<and> (IRQ_enable ^^ 3) ((IRQ_disable ^^ 3) kbase_example) = kbase_example"
  using irq_nesting [of kbase_example 3] by (simp add: irq_ok_def kbase_example_def)

theorem irq_mask_exact_witness:
  "bit (devst (IRQ_set_mask pic_example 0x2C kbase_example) PIC_SLAVE_DATA) 4"
proof -
  have "mask_register pic_example (\<lambda>p d. d p)"
    by (auto simp: mask_register_def pic_example_def)
  then show ?thesis
    using irq_mask_exact [of pic_example "\<lambda>p d. d p" 12 12 kbase_example]
    by (simp add: line_port_def)
qed

end
