(* ===== verification/Frames.thy ===== *)
theory Frames
  imports Interrupts
begin

text \<open>
  The physical frame allocator of \<^verbatim>\<open>src/src/mmu.c\<close>: \<open>MMU_alloc_frame\<close> and \<open>MMU_free_frame\<close> over
  the memory-management state that the paging, virtual memory and heap theories share.

  Frames that were never used lie in \<open>free_segments\<close>, an array of segments chained by pointers into
  the array (modelled as indices); frames that came back lie on a chain that runs through the first
  word of the free frames themselves. Physical memory is identity-mapped for the kernel and is a
  function from the address of a 64-bit word to its value; all accesses of this layer are to
  aligned 64-bit words.

  The abstraction is one sequence of free frames: allocation takes its head, freeing appends to
  its end. The locale \<open>frame_pool\<close> is that contract.
\<close>

section \<open>State\<close>

record Segment =
  s_base :: addr
  s_end :: addr
  s_len :: u64

record SegmentList =
  sl_next :: "nat option"
  sl_s :: Segment

record 'd mm = "'d kbase" +
  free_segments :: "SegmentList list"
  free_segment_head :: "nat option"
  free_page_head :: addr
  free_page_tail :: addr
  page_table :: addr
  next_kernel_heap_vaddr :: addr
  next_kernel_thread_stack_vaddr :: addr
  pmem :: "addr \<Rightarrow> u64"
  cr2 :: addr
  cr3 :: addr
  identity_p3 :: addr
  identity_p2 :: addr

section \<open>Operations\<close>

definition MMU_alloc_frame :: "('d, 'a) mm_scheme \<Rightarrow> addr \<times> ('d, 'a) mm_scheme" where
  "MMU_alloc_frame s =
     (case free_segment_head s of
        Some i \<Rightarrow>
          let n = free_segments s ! i;
              ret = s_base (sl_s n);
              seg = (sl_s n)\<lparr>s_base := ret + PAGE_SIZE, s_len := s_len (sl_s n) - PAGE_SIZE\<rparr>;
              s1 = s\<lparr>free_segments := (free_segments s)[i := n\<lparr>sl_s := seg\<rparr>]\<rparr>
          in (ret, if s_len seg = 0 then s1\<lparr>free_segment_head := sl_next n\<rparr> else s1)
      | None \<Rightarrow>
          if free_page_head s = NULL then (NULL, s)
          else (free_page_head s, s\<lparr>free_page_head := pmem s (free_page_head s)\<rparr>))"

definition MMU_free_frame :: "addr \<Rightarrow> ('d, 'a) mm_scheme \<Rightarrow> ('d, 'a) mm_scheme" where
  "MMU_free_frame a s =
     (let s1 = (if free_page_head s = NULL then s\<lparr>free_page_head := a, free_page_tail := a\<rparr>
                else s\<lparr>pmem := (pmem s)(free_page_tail s := a), free_page_tail := a\<rparr>)
      in s1\<lparr>pmem := (pmem s1)(a := NULL)\<rparr>)"

section \<open>The contract\<close>

locale frame_pool =
  fixes frames :: "'s \<Rightarrow> addr list \<Rightarrow> bool"
    and alloc :: "'s \<Rightarrow> addr \<times> 's"
    and free :: "addr \<Rightarrow> 's \<Rightarrow> 's"
    and usable :: "addr \<Rightarrow> bool"
  assumes frames_distinct: "frames s fs \<Longrightarrow> distinct fs"
    and frames_usable: "frames s fs \<Longrightarrow> f \<in> set fs \<Longrightarrow> usable f"
    and usable_not_null: "\<not> usable NULL"
    and alloc_Cons: "frames s (f # fs) \<Longrightarrow> fst (alloc s) = f \<and> frames (snd (alloc s)) fs"
    and alloc_Nil: "frames s [] \<Longrightarrow> alloc s = (NULL, s)"
    and free_snoc: "\<lbrakk>frames s fs; usable f; f \<notin> set fs\<rbrakk> \<Longrightarrow> frames (free f s) (fs @ [f])"
begin

lemma alloc_not_null:
  assumes "frames s fs"
  shows "fst (alloc s) \<noteq> NULL \<longleftrightarrow> fs \<noteq> []"
proof (cases fs)
  case Nil
  with assms show ?thesis by (simp add: alloc_Nil)
next
  case (Cons f gs)
  with assms have "fst (alloc s) = f" "usable f"
    using alloc_Cons frames_usable by auto
  with Cons usable_not_null show ?thesis by auto
qed

lemma alloc_tl:
  assumes "frames s fs"
  shows "frames (snd (alloc s)) (tl fs)" and "fs \<noteq> [] \<Longrightarrow> fst (alloc s) = hd fs"
  using assms alloc_Cons alloc_Nil by (cases fs; fastforce)+

text \<open>The frame handed out is not among those that are still free.\<close>

lemma alloc_fresh:
  assumes "frames s fs" "fst (alloc s) \<noteq> NULL"
  shows "fst (alloc s) \<in> set fs" and "fst (alloc s) \<notin> set (tl fs)"
proof -
  have "fs \<noteq> []" using assms alloc_not_null by blast
  then obtain f gs where fs: "fs = f # gs" by (cases fs) auto
  then have "fst (alloc s) = f" "distinct (f # gs)"
    using assms alloc_Cons frames_distinct by blast+
  with fs show "fst (alloc s) \<in> set fs" "fst (alloc s) \<notin> set (tl fs)" by auto
qed

text \<open>Iterated allocation hands out the free frames in their order.\<close>

lemma alloc_iterate:
  assumes "frames s fs" "n \<le> length fs"
  shows "frames (((\<lambda>s. snd (alloc s)) ^^ n) s) (drop n fs)"
    and "i < n \<Longrightarrow> fst (alloc (((\<lambda>s. snd (alloc s)) ^^ i) s)) = fs ! i"
proof -
  have dr: "frames (((\<lambda>s. snd (alloc s)) ^^ k) s) (drop k fs)" if "k \<le> length fs" for k
    using that
  proof (induction k)
    case 0
    then show ?case using assms by simp
  next
    case (Suc k)
    then show ?case
      using alloc_tl(1) [of "((\<lambda>s. snd (alloc s)) ^^ k) s" "drop k fs"] by (simp add: tl_drop drop_Suc)
  qed
  from dr assms show "frames (((\<lambda>s. snd (alloc s)) ^^ n) s) (drop n fs)" by blast
  assume "i < n"
  then show "fst (alloc (((\<lambda>s. snd (alloc s)) ^^ i) s)) = fs ! i"
    using dr [of i] alloc_tl(2) [of "((\<lambda>s. snd (alloc s)) ^^ i) s" "drop i fs"] assms(2)
    by (simp add: hd_drop_conv_nth)
qed

end

section \<open>The abstraction\<close>

definition page_aligned :: "addr \<Rightarrow> bool" where
  "page_aligned a = (unat a mod 4096 = 0)"

definition usable_frame :: "addr \<Rightarrow> bool" where
  "usable_frame a = (page_aligned a \<and> a \<noteq> NULL)"

definition seg_pages :: "Segment \<Rightarrow> addr list" where
  "seg_pages g = map (\<lambda>k. s_base g + of_nat k * PAGE_SIZE) [0..<unat (s_len g) div 4096]"

text \<open>The chain of segments: the array indices visited from the head.\<close>

fun seg_chain :: "SegmentList list \<Rightarrow> nat option \<Rightarrow> nat list \<Rightarrow> bool" where
  "seg_chain arr p [] = (p = None)"
| "seg_chain arr p (i # is) = (p = Some i \<and> i < length arr \<and> seg_chain arr (sl_next (arr ! i)) is)"

definition seg_ok :: "Segment \<Rightarrow> bool" where
  "seg_ok g = (0 < s_len g \<and> unat (s_len g) mod 4096 = 0)"

text \<open>The chain of freed frames, through their first words.\<close>

fun flist :: "(addr \<Rightarrow> u64) \<Rightarrow> addr \<Rightarrow> addr list \<Rightarrow> bool" where
  "flist m p [] = (p = NULL)"
| "flist m p (a # as) = (p = a \<and> a \<noteq> NULL \<and> flist m (m a) as)"

definition free_frames :: "('d, 'a) mm_scheme \<Rightarrow> addr list \<Rightarrow> bool" where
  "free_frames s fs \<longleftrightarrow>
     (\<exists>is ls. seg_chain (free_segments s) (free_segment_head s) is \<and> distinct is \<and>
        (\<forall>i \<in> set is. seg_ok (sl_s (free_segments s ! i))) \<and>
        flist (pmem s) (free_page_head s) ls \<and> (ls \<noteq> [] \<longrightarrow> free_page_tail s = last ls) \<and>
        fs = concat (map (\<lambda>i. seg_pages (sl_s (free_segments s ! i))) is) @ ls \<and>
        distinct fs \<and> (\<forall>f \<in> set fs. usable_frame f))"

subsection \<open>Pages\<close>

lemma seg_pages_0: "s_len g = 0 \<Longrightarrow> seg_pages g = []"
  by (simp add: seg_pages_def)

lemma seg_pages_step:
  assumes "seg_ok g"
  shows "seg_pages g =
    s_base g # seg_pages (g\<lparr>s_base := s_base g + PAGE_SIZE, s_len := s_len g - PAGE_SIZE\<rparr>)"
proof -
  let ?n = "unat (s_len g) div 4096"
  have "unat (s_len g) \<noteq> 0" "unat (s_len g) mod 4096 = 0"
    using assms by (auto simp: seg_ok_def word_less_nat_alt)
  then have ge: "4096 \<le> unat (s_len g)"
    by (cases "unat (s_len g) < 4096") auto
  then have "unat (s_len g - PAGE_SIZE) = unat (s_len g) - 4096"
    by (simp add: PAGE_SIZE_def unat_sub word_le_nat_alt)
  then have n': "unat (s_len g - PAGE_SIZE) div 4096 = ?n - 1"
    using ge by (simp add: le_div_geq)
  obtain k where k: "?n = Suc k"
    using ge by (cases "?n") (auto simp: div_eq_0_iff)
  then have "[0..<?n] = 0 # map Suc [0..<?n - 1]"
    by (metis diff_Suc_1 map_Suc_upt upt_conv_Cons zero_less_Suc)
  then show ?thesis
    by (simp add: seg_pages_def n' algebra_simps)
qed

lemma seg_ok_rest:
  assumes "seg_ok g" "s_len g - PAGE_SIZE \<noteq> 0"
  shows "seg_ok (g\<lparr>s_base := b, s_len := s_len g - PAGE_SIZE\<rparr>)"
proof -
  have "unat (s_len g) \<noteq> 0" "unat (s_len g) mod 4096 = 0"
    using assms by (auto simp: seg_ok_def word_less_nat_alt)
  then have ge: "4096 \<le> unat (s_len g)"
    by (cases "unat (s_len g) < 4096") auto
  then have "unat (s_len g - PAGE_SIZE) = unat (s_len g) - 4096"
    by (simp add: PAGE_SIZE_def unat_sub word_le_nat_alt)
  moreover have "0 < s_len g - PAGE_SIZE"
    using assms(2) by (simp only: word_neq_0_conv)
  ultimately show ?thesis
    using assms(1) ge by (simp add: seg_ok_def le_mod_geq)
qed

lemma seg_chain_upd:
  assumes "i \<notin> set is"
  shows "seg_chain (arr[i := n]) p is = seg_chain arr p is"
  using assms by (induction "is" arbitrary: p) auto

lemma seg_chain_upd_next:
  assumes "sl_next n = sl_next (arr ! i)"
  shows "seg_chain (arr[i := n]) p is = seg_chain arr p is"
proof -
  have "sl_next (arr[i := n] ! j) = sl_next (arr ! j)" if "j < length arr" for j
    using assms that by (cases "i < length arr"; cases "i = j") (simp_all add: list_update_beyond)
  then show ?thesis
    by (induction "is" arbitrary: p) auto
qed

subsection \<open>The chain of freed frames\<close>

lemma flist_cong: "(\<And>a. a \<in> set as \<Longrightarrow> m' a = m a) \<Longrightarrow> flist m' p as = flist m p as"
  by (induction as arbitrary: p) auto

lemma flist_snoc:
  assumes "flist m p ls" "ls \<noteq> []" "distinct ls" "a \<notin> set ls" "a \<noteq> NULL"
  shows "flist (m(last ls := a, a := NULL)) p (ls @ [a])"
  using assms
proof (induction ls arbitrary: p)
  case Nil
  then show ?case by simp
next
  case (Cons b bs)
  show ?case
  proof (cases "bs = []")
    case True
    with Cons.prems show ?thesis by auto
  next
    case False
    then have "b \<noteq> last bs" "b \<noteq> a"
      using Cons.prems by auto
    moreover have "flist (m(last bs := a, a := NULL)) (m b) (bs @ [a])"
      using Cons.IH [of "m b"] Cons.prems False by (auto simp: fun_upd_def)
    ultimately show ?thesis
      using Cons.prems False by (simp add: fun_upd_def)
  qed
qed

subsection \<open>The allocator meets the contract\<close>

lemma MMU_alloc_frame_seg:
  assumes "free_segment_head s = Some i" "i < length (free_segments s)"
    "seg_ok (sl_s (free_segments s ! i))"
    and ch: "seg_chain (free_segments s) (sl_next (free_segments s ! i)) is" "distinct (i # is)"
    and s': "MMU_alloc_frame s = (f, s')"
  shows "f = s_base (sl_s (free_segments s ! i))"
    and "\<exists>js. seg_chain (free_segments s') (free_segment_head s') js \<and> distinct js \<and>
      (\<forall>j \<in> set js. j \<in> set is \<or> seg_ok (sl_s (free_segments s' ! j))) \<and>
      (\<forall>j \<in> set is. free_segments s' ! j = free_segments s ! j) \<and>
      seg_pages (sl_s (free_segments s ! i)) @
        concat (map (\<lambda>j. seg_pages (sl_s (free_segments s ! j))) is) =
      f # concat (map (\<lambda>j. seg_pages (sl_s (free_segments s' ! j))) js)"
proof -
  let ?g = "sl_s (free_segments s ! i)"
  define g' where "g' = ?g\<lparr>s_base := s_base ?g + PAGE_SIZE, s_len := s_len ?g - PAGE_SIZE\<rparr>"
  define arr where "arr = (free_segments s)[i := (free_segments s ! i)\<lparr>sl_s := g'\<rparr>]"
  show f: "f = s_base ?g"
    using s' assms(1) by (simp add: MMU_alloc_frame_def Let_def split: if_splits)
  have s'_eq: "free_segments s' = arr"
    "free_segment_head s' = (if s_len g' = 0 then sl_next (free_segments s ! i) else Some i)"
    using s' assms(1) by (auto simp: MMU_alloc_frame_def Let_def arr_def g'_def split: if_splits)
  have at_i: "length arr = length (free_segments s)" "sl_s (arr ! i) = g'"
      "sl_next (arr ! i) = sl_next (free_segments s ! i)"
    using assms(2) by (simp_all add: arr_def)
  have same: "arr ! j = free_segments s ! j" if "j \<in> set is" for j
  proof -
    have "i \<noteq> j" using that ch(2) by auto
    then show ?thesis by (simp add: arr_def)
  qed
  have chain: "seg_chain arr p is = seg_chain (free_segments s) p is" for p
    unfolding arr_def using ch(2) by (intro seg_chain_upd) simp
  have rest: "concat (map (\<lambda>j. seg_pages (sl_s (arr ! j))) is) =
      concat (map (\<lambda>j. seg_pages (sl_s (free_segments s ! j))) is)"
    using same by (intro arg_cong [where f = concat] map_cong) auto
  have step: "seg_pages ?g = f # seg_pages g'"
    using seg_pages_step [OF assms(3)] f by (simp add: g'_def)
  show "\<exists>js. seg_chain (free_segments s') (free_segment_head s') js \<and> distinct js \<and>
      (\<forall>j \<in> set js. j \<in> set is \<or> seg_ok (sl_s (free_segments s' ! j))) \<and>
      (\<forall>j \<in> set is. free_segments s' ! j = free_segments s ! j) \<and>
      seg_pages ?g @ concat (map (\<lambda>j. seg_pages (sl_s (free_segments s ! j))) is) =
      f # concat (map (\<lambda>j. seg_pages (sl_s (free_segments s' ! j))) js)"
  proof (cases "s_len g' = 0")
    case True
    then show ?thesis
      using ch same step rest seg_pages_0 [OF True]
      by (intro exI [of _ "is"]) (simp add: s'_eq chain)
  next
    case False
    then have "seg_ok g'"
      using seg_ok_rest [OF assms(3), of "s_base ?g + PAGE_SIZE"] by (simp add: g'_def)
    with False show ?thesis
      using ch same step rest assms(2)
      by (intro exI [of _ "i # is"]) (simp add: s'_eq chain at_i)
  qed
qed

lemma MMU_alloc_frame_pmem [simp]: "pmem (snd (MMU_alloc_frame s)) = pmem s"
  by (auto simp: MMU_alloc_frame_def Let_def split: option.split)

lemma MMU_alloc_frame_head:
  "free_segment_head s \<noteq> None \<Longrightarrow> free_page_head (snd (MMU_alloc_frame s)) = free_page_head s"
  "free_page_tail (snd (MMU_alloc_frame s)) = free_page_tail s"
  by (auto simp: MMU_alloc_frame_def Let_def split: option.split)

lemma MMU_alloc_frame_frame [simp]:
  "cr3 (snd (MMU_alloc_frame s)) = cr3 s" "cr2 (snd (MMU_alloc_frame s)) = cr2 s"
  "page_table (snd (MMU_alloc_frame s)) = page_table s"
  "next_kernel_heap_vaddr (snd (MMU_alloc_frame s)) = next_kernel_heap_vaddr s"
  "next_kernel_thread_stack_vaddr (snd (MMU_alloc_frame s)) = next_kernel_thread_stack_vaddr s"
  "irq_semaphore (snd (MMU_alloc_frame s)) = irq_semaphore s"
  "int_flag (snd (MMU_alloc_frame s)) = int_flag s"
  "identity_p3 (snd (MMU_alloc_frame s)) = identity_p3 s"
  "identity_p2 (snd (MMU_alloc_frame s)) = identity_p2 s"
  "klogs (snd (MMU_alloc_frame s)) = klogs s"
  by (simp_all add: MMU_alloc_frame_def Let_def split: option.split)

lemma free_frames_alloc:
  assumes "free_frames s (f # fs)"
  shows "fst (MMU_alloc_frame s) = f" and "free_frames (snd (MMU_alloc_frame s)) fs"
proof -
  obtain f' s' where s': "MMU_alloc_frame s = (f', s')" by fastforce
  obtain "is" ls where r: "seg_chain (free_segments s) (free_segment_head s) is" "distinct is"
    "\<forall>i \<in> set is. seg_ok (sl_s (free_segments s ! i))"
    "flist (pmem s) (free_page_head s) ls" "ls \<noteq> [] \<longrightarrow> free_page_tail s = last ls"
    "f # fs = concat (map (\<lambda>i. seg_pages (sl_s (free_segments s ! i))) is) @ ls"
    "distinct (f # fs)" "\<forall>g \<in> set (f # fs). usable_frame g"
    using assms unfolding free_frames_def by blast
  have "f' = f \<and> free_frames s' fs"
  proof (cases "is")
    case Nil
    with r have "free_segment_head s = None" "ls = f # fs" "free_page_head s = f" "f \<noteq> NULL"
      by auto
    then have "f' = f" "s' = s\<lparr>free_page_head := pmem s f\<rparr>"
      using s' by (auto simp: MMU_alloc_frame_def)
    moreover have "flist (pmem s) (pmem s f) fs" "fs \<noteq> [] \<longrightarrow> free_page_tail s = last fs"
      using r(4,5) \<open>ls = f # fs\<close> by auto
    then have "free_frames (s\<lparr>free_page_head := pmem s f\<rparr>) fs"
      unfolding free_frames_def
      by (intro exI [of _ "[]"] exI [of _ fs]) (use r(7,8) \<open>free_segment_head s = None\<close> in simp)
    ultimately show ?thesis by simp
  next
    case (Cons i js)
    with r have i: "free_segment_head s = Some i" "i < length (free_segments s)"
      "seg_ok (sl_s (free_segments s ! i))"
      "seg_chain (free_segments s) (sl_next (free_segments s ! i)) js" "distinct (i # js)"
      by auto
    obtain ks where k: "seg_chain (free_segments s') (free_segment_head s') ks" "distinct ks"
      "\<forall>j \<in> set ks. j \<in> set js \<or> seg_ok (sl_s (free_segments s' ! j))"
      "\<forall>j \<in> set js. free_segments s' ! j = free_segments s ! j"
      "seg_pages (sl_s (free_segments s ! i)) @
        concat (map (\<lambda>j. seg_pages (sl_s (free_segments s ! j))) js) =
       f' # concat (map (\<lambda>j. seg_pages (sl_s (free_segments s' ! j))) ks)"
      using MMU_alloc_frame_seg(2) [OF i s'] by (elim exE conjE)
    have eq: "f' # concat (map (\<lambda>j. seg_pages (sl_s (free_segments s' ! j))) ks) @ ls = f # fs"
      using r(6) k(5) Cons by simp
    then have f': "f' = f"
      and fs: "fs = concat (map (\<lambda>j. seg_pages (sl_s (free_segments s' ! j))) ks) @ ls"
      by (simp_all only: list.inject)
    have mem: "pmem s' = pmem s" "free_page_head s' = free_page_head s"
        "free_page_tail s' = free_page_tail s"
      using s' i(1) MMU_alloc_frame_pmem [of s] MMU_alloc_frame_head [of s] by auto
    have ok: "\<forall>j \<in> set ks. seg_ok (sl_s (free_segments s' ! j))"
      using k(3,4) r(3) Cons by auto
    have fr: "distinct fs" "\<forall>g \<in> set fs. usable_frame g"
      using r(7,8) by auto
    have "free_frames s' fs"
      unfolding free_frames_def mem
      using k(1,2) ok r(4,5) fs fr by blast
    with f' show ?thesis by simp
  qed
  with s' show "fst (MMU_alloc_frame s) = f" "free_frames (snd (MMU_alloc_frame s)) fs"
    by auto
qed

lemma free_frames_empty: "free_frames s [] \<Longrightarrow> MMU_alloc_frame s = (NULL, s)"
proof -
  assume "free_frames s []"
  then obtain "is" ls where r: "seg_chain (free_segments s) (free_segment_head s) is"
    "\<forall>i \<in> set is. seg_ok (sl_s (free_segments s ! i))"
    "flist (pmem s) (free_page_head s) ls"
    "[] = concat (map (\<lambda>i. seg_pages (sl_s (free_segments s ! i))) is) @ ls"
    unfolding free_frames_def by blast
  have "is = []"
  proof (cases "is")
    case (Cons i js)
    with r have "seg_pages (sl_s (free_segments s ! i)) = []" "seg_ok (sl_s (free_segments s ! i))"
      by auto
    then show ?thesis using seg_pages_step by force
  qed
  with r show "MMU_alloc_frame s = (NULL, s)"
    by (simp add: MMU_alloc_frame_def)
qed

lemma free_frames_free:
  assumes "free_frames s fs" "usable_frame a" "a \<notin> set fs"
  shows "free_frames (MMU_free_frame a s) (fs @ [a])"
proof -
  obtain "is" ls where r: "seg_chain (free_segments s) (free_segment_head s) is" "distinct is"
    "\<forall>i \<in> set is. seg_ok (sl_s (free_segments s ! i))"
    "flist (pmem s) (free_page_head s) ls" "ls \<noteq> [] \<longrightarrow> free_page_tail s = last ls"
    "fs = concat (map (\<lambda>i. seg_pages (sl_s (free_segments s ! i))) is) @ ls"
    "distinct fs" "\<forall>g \<in> set fs. usable_frame g"
    using assms(1) unfolding free_frames_def by blast
  let ?s = "MMU_free_frame a s"
  have segs: "free_segments ?s = free_segments s" "free_segment_head ?s = free_segment_head s"
    and tail: "free_page_tail ?s = a"
    by (simp_all add: MMU_free_frame_def Let_def)
  have "a \<noteq> NULL" using assms(2) by (simp add: usable_frame_def)
  have head: "free_page_head s = NULL \<longleftrightarrow> ls = []"
    using r(4) by (cases ls) auto
  have "flist (pmem ?s) (free_page_head ?s) (ls @ [a])"
  proof (cases "ls = []")
    case True
    with head \<open>a \<noteq> NULL\<close> show ?thesis by (simp add: MMU_free_frame_def Let_def)
  next
    case False
    with head have "pmem ?s = (pmem s)(last ls := a, a := NULL)" "free_page_head ?s = free_page_head s"
      using r(5) by (simp_all add: MMU_free_frame_def Let_def)
    with r False assms(3) \<open>a \<noteq> NULL\<close> show ?thesis
      using flist_snoc [of "pmem s" "free_page_head s" ls a] by auto
  qed
  then show ?thesis
    unfolding free_frames_def
    by (intro exI [of _ "is"] exI [of _ "ls @ [a]"]) (use r segs tail assms in auto)
qed

interpretation mmu: frame_pool free_frames MMU_alloc_frame MMU_free_frame usable_frame
proof
  fix s :: "('a, 'b) mm_scheme" and fs f
  show "free_frames s fs \<Longrightarrow> distinct fs" "free_frames s fs \<Longrightarrow> f \<in> set fs \<Longrightarrow> usable_frame f"
    unfolding free_frames_def by blast+
qed (auto simp: usable_frame_def free_frames_alloc free_frames_empty free_frames_free)

section \<open>Histories of allocations\<close>

text \<open>
  A history of the allocator and its clients: frames are allocated, the clients write to the frames
  they hold, and give back frames they hold. The second component of the state is the set of
  frames the clients hold.
\<close>

definition in_frame :: "addr \<Rightarrow> addr \<Rightarrow> bool" where
  "in_frame a p = (unat (p - a) < 4096)"

inductive frame_step ::
  "('d, 'a) mm_scheme \<times> addr set \<Rightarrow> ('d, 'a) mm_scheme \<times> addr set \<Rightarrow> bool" where
  Alloc: "\<lbrakk>MMU_alloc_frame s = (f, s'); f \<noteq> NULL\<rbrakk> \<Longrightarrow> frame_step (s, out) (s', insert f out)"
| Free: "a \<in> out \<Longrightarrow> frame_step (s, out) (MMU_free_frame a s, out - {a})"
| Write: "\<lbrakk>a \<in> out; in_frame a p\<rbrakk> \<Longrightarrow> frame_step (s, out) (s\<lparr>pmem := (pmem s)(p := v)\<rparr>, out)"

inductive_cases frame_stepE: "frame_step (s, out) (s', out')"

lemma aligned_in_frame:
  assumes "page_aligned a" "page_aligned f" "in_frame a f"
  shows "f = a"
proof -
  have m: "unat a mod 4096 = 0" "unat f mod 4096 = 0" "unat (f - a) < 4096"
    using assms by (auto simp: page_aligned_def in_frame_def)
  show ?thesis
  proof (cases "a \<le> f")
    case True
    then have "unat (f - a) = unat f - unat a" "unat a \<le> unat f"
      by (simp_all add: unat_sub word_le_nat_alt)
    with m obtain i j where "unat f = 4096 * i" "unat a = 4096 * j" "unat f - unat a < 4096"
      by (metis mod_eq_0_iff_dvd dvdE)
    with \<open>unat a \<le> unat f\<close> have "unat f = unat a" by (simp flip: diff_mult_distrib2)
    then show ?thesis by (simp add: word_unat_eq_iff)
  next
    case False
    then have lt: "unat f < unat a" by (simp add: word_le_nat_alt)
    have "unat (f - a) = unat f + 2 ^ 64 - unat a"
      using lt by (simp add: unat_sub_if')
    moreover obtain i j where ij: "unat f = 4096 * i" "unat a = 4096 * j"
      using m by (metis mod_eq_0_iff_dvd dvdE)
    moreover have "4096 * i + 2 ^ 64 - 4096 * j = 4096 * (i + 2 ^ 52 - j)" by simp
    ultimately have "i + 2 ^ 52 \<le> j"
      using m(3) by simp
    then show ?thesis
      using unat_less_pow [of a] ij(2) by simp
  qed
qed

lemma free_frames_cong:
  assumes "free_segments s' = free_segments s" "free_segment_head s' = free_segment_head s"
    "free_page_head s' = free_page_head s" "free_page_tail s' = free_page_tail s"
    and "\<And>f. f \<in> set fs \<Longrightarrow> pmem s' f = pmem s f"
  shows "free_frames s' fs = free_frames s fs"
proof -
  have "flist (pmem s') p ls = flist (pmem s) p ls" if "set ls \<subseteq> set fs" for p ls
    using assms(5) that by (intro flist_cong) auto
  then have fl: "flist (pmem s') p ls = flist (pmem s) p ls" if "fs = xs @ ls" for p xs ls
    using that by simp
  show ?thesis
    unfolding free_frames_def assms(1-4)
    by (intro ex_cong1 iffI; elim conjE; intro conjI; (assumption | simp only: fl))
qed

lemma free_frames_write:
  assumes "free_frames s fs" "p \<notin> set fs"
  shows "free_frames (s\<lparr>pmem := (pmem s)(p := v)\<rparr>) fs"
  by (subst free_frames_cong [of _ s]) (use assms in auto)

definition frames_split :: "addr set \<Rightarrow> ('d, 'a) mm_scheme \<times> addr set \<Rightarrow> bool" where
  "frames_split all c \<longleftrightarrow>
     (\<exists>gs. free_frames (fst c) gs \<and> set gs \<inter> snd c = {} \<and> set gs \<union> snd c = all)"

lemma frames_split_step:
  assumes "frame_step c c'" "frames_split all c" "\<forall>f \<in> all. usable_frame f"
  shows "frames_split all c'"
  using assms
proof (induction rule: frame_step.induct)
  case (Alloc s f s' out)
  then obtain gs where gs: "free_frames s gs" "set gs \<inter> out = {}" "set gs \<union> out = all"
    by (auto simp: frames_split_def)
  with Alloc obtain hs where hs: "gs = f # hs"
    using mmu.alloc_not_null [OF gs(1)] mmu.alloc_tl(2) [OF gs(1)] by (cases gs) auto
  then have "free_frames s' hs" "f \<notin> set hs"
    using gs(1) Alloc(1) free_frames_alloc(2) [of s f hs] mmu.frames_distinct [OF gs(1)] by auto
  with gs hs show ?case
    unfolding frames_split_def by (intro exI [of _ hs]) auto
next
  case (Free a out s)
  then obtain gs where gs: "free_frames s gs" "set gs \<inter> out = {}" "set gs \<union> out = all"
    by (auto simp: frames_split_def)
  then have "free_frames (MMU_free_frame a s) (gs @ [a])"
    using Free by (intro free_frames_free) auto
  with gs Free show ?case
    unfolding frames_split_def by (intro exI [of _ "gs @ [a]"]) auto
next
  case (Write a out p s v)
  then obtain gs where gs: "free_frames s gs" "set gs \<inter> out = {}" "set gs \<union> out = all"
    by (auto simp: frames_split_def)
  have "p \<notin> set gs"
  proof
    assume "p \<in> set gs"
    then have "p = a"
      using Write gs by (intro aligned_in_frame) (auto simp: usable_frame_def)
    with \<open>p \<in> set gs\<close> gs Write show False by auto
  qed
  with gs show ?case
    unfolding frames_split_def using free_frames_write by fastforce
qed

lemma frames_split_steps:
  assumes "frame_step\<^sup>*\<^sup>* c c'" "frames_split all c" "\<forall>f \<in> all. usable_frame f"
  shows "frames_split all c'"
  using assms by (induction rule: rtranclp_induct) (auto intro: frames_split_step)

section \<open>An example state\<close>

definition mm_example :: "unit mm" where
  "mm_example =
     \<lparr>irq_semaphore = 0, int_flag = False, handlers = [], klogs = [], devst = (),
      free_segments = [\<lparr>sl_next = None, sl_s = \<lparr>s_base = 0x1000, s_end = 0x6000, s_len = 0x5000\<rparr>\<rparr>],
      free_segment_head = Some 0, free_page_head = NULL, free_page_tail = NULL, page_table = 0x8000,
      next_kernel_heap_vaddr = 0, next_kernel_thread_stack_vaddr = 0, pmem = (\<lambda>_. 0),
      cr2 = 0xF0000000000, cr3 = 0x8000,
      identity_p3 = 0, identity_p2 = 0\<rparr>"

lemma mm_example_frames: "free_frames mm_example [0x1000, 0x2000, 0x3000, 0x4000, 0x5000]"
  unfolding free_frames_def
  by (rule exI [of _ "[0]"], rule exI [of _ "[]"])
    (simp add: mm_example_def seg_ok_def seg_pages_def upt_rec PAGE_SIZE_def usable_frame_def page_aligned_def)

section \<open>Properties\<close>

text \<open>C35: The allocator is a FIFO queue of free frames: \<open>MMU_alloc_frame\<close> returns the first free
  frame and leaves the others in order, or returns \<open>NULL\<close> without changing anything exactly when no
  frame is free; \<open>MMU_free_frame\<close> puts the frame behind all free frames.\<close>

theorem frame_allocator_fifo:
  assumes "free_frames s fs" "usable_frame a" "a \<notin> set fs"
  shows "(case fs of [] \<Rightarrow> MMU_alloc_frame s = (NULL, s)
          | f # gs \<Rightarrow> fst (MMU_alloc_frame s) = f \<and> f \<noteq> NULL \<and> free_frames (snd (MMU_alloc_frame s)) gs) \<and>
         free_frames (MMU_free_frame a s) (fs @ [a])"
proof (cases fs)
  case Nil
  with assms free_frames_empty free_frames_free show ?thesis by fastforce
next
  case (Cons f gs)
  with assms have "free_frames s (f # gs)" by simp
  then show ?thesis
    using Cons assms free_frames_alloc [of s f gs] mmu.alloc_not_null [of s "f # gs"]
      free_frames_free [OF assms] by simp
qed

theorem frame_allocator_fifo_witness:
  "fst (MMU_alloc_frame mm_example) = 0x1000 \<and>
   free_frames (snd (MMU_alloc_frame mm_example)) [0x2000, 0x3000, 0x4000, 0x5000] \<and>
   free_frames (MMU_free_frame 0x9000 mm_example) [0x1000, 0x2000, 0x3000, 0x4000, 0x5000, 0x9000]"
  using frame_allocator_fifo [OF mm_example_frames, where a = "0x9000"]
  by (simp add: usable_frame_def page_aligned_def)

text \<open>C34: In every history of allocations, writes of the clients to the frames they hold, and frees
  of held frames, no frame is lost or handed out twice: the free frames and the held frames
  partition the frames that were free at the start, an allocation fails only when every frame is
  held, and the frame it returns is held by nobody.\<close>

theorem frame_allocator_conservation:
  assumes "free_frames s fs" "frame_step\<^sup>*\<^sup>* (s, {}) (t, out)"
  shows "(\<exists>gs. free_frames t gs \<and> distinct gs \<and> set gs \<inter> out = {} \<and> set gs \<union> out = set fs) \<and>
    (fst (MMU_alloc_frame t) = NULL \<longleftrightarrow> out = set fs) \<and> fst (MMU_alloc_frame t) \<notin> out"
proof -
  have us: "\<forall>f \<in> set fs. usable_frame f"
    using assms(1) mmu.frames_usable by blast
  have "frames_split (set fs) (s, {})"
    using assms(1) by (auto simp: frames_split_def)
  from frames_split_steps [OF assms(2) this us] obtain gs where
    gs: "free_frames t gs" "set gs \<inter> out = {}" "set gs \<union> out = set fs"
    by (auto simp: frames_split_def)
  have "NULL \<notin> set fs"
    using us by (auto simp: usable_frame_def)
  then have "NULL \<notin> out"
    using gs(3) by blast
  moreover have "gs = [] \<longleftrightarrow> out = set fs"
  proof
    assume "out = set fs"
    with gs(3) have "set gs \<subseteq> out" by (metis Un_upper1)
    with gs(2) have "set gs = {}" by (simp add: Int_absorb2)
    then show "gs = []" by simp
  qed (use gs in simp)
  moreover have "fst (MMU_alloc_frame t) \<notin> out"
    using \<open>NULL \<notin> out\<close> gs(2) mmu.alloc_fresh(1) [OF gs(1)] by (cases "fst (MMU_alloc_frame t) = NULL") auto
  ultimately show ?thesis
    using gs mmu.frames_distinct [OF gs(1)] mmu.alloc_not_null [OF gs(1)] by blast
qed

theorem frame_allocator_conservation_witness:
  "\<exists>t. frame_step\<^sup>*\<^sup>* (mm_example, {}) (t, {0x1000}) \<and> fst (MMU_alloc_frame t) \<notin> {0x1000, NULL}"
proof -
  let ?s1 = "snd (MMU_alloc_frame mm_example)"
  let ?s2 = "?s1\<lparr>pmem := (pmem ?s1)(0x1008 := 5)\<rparr>"
  have a: "MMU_alloc_frame mm_example = (0x1000, ?s1)"
    by (simp add: MMU_alloc_frame_def mm_example_def PAGE_SIZE_def Let_def)
  have "frame_step (mm_example, {}) (?s1, {0x1000})"
    using frame_step.Alloc [OF a, of "{}"] by simp
  moreover have "frame_step (?s1, {0x1000}) (?s2, {0x1000})"
    by (rule frame_step.Write [of "0x1000"]) (simp_all add: in_frame_def)
  ultimately have r: "frame_step\<^sup>*\<^sup>* (mm_example, {}) (?s2, {0x1000})"
    by auto
  then show ?thesis
    using frame_allocator_conservation [OF mm_example_frames r] by (intro exI [of _ ?s2]) auto
qed

end
