(* ===== verification/Paging.thy ===== *)
theory Paging
  imports Frames "HOL-Library.Sublist"
begin

text \<open>
  The page tables of \<^verbatim>\<open>src/src/arch/x86_64/paging.c\<close>: walking the four levels, demand
  allocation, the page fault handler, freeing a page and translating an address.

  An entry is a 64-bit word of physical memory; the bit-field struct \<open>PTE\<close> is the accessors
  below. The processor's \<open>cr3\<close> and \<open>cr2\<close> are fields of the state. The kernel reaches the tables
  through its identity mapping, so an address of a table or an entry is its physical address.

  The tables are viewed as a tree: \<open>node\<close> follows a path of indices (the innermost first) from
  the root; paths of length up to three lead to tables, paths of length four to frames of memory.
  \<open>view\<close> is the abstract state of a page of virtual memory. The invariant \<open>pt_ok\<close> says that no two
  paths lead to the same frame and that no free frame is in the tree. Paths below the first entry
  of the root, the identity mapping with its huge pages, are left aside: no page of the kernel's
  heap or stacks lies there.
\<close>

section \<open>Operations\<close>

definition PAGE_TABLE_NUM_ENTS :: nat where "PAGE_TABLE_NUM_ENTS = 512"
definition HUGE_PAGE_FRAME_SIZE :: u64 where "HUGE_PAGE_FRAME_SIZE = 0x200000"
definition PAGE_TABLE_DEPTH :: nat where "PAGE_TABLE_DEPTH = 3"
definition PHYSICAL_PAGE_DEPTH :: nat where "PHYSICAL_PAGE_DEPTH = 4"

lemmas pt_consts = PAGE_TABLE_NUM_ENTS_def HUGE_PAGE_FRAME_SIZE_def PAGE_TABLE_DEPTH_def
  PHYSICAL_PAGE_DEPTH_def

text \<open>The fields of \<open>struct PTE\<close> the code uses.\<close>

definition pte_present :: "u64 \<Rightarrow> bool" where "pte_present e = bit e 0"
definition pte_demand_allocate :: "u64 \<Rightarrow> bool" where "pte_demand_allocate e = bit e 9"
definition pte_address :: "u64 \<Rightarrow> u64" where "pte_address e = take_bit 40 (drop_bit 12 e)"

fun zero_words :: "addr \<Rightarrow> nat \<Rightarrow> (addr \<Rightarrow> u64) \<Rightarrow> addr \<Rightarrow> u64" where
  "zero_words p 0 m = m"
| "zero_words p (Suc n) m = zero_words (p + 8) n (m(p := 0))"

definition init_empty_page_table :: "addr \<Rightarrow> (addr \<Rightarrow> u64) \<Rightarrow> addr \<Rightarrow> u64" where
  "init_empty_page_table pt m = zero_words pt PAGE_TABLE_NUM_ENTS m"

definition pte_set_addr :: "addr \<Rightarrow> addr \<Rightarrow> (addr \<Rightarrow> u64) \<Rightarrow> addr \<Rightarrow> u64" where
  "pte_set_addr ent a m =
     (let m1 = m(ent := a);
          m2 = m1(ent := set_bit 0 (m1 ent))
      in m2(ent := set_bit 1 (m2 ent)))"

definition pte_get_addr :: "addr \<Rightarrow> (addr \<Rightarrow> u64) \<Rightarrow> addr" where
  "pte_get_addr ent m = push_bit 12 (pte_address (m ent))"

definition pt_offset_for_depth :: "addr \<Rightarrow> nat \<Rightarrow> u64" where
  "pt_offset_for_depth vaddr depth =
     (if depth = PHYSICAL_PAGE_DEPTH then vaddr AND 0xFFF
      else drop_bit (12 + 9 * (PAGE_TABLE_DEPTH - depth)) vaddr AND 0x1FF)"

definition pt_get_next_pte :: "addr \<Rightarrow> addr \<Rightarrow> nat \<Rightarrow> ('d, 'a) mm_scheme \<Rightarrow> addr" where
  "pt_get_next_pte pt vaddr depth s =
     (if pt = NULL then cr3 s else pte_get_addr pt (pmem s)) + 8 * pt_offset_for_depth vaddr depth"

function pt_walk_loop :: "addr \<Rightarrow> addr \<Rightarrow> nat \<Rightarrow> ('d, 'a) mm_scheme \<Rightarrow> nat \<times> addr" where
  "pt_walk_loop vaddr cur i s =
     (if i < PHYSICAL_PAGE_DEPTH then
        let cur' = pt_get_next_pte cur vaddr i s
        in if \<not> pte_present (pmem s cur') then (i, cur') else pt_walk_loop vaddr cur' (i + 1) s
      else (PHYSICAL_PAGE_DEPTH, pt_get_next_pte cur vaddr i s))"
  by pat_completeness auto
termination
  by (relation "measure (\<lambda>(_, _, i, _). PHYSICAL_PAGE_DEPTH - i)") auto

declare pt_walk_loop.simps [simp del]

definition pt_walk :: "addr \<Rightarrow> ('d, 'a) mm_scheme \<Rightarrow> nat \<times> addr" where
  "pt_walk vaddr s = pt_walk_loop vaddr NULL 0 s"

definition page_fault_handler ::
  "u32 \<Rightarrow> u32 \<Rightarrow> addr \<Rightarrow> ('d, 'a) mm_scheme \<Rightarrow> ('d, 'a) mm_scheme" where
  "page_fault_handler irq err a s =
     (let req_addr = cr2 s;
          s = klog KLOG_LEVEL_DEBUG ''page fault on address %p. Error %x'' [req_addr, ucast err] s;
          (depth, ent) = pt_walk req_addr s
      in if depth = PHYSICAL_PAGE_DEPTH then klog KLOG_LEVEL_WARN ''invalid page fault'' [] s
         else if \<not> pte_demand_allocate (pmem s ent) \<or> depth \<noteq> PAGE_TABLE_DEPTH
         then klog KLOG_LEVEL_WARN ''unhandled page fault'' [] s
         else let (frm, s) = MMU_alloc_frame s
              in if frm = NULL then klog KLOG_LEVEL_CRIT ''out of memory'' [] s
                 else s\<lparr>pmem := pte_set_addr ent frm (pmem s)\<rparr>)"

fun identity_entries :: "addr \<Rightarrow> nat list \<Rightarrow> (addr \<Rightarrow> u64) \<Rightarrow> addr \<Rightarrow> u64" where
  "identity_entries p2 [] m = m"
| "identity_entries p2 (i # is) m =
     (let ent = p2 + 8 * of_nat i;
          m1 = pte_set_addr ent (of_nat i * HUGE_PAGE_FRAME_SIZE) m
      in identity_entries p2 is (m1(ent := set_bit 7 (m1 ent))))"

definition PT_init :: "('d, 'a) mm_scheme \<Rightarrow> ('d, 'a) mm_scheme option" where
  "PT_init s =
     (let m = pte_set_addr (identity_p3 s) (identity_p2 s) (init_empty_page_table (identity_p3 s) (pmem s));
          s1 = s\<lparr>pmem := identity_entries (identity_p2 s) [0..<PAGE_TABLE_NUM_ENTS] m\<rparr>
      in IRQ_set_handler (int PAGE_FAULT_IRQ) (Some Page_fault_handler) NULL s1)"

definition PT_page_table_init :: "addr \<Rightarrow> ('d, 'a) mm_scheme \<Rightarrow> ('d, 'a) mm_scheme" where
  "PT_page_table_init a s =
     s\<lparr>pmem := pte_set_addr a (identity_p3 s) (init_empty_page_table a (pmem s))\<rparr>"

definition PT_change :: "addr \<Rightarrow> ('d, 'a) mm_scheme \<Rightarrow> ('d, 'a) mm_scheme" where
  "PT_change p4_addr s = s\<lparr>cr3 := p4_addr\<rparr>"

text \<open>The loop of \<open>PT_demand_allocate\<close>: the entry to mark, or \<open>None\<close> for the return of \<open>-1\<close>.\<close>

function demand_loop ::
  "addr \<Rightarrow> nat \<Rightarrow> addr \<Rightarrow> ('d, 'a) mm_scheme \<Rightarrow> addr option \<times> ('d, 'a) mm_scheme" where
  "demand_loop vaddr depth ent s =
     (if depth < PAGE_TABLE_DEPTH then
        let (new_pt, s) = MMU_alloc_frame s
        in if new_pt = NULL then (None, klog KLOG_LEVEL_CRIT ''out of memory'' [] s)
           else let s = s\<lparr>pmem := init_empty_page_table new_pt (pmem s)\<rparr>;
                    s = s\<lparr>pmem := pte_set_addr ent new_pt (pmem s)\<rparr>
                in demand_loop vaddr (depth + 1) (pt_get_next_pte ent vaddr (depth + 1) s) s
      else (Some ent, s))"
  by pat_completeness auto
termination
  by (relation "measure (\<lambda>(_, depth, _, _). PAGE_TABLE_DEPTH - depth)") auto

declare demand_loop.simps [simp del]

definition PT_demand_allocate :: "addr \<Rightarrow> ('d, 'a) mm_scheme \<Rightarrow> int \<times> ('d, 'a) mm_scheme" where
  "PT_demand_allocate vaddr s =
     (let (depth, ent) = pt_walk vaddr s
      in if depth = PHYSICAL_PAGE_DEPTH then
           (- 1, klog KLOG_LEVEL_WARN ''allocation attempted twice on virtual address %p'' [vaddr] s)
         else case demand_loop vaddr depth ent s of
                (None, s) \<Rightarrow> (- 1, s)
              | (Some e, s) \<Rightarrow> (0, s\<lparr>pmem := (pmem s)(e := set_bit 9 (pmem s e))\<rparr>))"

text \<open>The loop of \<open>PT_free\<close>: the last entry, or \<open>None\<close> when an entry on the way is not present.\<close>

function free_walk :: "addr \<Rightarrow> addr \<Rightarrow> nat \<Rightarrow> ('d, 'a) mm_scheme \<Rightarrow> addr option" where
  "free_walk vaddr cur i s =
     (if i < PHYSICAL_PAGE_DEPTH then
        let cur' = pt_get_next_pte cur vaddr i s
        in if \<not> pte_present (pmem s cur') then None else free_walk vaddr cur' (i + 1) s
      else Some cur)"
  by pat_completeness auto
termination
  by (relation "measure (\<lambda>(_, _, i, _). PHYSICAL_PAGE_DEPTH - i)") auto

declare free_walk.simps [simp del]

definition PT_free :: "addr \<Rightarrow> ('d, 'a) mm_scheme \<Rightarrow> addr \<times> ('d, 'a) mm_scheme" where
  "PT_free vaddr s =
     (if vaddr mod PAGE_SIZE \<noteq> 0 then
        (NULL, klog KLOG_LEVEL_WARN ''attempting to free invalid address'' [] s)
      else case free_walk vaddr NULL 0 s of
             None \<Rightarrow> (NULL, s)
           | Some cur \<Rightarrow>
               let s = s\<lparr>pmem := (pmem s)(cur := unset_bit 0 (pmem s cur))\<rparr>;
                   s = s\<lparr>pmem := (pmem s)(cur := unset_bit 9 (pmem s cur))\<rparr>
               in (pt_get_next_pte cur vaddr PHYSICAL_PAGE_DEPTH s, s))"

definition PT_addr_virt_to_phys :: "addr \<Rightarrow> ('d, 'a) mm_scheme \<Rightarrow> addr" where
  "PT_addr_virt_to_phys vaddr s =
     (let (depth, a) = pt_walk vaddr s in if depth = PHYSICAL_PAGE_DEPTH then a else NULL)"

section \<open>The tree of tables\<close>

definition pte_target :: "u64 \<Rightarrow> addr" where
  "pte_target e = push_bit 12 (pte_address e)"

fun node :: "(addr \<Rightarrow> u64) \<Rightarrow> addr \<Rightarrow> u64 list \<Rightarrow> addr option" where
  "node m r [] = Some r"
| "node m r (i # p) =
     (case node m r p of
        None \<Rightarrow> None
      | Some t \<Rightarrow> if pte_present (m (t + 8 * i)) then Some (pte_target (m (t + 8 * i))) else None)"

definition vpath :: "addr \<Rightarrow> nat \<Rightarrow> u64 list" where
  "vpath va d = rev (map (pt_offset_for_depth va) [0..<d])"

definition valid_path :: "u64 list \<Rightarrow> bool" where
  "valid_path p \<longleftrightarrow> length p \<le> 4 \<and> (\<forall>i \<in> set p. i < 512) \<and> (p \<noteq> [] \<longrightarrow> last p \<noteq> 0)"

datatype page_view = Unmapped | Demand | Mapped addr

definition view :: "(addr \<Rightarrow> u64) \<Rightarrow> addr \<Rightarrow> u64 list \<Rightarrow> page_view" where
  "view m r p =
     (case node m r p of
        Some f \<Rightarrow> Mapped f
      | None \<Rightarrow> (case node m r (tl p) of
                  Some t \<Rightarrow> if pte_demand_allocate (m (t + 8 * hd p)) then Demand else Unmapped
                | None \<Rightarrow> Unmapped))"

definition pt_frame :: "addr \<Rightarrow> bool" where
  "pt_frame a \<longleftrightarrow> usable_frame a \<and> a < 2 ^ 40"

definition pt_ok :: "('d, 'a) mm_scheme \<Rightarrow> addr list \<Rightarrow> bool" where
  "pt_ok s fs \<longleftrightarrow> free_frames s fs \<and> (\<forall>f \<in> set fs. pt_frame f) \<and>
     (\<forall>p a. valid_path p \<and> node (pmem s) (cr3 s) p = Some a \<longrightarrow> pt_frame a \<and> a \<notin> set fs) \<and>
     (\<forall>p q a. valid_path p \<and> valid_path q \<and> node (pmem s) (cr3 s) p = Some a \<and>
        node (pmem s) (cr3 s) q = Some a \<longrightarrow> p = q)"

section \<open>Entries\<close>

definition pte_of :: "addr \<Rightarrow> u64" where
  "pte_of a = set_bit 1 (set_bit 0 a)"

lemma pte_set_addr_eq: "pte_set_addr ent a m = m(ent := pte_of a)"
  by (simp add: pte_set_addr_def pte_of_def Let_def)

lemma pte_get_addr_eq: "pte_get_addr ent m = pte_target (m ent)"
  by (simp add: pte_get_addr_def pte_target_def)

lemma bit_pte_target: "bit (pte_target e) n \<longleftrightarrow> 12 \<le> n \<and> n < 52 \<and> bit e n"
  by (auto simp: pte_target_def pte_address_def bit_push_bit_iff bit_take_bit_iff bit_drop_bit_eq)

lemma page_aligned_bits:
  assumes "page_aligned a" "n < 12"
  shows "\<not> bit a n"
proof -
  have "unat (take_bit 12 a) = take_bit 12 (unat a)"
    by (simp add: unsigned_take_bit_eq)
  also have "\<dots> = 0"
    using assms(1) by (simp add: take_bit_eq_mod page_aligned_def)
  finally have "unat (take_bit 12 a) = 0" .
  then have "take_bit 12 a = 0" by (simp add: unsigned_eq_0_iff)
  with assms(2) show ?thesis
    by (metis bit_0_eq bit_take_bit_iff bot_apply bot_bool_def)
qed

lemma below_bits:
  assumes "a < 2 ^ 40" "40 \<le> n"
  shows "\<not> bit (a :: u64) n"
proof -
  have "unat (take_bit 40 a) = take_bit 40 (unat a)"
    by (simp add: unsigned_take_bit_eq)
  also have "\<dots> = unat a"
    using assms(1) by (simp add: take_bit_eq_mod word_less_nat_alt)
  finally have "take_bit 40 a = a" by (simp add: word_unat_eq_iff)
  with assms(2) show ?thesis
    by (metis bit_take_bit_iff not_le)
qed

lemma pte_target_set:
  assumes "pt_frame a"
  shows "pte_target (pte_of a) = a"
proof (rule bit_eqI)
  fix n
  show "bit (pte_target (pte_of a)) n \<longleftrightarrow> bit a n"
    using assms page_aligned_bits [of a n] below_bits [of a n]
    by (cases "n < 12"; cases "40 \<le> n") (auto simp: bit_pte_target pte_of_def bit_set_bit_iff pt_frame_def usable_frame_def not_le not_less)
qed

lemma pte_bits [simp]:
  "pte_present (pte_of a)"
  "pte_present (set_bit 9 e) = pte_present e" "pte_demand_allocate (set_bit 9 e)"
  "\<not> pte_present (unset_bit 9 (unset_bit 0 e))" "\<not> pte_demand_allocate (unset_bit 9 (unset_bit 0 e))"
  "\<not> pte_present 0" "\<not> pte_demand_allocate 0"
  by (simp_all add: pte_present_def pte_of_def pte_demand_allocate_def bit_set_bit_iff bit_unset_bit_iff)

lemma pte_target_unset [simp]: "pte_target (unset_bit 9 (unset_bit 0 e)) = pte_target e"
  by (rule bit_eqI) (auto simp: bit_pte_target bit_unset_bit_iff)

subsection \<open>An empty table\<close>

lemma zero_words_zero: "m x = 0 \<Longrightarrow> zero_words p n m x = 0"
  by (induction n arbitrary: p m) auto

lemma zero_words_at: "k < n \<Longrightarrow> zero_words p n m (p + 8 * of_nat k) = 0"
proof (induction n arbitrary: p m k)
  case 0
  then show ?case by simp
next
  case (Suc n)
  show ?case
  proof (cases k)
    case 0
    then show ?thesis by (simp add: zero_words_zero)
  next
    case (Suc j)
    with Suc.prems Suc.IH [of j "p + 8"] show ?thesis by (simp add: algebra_simps)
  qed
qed

lemma zero_words_other:
  "(\<And>k. k < n \<Longrightarrow> x \<noteq> p + 8 * of_nat k) \<Longrightarrow> zero_words p n m x = m x"
proof (induction n arbitrary: p m)
  case 0
  then show ?case by simp
next
  case (Suc n)
  have "x \<noteq> p" using Suc.prems [of 0] by simp
  moreover have "x \<noteq> (p + 8) + 8 * of_nat k" if "k < n" for k
    using Suc.prems [of "Suc k"] that by (simp add: algebra_simps)
  ultimately show ?case by (simp add: Suc.IH)
qed

lemma unat_entry: "i < 512 \<Longrightarrow> unat (8 * i :: u64) = 8 * unat i"
  by (subst unat_mult_lem [THEN iffD1]) (simp_all add: word_less_nat_alt)

lemma entry_in_frame: "i < 512 \<Longrightarrow> in_frame t (t + 8 * i)"
  using unat_entry [of i] by (simp add: in_frame_def word_less_nat_alt)

lemma init_empty_page_table_at:
  assumes "i < 512"
  shows "init_empty_page_table pt m (pt + 8 * i) = 0"
  using zero_words_at [of "unat i" 512 pt m] assms
  by (simp add: init_empty_page_table_def pt_consts word_less_nat_alt)

lemma init_empty_page_table_other:
  assumes "\<not> in_frame pt x"
  shows "init_empty_page_table pt m x = m x"
proof -
  have "x \<noteq> pt + 8 * of_nat k" if "k < 512" for k
  proof -
    have "of_nat k < (512 :: u64)"
      using that by (intro of_nat_less_word) simp
    with assms entry_in_frame show ?thesis by blast
  qed
  then show ?thesis
    by (simp add: init_empty_page_table_def pt_consts zero_words_other)
qed

subsection \<open>Entries of different frames are different\<close>

lemma aligned_same_frame:
  assumes "page_aligned a" "page_aligned b" "in_frame a x" "in_frame b x"
  shows "a = b"
proof (cases "x - b \<le> x - a")
  case True
  have "unat (b - a) = unat (x - a) - unat (x - b)"
    using True unat_sub [OF True] by simp
  then have "in_frame a b"
    using assms(3) by (simp add: in_frame_def)
  with assms aligned_in_frame show ?thesis by blast
next
  case False
  then have le: "x - a \<le> x - b" by simp
  have "unat (a - b) = unat (x - b) - unat (x - a)"
    using unat_sub [OF le] by simp
  then have "in_frame b a"
    using assms(4) by (simp add: in_frame_def)
  with assms aligned_in_frame show ?thesis by blast
qed

lemma entry_inject:
  assumes "page_aligned t" "page_aligned u" "i < 512" "j < 512"
  shows "t + 8 * i = u + 8 * j \<longleftrightarrow> t = u \<and> i = j"
proof
  assume eq: "t + 8 * i = u + 8 * j"
  then have "t = u"
    using assms aligned_same_frame entry_in_frame by metis
  with eq have "unat (8 * i) = unat (8 * j)" by simp
  with \<open>t = u\<close> assms show "t = u \<and> i = j"
    by (simp add: unat_entry word_unat_eq_iff)
qed simp

section \<open>Writes to the tree\<close>

text \<open>What a path leads to depends only on the entries along it.\<close>

lemma node_cong:
  assumes "\<And>i p t. suffix (i # p) q \<Longrightarrow> node m r p = Some t \<Longrightarrow> m' (t + 8 * i) = m (t + 8 * i)"
  shows "node m' r q = node m r q"
  using assms
proof (induction q)
  case Nil
  then show ?case by simp
next
  case (Cons i q)
  have "node m' r q = node m r q"
    using Cons.prems by (intro Cons.IH) (auto simp: suffix_Cons)
  with Cons.prems [of i q] show ?case
    by (auto split: option.split)
qed

lemma node_None_suffix: "suffix p q \<Longrightarrow> node m r p = None \<Longrightarrow> node m r q = None"
  by (induction q) (auto simp: suffix_Cons)

lemma valid_path_tl: "valid_path (i # p) \<Longrightarrow> valid_path p"
  by (auto simp: valid_path_def split: if_splits)

lemma valid_path_hd: "valid_path (i # p) \<Longrightarrow> i < 512"
  by (simp add: valid_path_def)

lemma valid_path_suffix: "valid_path q \<Longrightarrow> suffix p q \<Longrightarrow> valid_path p"
  by (induction q) (auto simp: suffix_Cons dest: valid_path_tl)

text \<open>The part of the invariant that concerns the memory alone.\<close>

definition tree_ok :: "(addr \<Rightarrow> u64) \<Rightarrow> addr \<Rightarrow> bool" where
  "tree_ok m r \<longleftrightarrow> (\<forall>p a. valid_path p \<and> node m r p = Some a \<longrightarrow> pt_frame a) \<and>
     (\<forall>p q a. valid_path p \<and> valid_path q \<and> node m r p = Some a \<and> node m r q = Some a \<longrightarrow> p = q)"

lemma tree_okD:
  assumes "tree_ok m r" "valid_path p" "node m r p = Some a"
  shows "pt_frame a" "page_aligned a" "a \<noteq> NULL" "valid_path q \<Longrightarrow> node m r q = Some a \<Longrightarrow> q = p"
  using assms unfolding tree_ok_def pt_frame_def usable_frame_def by blast+

lemma pt_ok_tree:
  "pt_ok s fs \<longleftrightarrow> free_frames s fs \<and> (\<forall>f \<in> set fs. pt_frame f) \<and> tree_ok (pmem s) (cr3 s) \<and>
     (\<forall>p a. valid_path p \<and> node (pmem s) (cr3 s) p = Some a \<longrightarrow> a \<notin> set fs)"
  unfolding pt_ok_def tree_ok_def by blast

text \<open>A frame outside the tree may be written freely.\<close>

definition not_in_tree :: "(addr \<Rightarrow> u64) \<Rightarrow> addr \<Rightarrow> addr \<Rightarrow> bool" where
  "not_in_tree m r f \<longleftrightarrow> (\<forall>q. valid_path q \<longrightarrow> node m r q \<noteq> Some f)"

lemma not_in_treeD: "not_in_tree m r f \<Longrightarrow> valid_path q \<Longrightarrow> node m r q \<noteq> Some f"
  by (simp add: not_in_tree_def)

lemma node_outside:
  assumes "tree_ok m r" "valid_path q" "page_aligned f"
    and "not_in_tree m r f"
    and "\<And>x. \<not> in_frame f x \<Longrightarrow> m' x = m x"
  shows "node m' r q = node m r q"
proof (rule node_cong)
  fix i p t
  assume sf: "suffix (i # p) q" and t: "node m r p = Some t"
  have v: "valid_path (i # p)" "valid_path p"
    using assms(2) sf valid_path_suffix valid_path_tl by blast+
  then have "t \<noteq> f" "page_aligned t"
    using t assms(1) not_in_treeD [OF assms(4)] tree_okD by blast+
  then have "\<not> in_frame f (t + 8 * i)"
    using aligned_same_frame [OF assms(3) \<open>page_aligned t\<close>] entry_in_frame valid_path_hd [OF v(1)] by blast
  then show "m' (t + 8 * i) = m (t + 8 * i)"
    by (rule assms(5))
qed

text \<open>Writing one entry changes what the paths through it lead to, and nothing else.\<close>

lemma entry_unique:
  assumes "tree_ok m r" "valid_path (i # p)" "node m r p = Some t"
    and "valid_path (j # q)" "node m r q = Some u"
  shows "u + 8 * j = t + 8 * i \<longleftrightarrow> j # q = i # p"
proof -
  have v: "valid_path p" "valid_path q" "i < 512" "j < 512"
    using assms valid_path_tl valid_path_hd by blast+
  have "u = t \<longleftrightarrow> q = p"
    using tree_okD(4) [OF assms(1)] assms(3,5) v by (metis option.inject)
  moreover have "page_aligned t" "page_aligned u"
    using tree_okD(2) assms(1,3,5) v by blast+
  ultimately show ?thesis
    using entry_inject v by (metis list.inject)
qed

lemma node_write_other:
  assumes "tree_ok m r" "valid_path (i # p)" "node m r p = Some t"
    and "valid_path q" "\<not> suffix (i # p) q"
  shows "node (m(t + 8 * i := v)) r q = node m r q"
proof (rule node_cong)
  fix j p' u
  assume sf: "suffix (j # p') q" and u: "node m r p' = Some u"
  have "valid_path (j # p')"
    using assms(4) sf valid_path_suffix by blast
  moreover have "j # p' \<noteq> i # p"
    using sf assms(5) by blast
  ultimately have "u + 8 * j \<noteq> t + 8 * i"
    using entry_unique [OF assms(1-3) _ u] by blast
  then show "(m(t + 8 * i := v)) (u + 8 * j) = m (u + 8 * j)" by simp
qed

lemma node_write_here:
  assumes "tree_ok m r" "valid_path (i # p)" "node m r p = Some t"
  shows "node (m(t + 8 * i := v)) r (i # p) = (if pte_present v then Some (pte_target v) else None)"
proof -
  have "node (m(t + 8 * i := v)) r p = node m r p"
    by (rule node_write_other [OF assms]) (use assms valid_path_tl in \<open>auto simp: suffix_def\<close>)
  with assms(3) show ?thesis by simp
qed

text \<open>An entry that is not present can be given any other value that is not present.\<close>

lemma node_write_absent:
  assumes "tree_ok m r" "valid_path (i # p)" "node m r p = Some t" "valid_path q"
    and "node m r (i # p) = None" "\<not> pte_present v"
  shows "node (m(t + 8 * i := v)) r q = node m r q"
proof (cases "suffix (i # p) q")
  case True
  have "node (m(t + 8 * i := v)) r (i # p) = None"
    using node_write_here [OF assms(1-3)] assms(6) by simp
  with True assms(5) node_None_suffix show ?thesis by metis
next
  case False
  with assms node_write_other show ?thesis by blast
qed

subsection \<open>A new table\<close>

definition install_table :: "addr \<Rightarrow> addr \<Rightarrow> (addr \<Rightarrow> u64) \<Rightarrow> addr \<Rightarrow> u64" where
  "install_table ent f m = pte_set_addr ent f (init_empty_page_table f m)"

lemma tree_ok_cong:
  assumes "tree_ok m r" "\<And>q. valid_path q \<Longrightarrow> node m' r q = node m r q"
  shows "tree_ok m' r"
  using assms unfolding tree_ok_def by metis

lemma tree_ok_add:
  assumes "tree_ok m r" "pt_frame f" "not_in_tree m r f"
    and "\<And>q. valid_path q \<Longrightarrow> node m' r q = (if q = k then Some f else node m r q)"
  shows "tree_ok m' r"
  unfolding tree_ok_def
proof (intro conjI allI impI)
  fix p a assume "valid_path p \<and> node m' r p = Some a"
  with assms show "pt_frame a"
    unfolding tree_ok_def not_in_tree_def by (metis option.inject)
next
  fix p q a
  assume "valid_path p \<and> valid_path q \<and> node m' r p = Some a \<and> node m' r q = Some a"
  with assms show "p = q"
    unfolding tree_ok_def not_in_tree_def by (metis option.inject)
qed

lemma install_table_node:
  assumes tree: "tree_ok m r" and v: "valid_path (i # p)" and t: "node m r p = Some t"
    and none: "node m r (i # p) = None"
    and f: "pt_frame f" "not_in_tree m r f"
    and q: "valid_path q"
  shows "node (install_table (t + 8 * i) f m) r q = (if q = i # p then Some f else node m r q)"
proof -
  define m1 where "m1 = init_empty_page_table f m"
  have pa: "page_aligned f" using f(1) by (simp add: pt_frame_def usable_frame_def)
  have n1: "node m1 r q = node m r q" if "valid_path q" for q
    unfolding m1_def
    by (rule node_outside [OF tree that pa f(2)]) (simp_all add: init_empty_page_table_other)
  then have tree1: "tree_ok m1 r" and t1: "node m1 r p = Some t"
    using tree t v valid_path_tl by (auto intro: tree_ok_cong)
  have m': "install_table (t + 8 * i) f m = m1(t + 8 * i := pte_of f)"
    by (simp add: install_table_def pte_set_addr_eq m1_def)
  have here: "node (install_table (t + 8 * i) f m) r (i # p) = Some f"
    unfolding m' using node_write_here [OF tree1 v t1] f(1) by (simp add: pte_target_set)
  have below: "node (install_table (t + 8 * i) f m) r (j # i # p) = None" if "j < 512" for j
  proof -
    have "page_aligned t" "t \<noteq> f"
      using tree_okD(2) [OF tree _ t] not_in_treeD [OF f(2)] t v valid_path_tl by blast+
    then have "f + 8 * j \<noteq> t + 8 * i"
      using entry_inject [OF pa _ that valid_path_hd [OF v]] by blast
    then have "install_table (t + 8 * i) f m (f + 8 * j) = 0"
      using that by (simp add: m' m1_def init_empty_page_table_at)
    then show ?thesis using here by simp
  qed
  show ?thesis
  proof (cases "suffix (i # p) q \<and> q \<noteq> i # p")
    case True
    then obtain ws where "q = ws @ i # p" "ws \<noteq> []"
      by (auto simp: suffix_def)
    then have q': "q = butlast ws @ last ws # i # p"
      by (metis append.assoc append_Cons append_Nil append_butlast_last_id)
    define j where "j = last ws"
    note q' = q' [folded j_def]
    then have "j < 512" using q by (simp add: valid_path_def)
    moreover have "suffix (j # i # p) q" using q' by (simp add: suffix_def)
    ultimately have "node (install_table (t + 8 * i) f m) r q = None"
      using below node_None_suffix by blast
    moreover have "node m r q = None"
      using True none node_None_suffix by blast
    ultimately show ?thesis using True by simp
  next
    case False
    then show ?thesis
      using here n1 [OF q] node_write_other [OF tree1 v t1 q] by (auto simp: m')
  qed
qed

lemma install_table_view:
  assumes tree: "tree_ok m r" and v: "valid_path (i # p)" and t: "node m r p = Some t"
    and none: "node m r (i # p) = None" and short: "length p < 3"
    and f: "pt_frame f" "not_in_tree m r f"
    and q: "valid_path q" "length q = 4"
  shows "view (install_table (t + 8 * i) f m) r q = view m r q"
proof -
  let ?m = "install_table (t + 8 * i) f m"
  obtain j q' where jq: "q = j # q'" using q(2) by (cases q) auto
  have vq: "valid_path q'" "j < 512" using q(1) jq valid_path_tl valid_path_hd by blast+
  note nd = install_table_node [OF tree v t none f]
  have "page_aligned f" using f(1) by (simp add: pt_frame_def usable_frame_def)
  have nq: "node ?m r q = node m r q" "q \<noteq> i # p"
    using nd [OF q(1)] q(2) short by auto
  have al: "page_aligned t" "t \<noteq> f"
    using tree_okD(2) [OF tree _ t] not_in_treeD [OF f(2)] t v valid_path_tl by blast+
  show ?thesis
  proof (cases "q' = i # p")
    case True
    have "f + 8 * j \<noteq> t + 8 * i"
      using entry_inject [OF \<open>page_aligned f\<close> al(1) vq(2) valid_path_hd [OF v]] al(2) by blast
    then have "?m (f + 8 * j) = 0"
      using vq by (simp add: install_table_def pte_set_addr_eq init_empty_page_table_at)
    moreover have "node ?m r q' = Some f" "node m r q' = None"
      using nd [OF vq(1)] none True by simp_all
    ultimately show ?thesis
      using nq by (simp add: view_def jq)
  next
    case False
    have nq': "node ?m r q' = node m r q'"
      using nd [OF vq(1)] False by simp
    show ?thesis
    proof (cases "node m r q'")
      case None
      with nq nq' show ?thesis by (simp add: view_def jq)
    next
      case (Some u)
      have "u + 8 * j \<noteq> t + 8 * i"
        using entry_unique [OF tree v t _ Some, of j] q(1) jq nq(2) by blast
      moreover have "page_aligned u" "u \<noteq> f"
        using tree_okD(2) [OF tree vq(1) Some] not_in_treeD [OF f(2) vq(1)] Some by auto
      then have "\<not> in_frame f (u + 8 * j)"
        using aligned_same_frame [OF \<open>page_aligned f\<close>] entry_in_frame [OF vq(2)] by blast
      ultimately have "?m (u + 8 * j) = m (u + 8 * j)"
        by (simp add: install_table_def pte_set_addr_eq init_empty_page_table_other)
      with Some nq nq' show ?thesis by (simp add: view_def jq)
    qed
  qed
qed

subsection \<open>A leaf\<close>

definition pte_view :: "u64 \<Rightarrow> page_view" where
  "pte_view e = (if pte_present e then Mapped (pte_target e)
     else if pte_demand_allocate e then Demand else Unmapped)"

lemma view_entry:
  assumes "node m r p = Some t"
  shows "view m r (i # p) = pte_view (m (t + 8 * i))"
  using assms by (simp add: view_def pte_view_def)

lemma view_no_table: "node m r p = None \<Longrightarrow> view m r (i # p) = Unmapped"
  by (simp add: view_def)

lemma leaf_write_node:
  assumes "tree_ok m r" "valid_path (i # p)" "node m r p = Some t" "length p = 3" "valid_path q"
  shows "node (m(t + 8 * i := v)) r q =
    (if q = i # p then if pte_present v then Some (pte_target v) else None else node m r q)"
proof (cases "q = i # p")
  case True
  then show ?thesis using node_write_here [OF assms(1-3)] by simp
next
  case False
  have "\<not> suffix (i # p) q"
  proof
    assume "suffix (i # p) q"
    moreover have "length q \<le> length (i # p)" using assms(4,5) by (simp add: valid_path_def)
    ultimately show False using False by (metis suffix_length_le le_antisym suffix_order.eq_iff
      suffix_def append_eq_append_conv self_append_conv2)
  qed
  with False node_write_other [OF assms(1-3,5)] show ?thesis by simp
qed

lemma leaf_write_view:
  assumes "tree_ok m r" "valid_path (i # p)" "node m r p = Some t" "length p = 3"
    and "valid_path q" "length q = 4"
  shows "view (m(t + 8 * i := v)) r q = (if q = i # p then pte_view v else view m r q)"
proof -
  obtain j q' where jq: "q = j # q'" using assms(6) by (cases q) auto
  have vq: "valid_path q'" using assms(5) jq valid_path_tl by blast
  have "q' \<noteq> i # p" using assms(4,6) jq by auto
  then have nq: "node (m(t + 8 * i := v)) r q' = node m r q'"
    using leaf_write_node [OF assms(1-4) vq] by simp
  show ?thesis
  proof (cases "node m r q'")
    case None
    with nq assms(3) show ?thesis by (auto simp: jq view_no_table)
  next
    case (Some u)
    with nq entry_unique [OF assms(1-3) _ Some, of j] assms(5) show ?thesis
      by (auto simp: jq view_entry)
  qed
qed

end
