(* ===== verification/Address_Space.thy ===== *)
theory Address_Space
  imports Paging
begin

text \<open>
  The operations of \<^verbatim>\<open>arch/x86_64/paging.c\<close> as operations on an abstract address space: a map
  from pages of virtual memory to their state (unmapped, marked for demand allocation, or mapped
  to a frame). Each operation keeps the invariant \<open>pt_ok\<close> and changes the state of at most the
  page of its argument, although it may build tables, take free frames and write entries on
  the way.
\<close>

section \<open>Virtual addresses\<close>

text \<open>Addresses outside of the identity mapping, which is the first entry of the root.\<close>

definition kernel_va :: "addr \<Rightarrow> bool" where
  "kernel_va va \<longleftrightarrow> pt_offset_for_depth va 0 \<noteq> 0"

definition same_page :: "addr \<Rightarrow> addr \<Rightarrow> bool" where
  "same_page va vb \<longleftrightarrow> take_bit 36 (drop_bit 12 va) = take_bit 36 (drop_bit 12 vb)"

definition vview :: "('d, 'a) mm_scheme \<Rightarrow> addr \<Rightarrow> page_view" where
  "vview s va = view (pmem s) (cr3 s) (vpath va 4)"

lemma vpath_0 [simp]: "vpath va 0 = []"
  by (simp add: vpath_def)

lemma vpath_Suc [simp]: "vpath va (Suc d) = pt_offset_for_depth va d # vpath va d"
  by (simp add: vpath_def)

lemma length_vpath [simp]: "length (vpath va d) = d"
  by (simp add: vpath_def)

lemma vpath_suffix: "i \<le> j \<Longrightarrow> suffix (vpath va i) (vpath va j)"
  by (induction j) (auto simp: le_Suc_eq suffix_Cons)

lemma vpath_4: "vpath va 4 = pt_offset_for_depth va 3 # vpath va 3"
proof -
  have "vpath va 4 = vpath va (Suc 3)" by simp
  then show ?thesis by (simp only: vpath_Suc)
qed

lemma pt_offset_take_bit:
  "d < 4 \<Longrightarrow> pt_offset_for_depth va d = take_bit 9 (drop_bit (12 + 9 * (3 - d)) va)"
  by (simp add: pt_offset_for_depth_def pt_consts take_bit_eq_mask mask_eq_exp_minus_1)

lemma pt_offset_less: "d < 4 \<Longrightarrow> pt_offset_for_depth va d < 512"
  using take_bit_nat_less_exp [of 9 "unat (drop_bit (12 + 9 * (3 - d)) va)"]
  by (simp add: pt_offset_take_bit word_less_nat_alt unsigned_take_bit_eq)

lemma valid_vpath:
  assumes "kernel_va va" "d \<le> 4"
  shows "valid_path (vpath va d)"
proof -
  have "last (vpath va d) = pt_offset_for_depth va 0" if "d \<noteq> 0"
    using that by (simp add: vpath_def last_rev hd_map)
  then show ?thesis
    using assms pt_offset_less by (auto simp: valid_path_def vpath_def kernel_va_def)
qed

lemma bit_pt_offset:
  "d < 4 \<Longrightarrow> bit (pt_offset_for_depth va d) n \<longleftrightarrow> n < 9 \<and> bit va (12 + 9 * (3 - d) + n)"
  by (auto simp: pt_offset_take_bit bit_take_bit_iff bit_drop_bit_eq)

lemma vpath_eq_iff: "vpath va 4 = vpath vb 4 \<longleftrightarrow> same_page va vb"
proof
  assume eq: "vpath va 4 = vpath vb 4"
  have off: "pt_offset_for_depth va d = pt_offset_for_depth vb d" if "d < 4" for d
    using eq that by (auto simp: vpath_def)
  have "bit va (12 + n) = bit vb (12 + n)" if "n < 36" for n
  proof -
    have d: "3 - n div 9 < 4" "12 + 9 * (3 - (3 - n div 9)) + n mod 9 = 12 + n" "n mod 9 < 9"
      using that by auto
    then show ?thesis
      using off [OF d(1)] bit_pt_offset [OF d(1), of va "n mod 9"] bit_pt_offset [OF d(1), of vb "n mod 9"]
      by (simp add: add.commute)
  qed
  then show "same_page va vb"
    unfolding same_page_def by (intro bit_eqI) (auto simp: bit_take_bit_iff bit_drop_bit_eq)
next
  assume "same_page va vb"
  then have "bit (take_bit 36 (drop_bit 12 va)) n = bit (take_bit 36 (drop_bit 12 vb)) n" for n
    by (simp add: same_page_def)
  then have b: "bit va (12 + n) = bit vb (12 + n)" if "n < 36" for n
    using that unfolding bit_take_bit_iff bit_drop_bit_eq comp_apply by blast
  have "pt_offset_for_depth va d = pt_offset_for_depth vb d" if "d < 4" for d
  proof (rule bit_eqI)
    fix n
    show "bit (pt_offset_for_depth va d) n = bit (pt_offset_for_depth vb d) n"
      using that b [of "9 * (3 - d) + n"] by (auto simp: bit_pt_offset add.assoc)
  qed
  then show "vpath va 4 = vpath vb 4"
    by (auto simp: vpath_def)
qed

section \<open>Walking the tables\<close>

definition walk_result :: "(addr \<Rightarrow> u64) \<Rightarrow> addr \<Rightarrow> addr \<Rightarrow> nat \<Rightarrow> addr \<Rightarrow> bool" where
  "walk_result m r va d e \<longleftrightarrow>
     (d < 4 \<and> (\<exists>t. node m r (vpath va d) = Some t \<and> e = t + 8 * pt_offset_for_depth va d \<and>
        node m r (vpath va (Suc d)) = None)) \<or>
     (d = 4 \<and> (\<exists>f. node m r (vpath va 4) = Some f \<and> e = f + 8 * pt_offset_for_depth va 4))"

lemma entry_not_null:
  assumes "pt_frame t" "i < 512"
  shows "t + 8 * i \<noteq> NULL"
proof
  assume "t + 8 * i = NULL"
  then have "in_frame t NULL"
    using entry_in_frame [OF assms(2), of t] by simp
  then have "NULL = t"
    using assms(1) by (intro aligned_in_frame) (auto simp: pt_frame_def usable_frame_def page_aligned_def)
  with assms(1) show False by (simp add: pt_frame_def usable_frame_def)
qed

text \<open>What the walks start from at depth \<open>i\<close>: the root, or an entry that leads to the table.\<close>

definition at_table :: "('d, 'a) mm_scheme \<Rightarrow> addr \<Rightarrow> nat \<Rightarrow> addr \<Rightarrow> addr \<Rightarrow> bool" where
  "at_table s va i cur t \<longleftrightarrow> node (pmem s) (cr3 s) (vpath va i) = Some t \<and>
     (if cur = NULL then t = cr3 s else pte_target (pmem s cur) = t)"

lemma at_table_next:
  assumes "at_table s va i cur t"
  shows "pt_get_next_pte cur va k s = t + 8 * pt_offset_for_depth va k"
  using assms by (auto simp: at_table_def pt_get_next_pte_def pte_get_addr_eq)

lemma at_table_step:
  assumes "tree_ok (pmem s) (cr3 s)" "kernel_va va" "i < 4" "at_table s va i cur t"
    and "pte_present (pmem s (t + 8 * pt_offset_for_depth va i))"
  shows "at_table s va (Suc i) (t + 8 * pt_offset_for_depth va i)
    (pte_target (pmem s (t + 8 * pt_offset_for_depth va i)))"
proof -
  have "pt_frame t"
    using assms tree_okD(1) valid_vpath [of va i] by (auto simp: at_table_def)
  with assms pt_offset_less entry_not_null show ?thesis
    by (simp add: at_table_def)
qed

lemma pt_walk_loop_spec:
  assumes "tree_ok (pmem s) (cr3 s)" "kernel_va va" "i \<le> 4" "at_table s va i cur t"
  shows "walk_result (pmem s) (cr3 s) va (fst (pt_walk_loop va cur i s)) (snd (pt_walk_loop va cur i s))"
  using assms(3,4)
proof (induction "4 - i" arbitrary: i cur t)
  case 0
  then show ?case
    by (subst (1 2) pt_walk_loop.simps) (auto simp: pt_consts walk_result_def at_table_next at_table_def)
next
  case (Suc n)
  let ?e = "t + 8 * pt_offset_for_depth va i"
  have i: "i < 4" "n = 4 - Suc i" using Suc.hyps by auto
  note nxt = at_table_next [OF Suc.prems(2), of i]
  show ?case
  proof (cases "pte_present (pmem s ?e)")
    case True
    have "pt_walk_loop va cur i s = pt_walk_loop va ?e (Suc i) s"
      using True i by (subst pt_walk_loop.simps) (simp add: pt_consts nxt)
    with Suc.hyps(1) [OF i(2) _ at_table_step [OF assms(1,2) i(1) Suc.prems(2) True]] i
    show ?thesis by simp
  next
    case False
    have "pt_walk_loop va cur i s = (i, ?e)"
      using False i by (subst pt_walk_loop.simps) (simp add: pt_consts nxt)
    with False i Suc.prems show ?thesis
      by (auto simp: walk_result_def at_table_def)
  qed
qed

lemma at_table_root: "at_table s va 0 NULL (cr3 s)"
  by (simp add: at_table_def)

lemma pt_walk_spec:
  assumes "tree_ok (pmem s) (cr3 s)" "kernel_va va" "pt_walk va s = (d, e)"
  shows "walk_result (pmem s) (cr3 s) va d e"
  using pt_walk_loop_spec [OF assms(1,2) _ at_table_root] assms(3) by (simp add: pt_walk_def)

lemma free_walk_spec:
  assumes "tree_ok (pmem s) (cr3 s)" "kernel_va va" "i \<le> 4" "at_table s va i cur t"
  shows "case free_walk va cur i s of
      None \<Rightarrow> node (pmem s) (cr3 s) (vpath va 4) = None
    | Some e \<Rightarrow> (\<exists>u. node (pmem s) (cr3 s) (vpath va 3) = Some u \<and> i < 4 \<and>
        e = u + 8 * pt_offset_for_depth va 3 \<and> pte_present (pmem s e)) \<or> (i = 4 \<and> e = cur)"
  using assms(3,4)
proof (induction "4 - i" arbitrary: i cur t)
  case 0
  then show ?case by (subst free_walk.simps) (simp add: pt_consts)
next
  case (Suc n)
  let ?e = "t + 8 * pt_offset_for_depth va i"
  have i: "i < 4" "n = 4 - Suc i" "Suc i \<le> 4" using Suc.hyps by auto
  note nxt = at_table_next [OF Suc.prems(2), of i]
  show ?case
  proof (cases "pte_present (pmem s ?e)")
    case True
    have eq: "free_walk va cur i s = free_walk va ?e (Suc i) s"
      using True i by (subst free_walk.simps) (simp add: pt_consts nxt)
    have t3: "i = 3 \<Longrightarrow> node (pmem s) (cr3 s) (vpath va 3) = Some t"
      using Suc.prems(2) by (simp add: at_table_def)
    from Suc.hyps(1) [OF i(2) i(3) at_table_step [OF assms(1,2) i(1) Suc.prems(2) True]] t3 i True
    show ?thesis by (auto simp: eq split: option.splits)
  next
    case False
    have "node (pmem s) (cr3 s) (vpath va (Suc i)) = None"
      using False Suc.prems by (simp add: at_table_def)
    moreover have "suffix (vpath va (Suc i)) (vpath va 4)"
      using i(3) by (rule vpath_suffix)
    ultimately have "node (pmem s) (cr3 s) (vpath va 4) = None"
      using node_None_suffix by blast
    moreover have "free_walk va cur i s = None"
      using False i by (subst free_walk.simps) (simp add: pt_consts nxt)
    ultimately show ?thesis by simp
  qed
qed

section \<open>Keeping the invariant\<close>

lemma pt_okD:
  assumes "pt_ok s fs"
  shows "free_frames s fs" "tree_ok (pmem s) (cr3 s)" "f \<in> set fs \<Longrightarrow> pt_frame f"
    "f \<in> set fs \<Longrightarrow> not_in_tree (pmem s) (cr3 s) f"
  using assms unfolding pt_ok_tree not_in_tree_def by blast+

text \<open>The invariant and the views do not depend on the log and the other bookkeeping.\<close>

lemma pt_ok_cong:
  assumes "free_segments s' = free_segments s" "free_segment_head s' = free_segment_head s"
    "free_page_head s' = free_page_head s" "free_page_tail s' = free_page_tail s"
    "pmem s' = pmem s" "cr3 s' = cr3 s"
  shows "pt_ok s' fs = pt_ok s fs"
  using free_frames_cong [of s' s fs] assms by (simp add: pt_ok_def)

lemma klog_mm [simp]:
  "free_segments (klog l f a s) = free_segments s" "free_segment_head (klog l f a s) = free_segment_head s"
  "free_page_head (klog l f a s) = free_page_head s" "free_page_tail (klog l f a s) = free_page_tail s"
  "pmem (klog l f a s) = pmem s" "cr3 (klog l f a s) = cr3 s" "cr2 (klog l f a s) = cr2 s"
  "next_kernel_heap_vaddr (klog l f a s) = next_kernel_heap_vaddr s"
  "next_kernel_thread_stack_vaddr (klog l f a s) = next_kernel_thread_stack_vaddr s"
  "page_table (klog l f a s) = page_table s"
  by (simp_all add: klog_def)

lemma pt_ok_klog [simp]: "pt_ok (klog l f a s) fs = pt_ok s fs"
  by (rule pt_ok_cong) simp_all

lemma vview_klog [simp]: "vview (klog l f a s) = vview s"
  by (simp add: vview_def fun_eq_iff)

text \<open>Taking a free frame leaves it outside of the tree and of the free frames.\<close>

lemma alloc_outside:
  assumes "pt_ok s fs" "MMU_alloc_frame s = (f, s')" "f \<noteq> NULL"
  shows "fs = f # tl fs" "pt_ok s' (tl fs)" "f \<notin> set (tl fs)" "pt_frame f"
    "not_in_tree (pmem s') (cr3 s') f" "pmem s' = pmem s" "cr3 s' = cr3 s"
proof -
  note ff = pt_okD(1) [OF assms(1)]
  obtain gs where fs: "fs = f # gs"
    using mmu.alloc_not_null [OF ff] mmu.alloc_tl(2) [OF ff] assms(2,3) by (cases fs) auto
  then show "fs = f # tl fs" "f \<notin> set (tl fs)"
    using mmu.frames_distinct [OF ff] by auto
  show mem: "pmem s' = pmem s" "cr3 s' = cr3 s"
    using MMU_alloc_frame_pmem [of s] MMU_alloc_frame_frame(1) [of s] assms(2) by auto
  show "pt_frame f" "not_in_tree (pmem s') (cr3 s') f"
    using pt_okD [OF assms(1)] fs mem by auto
  have "free_frames s' gs"
    using free_frames_alloc(2) [of s f gs] ff fs assms(2) by simp
  then show "pt_ok s' (tl fs)"
    using assms(1) fs mem unfolding pt_ok_tree by auto
qed

lemma alloc_none:
  assumes "pt_ok s fs" "MMU_alloc_frame s = (NULL, s')"
  shows "fs = []" "s' = s"
proof -
  note ff = pt_okD(1) [OF assms(1)]
  show "fs = []"
    using mmu.alloc_not_null [OF ff] assms(2) by simp
  then show "s' = s"
    using mmu.alloc_Nil [of s] ff assms(2) by simp
qed

text \<open>Writes to the frames of the tree do not touch the chain of free frames.\<close>

lemma free_frames_tree_write:
  assumes "pt_ok s fs" "\<And>x. m' x \<noteq> pmem s x \<Longrightarrow> (\<exists>t. in_frame t x \<and> page_aligned t \<and> t \<notin> set fs)"
  shows "free_frames (s\<lparr>pmem := m'\<rparr>) fs"
proof (subst free_frames_cong [of _ s])
  fix f assume f: "f \<in> set fs"
  have "page_aligned f"
    using pt_okD(3) [OF assms(1) f] by (simp add: pt_frame_def usable_frame_def)
  then have "f = t" if "in_frame t f" "page_aligned t" for t
    using that aligned_in_frame by blast
  then show "pmem (s\<lparr>pmem := m'\<rparr>) f = pmem s f"
    using assms(2) [of f] f by auto
qed (use pt_okD(1) [OF assms(1)] in simp_all)

section \<open>Demand allocation\<close>

text \<open>One round of the loop of \<open>PT_demand_allocate\<close>.\<close>

lemma pt_ok_install:
  assumes ok: "pt_ok s fs" and f: "pt_frame f" "not_in_tree (pmem s) (cr3 s) f" "f \<notin> set fs"
    and v: "valid_path (i # p)" and t: "node (pmem s) (cr3 s) p = Some t"
    and none: "node (pmem s) (cr3 s) (i # p) = None"
  shows "pt_ok (s\<lparr>pmem := install_table (t + 8 * i) f (pmem s)\<rparr>) fs"
proof -
  let ?m = "install_table (t + 8 * i) f (pmem s)"
  note tree = pt_okD(2) [OF ok]
  note nd = install_table_node [OF tree v t none f(1,2)]
  have vp: "valid_path p" using v valid_path_tl by blast
  have "page_aligned t" "t \<notin> set fs" "page_aligned f"
    using tree_okD(2) [OF tree vp t] pt_okD(4) [OF ok] vp t f(1) not_in_treeD
    by (auto simp: pt_frame_def usable_frame_def)
  then have "free_frames (s\<lparr>pmem := ?m\<rparr>) fs"
    using entry_in_frame [OF valid_path_hd [OF v], of t] f(3)
    by (intro free_frames_tree_write [OF ok])
      (metis install_table_def pte_set_addr_eq fun_upd_apply init_empty_page_table_other)
  moreover have "tree_ok ?m (cr3 s)"
    using tree_ok_add [OF tree f(1,2)] nd by blast
  moreover have "a \<notin> set fs" if "valid_path q" "node ?m (cr3 s) q = Some a" for q a
  proof (cases "q = i # p")
    case True
    with that nd [OF that(1)] f(3) show ?thesis by simp
  next
    case False
    with that nd [OF that(1)] pt_okD(4) [OF ok] not_in_treeD show ?thesis by metis
  qed
  ultimately show ?thesis
    using pt_okD(3) [OF ok] by (auto simp: pt_ok_tree)
qed

text \<open>The loop: it reaches the last table, or runs out of frames; the views stay as they are.\<close>

lemma demand_loop_step:
  assumes "d < 3" "MMU_alloc_frame s = (f, s1)" "f \<noteq> NULL" "ent \<noteq> NULL" "pt_frame f"
    and s3: "s3 = s1\<lparr>pmem := install_table ent f (pmem s1)\<rparr>"
  shows "demand_loop va d ent s = demand_loop va (Suc d) (f + 8 * pt_offset_for_depth va (Suc d)) s3"
proof -
  have "pt_get_next_pte ent va (Suc d) s3 = f + 8 * pt_offset_for_depth va (Suc d)"
    using assms(4,5) by (simp add: pt_get_next_pte_def pte_get_addr_eq s3 install_table_def
        pte_set_addr_eq pte_target_set)
  then show ?thesis
    using assms(1-3) by (subst demand_loop.simps) (simp add: pt_consts s3 install_table_def)
qed

lemma demand_loop_spec:
  assumes "kernel_va va" "pt_ok s fs" "d \<le> 3"
    and "node (pmem s) (cr3 s) (vpath va d) = Some t"
    and "node (pmem s) (cr3 s) (vpath va (Suc d)) = None"
    and "demand_loop va d (t + 8 * pt_offset_for_depth va d) s = (r, s')"
  shows "cr3 s' = cr3 s \<and>
    (\<forall>q. valid_path q \<and> length q = 4 \<longrightarrow> view (pmem s') (cr3 s) q = view (pmem s) (cr3 s) q) \<and>
    (case r of
       None \<Rightarrow> pt_ok s' [] \<and> length fs < 3 - d
     | Some e \<Rightarrow> (\<exists>n \<le> 3 - d. pt_ok s' (drop n fs)) \<and>
         (\<exists>u. node (pmem s') (cr3 s) (vpath va 3) = Some u \<and> e = u + 8 * pt_offset_for_depth va 3 \<and>
            node (pmem s') (cr3 s) (vpath va 4) = None))"
  using assms(2-6)
proof (induction "3 - d" arbitrary: d t s fs)
  case 0
  then have d: "d = 3" by simp
  then have "r = Some (t + 8 * pt_offset_for_depth va 3)" "s' = s"
    using 0 by (auto simp: demand_loop.simps [of va 3] pt_consts)
  moreover have "Suc 3 = 4" by simp
  ultimately show ?case
    using 0 d by auto
next
  case (Suc k)
  let ?i = "pt_offset_for_depth va d"
  have d: "d < 3" "k = 3 - Suc d" "Suc d \<le> 3" using Suc.hyps(2) by auto
  obtain f s1 where al: "MMU_alloc_frame s = (f, s1)" by fastforce
  have v: "valid_path (vpath va (Suc d))" "valid_path (vpath va d)" "valid_path (vpath va (Suc (Suc d)))"
    using d by (intro valid_vpath [OF assms(1)]; simp)+
  show ?case
  proof (cases "f = NULL")
    case True
    then have "fs = []" "s1 = s"
      using alloc_none [OF Suc.prems(1)] al by auto
    moreover have "r = None" "s' = klog KLOG_LEVEL_CRIT ''out of memory'' [] s1"
      using Suc.prems(5) d(1) al True by (auto simp: demand_loop.simps [of va d] pt_consts)
    ultimately show ?thesis using Suc.prems(1) d by simp
  next
    case False
    note a = alloc_outside [OF Suc.prems(1) al False]
    define s3 where "s3 = s1\<lparr>pmem := install_table (t + 8 * ?i) f (pmem s1)\<rparr>"
    have cr: "cr3 s3 = cr3 s" "pmem s3 = install_table (t + 8 * ?i) f (pmem s)"
      using a by (simp_all add: s3_def)
    have tree: "tree_ok (pmem s) (cr3 s)" using pt_okD(2) [OF Suc.prems(1)] .
    have nit: "not_in_tree (pmem s) (cr3 s) f" using a by simp
    note v1 = v(1) [unfolded vpath_Suc] and n1 = Suc.prems(4) [unfolded vpath_Suc]
    note nd = install_table_node [OF tree v1 Suc.prems(3) n1 a(4) nit]
    have ok3: "pt_ok s3 (tl fs)"
      unfolding s3_def using pt_ok_install [OF a(2) a(4,5,3) v1] Suc.prems(3) n1 a(6,7) by simp
    have t3: "node (pmem s3) (cr3 s3) (vpath va (Suc d)) = Some f"
      "node (pmem s3) (cr3 s3) (vpath va (Suc (Suc d))) = None"
      using nd [OF v(1)] nd [OF v(3)] node_None_suffix [OF _ Suc.prems(4), of "vpath va (Suc (Suc d))"]
      by (auto simp: cr suffix_def)
    have "pt_frame t" using tree_okD(1) [OF tree v(2) Suc.prems(3)] .
    then have e: "t + 8 * ?i \<noteq> NULL"
      using entry_not_null pt_offset_less [of d va] d(1) by simp
    have dl: "demand_loop va (Suc d) (f + 8 * pt_offset_for_depth va (Suc d)) s3 = (r, s')"
      using demand_loop_step [OF d(1) al False e a(4) s3_def] Suc.prems(5) by simp
    have vw: "view (pmem s3) (cr3 s) q = view (pmem s) (cr3 s) q" if "valid_path q \<and> length q = 4" for q
      using install_table_view [OF tree v1 Suc.prems(3) n1 _ a(4) nit, of q] that d(1) by (simp add: cr)
    note IH = Suc.hyps(1) [OF d(2) ok3 d(3) t3 dl]
    have dr: "pt_ok s' (drop n (tl fs)) \<Longrightarrow> pt_ok s' (drop (Suc n) fs)" for n
      by (simp add: drop_Suc)
    have len: "length (tl fs) < 3 - Suc d \<Longrightarrow> length fs < 3 - d"
      using a(1) d(1) by (cases fs) auto
    show ?thesis
    proof (cases r)
      case None
      with IH vw len show ?thesis by (simp add: cr)
    next
      case (Some e)
      with IH obtain n where "n \<le> 3 - Suc d" "pt_ok s' (drop n (tl fs))" by auto
      then have "Suc n \<le> 3 - d" "pt_ok s' (drop (Suc n) fs)" using dr d(1) by auto
      with IH vw Some show ?thesis by (auto simp: cr)
    qed
  qed
qed

text \<open>Updating the view of one page.\<close>

definition view_upd :: "('d, 'a) mm_scheme \<Rightarrow> ('d, 'a) mm_scheme \<Rightarrow> addr \<Rightarrow> page_view \<Rightarrow> bool" where
  "view_upd s s' va v \<longleftrightarrow>
     (\<forall>vb. kernel_va vb \<longrightarrow> vview s' vb = (if same_page vb va then v else vview s vb))"

definition view_same :: "('d, 'a) mm_scheme \<Rightarrow> ('d, 'a) mm_scheme \<Rightarrow> bool" where
  "view_same s s' \<longleftrightarrow> (\<forall>vb. kernel_va vb \<longrightarrow> vview s' vb = vview s vb)"

text \<open>Writing the leaf entry of an address.\<close>

lemma leaf_write:
  assumes ok: "pt_ok s fs" and va: "kernel_va va" and t: "node (pmem s) (cr3 s) (vpath va 3) = Some t"
    and e: "e = t + 8 * pt_offset_for_depth va 3"
    and v: "pte_present v \<Longrightarrow> pt_frame (pte_target v) \<and> pte_target v \<notin> set fs \<and>
      not_in_tree (pmem s) (cr3 s) (pte_target v)"
    and m': "m' = (pmem s)(e := v)"
  shows "pt_ok (s\<lparr>pmem := m'\<rparr>) fs" "view_upd s (s\<lparr>pmem := m'\<rparr>) va (pte_view v)"
    "\<And>q. valid_path q \<Longrightarrow> node m' (cr3 s) q =
       (if q = vpath va 4 then if pte_present v then Some (pte_target v) else None
        else node (pmem s) (cr3 s) q)"
proof -
  note tree = pt_okD(2) [OF ok]
  have vp: "valid_path (pt_offset_for_depth va 3 # vpath va 3)" "valid_path (vpath va 3)"
    using valid_vpath [OF va, of 4] valid_vpath [OF va, of 3] by (simp_all add: vpath_4)
  have nd: "node m' (cr3 s) q = (if q = vpath va 4
      then if pte_present v then Some (pte_target v) else None else node (pmem s) (cr3 s) q)"
    if "valid_path q" for q
    using leaf_write_node [OF tree vp(1) t _ that] by (simp add: m' e vpath_4)
  then show "\<And>q. valid_path q \<Longrightarrow> node m' (cr3 s) q =
      (if q = vpath va 4 then if pte_present v then Some (pte_target v) else None
       else node (pmem s) (cr3 s) q)" by blast
  have vw: "view m' (cr3 s) q = (if q = vpath va 4 then pte_view v else view (pmem s) (cr3 s) q)"
    if "valid_path q" "length q = 4" for q
    using leaf_write_view [OF tree vp(1) t _ that] by (simp add: m' e vpath_4)
  show "view_upd s (s\<lparr>pmem := m'\<rparr>) va (pte_view v)"
    unfolding view_upd_def vview_def using vw valid_vpath by (simp add: vpath_eq_iff)
  have "page_aligned t" "t \<notin> set fs"
    using tree_okD(2) [OF tree vp(2) t] pt_okD(4) [OF ok] vp(2) t not_in_treeD by blast+
  moreover have "in_frame t e"
    using entry_in_frame [OF pt_offset_less, of 3 t va] e by simp
  ultimately have "free_frames (s\<lparr>pmem := m'\<rparr>) fs"
    by (intro free_frames_tree_write [OF ok]) (auto simp: m' split: if_splits)
  moreover have "tree_ok m' (cr3 s)"
  proof (cases "pte_present v")
    case True
    show ?thesis
      by (rule tree_ok_add [OF tree, of "pte_target v" _ "vpath va 4"]) (use v [OF True] True nd in auto)
  next
    case False
    with tree nd show ?thesis unfolding tree_ok_def by (metis option.distinct(1))
  qed
  moreover have "a \<notin> set fs" if "valid_path q" "node m' (cr3 s) q = Some a" for q a
    using that nd [OF that(1)] v pt_okD(4) [OF ok] not_in_treeD by (metis option.distinct(1) option.inject)
  ultimately show "pt_ok (s\<lparr>pmem := m'\<rparr>) fs"
    using pt_okD(3) [OF ok] by (auto simp: pt_ok_tree)
qed

lemma walk_view:
  assumes w: "walk_result (pmem s) (cr3 s) va d e"
  shows "d = 4 \<Longrightarrow> \<exists>f. vview s va = Mapped f \<and> e = f + 8 * (va AND 0xFFF)"
    and "d = 3 \<Longrightarrow> \<exists>t. node (pmem s) (cr3 s) (vpath va 3) = Some t \<and>
          e = t + 8 * pt_offset_for_depth va 3 \<and> vview s va = pte_view (pmem s e) \<and>
          \<not> pte_present (pmem s e)"
    and "d < 3 \<Longrightarrow> vview s va = Unmapped"
    and "d \<le> 4"
proof -
  show "d \<le> 4" using w by (auto simp: walk_result_def)
  show "\<exists>f. vview s va = Mapped f \<and> e = f + 8 * (va AND 0xFFF)" if "d = 4"
    using w that by (auto simp: walk_result_def vview_def view_def pt_offset_for_depth_def pt_consts)
  show "\<exists>t. node (pmem s) (cr3 s) (vpath va 3) = Some t \<and> e = t + 8 * pt_offset_for_depth va 3 \<and>
      vview s va = pte_view (pmem s e) \<and> \<not> pte_present (pmem s e)" if "d = 3"
    using w that by (auto simp: walk_result_def vview_def vpath_4 view_entry split: if_splits)
  assume d: "d < 3"
  then have "node (pmem s) (cr3 s) (vpath va (Suc d)) = None"
    using w by (auto simp: walk_result_def)
  with d have "node (pmem s) (cr3 s) (vpath va 3) = None"
    using node_None_suffix vpath_suffix [of "Suc d" 3 va] by auto
  then show "vview s va = Unmapped"
    by (simp add: vview_def vpath_4 view_no_table)
qed

section \<open>The operations on the abstract address space\<close>

lemma PT_demand_allocate_mapped:
  assumes "pt_ok s fs" "kernel_va va" "vview s va = Mapped f"
  shows "PT_demand_allocate va s =
    (- 1, klog KLOG_LEVEL_WARN ''allocation attempted twice on virtual address %p'' [va] s)"
proof -
  obtain d e where w: "pt_walk va s = (d, e)" by fastforce
  note wr = pt_walk_spec [OF pt_okD(2) [OF assms(1)] assms(2) w]
  have "d = 4"
    using walk_view(2,3,4) [OF wr] assms(3) by (cases "d < 3"; cases "d = 3") (auto simp: pte_view_def split: if_splits)
  with w show ?thesis by (simp add: PT_demand_allocate_def pt_consts)
qed

lemma view_upd_same:
  assumes "view_upd s1 s' va v" "view_same s s1" "view_upd s s' va v \<Longrightarrow> P"
  shows P
  using assms unfolding view_upd_def view_same_def by metis

lemma PT_demand_allocate_free:
  assumes ok: "pt_ok s fs" and va: "kernel_va va" and nm: "\<And>f. vview s va \<noteq> Mapped f"
    and eq: "PT_demand_allocate va s = (r, s')"
  shows "cr3 s' = cr3 s"
    and "(r = 0 \<and> (\<exists>n \<le> 3. pt_ok s' (drop n fs)) \<and> view_upd s s' va Demand) \<or>
         (r = - 1 \<and> length fs < 3 \<and> pt_ok s' [] \<and> view_same s s')"
proof -
  obtain d e where w: "pt_walk va s = (d, e)" by fastforce
  note wr = pt_walk_spec [OF pt_okD(2) [OF ok] va w]
  have d: "d \<le> 3"
    using walk_view(1,4) [OF wr] nm by (cases "d = 4") auto
  then obtain t where t: "node (pmem s) (cr3 s) (vpath va d) = Some t" "e = t + 8 * pt_offset_for_depth va d"
      "node (pmem s) (cr3 s) (vpath va (Suc d)) = None"
    using wr by (auto simp: walk_result_def)
  obtain r' s1 where dl: "demand_loop va d e s = (r', s1)" by fastforce
  note D = demand_loop_spec [OF va ok d t(1,3) dl [unfolded t(2)]]
  have same: "view_same s s1"
    using D valid_vpath by (simp add: view_same_def vview_def)
  have eq': "(r, s') = (case r' of None \<Rightarrow> (- 1, s1)
      | Some e \<Rightarrow> (0, s1\<lparr>pmem := (pmem s1)(e := set_bit 9 (pmem s1 e))\<rparr>))"
    using eq w d dl by (simp add: PT_demand_allocate_def pt_consts split: option.splits)
  show "cr3 s' = cr3 s"
    using eq' D by (auto split: option.splits)
  show "(r = 0 \<and> (\<exists>n \<le> 3. pt_ok s' (drop n fs)) \<and> view_upd s s' va Demand) \<or>
      (r = - 1 \<and> length fs < 3 \<and> pt_ok s' [] \<and> view_same s s')"
  proof (cases r')
    case None
    with D eq' same show ?thesis by auto
  next
    case (Some e')
    have cr: "cr3 s1 = cr3 s" using D by blast
    from D Some have "\<exists>n \<le> 3 - d. pt_ok s1 (drop n fs)" by simp
    then obtain n where n: "n \<le> 3" "pt_ok s1 (drop n fs)"
      by (meson diff_le_self le_trans)
    from D Some obtain u where u: "node (pmem s1) (cr3 s1) (vpath va 3) = Some u"
        "e' = u + 8 * pt_offset_for_depth va 3" "node (pmem s1) (cr3 s1) (vpath va 4) = None"
      unfolding cr by auto
    have np: "\<not> pte_present (pmem s1 e')"
      using u by (simp add: vpath_4 split: if_splits)
    let ?v = "set_bit 9 (pmem s1 e')"
    have pv: "pte_view ?v = Demand" using np by (simp add: pte_view_def)
    note L = leaf_write [OF n(2) va u(1,2) _ refl, of ?v]
    have "view_upd s1 s' va Demand" "pt_ok s' (drop n fs)" "r = 0"
      using L(1,2) np eq' Some pv by auto
    then show ?thesis
      using n(1) same by (auto intro: view_upd_same)
  qed
qed

lemma page_fault_walk:
  assumes "pt_ok s fs" "kernel_va (cr2 s)"
    and "\<And>d e. \<lbrakk>pt_walk (cr2 s) s = (d, e); walk_result (pmem s) (cr3 s) (cr2 s) d e\<rbrakk> \<Longrightarrow> P"
  shows P
  using assms pt_walk_spec [OF pt_okD(2) [OF assms(1)] assms(2)] by (cases "pt_walk (cr2 s) s") blast

lemma klog_debug [simp]: "klog KLOG_LEVEL_DEBUG f a s = s"
  by (simp add: klog_def klog_levels)

lemma page_fault_demand:
  assumes ok: "pt_ok s (f # fs)" and va: "kernel_va (cr2 s)" and dem: "vview s (cr2 s) = Demand"
  shows "pt_ok (page_fault_handler irq err a s) fs"
    and "view_upd s (page_fault_handler irq err a s) (cr2 s) (Mapped f)"
    and "cr3 (page_fault_handler irq err a s) = cr3 s"
proof -
  let ?va = "cr2 s" and ?s' = "page_fault_handler irq err a s"
  obtain d e where w: "pt_walk ?va s = (d, e)" and wr: "walk_result (pmem s) (cr3 s) ?va d e"
    using ok va by (rule page_fault_walk)
  have d: "d = 3"
    using walk_view(1,3,4) [OF wr] dem by (cases "d = 4"; cases "d < 3") auto
  from walk_view(2) [OF wr d] dem obtain t where
    t: "node (pmem s) (cr3 s) (vpath ?va 3) = Some t" "e = t + 8 * pt_offset_for_depth ?va 3"
      "pte_demand_allocate (pmem s e)" "\<not> pte_present (pmem s e)"
    by (auto simp: pte_view_def split: if_splits)
  obtain f' s1 where al: "MMU_alloc_frame s = (f', s1)" by fastforce
  have f': "f' = f" "f \<noteq> NULL"
    using mmu.alloc_tl(2) [OF pt_okD(1) [OF ok]] pt_okD(3) [OF ok, of f] al
    by (auto simp: pt_frame_def usable_frame_def)
  note A = alloc_outside [OF ok al [unfolded f'(1)] f'(2)]
  have s': "?s' = s1\<lparr>pmem := (pmem s1)(e := pte_of f)\<rparr>"
    using w d t(3) al f' by (simp add: page_fault_handler_def Let_def pt_consts pte_set_addr_eq)
  have "pt_ok s1 fs" using A(2) by simp
  note L = leaf_write [OF this va _ t(2) _ refl, of "pte_of f"]
  have vp: "pte_view (pte_of f) = Mapped f"
    using A(4) by (simp add: pte_view_def pte_target_set)
  have "pt_ok ?s' fs \<and> view_upd s1 ?s' ?va (Mapped f)"
    unfolding s' vp [symmetric] using L(1,2) t(1) A by (simp add: pte_target_set)
  moreover have "view_same s s1"
    using A by (simp add: view_same_def vview_def)
  ultimately show "pt_ok ?s' fs" "view_upd s ?s' ?va (Mapped f)"
    by (auto elim: view_upd_same)
  show "cr3 ?s' = cr3 s" using s' A by simp
qed

lemma page_fault_other:
  assumes ok: "pt_ok s fs" and va: "kernel_va (cr2 s)" and "vview s (cr2 s) \<noteq> Demand \<or> fs = []"
  shows "\<exists>msg lev. page_fault_handler irq err a s = klog lev msg [] s \<and> lev > KLOG_MIN_LOG_LEVEL"
proof -
  let ?va = "cr2 s"
  obtain d e where w: "pt_walk ?va s = (d, e)" and wr: "walk_result (pmem s) (cr3 s) ?va d e"
    using ok va by (rule page_fault_walk)
  show ?thesis
  proof (cases "d = 3 \<and> pte_demand_allocate (pmem s e)")
    case True
    with walk_view(2) [OF wr] have "vview s ?va = Demand"
      by (auto simp: pte_view_def)
    with assms(3) have "fs = []" by simp
    then have "MMU_alloc_frame s = (NULL, s)"
      using mmu.alloc_Nil [of s] pt_okD(1) [OF ok] by simp
    with True w have "page_fault_handler irq err a s = klog KLOG_LEVEL_CRIT ''out of memory'' [] s"
      by (simp add: page_fault_handler_def Let_def pt_consts)
    moreover have "KLOG_LEVEL_CRIT > KLOG_MIN_LOG_LEVEL" by (simp add: klog_levels)
    ultimately show ?thesis by blast
  next
    case False
    with w have "page_fault_handler irq err a s = klog KLOG_LEVEL_WARN ''invalid page fault'' [] s \<or>
        page_fault_handler irq err a s = klog KLOG_LEVEL_WARN ''unhandled page fault'' [] s"
      by (auto simp: page_fault_handler_def Let_def pt_consts)
    moreover have "KLOG_LEVEL_WARN > KLOG_MIN_LOG_LEVEL" by (simp add: klog_levels)
    ultimately show ?thesis by blast
  qed
qed

lemma PT_free_mapped:
  assumes ok: "pt_ok s fs" and va: "kernel_va va" "va mod PAGE_SIZE = 0" and mp: "vview s va = Mapped f"
    and eq: "PT_free va s = (r, s')"
  shows "r = f" "pt_ok s' fs" "view_upd s s' va Unmapped" "not_in_tree (pmem s') (cr3 s') f"
    "pt_frame f" "f \<notin> set fs" "cr3 s' = cr3 s"
proof -
  note tree = pt_okD(2) [OF ok]
  have v4: "valid_path (vpath va 4)" using valid_vpath [OF va(1)] by simp
  have n4: "node (pmem s) (cr3 s) (vpath va 4) = Some f"
    using mp by (auto simp: vview_def view_def split: option.splits if_splits)
  then obtain e t where e: "free_walk va NULL 0 s = Some e"
    and t: "node (pmem s) (cr3 s) (vpath va 3) = Some t" "e = t + 8 * pt_offset_for_depth va 3"
    using free_walk_spec [OF tree va(1) _ at_table_root] by (cases "free_walk va NULL 0 s") auto
  have tgt: "pte_target (pmem s e) = f"
    using n4 t by (simp add: vpath_4 split: if_splits)
  have "pt_frame t" using tree_okD(1) [OF tree valid_vpath [OF va(1)] t(1)] by simp
  then have "e \<noteq> NULL"
    using entry_not_null pt_offset_less [of 3 va] t(2) by simp
  let ?v = "unset_bit 9 (unset_bit 0 (pmem s e))"
  have "va mod PAGE_SIZE = take_bit 12 va" by (simp add: take_bit_eq_mod PAGE_SIZE_def)
  also have "\<dots> = va AND 0xFFF" by (simp add: take_bit_eq_mask mask_eq_exp_minus_1)
  finally have "va AND 0xFFF = 0" using va(2) by simp
  then have s': "s' = s\<lparr>pmem := (pmem s)(e := ?v)\<rparr>" and r: "r = f"
    using eq va(2) e tgt \<open>e \<noteq> NULL\<close>
    by (auto simp: PT_free_def Let_def pt_get_next_pte_def pte_get_addr_eq pt_offset_for_depth_def pt_consts)
  note L = leaf_write [OF ok va(1) t _ refl, of ?v]
  show "r = f" "cr3 s' = cr3 s" by (simp_all add: r s')
  show "pt_ok s' fs" "view_upd s s' va Unmapped"
    using L(1,2) by (simp_all add: s' pte_view_def)
  show "pt_frame f" "f \<notin> set fs"
    using ok v4 n4 by (auto simp: pt_ok_def)
  show "not_in_tree (pmem s') (cr3 s') f"
    unfolding not_in_tree_def using L(3) tree_okD(4) [OF tree v4 n4] by (auto simp: s')
qed

lemma PT_free_other:
  assumes ok: "pt_ok s fs" and va: "kernel_va va" and nm: "\<And>f. vview s va \<noteq> Mapped f"
  shows "fst (PT_free va s) = NULL" "pt_ok (snd (PT_free va s)) fs" "view_same s (snd (PT_free va s))"
    "cr3 (snd (PT_free va s)) = cr3 s"
proof -
  have "node (pmem s) (cr3 s) (vpath va 4) = None"
    using nm by (cases "node (pmem s) (cr3 s) (vpath va 4)") (auto simp: vview_def view_def)
  then have "free_walk va NULL 0 s = None"
    using free_walk_spec [OF pt_okD(2) [OF ok] va _ at_table_root]
    by (auto simp: vpath_4 split: option.splits)
  then have "PT_free va s \<in> {(NULL, s), (NULL, klog KLOG_LEVEL_WARN ''attempting to free invalid address'' [] s)}"
    by (simp add: PT_free_def)
  with ok show "fst (PT_free va s) = NULL" "pt_ok (snd (PT_free va s)) fs"
    "view_same s (snd (PT_free va s))" "cr3 (snd (PT_free va s)) = cr3 s"
    by (auto simp: view_same_def)
qed

section \<open>Properties\<close>

text \<open>An example: an empty address space with five free frames.\<close>

lemma mm_example_empty: "q \<noteq> [] \<Longrightarrow> node (pmem mm_example) (cr3 mm_example) q = None"
proof (induction q)
  case Nil
  then show ?case by simp
next
  case (Cons i q)
  then show ?case
    by (cases "q = []") (simp_all add: mm_example_def)
qed

lemma mm_example_pt_ok: "pt_ok mm_example [0x1000, 0x2000, 0x3000, 0x4000, 0x5000]"
proof -
  have nd: "node (pmem mm_example) (cr3 mm_example) q = Some a \<longleftrightarrow> q = [] \<and> a = 0x8000" for q a
    using mm_example_empty [of q] by (cases "q = []") (auto simp: mm_example_def)
  show ?thesis
    unfolding pt_ok_def nd
    by (auto simp: mm_example_frames pt_frame_def usable_frame_def page_aligned_def)
qed

lemma kernel_va_example: "kernel_va 0xF0000000000"
  by (simp add: kernel_va_def pt_offset_for_depth_def pt_consts drop_bit_eq_div)

lemma vview_example: "vview mm_example va = Unmapped"
proof -
  have "vpath va 3 \<noteq> []" by (metis length_vpath list.size(3) zero_neq_numeral)
  then have "node (pmem mm_example) (cr3 mm_example) (vpath va 3) = None"
    by (rule mm_example_empty)
  then show ?thesis by (simp add: vview_def vpath_4 view_no_table)
qed

text \<open>C24: \<open>PT_demand_allocate\<close> refines the operation that marks one page of the address space: on
  a page that is not mapped it either marks the page, changing the state of no other page and
  using at most three free frames for tables, or it fails for lack of free frames and changes the
  state of no page; it cannot fail when three frames are free. On a mapped page it fails and
  changes nothing. The invariant of the tables is kept in all cases.\<close>

theorem PT_demand_allocate_correct:
  assumes "pt_ok s fs" "kernel_va va" "PT_demand_allocate va s = (r, s')"
  shows "if \<exists>f. vview s va = Mapped f then r = - 1 \<and> view_same s s' \<and> pt_ok s' fs
    else (r = 0 \<and> view_upd s s' va Demand \<and> (\<exists>n \<le> 3. pt_ok s' (drop n fs))) \<or>
         (r = - 1 \<and> length fs < 3 \<and> view_same s s' \<and> pt_ok s' [])"
proof (cases "\<exists>f. vview s va = Mapped f")
  case True
  then obtain f where "vview s va = Mapped f" by blast
  from PT_demand_allocate_mapped [OF assms(1,2) this] assms True show ?thesis
    by (auto simp: view_same_def)
next
  case False
  with PT_demand_allocate_free(2) [OF assms(1,2) _ assms(3)] show ?thesis by auto
qed

theorem PT_demand_allocate_correct_witness:
  "\<exists>r s'. PT_demand_allocate 0xF0000000000 mm_example = (r, s') \<and> r = 0 \<and>
     vview s' 0xF0000000123 = Demand"
proof -
  obtain r s' where eq: "PT_demand_allocate 0xF0000000000 mm_example = (r, s')" by fastforce
  have "kernel_va 0xF0000000123" "same_page 0xF0000000123 0xF0000000000"
    by (simp_all add: kernel_va_def pt_offset_for_depth_def pt_consts drop_bit_eq_div same_page_def
        take_bit_eq_mod)
  then show ?thesis
    using PT_demand_allocate_correct [OF mm_example_pt_ok kernel_va_example eq] eq
    by (auto simp: vview_example view_upd_def)
qed

text \<open>C25: the page fault handler maps exactly the page that faulted, to the first free frame,
  when that page is marked for demand allocation and a frame is free; on every other fault it only
  writes a message to the log. The invariant is kept, so the frame is mapped nowhere else.\<close>

theorem page_fault_correct:
  assumes "pt_ok s fs" "kernel_va (cr2 s)" "s' = page_fault_handler irq err a s"
  shows "if vview s (cr2 s) = Demand \<and> fs \<noteq> []
    then view_upd s s' (cr2 s) (Mapped (hd fs)) \<and> pt_ok s' (tl fs)
    else view_same s s' \<and> pt_ok s' fs \<and> length (klogs s') = Suc (length (klogs s))"
proof (cases "vview s (cr2 s) = Demand \<and> fs \<noteq> []")
  case True
  then have "fs = hd fs # tl fs" by simp
  with True page_fault_demand [of s "hd fs" "tl fs" irq err a] assms show ?thesis by metis
next
  case False
  then obtain lev msg where s': "s' = klog lev msg [] s" and lev: "lev > KLOG_MIN_LOG_LEVEL"
    using page_fault_other [OF assms(1,2)] assms(3) by metis
  have "length (klogs (klog lev msg [] s)) = Suc (length (klogs s))"
    using lev by (simp add: klog_def)
  with False assms(1) show ?thesis unfolding s' by (auto simp: view_same_def)
qed

theorem page_fault_correct_witness:
  "\<exists>(s :: unit mm) fs. pt_ok s fs \<and> vview s (cr2 s) = Demand \<and>
     vview (page_fault_handler 14 2 NULL s) (cr2 s) = Mapped (hd fs)"
proof -
  obtain r s' where eq: "PT_demand_allocate 0xF0000000000 mm_example = (r, s')" by fastforce
  note F = PT_demand_allocate_free [OF mm_example_pt_ok kernel_va_example _ eq]
  then obtain n where n: "n \<le> 3" "pt_ok s' (drop n [0x1000, 0x2000, 0x3000, 0x4000, 0x5000])"
    and dem: "vview s' 0xF0000000000 = Demand"
    using kernel_va_example by (auto simp: vview_example view_upd_def same_page_def)
  define s where "s = s'\<lparr>cr2 := 0xF0000000000\<rparr>"
  have s: "pt_ok s (drop n [0x1000, 0x2000, 0x3000, 0x4000, 0x5000])" "kernel_va (cr2 s)"
    "vview s (cr2 s) = Demand"
    using n(2) dem pt_ok_cong [of s s'] by (simp_all add: s_def vview_def kernel_va_example)
  moreover have "drop n [0x1000, 0x2000, 0x3000, 0x4000, 0x5000 :: addr] \<noteq> []"
    using n(1) by simp
  ultimately show ?thesis
    using page_fault_correct [OF s(1,2) refl, of 14 2 NULL] s
    by (intro exI [of _ s] exI [of _ "drop n [0x1000, 0x2000, 0x3000, 0x4000, 0x5000]"])
      (auto simp: view_upd_def same_page_def)
qed

text \<open>The translation of an address of a mapped page adds eight times the offset in the page
  to the address of the frame, because the offset is scaled by the size of a table entry. It is the
  physical address for the first byte of a page, and for no other byte.\<close>

theorem PT_addr_virt_to_phys_scaled:
  assumes "pt_ok s fs" "kernel_va va"
  shows "PT_addr_virt_to_phys va s =
    (case vview s va of Mapped f \<Rightarrow> f + 8 * (va AND 0xFFF) | _ \<Rightarrow> NULL)"
proof -
  obtain d e where w: "pt_walk va s = (d, e)" by fastforce
  note wr = pt_walk_spec [OF pt_okD(2) [OF assms(1)] assms(2) w]
  show ?thesis
    using walk_view [OF wr] w
    by (cases "d = 4"; cases "d = 3")
      (auto simp: PT_addr_virt_to_phys_def pt_consts pte_view_def)
qed

theorem PT_addr_virt_to_phys_scaled_witness: "PT_addr_virt_to_phys 0xF0000000000 mm_example = NULL"
  using PT_addr_virt_to_phys_scaled [OF mm_example_pt_ok kernel_va_example]
  by (simp add: vview_example)

end
