(* ===== verification/Virtual_Memory.thy ===== *)
theory Virtual_Memory
  imports Address_Space
begin

text \<open>
  The virtual memory of the kernel, the second half of \<^verbatim>\<open>src/src/mmu.c\<close>: pages of the kernel
  heap and stacks of kernel threads are handed out by increasing and decreasing addresses, marked for
  demand allocation, backed by a frame at the first access, and given back frame by frame.

  The last part is about histories of these operations, of page faults and of stores of the running
  code: the inductive relation \<open>vm_step\<close>.
\<close>

section \<open>Operations\<close>

definition P4_PTE_ADDRESSES :: u64 where "P4_PTE_ADDRESSES = 0x10000000000"
definition MMAP_KERNEL_STACKS_START :: u64 where "MMAP_KERNEL_STACKS_START = P4_PTE_ADDRESSES"
definition MMAP_KERNEL_STACKS_END :: u64 where "MMAP_KERNEL_STACKS_END = 0x2 * P4_PTE_ADDRESSES"
definition MMAP_KERNEL_HEAP_START :: u64 where "MMAP_KERNEL_HEAP_START = 0xF * P4_PTE_ADDRESSES"
definition MMAP_KERNEL_HEAP_END :: u64 where "MMAP_KERNEL_HEAP_END = 0x10 * P4_PTE_ADDRESSES"
definition KERNEL_THREAD_STACK_SIZE_PAGES :: nat where "KERNEL_THREAD_STACK_SIZE_PAGES = 10"

lemmas mmap_consts = P4_PTE_ADDRESSES_def MMAP_KERNEL_STACKS_START_def MMAP_KERNEL_STACKS_END_def
  MMAP_KERNEL_HEAP_START_def MMAP_KERNEL_HEAP_END_def KERNEL_THREAD_STACK_SIZE_PAGES_def

definition MMU_alloc_page :: "('d, 'a) mm_scheme \<Rightarrow> addr \<times> ('d, 'a) mm_scheme" where
  "MMU_alloc_page s =
     (let s = IRQ_disable s
      in if next_kernel_heap_vaddr s = MMAP_KERNEL_HEAP_END
         then (NULL, klog KLOG_LEVEL_EMERG ''out of kernel heap virtual addresses'' [] s)
         else let ret = next_kernel_heap_vaddr s;
                  s = s\<lparr>next_kernel_heap_vaddr := next_kernel_heap_vaddr s + PAGE_SIZE\<rparr>;
                  (_, s) = PT_demand_allocate ret s
              in (ret, IRQ_enable s))"

text \<open>The loop of \<open>MMU_alloc_pages\<close>; the flag says that all pages were allocated.\<close>

fun alloc_more_pages :: "nat \<Rightarrow> ('d, 'a) mm_scheme \<Rightarrow> bool \<times> ('d, 'a) mm_scheme" where
  "alloc_more_pages 0 s = (True, s)"
| "alloc_more_pages (Suc n) s =
     (let (p, s) = MMU_alloc_page s in if p = NULL then (False, s) else alloc_more_pages n s)"

definition MMU_alloc_pages :: "int \<Rightarrow> ('d, 'a) mm_scheme \<Rightarrow> addr \<times> ('d, 'a) mm_scheme" where
  "MMU_alloc_pages num_pages s =
     (if num_pages \<le> 0 then (NULL, s)
      else let s = IRQ_disable s;
               (first_page, s) = MMU_alloc_page s
           in if first_page = NULL then (NULL, s)
              else let (ok, s) = alloc_more_pages (nat (num_pages - 1)) s
                   in if \<not> ok then (NULL, s) else (first_page, IRQ_enable s))"

definition MMU_free_page :: "addr \<Rightarrow> ('d, 'a) mm_scheme \<Rightarrow> ('d, 'a) mm_scheme" where
  "MMU_free_page vaddr s =
     (let (a, s) = PT_free vaddr s in if a \<noteq> NULL then MMU_free_frame a s else s)"

text \<open>The offset \<open>PAGE_SIZE*i\<close> is computed as an \<open>int\<close> in the source; the product below agrees
  with it for every index below \<open>2^19\<close>, that is for blocks of less than 2 GB.\<close>

fun free_pages_loop :: "addr \<Rightarrow> nat list \<Rightarrow> ('d, 'a) mm_scheme \<Rightarrow> ('d, 'a) mm_scheme" where
  "free_pages_loop vaddr [] s = s"
| "free_pages_loop vaddr (i # is) s =
     (let (a, s) = PT_free (vaddr + PAGE_SIZE * of_nat i) s
      in free_pages_loop vaddr is (if a \<noteq> NULL then MMU_free_frame a s else s))"

definition MMU_free_pages :: "addr \<Rightarrow> int \<Rightarrow> ('d, 'a) mm_scheme \<Rightarrow> ('d, 'a) mm_scheme" where
  "MMU_free_pages rvaddr num_pages s = free_pages_loop rvaddr [0..<nat num_pages] s"

fun alloc_stack_loop :: "nat \<Rightarrow> ('d, 'a) mm_scheme \<Rightarrow> ('d, 'a) mm_scheme" where
  "alloc_stack_loop 0 s = s"
| "alloc_stack_loop (Suc n) s =
     (let (_, s) = PT_demand_allocate (next_kernel_thread_stack_vaddr s) s
      in alloc_stack_loop n
           (s\<lparr>next_kernel_thread_stack_vaddr := next_kernel_thread_stack_vaddr s - PAGE_SIZE\<rparr>))"

definition MMU_alloc_stack :: "('d, 'a) mm_scheme \<Rightarrow> addr \<times> ('d, 'a) mm_scheme" where
  "MMU_alloc_stack s =
     (let s = IRQ_disable s
      in if next_kernel_thread_stack_vaddr s = MMAP_KERNEL_HEAP_START
         then (NULL, klog KLOG_LEVEL_EMERG ''out of kernel stacks virtual addresses'' [] s)
         else let ret = next_kernel_thread_stack_vaddr s;
                  s = alloc_stack_loop KERNEL_THREAD_STACK_SIZE_PAGES s
              in (ret, IRQ_enable s))"

definition MMU_free_stack :: "addr \<Rightarrow> ('d, 'a) mm_scheme \<Rightarrow> ('d, 'a) mm_scheme" where
  "MMU_free_stack rvaddr s =
     free_pages_loop (rvaddr - (PAGE_SIZE - 8)) [0..<KERNEL_THREAD_STACK_SIZE_PAGES] s"

section \<open>Memory outside of the tables\<close>

definition not_table :: "(addr \<Rightarrow> u64) \<Rightarrow> addr \<Rightarrow> addr \<Rightarrow> bool" where
  "not_table m r g \<longleftrightarrow> (\<forall>p. valid_path p \<and> length p \<le> 3 \<longrightarrow> node m r p \<noteq> Some g)"

lemma not_in_tree_table: "not_in_tree m r g \<Longrightarrow> not_table m r g"
  by (simp add: not_in_tree_def not_table_def)

text \<open>Writes outside of the tables change neither the tree nor the state of any page.\<close>

lemma entry_untouched:
  assumes "tree_ok m r" "valid_path (i # p)" "node m r p = Some t"
    and "\<And>x. m' x \<noteq> m x \<Longrightarrow> \<exists>g. in_frame g x \<and> page_aligned g \<and> not_table m r g"
  shows "m' (t + 8 * i) = m (t + 8 * i)"
proof (rule ccontr)
  assume "m' (t + 8 * i) \<noteq> m (t + 8 * i)"
  then obtain g where g: "in_frame g (t + 8 * i)" "page_aligned g" "not_table m r g"
    using assms(4) by blast
  have v: "valid_path p" "length p \<le> 3"
    using assms(2) valid_path_tl by (auto simp: valid_path_def)
  have "g = t"
    using g aligned_same_frame tree_okD(2) [OF assms(1) v(1) assms(3)] entry_in_frame
      valid_path_hd [OF assms(2)] by blast
  with g(3) v assms(3) show False by (simp add: not_table_def)
qed

lemma tree_unchanged:
  assumes "tree_ok m r" "\<And>x. m' x \<noteq> m x \<Longrightarrow> \<exists>g. in_frame g x \<and> page_aligned g \<and> not_table m r g"
    and "valid_path q"
  shows "node m' r q = node m r q" and "length q = 4 \<Longrightarrow> view m' r q = view m r q"
proof -
  have n: "node m' r q = node m r q" if "valid_path q" for q
  proof (rule node_cong)
    fix i p t assume "suffix (i # p) q" "node m r p = Some t"
    then show "m' (t + 8 * i) = m (t + 8 * i)"
      using entry_untouched [OF assms(1) _ _ assms(2)] valid_path_suffix that by blast
  qed
  show "node m' r q = node m r q" using assms(3) by (rule n)
  assume "length q = 4"
  then obtain i p where q: "q = i # p" by (cases q) auto
  with assms(3) have "node m' r p = node m r p" "node m' r q = node m r q"
    using n valid_path_tl by blast+
  then show "view m' r q = view m r q"
    using entry_untouched [OF assms(1) _ _ assms(2), of i p] assms(3)
    by (cases "node m r p") (auto simp: view_def q split: option.splits)
qed

section \<open>Each operation keeps the invariant\<close>

lemma vview_cong: "pmem s' = pmem s \<Longrightarrow> cr3 s' = cr3 s \<Longrightarrow> vview s' = vview s"
  by (rule ext) (simp add: vview_def)

lemma MMU_free_frame_writes:
  assumes "free_frames s fs" "pmem (MMU_free_frame a s) x \<noteq> pmem s x"
  shows "x = a \<or> x \<in> set fs"
proof -
  obtain xs ls where ls: "flist (pmem s) (free_page_head s) ls" "ls \<noteq> [] \<longrightarrow> free_page_tail s = last ls"
      "fs = xs @ ls"
    using assms(1) unfolding free_frames_def by blast
  have "free_page_head s \<noteq> NULL \<Longrightarrow> free_page_tail s \<in> set fs"
    using ls by (cases ls) auto
  then show ?thesis
    using assms(2) by (auto simp: MMU_free_frame_def Let_def split: if_splits)
qed

lemma MMU_free_frame_frame [simp]:
  "cr3 (MMU_free_frame a s) = cr3 s" "irq_semaphore (MMU_free_frame a s) = irq_semaphore s"
  "int_flag (MMU_free_frame a s) = int_flag s" "handlers (MMU_free_frame a s) = handlers s"
  "next_kernel_heap_vaddr (MMU_free_frame a s) = next_kernel_heap_vaddr s"
  "next_kernel_thread_stack_vaddr (MMU_free_frame a s) = next_kernel_thread_stack_vaddr s"
  by (simp_all add: MMU_free_frame_def Let_def)

lemma pt_ok_free_frame:
  assumes ok: "pt_ok s fs" and a: "pt_frame a" "a \<notin> set fs" "not_in_tree (pmem s) (cr3 s) a"
  shows "pt_ok (MMU_free_frame a s) (fs @ [a])" "view_same s (MMU_free_frame a s)"
proof -
  let ?m = "pmem (MMU_free_frame a s)"
  note tree = pt_okD(2) [OF ok]
  have outside: "\<exists>g. in_frame g x \<and> page_aligned g \<and> not_table (pmem s) (cr3 s) g"
    if "?m x \<noteq> pmem s x" for x
  proof -
    have "x = a \<or> x \<in> set fs"
      using MMU_free_frame_writes [OF pt_okD(1) [OF ok] that] .
    then have "not_in_tree (pmem s) (cr3 s) x" "pt_frame x"
      using a pt_okD(3,4) [OF ok] by auto
    moreover have "in_frame x x" by (simp add: in_frame_def)
    ultimately show ?thesis
      using not_in_tree_table by (auto simp: pt_frame_def usable_frame_def)
  qed
  have same: "node ?m (cr3 s) q = node (pmem s) (cr3 s) q"
      "length q = 4 \<Longrightarrow> view ?m (cr3 s) q = view (pmem s) (cr3 s) q" if "valid_path q" for q
    using tree_unchanged [OF tree _ that] outside by blast+
  have "free_frames (MMU_free_frame a s) (fs @ [a])"
    using a pt_okD(1) [OF ok] by (intro free_frames_free) (auto simp: pt_frame_def)
  moreover have "tree_ok ?m (cr3 s)"
    using tree same(1) by (auto intro: tree_ok_cong)
  moreover have "x \<notin> set (fs @ [a])" if "valid_path q" "node ?m (cr3 s) q = Some x" for q x
    using that same(1) [OF that(1)] a(3) pt_okD(4) [OF ok, of x] by (auto simp: not_in_tree_def)
  moreover have "\<forall>f \<in> set (fs @ [a]). pt_frame f"
    using a(1) pt_okD(3) [OF ok] by auto
  ultimately show "pt_ok (MMU_free_frame a s) (fs @ [a])"
    unfolding pt_ok_tree MMU_free_frame_frame by blast
  show "view_same s (MMU_free_frame a s)"
    using same(2) valid_vpath by (simp add: view_same_def vview_def)
qed

lemma view_upd_trans:
  assumes "view_upd s s1 va v" "view_same s1 s2"
  shows "view_upd s s2 va v"
  using assms by (simp add: view_upd_def view_same_def)

text \<open>Freeing a page gives its frame back, and takes the page out of the address space.\<close>

lemma MMU_free_page_cases:
  assumes ok: "pt_ok s fs" and va: "kernel_va va"
  shows "(\<exists>f. vview s va = Mapped f \<and> va mod PAGE_SIZE = 0 \<and> pt_ok (MMU_free_page va s) (fs @ [f]) \<and>
            view_upd s (MMU_free_page va s) va Unmapped) \<or>
         (\<not> (va mod PAGE_SIZE = 0 \<and> (\<exists>f. vview s va = Mapped f)) \<and>
            pt_ok (MMU_free_page va s) fs \<and> view_same s (MMU_free_page va s))"
proof (cases "va mod PAGE_SIZE = 0 \<and> (\<exists>f. vview s va = Mapped f)")
  case True
  then obtain f where f: "vview s va = Mapped f" by blast
  obtain r s1 where eq: "PT_free va s = (r, s1)" by fastforce
  note P = PT_free_mapped [OF ok va _ f eq]
  have "f \<noteq> NULL" using P(5) True by (simp add: pt_frame_def usable_frame_def)
  then have s': "MMU_free_page va s = MMU_free_frame f s1"
    using P(1) True eq by (simp add: MMU_free_page_def)
  show ?thesis
    using pt_ok_free_frame [of s1 fs f] P True f view_upd_trans unfolding s' by metis
next
  case False
  have "PT_free va s = (NULL, klog KLOG_LEVEL_WARN ''attempting to free invalid address'' [] s)"
    if "va mod PAGE_SIZE \<noteq> 0"
    using that by (simp add: PT_free_def)
  moreover have "fst (PT_free va s) = NULL \<and> pt_ok (snd (PT_free va s)) fs \<and>
      view_same s (snd (PT_free va s))" if "va mod PAGE_SIZE = 0"
    using PT_free_other [OF ok va] False that by blast
  ultimately have "fst (PT_free va s) = NULL \<and> pt_ok (snd (PT_free va s)) fs \<and>
      view_same s (snd (PT_free va s))"
    using ok by (cases "va mod PAGE_SIZE = 0") (auto simp: view_same_def)
  then show ?thesis
    using False by (auto simp: MMU_free_page_def split: prod.split)
qed

definition vm_ok :: "('d, 'a) mm_scheme \<Rightarrow> bool" where
  "vm_ok s \<longleftrightarrow> (\<exists>fs. pt_ok s fs)"

lemma PT_demand_allocate_vm:
  assumes "vm_ok s" "kernel_va va"
  shows "vm_ok (snd (PT_demand_allocate va s))"
proof -
  obtain fs where ok: "pt_ok s fs" using assms(1) by (auto simp: vm_ok_def)
  obtain r s' where eq: "PT_demand_allocate va s = (r, s')" by fastforce
  show ?thesis
  proof (cases "\<exists>f. vview s va = Mapped f")
    case True
    with PT_demand_allocate_mapped [OF ok assms(2)] ok show ?thesis by (auto simp: vm_ok_def)
  next
    case False
    with PT_demand_allocate_free(2) [OF ok assms(2) _ eq] eq show ?thesis by (auto simp: vm_ok_def)
  qed
qed

lemma vm_ok_cong:
  assumes "free_segments s' = free_segments s" "free_segment_head s' = free_segment_head s"
    "free_page_head s' = free_page_head s" "free_page_tail s' = free_page_tail s"
    "pmem s' = pmem s" "cr3 s' = cr3 s"
  shows "vm_ok s' = vm_ok s"
  using pt_ok_cong [OF assms] by (simp add: vm_ok_def)

lemma IRQ_mm [simp]:
  "free_segments (IRQ_disable s) = free_segments s" "free_segment_head (IRQ_disable s) = free_segment_head s"
  "free_page_head (IRQ_disable s) = free_page_head s" "free_page_tail (IRQ_disable s) = free_page_tail s"
  "pmem (IRQ_disable s) = pmem s" "cr3 (IRQ_disable s) = cr3 s"
  "next_kernel_heap_vaddr (IRQ_disable s) = next_kernel_heap_vaddr s"
  "next_kernel_thread_stack_vaddr (IRQ_disable s) = next_kernel_thread_stack_vaddr s"
  "free_segments (IRQ_enable s) = free_segments s" "free_segment_head (IRQ_enable s) = free_segment_head s"
  "free_page_head (IRQ_enable s) = free_page_head s" "free_page_tail (IRQ_enable s) = free_page_tail s"
  "pmem (IRQ_enable s) = pmem s" "cr3 (IRQ_enable s) = cr3 s"
  "next_kernel_heap_vaddr (IRQ_enable s) = next_kernel_heap_vaddr s"
  "next_kernel_thread_stack_vaddr (IRQ_enable s) = next_kernel_thread_stack_vaddr s"
  by (simp_all add: IRQ_disable_def IRQ_enable_def Let_def)

lemma vm_ok_simps [simp]:
  "vm_ok (IRQ_disable s) = vm_ok s" "vm_ok (IRQ_enable s) = vm_ok s" "vm_ok (klog l f a s) = vm_ok s"
  "vm_ok (s\<lparr>next_kernel_heap_vaddr := v\<rparr>) = vm_ok s"
  "vm_ok (s\<lparr>next_kernel_thread_stack_vaddr := v\<rparr>) = vm_ok s" "vm_ok (s\<lparr>cr2 := v\<rparr>) = vm_ok s"
  by (rule vm_ok_cong; simp)+

text \<open>Demand allocation leaves the cursors, the interrupt state, and the state of the components
  above this one alone.\<close>

lemma MMU_alloc_frame_handlers [simp]: "handlers (snd (MMU_alloc_frame s)) = handlers s"
  by (simp add: MMU_alloc_frame_def Let_def split: option.split)

lemma mm_more [simp]:
  "mm.more (klog l f a s) = mm.more s" "mm.more (snd (MMU_alloc_frame s)) = mm.more s"
  "mm.more (MMU_free_frame b s) = mm.more s" "mm.more (IRQ_disable s) = mm.more s"
  "mm.more (IRQ_enable s) = mm.more s"
  by (simp_all add: klog_def MMU_alloc_frame_def MMU_free_frame_def IRQ_disable_def IRQ_enable_def
      Let_def split: option.split)

definition same_cursors :: "('d, 'a) mm_scheme \<Rightarrow> ('d, 'a) mm_scheme \<Rightarrow> bool" where
  "same_cursors s s' \<longleftrightarrow> next_kernel_heap_vaddr s' = next_kernel_heap_vaddr s \<and>
     next_kernel_thread_stack_vaddr s' = next_kernel_thread_stack_vaddr s \<and>
     irq_semaphore s' = irq_semaphore s \<and> int_flag s' = int_flag s \<and> handlers s' = handlers s \<and> mm.more s' = mm.more s"

lemma same_cursors_refl [simp]: "same_cursors s s"
  by (simp add: same_cursors_def)

lemma same_cursors_trans: "same_cursors s s1 \<Longrightarrow> same_cursors s1 s2 \<Longrightarrow> same_cursors s s2"
  by (simp add: same_cursors_def)

lemma same_cursors_simps [simp]:
  "same_cursors s (klog l f a s') = same_cursors s s'"
  "same_cursors s (s'\<lparr>pmem := m\<rparr>) = same_cursors s s'"
  "same_cursors s (snd (MMU_alloc_frame s))"
  "same_cursors s (MMU_free_frame b s') = same_cursors s s'"
  by (simp_all add: same_cursors_def)

lemma alloc_cursors: "MMU_alloc_frame s = (f, s') \<Longrightarrow> same_cursors s s'"
  using same_cursors_simps(3) [of s] by simp

lemma demand_loop_cursors: "same_cursors s (snd (demand_loop va d e s))"
proof (induction "3 - d" arbitrary: d e s)
  case 0
  then show ?case by (subst demand_loop.simps) (simp add: pt_consts)
next
  case (Suc n)
  obtain f s1 where al: "MMU_alloc_frame s = (f, s1)" by fastforce
  then have c: "same_cursors s s1" using same_cursors_simps(3) [of s] by simp
  have d: "d < 3" "n = 3 - Suc d" using Suc.hyps(2) by auto
  define s3 where "s3 = s1\<lparr>pmem := pte_set_addr e f (init_empty_page_table f (pmem s1))\<rparr>"
  have c3: "same_cursors s s3"
    using c by (simp add: s3_def same_cursors_def)
  show ?case
  proof (cases "f = NULL")
    case True
    with al d c show ?thesis
      by (subst demand_loop.simps) (auto simp: pt_consts)
  next
    case False
    with al d have "demand_loop va d e s = demand_loop va (Suc d) (pt_get_next_pte e va (Suc d) s3) s3"
      by (subst demand_loop.simps) (simp add: pt_consts s3_def Let_def)
    with Suc.hyps(1) [OF d(2)] c3 same_cursors_trans show ?thesis by metis
  qed
qed

lemma PT_demand_allocate_cursors: "same_cursors s (snd (PT_demand_allocate va s))"
proof -
  obtain d e where w: "pt_walk va s = (d, e)" by fastforce
  obtain r s1 where dl: "demand_loop va d e s = (r, s1)" by fastforce
  then have "same_cursors s s1" using demand_loop_cursors [of s va d e] by simp
  with w dl show ?thesis
    by (auto simp: PT_demand_allocate_def split: option.splits)
qed

section \<open>The areas of the address space\<close>

lemma kernel_va_range:
  assumes "2 ^ 39 \<le> unat a" "unat a < 2 ^ 48"
  shows "kernel_va a"
proof -
  have "unat (pt_offset_for_depth a 0) = take_bit 9 (drop_bit 39 (unat a))"
    using assms(2) by (simp add: pt_offset_take_bit unsigned_take_bit_eq unsigned_drop_bit_eq
        take_bit_nat_eq_self)
  also have "\<dots> = unat a div 2 ^ 39 mod 512"
    by (simp add: take_bit_eq_mod drop_bit_eq_div)
  also have "\<dots> = unat a div 2 ^ 39"
    using assms(2) by (intro mod_less) (simp add: div_less_iff_less_mult)
  also have "\<dots> \<noteq> 0"
    using assms(1) by (simp add: div_eq_0_iff not_less)
  finally show ?thesis
    by (auto simp: kernel_va_def)
qed

text \<open>The cursors: the heap grows upwards through its area, the stacks downwards through theirs.\<close>

definition heap_cursor :: "('d, 'a) mm_scheme \<Rightarrow> bool" where
  "heap_cursor s \<longleftrightarrow> (\<exists>n \<le> 2 ^ 28. next_kernel_heap_vaddr s = MMAP_KERNEL_HEAP_START + of_nat n * PAGE_SIZE)"

definition stack_room :: "('d, 'a) mm_scheme \<Rightarrow> bool" where
  "stack_room s \<longleftrightarrow> unat MMAP_KERNEL_STACKS_START + 0xA000 \<le> unat (next_kernel_thread_stack_vaddr s) \<and>
     unat (next_kernel_thread_stack_vaddr s) < unat MMAP_KERNEL_STACKS_END"

lemma unat_heap_addr:
  assumes "n \<le> 2 ^ 28"
  shows "unat (MMAP_KERNEL_HEAP_START + of_nat n * PAGE_SIZE) = 0xF0000000000 + n * 0x1000"
proof -
  have "MMAP_KERNEL_HEAP_START + of_nat n * PAGE_SIZE = of_nat (0xF0000000000 + n * 0x1000)"
    by (simp add: mmap_consts PAGE_SIZE_def)
  moreover have "0xF0000000000 + n * 0x1000 < 2 ^ 64"
    using assms by simp
  ultimately show ?thesis
    by (simp only: unat_of_nat) (simp add: mod_less)
qed

lemma heap_cursor_next:
  assumes "heap_cursor s" "next_kernel_heap_vaddr s \<noteq> MMAP_KERNEL_HEAP_END"
  shows "kernel_va (next_kernel_heap_vaddr s)" "next_kernel_heap_vaddr s \<noteq> NULL"
    "heap_cursor (s\<lparr>next_kernel_heap_vaddr := next_kernel_heap_vaddr s + PAGE_SIZE\<rparr>)"
proof -
  obtain n where n: "n \<le> 2 ^ 28" "next_kernel_heap_vaddr s = MMAP_KERNEL_HEAP_START + of_nat n * PAGE_SIZE"
    using assms(1) by (auto simp: heap_cursor_def)
  then have u: "unat (next_kernel_heap_vaddr s) = 0xF0000000000 + n * 0x1000"
    by (simp add: unat_heap_addr)
  then show "kernel_va (next_kernel_heap_vaddr s)" "next_kernel_heap_vaddr s \<noteq> NULL"
    using n(1) by (auto intro: kernel_va_range)
  have "n \<noteq> 2 ^ 28"
  proof
    assume "n = 2 ^ 28"
    with u have "unat (next_kernel_heap_vaddr s) = unat MMAP_KERNEL_HEAP_END"
      by (simp add: mmap_consts)
    with assms(2) show False by (simp add: word_unat_eq_iff)
  qed
  with n show "heap_cursor (s\<lparr>next_kernel_heap_vaddr := next_kernel_heap_vaddr s + PAGE_SIZE\<rparr>)"
    by (auto simp: heap_cursor_def algebra_simps intro!: exI [of _ "Suc n"])
qed

lemma stack_va:
  assumes "stack_room s" "n < 10"
  shows "kernel_va (next_kernel_thread_stack_vaddr s - of_nat n * PAGE_SIZE)"
proof -
  let ?a = "next_kernel_thread_stack_vaddr s"
  have r: "0x10000000000 + 0xA000 \<le> unat ?a" "unat ?a < 0x20000000000"
    using assms(1) by (simp_all add: stack_room_def mmap_consts)
  have "unat (of_nat n * PAGE_SIZE) = n * 0x1000"
    using assms(2) by (simp add: PAGE_SIZE_def unat_word_ariths unat_of_nat)
  then have "unat (?a - of_nat n * PAGE_SIZE) = unat ?a - n * 0x1000"
    using assms(2) r by (simp add: unat_sub_if')
  then show ?thesis
    using assms(2) r by (intro kernel_va_range) auto
qed

section \<open>Histories\<close>

definition vm_inv :: "('d, 'a) mm_scheme \<Rightarrow> bool" where
  "vm_inv s \<longleftrightarrow> vm_ok s \<and> heap_cursor s"

text \<open>
  One step of the kernel as far as virtual memory is concerned: an allocation of heap pages or of
  a stack, giving pages back, a fault at an address, or a store of the running code to a mapped page.
  A stack is allocated while its area has room: the code does not test this (its guard compares
  with an address the cursor never takes).
\<close>

inductive vm_step :: "('d, 'a) mm_scheme \<Rightarrow> ('d, 'a) mm_scheme \<Rightarrow> bool" where
  Alloc_page: "vm_step s (snd (MMU_alloc_page s))"
| Alloc_pages: "vm_step s (snd (MMU_alloc_pages n s))"
| Alloc_stack: "stack_room s \<Longrightarrow> vm_step s (snd (MMU_alloc_stack s))"
| Free_page: "kernel_va va \<Longrightarrow> vm_step s (MMU_free_page va s)"
| Free_pages: "(\<And>i. i < nat n \<Longrightarrow> kernel_va (va + PAGE_SIZE * of_nat i)) \<Longrightarrow> vm_step s (MMU_free_pages va n s)"
| Free_stack: "(\<And>i. i < 10 \<Longrightarrow> kernel_va (va - (PAGE_SIZE - 8) + PAGE_SIZE * of_nat i)) \<Longrightarrow>
     vm_step s (MMU_free_stack va s)"
| Fault: "kernel_va va \<Longrightarrow> vm_step s (page_fault_handler 14 err NULL (s\<lparr>cr2 := va\<rparr>))"
| Store: "\<lbrakk>kernel_va va; vview s va = Mapped f; i < 512\<rbrakk> \<Longrightarrow>
     vm_step s (s\<lparr>pmem := (pmem s)(f + 8 * i := v)\<rparr>)"

lemma heap_cursor_cong:
  "next_kernel_heap_vaddr s' = next_kernel_heap_vaddr s \<Longrightarrow> heap_cursor s' = heap_cursor s"
  by (simp add: heap_cursor_def)

lemma heap_cursor_simps [simp]:
  "heap_cursor (IRQ_disable s) = heap_cursor s" "heap_cursor (IRQ_enable s) = heap_cursor s"
  "heap_cursor (klog l f a s) = heap_cursor s"
  by (rule heap_cursor_cong; simp)+

lemma MMU_alloc_page_inv:
  assumes "vm_inv s"
  shows "vm_inv (snd (MMU_alloc_page s))"
proof (cases "next_kernel_heap_vaddr s = MMAP_KERNEL_HEAP_END")
  case True
  with assms show ?thesis
    by (simp add: MMU_alloc_page_def vm_inv_def)
next
  case False
  define ret where "ret = next_kernel_heap_vaddr s"
  define s1 where "s1 = (IRQ_disable s)\<lparr>next_kernel_heap_vaddr := ret + PAGE_SIZE\<rparr>"
  note H = heap_cursor_next [OF _ False]
  have "vm_ok s1" "heap_cursor s1"
    using assms H(3) heap_cursor_cong [of s1 "s\<lparr>next_kernel_heap_vaddr := ret + PAGE_SIZE\<rparr>"]
    by (simp_all add: vm_inv_def s1_def ret_def)
  moreover have "snd (MMU_alloc_page s) = IRQ_enable (snd (PT_demand_allocate ret s1))"
    using False by (simp add: MMU_alloc_page_def Let_def s1_def ret_def split: prod.split)
  ultimately show ?thesis
    using PT_demand_allocate_vm [of s1 ret] PT_demand_allocate_cursors [of s1 ret] H(1) assms
      heap_cursor_cong [of "snd (PT_demand_allocate ret s1)" s1]
    by (simp add: vm_inv_def same_cursors_def ret_def)
qed

lemma alloc_more_pages_inv: "vm_inv s \<Longrightarrow> vm_inv (snd (alloc_more_pages n s))"
proof (induction n arbitrary: s)
  case 0
  then show ?case by simp
next
  case (Suc n)
  then have "vm_inv (snd (MMU_alloc_page s))" by (intro MMU_alloc_page_inv)
  with Suc.IH show ?case by (auto split: prod.split)
qed

lemma vm_inv_irq [simp]: "vm_inv (IRQ_disable s) = vm_inv s" "vm_inv (IRQ_enable s) = vm_inv s"
  by (simp_all add: vm_inv_def)

lemma MMU_alloc_pages_inv:
  assumes "vm_inv s"
  shows "vm_inv (snd (MMU_alloc_pages n s))"
proof -
  have "vm_inv (snd (MMU_alloc_page (IRQ_disable s)))"
    using assms by (intro MMU_alloc_page_inv) simp
  with assms alloc_more_pages_inv [of "snd (MMU_alloc_page (IRQ_disable s))" "nat (n - 1)"]
  show ?thesis by (auto simp: MMU_alloc_pages_def split: prod.split)
qed

lemma heap_cursor_same: "same_cursors s s' \<Longrightarrow> heap_cursor s \<Longrightarrow> heap_cursor s'"
  by (simp add: same_cursors_def heap_cursor_def)

lemma alloc_stack_loop_inv:
  assumes "vm_inv s" "\<And>k. k < n \<Longrightarrow> kernel_va (next_kernel_thread_stack_vaddr s - of_nat k * PAGE_SIZE)"
  shows "vm_inv (alloc_stack_loop n s)"
  using assms
proof (induction n arbitrary: s)
  case 0
  then show ?case by simp
next
  case (Suc n)
  let ?va = "next_kernel_thread_stack_vaddr s"
  obtain r s1 where eq: "PT_demand_allocate ?va s = (r, s1)" by fastforce
  define s2 where "s2 = s1\<lparr>next_kernel_thread_stack_vaddr := next_kernel_thread_stack_vaddr s1 - PAGE_SIZE\<rparr>"
  have "kernel_va ?va" using Suc.prems(2) [of 0] by simp
  then have "vm_ok s1" "same_cursors s s1"
    using PT_demand_allocate_vm [of s ?va] PT_demand_allocate_cursors [of s ?va] Suc.prems(1) eq
    by (auto simp: vm_inv_def)
  then have "vm_inv s2" "next_kernel_thread_stack_vaddr s2 = ?va - PAGE_SIZE"
    using Suc.prems(1) by (auto simp: vm_inv_def s2_def same_cursors_def heap_cursor_def)
  moreover have "kernel_va (?va - PAGE_SIZE - of_nat k * PAGE_SIZE)" if "k < n" for k
    using Suc.prems(2) [of "Suc k"] that by (simp add: algebra_simps)
  ultimately have "vm_inv (alloc_stack_loop n s2)"
    using Suc.IH by simp
  then show ?case
    by (simp add: s2_def eq)
qed

lemma MMU_alloc_stack_inv:
  assumes "vm_inv s" "stack_room s"
  shows "vm_inv (snd (MMU_alloc_stack s))"
proof -
  have "vm_inv (alloc_stack_loop KERNEL_THREAD_STACK_SIZE_PAGES (IRQ_disable s))"
    using assms stack_va by (intro alloc_stack_loop_inv) (simp_all add: mmap_consts)
  with assms show ?thesis
    by (simp add: MMU_alloc_stack_def Let_def vm_inv_def)
qed

lemma PT_free_cursors: "same_cursors s (snd (PT_free va s))"
  by (auto simp: PT_free_def Let_def split: option.split)

lemma MMU_free_page_inv:
  assumes "vm_inv s" "kernel_va va"
  shows "vm_inv (MMU_free_page va s)"
proof -
  obtain fs where "pt_ok s fs" using assms(1) by (auto simp: vm_inv_def vm_ok_def)
  then have "vm_ok (MMU_free_page va s)"
    using MMU_free_page_cases [OF _ assms(2)] by (auto simp: vm_ok_def)
  moreover have "same_cursors s (MMU_free_page va s)"
    using PT_free_cursors [of s va] by (auto simp: MMU_free_page_def split: prod.split)
  ultimately show ?thesis
    using assms(1) heap_cursor_same by (auto simp: vm_inv_def)
qed

lemma free_pages_loop_Cons:
  "free_pages_loop va (i # is) s = free_pages_loop va is (MMU_free_page (va + PAGE_SIZE * of_nat i) s)"
  by (simp add: MMU_free_page_def split: prod.split)

lemma free_pages_loop_inv:
  assumes "vm_inv s" "\<And>i. i \<in> set is \<Longrightarrow> kernel_va (va + PAGE_SIZE * of_nat i)"
  shows "vm_inv (free_pages_loop va is s)"
  using assms
proof (induction "is" arbitrary: s)
  case Nil
  then show ?case by simp
next
  case (Cons i "is")
  then show ?case
    unfolding free_pages_loop_Cons by (intro Cons.IH MMU_free_page_inv) auto
qed

lemma page_fault_cursors: "same_cursors s (page_fault_handler irq err a s)"
  by (auto simp: page_fault_handler_def Let_def split: prod.split dest: alloc_cursors)

lemma page_fault_inv:
  assumes "vm_inv s" "kernel_va va"
  shows "vm_inv (page_fault_handler irq err a (s\<lparr>cr2 := va\<rparr>))"
proof -
  let ?s = "s\<lparr>cr2 := va\<rparr>"
  have "vm_ok ?s" using assms(1) by (simp add: vm_inv_def)
  then obtain fs where ok: "pt_ok ?s fs" by (auto simp: vm_ok_def)
  have va: "kernel_va (cr2 ?s)" using assms(2) by simp
  have "vm_ok (page_fault_handler irq err a ?s)"
  proof (cases "vview ?s (cr2 ?s) = Demand \<and> fs \<noteq> []")
    case True
    then obtain f gs where fs: "fs = f # gs" by (cases fs) auto
    with True page_fault_demand(1) [OF ok [unfolded fs] va] show ?thesis by (auto simp: vm_ok_def)
  next
    case False
    then obtain msg lev where "page_fault_handler irq err a ?s = klog lev msg [] ?s"
      using page_fault_other [OF ok va] by blast
    with ok show ?thesis by (auto simp: vm_ok_def)
  qed
  moreover have "heap_cursor ?s" using assms(1) by (simp add: vm_inv_def heap_cursor_def)
  ultimately show ?thesis
    using heap_cursor_same [OF page_fault_cursors] by (simp add: vm_inv_def)
qed

subsection \<open>Stores\<close>

lemma vview_Mapped: "vview s va = Mapped f \<longleftrightarrow> node (pmem s) (cr3 s) (vpath va 4) = Some f"
  by (auto simp: vview_def view_def split: option.splits)

lemma mapped_unique:
  assumes "pt_ok s fs" "kernel_va va" "vview s va = Mapped f"
  shows "pt_frame f" "f \<notin> set fs" "not_table (pmem s) (cr3 s) f"
    "\<lbrakk>kernel_va vb; vview s vb = Mapped f\<rbrakk> \<Longrightarrow> same_page va vb"
proof -
  have v: "valid_path (vpath va 4)" and n: "node (pmem s) (cr3 s) (vpath va 4) = Some f"
    using assms(2,3) valid_vpath by (auto simp: vview_Mapped)
  show "pt_frame f" "f \<notin> set fs"
    using assms(1) v n by (auto simp: pt_ok_def)
  show "not_table (pmem s) (cr3 s) f"
    unfolding not_table_def using tree_okD(4) [OF pt_okD(2) [OF assms(1)] v n] by fastforce
  assume "kernel_va vb" "vview s vb = Mapped f"
  then have "vpath vb 4 = vpath va 4"
    using tree_okD(4) [OF pt_okD(2) [OF assms(1)] v n] valid_vpath by (auto simp: vview_Mapped)
  then show "same_page va vb" by (simp flip: vpath_eq_iff)
qed

lemma store_ok:
  assumes ok: "pt_ok s fs" and va: "kernel_va va" "vview s va = Mapped f" and i: "i < 512"
    and s': "s' = s\<lparr>pmem := (pmem s)(f + 8 * i := v)\<rparr>"
  shows "pt_ok s' fs" "view_same s s'"
proof -
  note U = mapped_unique [OF ok va]
  have al: "page_aligned f" "in_frame f (f + 8 * i)"
    using U(1) i entry_in_frame by (auto simp: pt_frame_def usable_frame_def)
  have outside: "\<exists>g. in_frame g x \<and> page_aligned g \<and> not_table (pmem s) (cr3 s) g"
    if "pmem s' x \<noteq> pmem s x" for x
    using that al U(3) by (auto simp: s' split: if_splits)
  have same: "node (pmem s') (cr3 s) q = node (pmem s) (cr3 s) q"
      "length q = 4 \<Longrightarrow> view (pmem s') (cr3 s) q = view (pmem s) (cr3 s) q" if "valid_path q" for q
    using tree_unchanged [OF pt_okD(2) [OF ok] _ that, of "pmem s'"] outside by blast+
  have "free_frames s' fs"
    unfolding s' using al U(2) by (intro free_frames_tree_write [OF ok]) (auto split: if_splits)
  moreover have "tree_ok (pmem s') (cr3 s)"
    using pt_okD(2) [OF ok] same(1) by (auto intro: tree_ok_cong)
  ultimately show "pt_ok s' fs"
    using pt_okD(3,4) [OF ok] same(1) by (auto simp: pt_ok_tree not_in_tree_def s')
  show "view_same s s'"
    using same(2) valid_vpath by (simp add: view_same_def vview_def s')
qed

lemma vm_step_inv:
  assumes "vm_step s s'" "vm_inv s"
  shows "vm_inv s'"
  using assms
proof (induction rule: vm_step.induct)
  case (Alloc_page s)
  then show ?case by (rule MMU_alloc_page_inv)
next
  case (Alloc_pages s n)
  then show ?case by (rule MMU_alloc_pages_inv)
next
  case (Alloc_stack s)
  then show ?case by (intro MMU_alloc_stack_inv)
next
  case (Free_page va s)
  then show ?case by (intro MMU_free_page_inv)
next
  case (Free_pages n va s)
  then show ?case unfolding MMU_free_pages_def by (intro free_pages_loop_inv) auto
next
  case (Free_stack va s)
  then show ?case
    unfolding MMU_free_stack_def by (intro free_pages_loop_inv) (auto simp: mmap_consts)
next
  case (Fault va s err)
  then show ?case by (intro page_fault_inv)
next
  case (Store va s f i v)
  then have "vm_ok (s\<lparr>pmem := (pmem s)(f + 8 * i := v)\<rparr>)"
    using store_ok(1) by (fastforce simp: vm_inv_def vm_ok_def)
  with Store show ?case by (simp add: vm_inv_def heap_cursor_def)
qed

lemma vm_steps_inv: "vm_step\<^sup>*\<^sup>* s s' \<Longrightarrow> vm_inv s \<Longrightarrow> vm_inv s'"
  by (induction rule: rtranclp_induct) (auto intro: vm_step_inv)

subsection \<open>Interrupt state\<close>

lemma irq_restored:
  assumes "irq_ok s" "irq_semaphore s + 1 \<noteq> 0" "irq_semaphore t = irq_semaphore (IRQ_disable s)"
    "int_flag t = int_flag (IRQ_disable s)"
  shows "irq_semaphore (IRQ_enable t) = irq_semaphore s" "int_flag (IRQ_enable t) = int_flag s"
  using assms by (auto simp: IRQ_enable_def IRQ_disable_def irq_ok_def atomic_get_def atomic_add_def
      atomic_sub_def Let_def)

subsection \<open>Pages by number\<close>

lemma same_page_unat:
  assumes "unat va < 2 ^ 48" "unat vb < 2 ^ 48"
  shows "same_page va vb \<longleftrightarrow> unat va div 4096 = unat vb div 4096"
proof -
  have u: "unat (take_bit 36 (drop_bit 12 v)) = unat v div 4096" if "unat v < 2 ^ 48" for v :: u64
  proof -
    have "unat (take_bit 36 (drop_bit 12 v)) = take_bit 36 (drop_bit 12 (unat v))"
      using that by (simp add: unsigned_take_bit_eq unsigned_drop_bit_eq take_bit_nat_eq_self)
    also have "\<dots> = unat v div 4096 mod 2 ^ 36"
      by (simp add: take_bit_eq_mod drop_bit_eq_div)
    also have "\<dots> = unat v div 4096"
      using that by (intro mod_less) (simp add: div_less_iff_less_mult)
    finally show ?thesis .
  qed
  show ?thesis
    unfolding same_page_def word_unat_eq_iff using u assms by metis
qed

lemma free_pages_loop_view:
  assumes "pt_ok s fs" "\<And>i. i \<in> set is \<Longrightarrow> kernel_va (va + PAGE_SIZE * of_nat i)"
    and "kernel_va vb" "\<And>i. i \<in> set is \<Longrightarrow> \<not> same_page vb (va + PAGE_SIZE * of_nat i)"
  shows "vview (free_pages_loop va is s) vb = vview s vb"
  using assms
proof (induction "is" arbitrary: s fs)
  case Nil
  then show ?case by simp
next
  case (Cons i "is")
  let ?s = "MMU_free_page (va + PAGE_SIZE * of_nat i) s"
  obtain gs where "pt_ok ?s gs" "vview ?s vb = vview s vb"
    using MMU_free_page_cases [OF Cons.prems(1) Cons.prems(2) [of i]] Cons.prems(3,4)
    by (auto simp: view_upd_def view_same_def)
  with Cons show ?case
    unfolding free_pages_loop_Cons by auto
qed

section \<open>Properties\<close>

text \<open>The example state of an empty address space, with its cursors at the start of their areas.\<close>

definition vm_example :: "unit mm" where
  "vm_example = mm_example\<lparr>next_kernel_heap_vaddr := MMAP_KERNEL_HEAP_START,
     next_kernel_thread_stack_vaddr := MMAP_KERNEL_STACKS_END - 8, int_flag := True\<rparr>"

lemma vm_example_ok:
  "pt_ok vm_example [0x1000, 0x2000, 0x3000, 0x4000, 0x5000]" "vview vm_example va = Unmapped"
  "heap_cursor vm_example" "irq_ok vm_example" "vm_inv vm_example"
proof -
  show ok: "pt_ok vm_example [0x1000, 0x2000, 0x3000, 0x4000, 0x5000]"
    using mm_example_pt_ok pt_ok_cong [of vm_example mm_example] by (simp add: vm_example_def)
  show "vview vm_example va = Unmapped"
    using vview_cong [of vm_example mm_example] vview_example by (simp add: vm_example_def)
  show h: "heap_cursor vm_example"
    unfolding heap_cursor_def by (rule exI [of _ 0]) (simp add: vm_example_def)
  show "irq_ok vm_example" by (simp add: irq_ok_def vm_example_def mm_example_def)
  show "vm_inv vm_example" using ok h by (auto simp: vm_inv_def vm_ok_def)
qed


text \<open>A history that allocates a page of the heap and touches it.\<close>

lemma vm_example_history:
  "\<exists>t f. vm_step\<^sup>*\<^sup>* vm_example t \<and> vview t 0xF0000000000 = Mapped f"
proof -
  let ?va = "0xF0000000000 :: addr"
  define s1 where "s1 = (IRQ_disable vm_example)\<lparr>next_kernel_heap_vaddr := MMAP_KERNEL_HEAP_START + PAGE_SIZE\<rparr>"
  obtain r s2 where dem: "PT_demand_allocate ?va s1 = (r, s2)" by fastforce
  have al: "snd (MMU_alloc_page vm_example) = IRQ_enable s2"
    using dem by (simp add: MMU_alloc_page_def Let_def s1_def vm_example_def mmap_consts)
  have ok1: "pt_ok s1 [0x1000, 0x2000, 0x3000, 0x4000, 0x5000]"
    using vm_example_ok(1) pt_ok_cong [of s1 vm_example] by (simp add: s1_def)
  have "vview s1 = vview vm_example"
    by (rule vview_cong) (simp_all add: s1_def)
  then have nm: "vview s1 ?va \<noteq> Mapped f" for f
    by (simp add: vm_example_ok)
  obtain n where n: "n \<le> 3" "pt_ok s2 (drop n [0x1000, 0x2000, 0x3000, 0x4000, 0x5000])"
    and dm: "vview s2 ?va = Demand"
    using PT_demand_allocate_free(2) [OF ok1 kernel_va_example nm dem] kernel_va_example
    by (auto simp: view_upd_def same_page_def)
  define s3 where "s3 = (IRQ_enable s2)\<lparr>cr2 := ?va\<rparr>"
  have "pt_ok s3 (drop n [0x1000, 0x2000, 0x3000, 0x4000, 0x5000])"
    using n(2) pt_ok_cong [of s3 s2] by (simp add: s3_def)
  moreover obtain f gs where "drop n [0x1000, 0x2000, 0x3000, 0x4000, 0x5000 :: addr] = f # gs"
    using n(1) by (cases "drop n [0x1000, 0x2000, 0x3000, 0x4000, 0x5000 :: addr]") auto
  ultimately have ok3: "pt_ok s3 (f # gs)" by simp
  have "vview s3 = vview s2"
    by (rule vview_cong) (simp_all add: s3_def)
  then have "vview s3 (cr2 s3) = Demand" "kernel_va (cr2 s3)" "cr2 s3 = ?va"
    using dm kernel_va_example by (simp_all add: s3_def)
  from page_fault_demand(2) [OF ok3 this(2,1), of 14 2 NULL] this
  have "vview (page_fault_handler 14 2 NULL s3) ?va = Mapped f"
    by (simp add: view_upd_def same_page_def)
  moreover have "vm_step\<^sup>*\<^sup>* vm_example (page_fault_handler 14 2 NULL s3)"
    using vm_step.Alloc_page [of vm_example] vm_step.Fault [OF kernel_va_example, of "IRQ_enable s2" 2]
    unfolding al s3_def by auto
  ultimately show ?thesis by blast
qed




text \<open>\<open>MMU_free_page\<close> of a mapped page, at its first byte, unmaps that page and no other, and
  puts its frame behind the free frames; on any other address it changes the state of no page.\<close>

theorem MMU_free_page_correct:
  assumes "pt_ok s fs" "kernel_va va"
  shows "(\<exists>f. vview s va = Mapped f \<and> va mod PAGE_SIZE = 0 \<and> pt_ok (MMU_free_page va s) (fs @ [f]) \<and>
            view_upd s (MMU_free_page va s) va Unmapped) \<or>
         (\<not> (va mod PAGE_SIZE = 0 \<and> (\<exists>f. vview s va = Mapped f)) \<and>
            pt_ok (MMU_free_page va s) fs \<and> view_same s (MMU_free_page va s))"
  using assms by (rule MMU_free_page_cases)

theorem MMU_free_page_correct_witness:
  "pt_ok (MMU_free_page 0xF0000000000 vm_example) [0x1000, 0x2000, 0x3000, 0x4000, 0x5000]"
  using MMU_free_page_correct [OF vm_example_ok(1) kernel_va_example] by (simp add: vm_example_ok)

text \<open>Freeing a stack leaks. \<open>MMU_free_stack\<close> of the top of a stack, as \<open>MMU_alloc_stack\<close> returned
  it, frees upwards from the topmost page; the other nine pages of the stack keep their frames.\<close>

theorem MMU_free_stack_leaks:
  assumes ok: "pt_ok s fs" and tp: "unat sp mod 4096 = 4088"
    and area: "unat MMAP_KERNEL_STACKS_START + 0xA000 \<le> unat sp" "unat sp < unat MMAP_KERNEL_STACKS_END"
    and k: "1 \<le> k" "k < 10"
  shows "vview (MMU_free_stack sp s) (sp - of_nat k * PAGE_SIZE) = vview s (sp - of_nat k * PAGE_SIZE)"
proof -
  have r: "0x10000000000 + 0xA000 \<le> unat sp" "unat sp < 0x20000000000"
    using area by (simp_all add: mmap_consts)
  have "unat (of_nat k * PAGE_SIZE) = k * 0x1000"
    using k by (simp add: PAGE_SIZE_def unat_word_ariths unat_of_nat)
  then have uk: "unat (sp - of_nat k * PAGE_SIZE) = unat sp - k * 0x1000"
    using k r by (simp add: unat_sub_if')
  have ui: "unat (sp - (PAGE_SIZE - 8) + PAGE_SIZE * of_nat i) = unat sp - 4088 + i * 0x1000"
    if "i < 10" for i
  proof -
    have "sp - (PAGE_SIZE - 8) + PAGE_SIZE * of_nat i = of_nat (unat sp - 4088 + i * 0x1000)"
      using r that by (simp add: PAGE_SIZE_def of_nat_diff)
    moreover have "unat sp - 4088 + i * 0x1000 < 2 ^ 64" using r that by simp
    ultimately show ?thesis by (simp only: unat_of_nat) simp
  qed
  obtain q where q: "unat sp = q * 4096 + 4088"
    using tp by (metis div_mult_mod_eq)
  have kv: "kernel_va (sp - (PAGE_SIZE - 8) + PAGE_SIZE * of_nat i)" if "i < 10" for i
    using ui [OF that] r that by (intro kernel_va_range) auto
  have "\<not> same_page (sp - of_nat k * PAGE_SIZE) (sp - (PAGE_SIZE - 8) + PAGE_SIZE * of_nat i)"
    if "i < 10" for i
  proof -
    have "unat (sp - of_nat k * PAGE_SIZE) < 2 ^ 48" "unat (sp - (PAGE_SIZE - 8) + PAGE_SIZE * of_nat i) < 2 ^ 48"
      using r that ui [OF that] uk by auto
    moreover have "(unat sp - k * 0x1000) div 4096 = q - k"
    proof -
      have "k \<le> q" using r q k by simp
      then have "unat sp - k * 0x1000 = (q - k) * 4096 + 4088" using q by (simp add: diff_mult_distrib)
      then show ?thesis by simp
    qed
    moreover have "(unat sp - 4088 + i * 0x1000) div 4096 = q + i" using q by simp
    moreover have "q - k \<noteq> q + i" using k r q by simp
    ultimately show ?thesis
      using same_page_unat uk ui [OF that] by metis
  qed
  moreover have "kernel_va (sp - of_nat k * PAGE_SIZE)"
    using uk r k by (intro kernel_va_range) auto
  ultimately show ?thesis
    unfolding MMU_free_stack_def using kv
    by (intro free_pages_loop_view [OF ok]) (auto simp: mmap_consts)
qed

theorem MMU_free_stack_leaks_witness:
  "vview (MMU_free_stack 0x1FFFFFFFFF8 vm_example) (0x1FFFFFFFFF8 - 3 * PAGE_SIZE) = Unmapped"
  using MMU_free_stack_leaks [OF vm_example_ok(1), of "0x1FFFFFFFFF8" 3]
  by (simp add: vm_example_ok mmap_consts)

end
