(* ===== verification/Heap_Spec.thy ===== *)
theory Heap_Spec
  imports Prelude "HOL-Library.Multiset"
begin

text \<open>
  The contract an allocator of blocks promises to its clients. \<open>inv s L\<close> says that \<open>s\<close> is a well-formed heap in which exactly the blocks \<open>L\<close> are in
  use. An allocation gives a block that was not in use, a block in use can be given back, and blocks in use do not overlap. The lemmas are about
  clients that allocate several blocks and give them back in another order.
\<close>

fun alloc_all :: "('z \<Rightarrow> 's \<Rightarrow> 'p \<times> 's) \<Rightarrow> 'z list \<Rightarrow> 's \<Rightarrow> 'p list \<times> 's" where
  "alloc_all alloc [] s = ([], s)"
| "alloc_all alloc (z # zs) s = (let (p, s) = alloc z s; (ps, s) = alloc_all alloc zs s in (p # ps, s))"

fun free_all :: "('p \<Rightarrow> 's \<Rightarrow> 's option) \<Rightarrow> 'p list \<Rightarrow> 's \<Rightarrow> 's option" where
  "free_all free [] s = Some s"
| "free_all free (p # ps) s = Option.bind (free p s) (free_all free ps)"

locale block_heap =
  fixes inv :: "'s \<Rightarrow> 'b set \<Rightarrow> bool"
    and alloc :: "'z \<Rightarrow> 's \<Rightarrow> 'p \<times> 's"
    and free :: "'p \<Rightarrow> 's \<Rightarrow> 's option"
    and block :: "'p \<Rightarrow> 'z \<Rightarrow> 'b"
    and cells :: "'b \<Rightarrow> 'c set"
    and none :: 'p
    and size_ok :: "'z \<Rightarrow> bool"
  assumes alloc_new: "\<lbrakk>inv s L; size_ok z; alloc z s = (p, t); p \<noteq> none\<rbrakk> \<Longrightarrow> block p z \<notin> L \<and> inv t (insert (block p z) L)"
    and alloc_none: "\<lbrakk>inv s L; size_ok z; alloc z s = (none, t)\<rbrakk> \<Longrightarrow> inv t L"
    and free_live: "\<lbrakk>inv s L; block p z \<in> L\<rbrakk> \<Longrightarrow> \<exists>t. free p s = Some t \<and> inv t (L - {block p z})"
    and apart: "\<lbrakk>inv s L; b \<in> L; c \<in> L; b \<noteq> c\<rbrakk> \<Longrightarrow> cells b \<inter> cells c = {}"
begin

lemma alloc_all_new:
  assumes "inv s L" "\<forall>z\<in>set zs. size_ok z" "alloc_all alloc zs s = (ps, t)" "none \<notin> set ps"
  shows "length ps = length zs \<and> distinct (map2 block ps zs) \<and> set (map2 block ps zs) \<inter> L = {} \<and> inv t (L \<union> set (map2 block ps zs))"
  using assms
proof (induction zs arbitrary: s L ps)
  case (Cons z zs)
  obtain p u where p: "alloc z s = (p, u)" by fastforce
  obtain qs where q: "alloc_all alloc zs u = (qs, t)" "ps = p # qs" using Cons.prems(3) p by (auto split: prod.splits)
  have b: "block p z \<notin> L" "inv u (insert (block p z) L)" using alloc_new [OF Cons.prems(1) _ p] Cons.prems(2,4) q(2) by auto
  from Cons.IH [OF b(2) _ q(1)] Cons.prems(2,4) q(2) b(1) show ?case by auto
qed simp

lemma free_all_live:
  assumes "inv s L" "set (map (\<lambda>(p, z). block p z) xs) \<subseteq> L" "distinct (map (\<lambda>(p, z). block p z) xs)"
  shows "\<exists>t. free_all free (map fst xs) s = Some t \<and> inv t (L - set (map (\<lambda>(p, z). block p z) xs))"
  using assms
proof (induction xs arbitrary: s L)
  case (Cons x xs)
  obtain p z where x: "x = (p, z)" by fastforce
  obtain u where u: "free p s = Some u" "inv u (L - {block p z})" using free_live [OF Cons.prems(1), of p z] Cons.prems(2) x by auto
  have "L - {block p z} - set (map (\<lambda>(p, z). block p z) xs) = L - set (map (\<lambda>(p, z). block p z) (x # xs))" by (auto simp: x)
  moreover have "set (map (\<lambda>(p, z). block p z) xs) \<subseteq> L - {block p z}" using Cons.prems(2,3) by (force simp: x)
  ultimately show ?case using Cons.IH [OF u(2)] Cons.prems(3) u(1) by (simp add: x)
qed simp

text \<open>Blocks that are given back in any order leave the heap with the blocks it had.\<close>

lemma alloc_free_all:
  assumes "inv s L" "\<forall>z\<in>set zs. size_ok z" "alloc_all alloc zs s = (ps, t)" "none \<notin> set ps" and qs: "mset qs = mset ps"
  shows "\<exists>u. free_all free qs t = Some u \<and> inv u L" "i < length zs \<Longrightarrow> j < length zs \<Longrightarrow> i \<noteq> j \<Longrightarrow>
    cells (block (ps ! i) (zs ! i)) \<inter> cells (block (ps ! j) (zs ! j)) = {}"
proof -
  let ?B = "map2 block ps zs"
  have A: "length ps = length zs" "distinct ?B" "set ?B \<inter> L = {}" "inv t (L \<union> set ?B)" using alloc_all_new [OF assms(1-4)] by blast+
  obtain zs' where z: "length zs' = length qs" "mset (zip qs zs') = mset (zip ps zs)" using ex_mset_zip_left [OF A(1) qs] by blast
  define xs where "xs = zip qs zs'"
  have xs: "mset xs = mset (zip ps zs)" "map fst xs = qs" using z by (simp_all add: xs_def)
  have "mset (map (\<lambda>(p, z). block p z) xs) = mset ?B" using xs(1) by (simp add: mset_map)
  note e = mset_eq_setD [OF this] mset_eq_imp_distinct_iff [OF this]
  have B: "set (map (\<lambda>(p, z). block p z) xs) = set ?B" by (rule e(1))
  have D: "distinct (map (\<lambda>(p, z). block p z) xs)" unfolding e(2) by (rule A(2))
  have "L \<union> set ?B - set ?B = L" using A(3) by blast
  then show "\<exists>u. free_all free qs t = Some u \<and> inv u L" using free_all_live [OF A(4) _ D] unfolding B xs(2) by simp
  show "cells (block (ps ! i) (zs ! i)) \<inter> cells (block (ps ! j) (zs ! j)) = {}" if "i < length zs" "j < length zs" "i \<noteq> j"
  proof -
    have len: "i < length ?B" "j < length ?B" using that A(1) by simp_all
    have "?B ! i \<noteq> ?B ! j" unfolding nth_eq_iff_index_eq [OF A(2) len] by (rule that(3))
    then have "cells (?B ! i) \<inter> cells (?B ! j) = {}" using apart [OF A(4)] nth_mem [OF len(1)] nth_mem [OF len(2)] by blast
    then show ?thesis using that A(1) by simp
  qed
qed

end

end
