(* ===== verification/Kmalloc.thy ===== *)
theory Kmalloc
  imports Virtual_Memory Heap_Spec
begin

text \<open>
  The kernel heap of \<^verbatim>\<open>src/src/kmalloc.c\<close>: six pools of blocks of fixed sizes, each a chain of
  free blocks, and whole pages for what does not fit a block.

  Blocks and their headers lie in virtual memory: \<open>vmem\<close> gives the 64-bit word at a virtual
  address. (Every page of the heap has a frame of its own, see \<open>Virtual_Memory.vm_isolation\<close>, so the
  words at different virtual addresses are independent.) A block header is two words, the pool and
  the next free block. The six pools are a static array; \<open>pools_base\<close> is its address.

  The main result is about histories of \<open>kmalloc\<close>, \<open>kfree\<close> and writes of the owners of blocks:
  blocks never overlap, the chains and headers stay intact.
\<close>

section \<open>State and operations\<close>

record 'd kheap = "'d mm" +
  vmem :: "addr \<Rightarrow> u64"
  pool_free_head :: "addr list"
  pools_base :: addr

definition POOL_PAGE_INCREASE :: int where "POOL_PAGE_INCREASE = 4"
definition NUM_POOLS :: nat where "NUM_POOLS = 6"
definition pool_block_size :: "u64 list" where "pool_block_size = [32, 64, 128, 512, 1024, 2048]"

text \<open>\<open>sizeof(struct KmallocBlockHeader)\<close>, and the address of a pool in the static array.\<close>

definition HEADER_SIZE :: u64 where "HEADER_SIZE = 16"

definition pool_ptr :: "('d, 'a) kheap_scheme \<Rightarrow> nat \<Rightarrow> addr" where
  "pool_ptr s i = pools_base s + 16 * of_nat i"

text \<open>What a \<open>struct KmallocBlockHeader **\<close> of the source points to.\<close>

datatype link = Free_head nat | Next_of addr

definition set_link :: "link \<Rightarrow> addr \<Rightarrow> ('d, 'a) kheap_scheme \<Rightarrow> ('d, 'a) kheap_scheme" where
  "set_link l v s = (case l of
     Free_head i \<Rightarrow> s\<lparr>pool_free_head := (pool_free_head s)[i := v]\<rparr>
   | Next_of b \<Rightarrow> s\<lparr>vmem := (vmem s)(b + 8 := v)\<rparr>)"

fun increase_loop :: "nat \<Rightarrow> nat \<Rightarrow> link \<Rightarrow> addr \<Rightarrow> ('d, 'a) kheap_scheme \<Rightarrow> ('d, 'a) kheap_scheme" where
  "increase_loop pool 0 prev cur s = s"
| "increase_loop pool (Suc n) prev cur s =
     (let s = set_link prev cur s;
          s = s\<lparr>vmem := (vmem s)(cur := pool_ptr s pool)\<rparr>;
          s = s\<lparr>vmem := (vmem s)(cur + 8 := NULL)\<rparr>
      in increase_loop pool n (Next_of cur) (cur + pool_block_size ! pool) s)"

definition kmalloc_increase_pool ::
  "nat \<Rightarrow> int \<Rightarrow> ('d, 'a) kheap_scheme \<Rightarrow> int \<times> ('d, 'a) kheap_scheme" where
  "kmalloc_increase_pool pool num_pages s =
     (if pool_free_head s ! pool \<noteq> NULL then (0, s)
      else let (cur, s) = MMU_alloc_pages num_pages s
           in if cur = NULL then (- 1, s)
              else let num_blocks = unat ((of_int num_pages * PAGE_SIZE) div pool_block_size ! pool)
                   in (0, increase_loop pool num_blocks (Free_head pool) cur s))"

definition kmalloc_alloc :: "nat \<Rightarrow> ('d, 'a) kheap_scheme \<Rightarrow> addr \<times> ('d, 'a) kheap_scheme" where
  "kmalloc_alloc pool s =
     (let (r, s) = (if pool_free_head s ! pool = NULL
                    then kmalloc_increase_pool pool POOL_PAGE_INCREASE s else (0, s))
      in if r < 0 then (NULL, s)
         else let ret = pool_free_head s ! pool;
                  s = s\<lparr>pool_free_head := (pool_free_head s)[pool := vmem s (ret + 8)]\<rparr>;
                  s = s\<lparr>vmem := (vmem s)(ret + 8 := NULL)\<rparr>
              in (ret, s))"

fun find_pool :: "u64 \<Rightarrow> nat list \<Rightarrow> nat option" where
  "find_pool sz [] = None"
| "find_pool sz (i # is) =
     (if sz + HEADER_SIZE \<le> pool_block_size ! i then Some i else find_pool sz is)"

definition kmalloc :: "u64 \<Rightarrow> ('d, 'a) kheap_scheme \<Rightarrow> addr \<times> ('d, 'a) kheap_scheme" where
  "kmalloc sz s =
     (if sz = 0 then (NULL, s)
      else case find_pool sz [0..<NUM_POOLS] of
        Some i \<Rightarrow> (let (ret, s) = kmalloc_alloc i s
                   in if ret = NULL then (NULL, s) else (ret + HEADER_SIZE, s))
      | None \<Rightarrow> (let num_pages = (ucast (sz div PAGE_SIZE) :: u32);
                     num_pages = (if sz mod PAGE_SIZE \<noteq> 0 then num_pages + 1 else num_pages);
                     (ret, s) = MMU_alloc_pages (sint num_pages) s
                 in if ret = NULL then (NULL, s)
                    else let s = s\<lparr>vmem := (vmem s)(ret := NULL)\<rparr>;
                             s = s\<lparr>vmem := (vmem s)(ret + 8 := scast num_pages)\<rparr>
                         in (ret + HEADER_SIZE, s)))"

text \<open>\<open>None\<close>: the header names no pool of the array.\<close>

definition kfree :: "addr \<Rightarrow> ('d, 'a) kheap_scheme \<Rightarrow> ('d, 'a) kheap_scheme option" where
  "kfree a s =
     (let block = a - HEADER_SIZE
      in if vmem s block = NULL
         then Some (MMU_free_pages block (sint (ucast (vmem s (block + 8)) :: u32)) s)
         else case find (\<lambda>i. pool_ptr s i = vmem s block) [0..<NUM_POOLS] of
                None \<Rightarrow> None
              | Some i \<Rightarrow>
                  let s = s\<lparr>vmem := (vmem s)(block + 8 := pool_free_head s ! i)\<rparr>
                  in Some (s\<lparr>pool_free_head := (pool_free_head s)[i := block]\<rparr>))"

section \<open>The range an allocation of pages covers\<close>

definition cursor_at :: "('d, 'a) mm_scheme \<Rightarrow> nat \<Rightarrow> bool" where
  "cursor_at s n \<longleftrightarrow> n \<le> 2 ^ 28 \<and> next_kernel_heap_vaddr s = MMAP_KERNEL_HEAP_START + of_nat n * PAGE_SIZE"

lemma heap_cursor_at: "heap_cursor s \<longleftrightarrow> (\<exists>n. cursor_at s n)"
  by (auto simp: heap_cursor_def cursor_at_def)

lemma cursor_end:
  assumes "cursor_at s n"
  shows "next_kernel_heap_vaddr s = MMAP_KERNEL_HEAP_END \<longleftrightarrow> n = 2 ^ 28"
proof -
  have "unat (next_kernel_heap_vaddr s) = 0xF0000000000 + n * 0x1000"
    using assms by (simp add: cursor_at_def unat_heap_addr)
  then show ?thesis by (auto simp: word_unat_eq_iff mmap_consts)
qed

lemma MMU_alloc_page_cursor:
  assumes "cursor_at s n" "MMU_alloc_page s = (p, s')"
  shows "mm.more s' = mm.more s"
    and "if p = NULL then cursor_at s' n
         else p = MMAP_KERNEL_HEAP_START + of_nat n * PAGE_SIZE \<and> cursor_at s' (Suc n)"
proof -
  define s1 where "s1 = (IRQ_disable s)\<lparr>next_kernel_heap_vaddr := next_kernel_heap_vaddr s + PAGE_SIZE\<rparr>"
  obtain r s2 where dem: "PT_demand_allocate (next_kernel_heap_vaddr s) s1 = (r, s2)" by fastforce
  have cs: "same_cursors s1 s2"
    using PT_demand_allocate_cursors [of s1 "next_kernel_heap_vaddr s"] dem by simp
  show "mm.more s' = mm.more s"
    using assms(2) dem cs
    by (auto simp: MMU_alloc_page_def Let_def same_cursors_def s1_def split: if_splits)
  have "p = next_kernel_heap_vaddr s" "next_kernel_heap_vaddr s' = next_kernel_heap_vaddr s + PAGE_SIZE"
    if "n < 2 ^ 28"
    using that assms dem cs cursor_end [OF assms(1)]
    by (auto simp: MMU_alloc_page_def Let_def same_cursors_def s1_def)
  moreover have "p = NULL" "next_kernel_heap_vaddr s' = next_kernel_heap_vaddr s" if "n = 2 ^ 28"
    using that assms cursor_end [OF assms(1)] by (auto simp: MMU_alloc_page_def Let_def)
  moreover have "unat (next_kernel_heap_vaddr s) \<noteq> 0"
    using assms(1) by (simp add: cursor_at_def unat_heap_addr)
  then have "next_kernel_heap_vaddr s \<noteq> NULL" by auto
  ultimately show "if p = NULL then cursor_at s' n
      else p = MMAP_KERNEL_HEAP_START + of_nat n * PAGE_SIZE \<and> cursor_at s' (Suc n)"
    using assms(1) by (cases "n = 2 ^ 28") (auto simp: cursor_at_def algebra_simps)
qed

lemma alloc_more_pages_cursor:
  assumes "cursor_at s n" "alloc_more_pages k s = (ok, s')"
  shows "mm.more s' = mm.more s \<and> (\<exists>j \<ge> n. cursor_at s' j \<and> (ok \<longrightarrow> j = n + k))"
  using assms
proof (induction k arbitrary: s n)
  case 0
  then show ?case by auto
next
  case (Suc k)
  obtain p s1 where al: "MMU_alloc_page s = (p, s1)" by fastforce
  note C = MMU_alloc_page_cursor [OF Suc.prems(1) al]
  show ?case
  proof (cases "p = NULL")
    case True
    with C Suc.prems al show ?thesis by auto
  next
    case False
    with C have c1: "cursor_at s1 (Suc n)" by simp
    have "alloc_more_pages k s1 = (ok, s')" using Suc.prems(2) al False by simp
    from Suc.IH [OF c1 this] obtain j where "mm.more s' = mm.more s1" "j \<ge> Suc n" "cursor_at s' j"
        "ok \<longrightarrow> j = Suc n + k" by blast
    with C(1) show ?thesis by (intro conjI exI [of _ j]) auto
  qed
qed

lemma MMU_alloc_pages_cursor:
  assumes "cursor_at s n" "MMU_alloc_pages k s = (p, s')"
  shows "mm.more s' = mm.more s \<and> (\<exists>j \<ge> n. cursor_at s' j \<and>
    (p \<noteq> NULL \<longrightarrow> 0 < k \<and> p = MMAP_KERNEL_HEAP_START + of_nat n * PAGE_SIZE \<and> j = n + nat k))"
proof (cases "k \<le> 0")
  case True
  with assms show ?thesis by (auto simp: MMU_alloc_pages_def)
next
  case False
  have c0: "cursor_at (IRQ_disable s) n" using assms(1) by (simp add: cursor_at_def)
  obtain p1 s1 where al: "MMU_alloc_page (IRQ_disable s) = (p1, s1)" by fastforce
  note C = MMU_alloc_page_cursor [OF c0 al]
  show ?thesis
  proof (cases "p1 = NULL")
    case True
    with C assms(2) al False show ?thesis by (auto simp: MMU_alloc_pages_def)
  next
    case p1: False
    obtain ok s2 where am: "alloc_more_pages (nat (k - 1)) s1 = (ok, s2)" by fastforce
    have c1: "cursor_at s1 (Suc n)" and p1': "p1 = MMAP_KERNEL_HEAP_START + of_nat n * PAGE_SIZE"
      using C(2) p1 by auto
    from alloc_more_pages_cursor [OF c1 am] obtain j where
      j: "mm.more s2 = mm.more s1" "j \<ge> Suc n" "cursor_at s2 j" "ok \<longrightarrow> j = Suc n + nat (k - 1)" by blast
    have res: "p = (if ok then p1 else NULL)" "s' = (if ok then IRQ_enable s2 else s2)"
      using assms(2) al am False p1 by (auto simp: MMU_alloc_pages_def split: if_splits)
    have "cursor_at s' j" using j(3) by (simp add: res cursor_at_def)
    moreover have "Suc n + nat (k - 1) = n + nat k" using False by simp
    ultimately show ?thesis
      using j C(1) p1' p1 False by (intro conjI exI [of _ j]) (auto simp: res)
  qed
qed

section \<open>Carving blocks out of new pages\<close>

fun chain :: "(addr \<Rightarrow> u64) \<Rightarrow> addr \<Rightarrow> addr list \<Rightarrow> bool" where
  "chain m p [] = (p = NULL)"
| "chain m p (b # bs) = (p = b \<and> b \<noteq> NULL \<and> chain m (m (b + 8)) bs)"

lemma chain_cong: "(\<And>b. b \<in> set bs \<Longrightarrow> m' (b + 8) = m (b + 8)) \<Longrightarrow> chain m' p bs = chain m p bs"
  by (induction bs arbitrary: p) auto

definition link_val :: "link \<Rightarrow> ('d, 'a) kheap_scheme \<Rightarrow> addr" where
  "link_val l s = (case l of Free_head i \<Rightarrow> pool_free_head s ! i | Next_of b \<Rightarrow> vmem s (b + 8))"

text \<open>The link lies before the address \<open>cur\<close>.\<close>

definition link_before :: "link \<Rightarrow> addr \<Rightarrow> ('d, 'a) kheap_scheme \<Rightarrow> bool" where
  "link_before l cur s = (case l of
     Free_head i \<Rightarrow> i < length (pool_free_head s)
   | Next_of b \<Rightarrow> unat b + 16 \<le> unat cur)"

lemma unat_plus_8: "unat (b :: addr) + 16 \<le> unat (c :: addr) \<Longrightarrow> unat (b + 8) = unat b + 8"
  using unat_less_pow [of c] by (simp add: unat_word_ariths)

text \<open>One round of the loop: link the block and write its header.\<close>

definition put_block :: "nat \<Rightarrow> link \<Rightarrow> addr \<Rightarrow> ('d, 'a) kheap_scheme \<Rightarrow> ('d, 'a) kheap_scheme" where
  "put_block pool prev cur s = (set_link prev cur s)\<lparr>vmem := (vmem (set_link prev cur s))
     (cur := pool_ptr s pool, cur + 8 := NULL)\<rparr>"

lemma increase_loop_Suc:
  "increase_loop pool (Suc n) prev cur s =
     increase_loop pool n (Next_of cur) (cur + pool_block_size ! pool) (put_block pool prev cur s)"
  by (simp add: put_block_def Let_def pool_ptr_def set_link_def split: link.split)

text \<open>Only the words of the heap and the heads of the pools change.\<close>

definition only_heap :: "('d, 'a) kheap_scheme \<Rightarrow> ('d, 'a) kheap_scheme \<Rightarrow> bool" where
  "only_heap s t \<longleftrightarrow> t = s\<lparr>vmem := vmem t, pool_free_head := pool_free_head t\<rparr>"

lemma only_heap_trans: "only_heap s t \<Longrightarrow> only_heap t u \<Longrightarrow> only_heap s u"
  by (cases s; cases t; cases u) (simp add: only_heap_def)

lemma only_heapD:
  assumes "only_heap s t"
  shows "next_kernel_heap_vaddr t = next_kernel_heap_vaddr s" "pools_base t = pools_base s"
    "cursor_at t n = cursor_at s n" "vm_inv t = vm_inv s" "pool_ptr t i = pool_ptr s i"
proof -
  obtain m h where t: "t = s\<lparr>vmem := m, pool_free_head := h\<rparr>"
    using assms unfolding only_heap_def by blast
  show "next_kernel_heap_vaddr t = next_kernel_heap_vaddr s" "pools_base t = pools_base s"
    "cursor_at t n = cursor_at s n" "pool_ptr t i = pool_ptr s i"
    by (simp_all add: t cursor_at_def pool_ptr_def)
  have "vm_ok t = vm_ok s" by (rule vm_ok_cong) (simp_all add: t)
  moreover have "heap_cursor t = heap_cursor s" by (rule heap_cursor_cong) (simp add: t)
  ultimately show "vm_inv t = vm_inv s" by (simp add: vm_inv_def)
qed

lemma put_block_frame: "only_heap s (put_block pool prev cur s)"
  by (auto simp: only_heap_def put_block_def set_link_def split: link.split)

lemma put_block_simps [simp]: "pool_ptr (put_block pool prev cur s) i = pool_ptr s i"
  by (auto simp: put_block_def pool_ptr_def set_link_def split: link.split)

lemma increase_loop_frame: "only_heap s (increase_loop pool n prev cur s)"
proof (induction n arbitrary: prev cur s)
  case 0
  then show ?case by (simp add: only_heap_def)
next
  case (Suc n)
  show ?case
    unfolding increase_loop_Suc using put_block_frame Suc.IH by (rule only_heap_trans)
qed

definition blocks_of :: "nat \<Rightarrow> nat \<Rightarrow> addr \<Rightarrow> addr list" where
  "blocks_of pool n cur = map (\<lambda>k. cur + of_nat k * pool_block_size ! pool) [0..<n]"

lemma blocks_of_Suc:
  "blocks_of pool (Suc n) cur = cur # blocks_of pool n (cur + pool_block_size ! pool)"
proof -
  have "[0..<Suc n] = 0 # map Suc [0..<n]" by (metis map_Suc_upt upt_conv_Cons zero_less_Suc)
  then show ?thesis by (simp add: blocks_of_def algebra_simps)
qed

text \<open>Memory outside of the new blocks and of the link keeps its value.\<close>

lemma increase_loop_other:
  assumes "unat cur + n * unat (pool_block_size ! pool) < 2 ^ 64" "16 \<le> unat (pool_block_size ! pool)"
    and "unat x < unat cur \<or> unat cur + n * unat (pool_block_size ! pool) \<le> unat x"
    and "\<And>b. prev = Next_of b \<Longrightarrow> x \<noteq> b + 8"
  shows "vmem (increase_loop pool n prev cur s) x = vmem s x"
  using assms
proof (induction n arbitrary: prev cur s)
  case 0
  then show ?case by simp
next
  case (Suc n)
  let ?bs = "pool_block_size ! pool"
  have u: "unat (cur + ?bs) = unat cur + unat ?bs" "unat (cur + 8) = unat cur + 8"
    using Suc.prems(1,2) by (simp_all add: unat_word_ariths)
  have ne: "x \<noteq> cur" "x \<noteq> cur + 8"
    using Suc.prems(2,3) u(2) by auto
  have "vmem (increase_loop pool n (Next_of cur) (cur + ?bs) (put_block pool prev cur s)) x =
      vmem (put_block pool prev cur s) x"
    using Suc.prems u ne by (intro Suc.IH) auto
  also have "\<dots> = vmem s x"
    using ne Suc.prems(4) by (auto simp: put_block_def set_link_def split: link.split)
  finally show ?case by (simp only: increase_loop_Suc)
qed

lemma increase_loop_next_heads:
  "pool_free_head (increase_loop pool n (Next_of b) cur s) = pool_free_head s"
  by (induction n arbitrary: b cur s)
    (simp, simp add: increase_loop_Suc put_block_def set_link_def del: increase_loop.simps)

lemma increase_loop_heads:
  "0 < n \<Longrightarrow> pool_free_head (increase_loop pool n (Free_head i) cur s) = (pool_free_head s)[i := cur]"
  by (cases n) (simp_all add: increase_loop_Suc increase_loop_next_heads put_block_def set_link_def
      del: increase_loop.simps)

lemma increase_loop_chain:
  assumes "unat cur + n * unat (pool_block_size ! pool) < 2 ^ 64" "16 \<le> unat (pool_block_size ! pool)"
    and "0 < n" "0 < unat cur"
  shows "chain (vmem (increase_loop pool n prev cur s)) cur (blocks_of pool n cur) \<and>
    (\<forall>b \<in> set (blocks_of pool n cur). vmem (increase_loop pool n prev cur s) b = pool_ptr s pool)"
  using assms
proof (induction n arbitrary: prev cur s)
  case 0
  then show ?case by simp
next
  case (Suc n)
  let ?bs = "pool_block_size ! pool" and ?s1 = "put_block pool prev cur s"
  let ?s' = "increase_loop pool n (Next_of cur) (cur + ?bs) ?s1"
  have u: "unat (cur + ?bs) = unat cur + unat ?bs" "unat (cur + 8) = unat cur + 8"
    using Suc.prems(1,2) by (simp_all add: unat_word_ariths)
  have "vmem ?s' cur = vmem ?s1 cur"
    using Suc.prems u by (intro increase_loop_other) auto
  then have hd: "vmem ?s' cur = pool_ptr s pool"
    by (simp add: put_block_def)
  have nz: "cur \<noteq> NULL" using Suc.prems(4) by auto
  show ?case
  proof (cases n)
    case 0
    with hd nz show ?thesis
      unfolding increase_loop_Suc blocks_of_Suc by (simp add: blocks_of_def put_block_def)
  next
    case (Suc k)
    have IH: "chain (vmem ?s') (cur + ?bs) (blocks_of pool n (cur + ?bs)) \<and>
        (\<forall>b \<in> set (blocks_of pool n (cur + ?bs)). vmem ?s' b = pool_ptr ?s1 pool)"
      using Suc.IH [of "cur + ?bs" "Next_of cur" ?s1] Suc.prems u Suc by simp
    have "vmem ?s' (cur + 8) = cur + ?bs"
    proof -
      have "?s' = increase_loop pool k (Next_of (cur + ?bs)) (cur + ?bs + ?bs)
          (put_block pool (Next_of cur) (cur + ?bs) ?s1)"
        using Suc by (simp only: increase_loop_Suc)
      moreover have "unat (cur + ?bs + ?bs) = unat cur + unat ?bs + unat ?bs"
        using Suc.prems(1) u Suc by (simp add: unat_word_ariths)
      ultimately have "vmem ?s' (cur + 8) = vmem (put_block pool (Next_of cur) (cur + ?bs) ?s1) (cur + 8)"
        using Suc.prems u Suc by (auto intro!: increase_loop_other)
      also have "\<dots> = cur + ?bs"
        using u Suc.prems(2) by (auto simp: put_block_def set_link_def)
      finally show ?thesis .
    qed
    with IH hd nz show ?thesis
      unfolding increase_loop_Suc blocks_of_Suc by simp
  qed
qed

section \<open>The invariant of the heap\<close>

text \<open>A block of a pool, or a run of pages; with the bytes it occupies.\<close>

datatype bkind = Pool nat | Pages nat

fun bsize :: "bkind \<Rightarrow> nat" where
  "bsize (Pool i) = unat (pool_block_size ! i)"
| "bsize (Pages n) = n * 4096"

definition region :: "addr \<times> bkind \<Rightarrow> nat set" where
  "region x = {unat (fst x)..<unat (fst x) + bsize (snd x)}"

definition free_blocks :: "(nat \<Rightarrow> addr list) \<Rightarrow> (addr \<times> bkind) set" where
  "free_blocks F = {(b, Pool i) | b i. i < 6 \<and> b \<in> set (F i)}"

text \<open>A block lies in the used part of the heap area, and its header says what it is.\<close>

definition block_ok :: "('d, 'a) kheap_scheme \<Rightarrow> addr \<times> bkind \<Rightarrow> bool" where
  "block_ok s x \<longleftrightarrow> 0xF0000000000 \<le> unat (fst x) \<and>
     unat (fst x) + bsize (snd x) \<le> unat (next_kernel_heap_vaddr s) \<and>
     (case snd x of
        Pool i \<Rightarrow> i < 6 \<and> vmem s (fst x) = pool_ptr s i
      | Pages n \<Rightarrow> 0 < n \<and> n \<le> 2 ^ 28 \<and> vmem s (fst x) = NULL \<and> vmem s (fst x + 8) = of_nat n)"

definition kinv :: "('d, 'a) kheap_scheme \<Rightarrow> (nat \<Rightarrow> addr list) \<Rightarrow> (addr \<times> bkind) set \<Rightarrow> bool" where
  "kinv s F live \<longleftrightarrow> vm_inv s \<and> length (pool_free_head s) = 6 \<and> (\<forall>i<6. pool_ptr s i \<noteq> NULL) \<and>
     (\<forall>i<6. chain (vmem s) (pool_free_head s ! i) (F i) \<and> distinct (F i)) \<and>
     live \<inter> free_blocks F = {} \<and> (\<forall>x \<in> live \<union> free_blocks F. block_ok s x) \<and>
     pairwise (\<lambda>x y. region x \<inter> region y = {}) (live \<union> free_blocks F)"

lemma kinv_cong:
  assumes "free_segments t = free_segments s" "free_segment_head t = free_segment_head s"
    "free_page_head t = free_page_head s" "free_page_tail t = free_page_tail s" "pmem t = pmem s" "cr3 t = cr3 s"
    "next_kernel_heap_vaddr t = next_kernel_heap_vaddr s" "vmem t = vmem s" "pool_free_head t = pool_free_head s"
    "pools_base t = pools_base s"
  shows "kinv t F live = kinv s F live"
proof -
  have "vm_inv t = vm_inv s"
    using vm_ok_cong [OF assms(1-6)] heap_cursor_cong [OF assms(7)] by (simp add: vm_inv_def)
  moreover have "pool_ptr t = pool_ptr s" by (simp add: pool_ptr_def [abs_def] assms)
  ultimately show ?thesis by (simp add: kinv_def block_ok_def assms cong: bkind.case_cong)
qed

lemma less_6: "(i :: nat) < 6 \<longleftrightarrow> i = 0 \<or> i = 1 \<or> i = 2 \<or> i = 3 \<or> i = 4 \<or> i = 5"
  by auto

lemma pool_sizes:
  assumes "i < 6"
  shows "32 \<le> unat (pool_block_size ! i)" "unat (pool_block_size ! i) \<le> 2048"
    "unat ((4 * PAGE_SIZE) div pool_block_size ! i) * unat (pool_block_size ! i) = 16384"
    "0 < unat ((4 * PAGE_SIZE) div pool_block_size ! i)"
  using assms unfolding less_6
  by (auto simp: pool_block_size_def PAGE_SIZE_def unat_div)

lemma block_words:
  assumes "vm_inv s" "block_ok s (b, k)"
  shows "unat (b + 8) = unat b + 8" "unat b \<in> region (b, k)" "unat (b + 8) \<in> region (b, k)"
    "16 \<le> bsize k" "b \<noteq> NULL" "unat b + bsize k \<le> 2 ^ 44"
proof -
  obtain n where "n \<le> 2 ^ 28" "unat (next_kernel_heap_vaddr s) = 0xF0000000000 + n * 0x1000"
    using assms(1) unat_heap_addr by (auto simp: vm_inv_def heap_cursor_def)
  then have top: "unat (next_kernel_heap_vaddr s) \<le> 2 ^ 44" by simp
  show sz: "16 \<le> bsize k"
    using assms(2) pool_sizes(1) by (cases k) (fastforce simp: block_ok_def)+
  show u: "unat b + bsize k \<le> 2 ^ 44"
    using assms(2) top by (auto simp: block_ok_def)
  then show b8: "unat (b + 8) = unat b + 8"
    by (simp add: unat_word_ariths)
  then show "unat b \<in> region (b, k)" "unat (b + 8) \<in> region (b, k)"
    using sz by (auto simp: region_def)
  show "b \<noteq> NULL" using assms(2) by (auto simp: block_ok_def)
qed

lemma kinvD:
  assumes "kinv s F live"
  shows "vm_inv s" "length (pool_free_head s) = 6" "i < 6 \<Longrightarrow> pool_ptr s i \<noteq> NULL"
    "i < 6 \<Longrightarrow> chain (vmem s) (pool_free_head s ! i) (F i)" "i < 6 \<Longrightarrow> distinct (F i)"
    "live \<inter> free_blocks F = {}" "x \<in> live \<union> free_blocks F \<Longrightarrow> block_ok s x"
    "\<lbrakk>x \<in> live \<union> free_blocks F; y \<in> live \<union> free_blocks F; x \<noteq> y\<rbrakk> \<Longrightarrow> region x \<inter> region y = {}"
  using assms unfolding kinv_def pairwise_def by blast+

text \<open>A write inside one block reaches no header of another.\<close>

lemma other_header:
  assumes "kinv s F live" "x \<in> live \<union> free_blocks F" "unat a \<in> region x"
    and "(c, k) \<in> live \<union> free_blocks F" "(c, k) \<noteq> x"
  shows "c \<noteq> a" "c + 8 \<noteq> a"
proof -
  note W = block_words [OF kinvD(1) [OF assms(1)] kinvD(7) [OF assms(1,4)]]
  have "region (c, k) \<inter> region x = {}"
    using kinvD(8) [OF assms(1,4,2,5)] .
  with W(2,3) assms(3) show "c \<noteq> a" "c + 8 \<noteq> a" by auto
qed

lemma free_blocks_iff: "(b, k) \<in> free_blocks F \<longleftrightarrow> (\<exists>i. k = Pool i \<and> i < 6 \<and> b \<in> set (F i))"
  by (auto simp: free_blocks_def)

lemma free_blocks_mem: "i < 6 \<Longrightarrow> b \<in> set (F i) \<Longrightarrow> (b, Pool i) \<in> free_blocks F"
  by (auto simp: free_blocks_def)

text \<open>Changing the memory, but no header word.\<close>

lemma kinv_mem:
  assumes K: "kinv s F live"
    and m: "\<And>c k. (c, k) \<in> live \<union> free_blocks F \<Longrightarrow> m c = vmem s c \<and> m (c + 8) = vmem s (c + 8)"
  shows "kinv (s\<lparr>vmem := m\<rparr>) F live"
proof -
  let ?s = "s\<lparr>vmem := m\<rparr>"
  have oh: "only_heap s ?s" by (simp add: only_heap_def)
  have "chain m (pool_free_head s ! i) (F i)" if "i < 6" for i
    using kinvD(4) [OF K that] m free_blocks_mem [OF that] by (subst chain_cong [of _ _ "vmem s"]) auto
  moreover have "block_ok ?s x" if "x \<in> live \<union> free_blocks F" for x
    using kinvD(7) [OF K that] m [of "fst x" "snd x"] that
    by (auto simp: block_ok_def pool_ptr_def split: bkind.splits)
  ultimately show ?thesis
    using K unfolding kinv_def by (simp add: only_heapD [OF oh])
qed

lemma kinv_payload:
  assumes K: "kinv s F live" and x: "(b, k) \<in> live" and a: "unat b + 16 \<le> unat a" "unat a < unat b + bsize k"
  shows "kinv (s\<lparr>vmem := (vmem s)(a := v)\<rparr>) F live"
proof (rule kinv_mem [OF K])
  fix c j assume c: "(c, j) \<in> live \<union> free_blocks F"
  have ar: "unat a \<in> region (b, k)" using a by (simp add: region_def)
  have "c \<noteq> a \<and> c + 8 \<noteq> a"
  proof (cases "(c, j) = (b, k)")
    case True
    note W = block_words [OF kinvD(1) [OF K] kinvD(7) [OF K c]]
    from True a W(1) show ?thesis by auto
  next
    case False
    with other_header [OF K _ ar c] x show ?thesis by blast
  qed
  then show "((vmem s)(a := v)) c = vmem s c \<and> ((vmem s)(a := v)) (c + 8) = vmem s (c + 8)" by auto
qed

section \<open>Taking and giving back blocks\<close>

text \<open>Changing the link of one pool block and the head of its pool: what stays, whatever the
  new chain of that pool is.\<close>

lemma kinv_relink:
  assumes K: "kinv s F live" and i: "i < 6" and b: "(b, Pool i) \<in> live \<union> free_blocks F"
    and s': "s' = s\<lparr>vmem := (vmem s)(b + 8 := v), pool_free_head := (pool_free_head s)[i := h]\<rparr>"
    and ch: "chain (vmem s') h bs" "distinct bs"
    and live': "live' \<union> free_blocks (F(i := bs)) = live \<union> free_blocks F" "live' \<inter> free_blocks (F(i := bs)) = {}"
  shows "kinv s' (F(i := bs)) live'"
proof -
  have oh: "only_heap s s'" by (simp add: only_heap_def s')
  note W = block_words [OF kinvD(1) [OF K] kinvD(7) [OF K b]]
  have other: "c \<noteq> b + 8" "(c, k) \<noteq> (b, Pool i) \<Longrightarrow> c + 8 \<noteq> b + 8"
    if "(c, k) \<in> live \<union> free_blocks F" for c k
  proof -
    show "c + 8 \<noteq> b + 8" if "(c, k) \<noteq> (b, Pool i)"
      using other_header(2) [OF K b W(3) _ that] \<open>(c, k) \<in> live \<union> free_blocks F\<close> by blast
    show "c \<noteq> b + 8"
      using other_header(1) [OF K b W(3) that] W(1) by (cases "(c, k) = (b, Pool i)") auto
  qed
  have "chain (vmem s') (pool_free_head s' ! j) ((F(i := bs)) j) \<and> distinct ((F(i := bs)) j)" if "j < 6" for j
  proof (cases "j = i")
    case True
    with ch i kinvD(2) [OF K] show ?thesis by (simp add: s')
  next
    case False
    have "chain (vmem s') (pool_free_head s ! j) (F j)"
      using kinvD(4) [OF K that] other(2) free_blocks_mem [OF that, of _ F] False
      by (subst chain_cong [of _ _ "vmem s"]) (auto simp: s')
    with False kinvD(5) [OF K that] show ?thesis by (simp add: s')
  qed
  moreover have "block_ok s' x" if x: "x \<in> live' \<union> free_blocks (F(i := bs))" for x
  proof -
    obtain c k where ck: "x = (c, k)" by fastforce
    then have "(c, k) \<in> live \<union> free_blocks F" using x live'(1) by simp
    moreover have "c + 8 \<noteq> b + 8" if "k = Pages n" for n
      using other(2) [OF calculation] that by auto
    ultimately show ?thesis
      using kinvD(7) [OF K, of "(c, k)"] other(1) [of c k]
      by (auto simp: ck block_ok_def s' pool_ptr_def split: bkind.splits)
  qed
  ultimately show ?thesis
    using K live' unfolding kinv_def by (simp add: only_heapD [OF oh]) (simp add: s')
qed

lemma free_blocks_upd:
  assumes "i < 6"
  shows "free_blocks (F(i := bs)) = {x \<in> free_blocks F. snd x \<noteq> Pool i} \<union> (\<lambda>b. (b, Pool i)) ` set bs"
proof (rule set_eqI)
  fix x :: "addr \<times> bkind"
  show "x \<in> free_blocks (F(i := bs)) \<longleftrightarrow> x \<in> {x \<in> free_blocks F. snd x \<noteq> Pool i} \<union> (\<lambda>b. (b, Pool i)) ` set bs"
    using assms by (cases x) (auto simp: free_blocks_iff)
qed

lemma kinv_pop:
  assumes K: "kinv s F live" and i: "i < 6" and F: "F i = b # bs"
    and s': "s' = s\<lparr>vmem := (vmem s)(b + 8 := NULL), pool_free_head := (pool_free_head s)[i := vmem s (b + 8)]\<rparr>"
  shows "kinv s' (F(i := bs)) (insert (b, Pool i) live)" "pool_free_head s ! i = b" "b \<noteq> NULL"
    "(b, Pool i) \<notin> live"
proof -
  have ch: "chain (vmem s) (pool_free_head s ! i) (b # bs)" "distinct (b # bs)"
    using kinvD(4,5) [OF K i] F by auto
  then show "pool_free_head s ! i = b" "b \<noteq> NULL" by auto
  have fb: "(b, Pool i) \<in> free_blocks F" using i F by (auto simp: free_blocks_def)
  then show "(b, Pool i) \<notin> live" using kinvD(6) [OF K] by blast
  note W = block_words [OF kinvD(1) [OF K] kinvD(7) [OF K]]
  have "chain (vmem s') (vmem s (b + 8)) bs"
    using ch by (subst chain_cong [of _ _ "vmem s"]) (auto simp: s')
  moreover have "insert (b, Pool i) live \<union> free_blocks (F(i := bs)) = live \<union> free_blocks F"
    using F i by (auto simp: free_blocks_upd [OF i]) (auto simp: free_blocks_def)
  moreover have "insert (b, Pool i) live \<inter> free_blocks (F(i := bs)) = {}"
    using kinvD(6) [OF K] ch(2) F i by (auto simp: free_blocks_upd [OF i]) (auto simp: free_blocks_def)
  ultimately show "kinv s' (F(i := bs)) (insert (b, Pool i) live)"
    using ch(2) fb kinv_relink [OF K i _ s', of bs "insert (b, Pool i) live"] by simp
qed

lemma kinv_push:
  assumes K: "kinv s F live" and b: "(b, Pool i) \<in> live"
    and s': "s' = s\<lparr>vmem := (vmem s)(b + 8 := pool_free_head s ! i), pool_free_head := (pool_free_head s)[i := b]\<rparr>"
  shows "kinv s' (F(i := b # F i)) (live - {(b, Pool i)})"
proof -
  have i: "i < 6" using kinvD(7) [OF K, of "(b, Pool i)"] b by (simp add: block_ok_def)
  note W = block_words [OF kinvD(1) [OF K] kinvD(7) [OF K, of "(b, Pool i)"]]
  have nF: "b \<notin> set (F i)"
    using kinvD(6) [OF K] b free_blocks_mem [OF i, of b F] by blast
  have "chain (vmem s') (pool_free_head s ! i) (F i)"
    using kinvD(4) [OF K i] nF by (subst chain_cong [of _ _ "vmem s"]) (auto simp: s')
  then have "chain (vmem s') b (b # F i)" "distinct (b # F i)"
    using W(5) b nF kinvD(5) [OF K i] by (auto simp: s')
  moreover have "(live - {(b, Pool i)}) \<union> free_blocks (F(i := b # F i)) = live \<union> free_blocks F"
    using b i by (auto simp: free_blocks_upd [OF i]) (auto simp: free_blocks_def)
  moreover have "(live - {(b, Pool i)}) \<inter> free_blocks (F(i := b # F i)) = {}"
    using kinvD(6) [OF K] free_blocks_mem [OF i, of _ F] by (auto simp: free_blocks_upd [OF i])
  ultimately show ?thesis
    using b kinv_relink [OF K i _ s', of "b # F i" "live - {(b, Pool i)}"] by simp
qed

section \<open>New pages for the heap\<close>

lemma mm_more_heap:
  fixes s s' :: "('d, 'a) kheap_scheme"
  assumes "mm.more s' = mm.more s"
  shows "vmem s' = vmem s" "pool_free_head s' = pool_free_head s" "pools_base s' = pools_base s"
  using assms by (cases s; cases s'; simp)+

lemma kinv_advance:
  fixes s s' :: "('d, 'a) kheap_scheme"
  assumes K: "kinv s F live" and s': "mm.more s' = mm.more s" "vm_inv s'"
    and le: "unat (next_kernel_heap_vaddr s) \<le> unat (next_kernel_heap_vaddr s')"
  shows "kinv s' F live"
proof -
  note eq = mm_more_heap [OF s'(1)]
  have "block_ok s' x" if "x \<in> live \<union> free_blocks F" for x
    using kinvD(7) [OF K that] le by (auto simp: block_ok_def eq pool_ptr_def split: bkind.splits)
  then show ?thesis
    using K s'(2) unfolding kinv_def by (simp add: eq pool_ptr_def)
qed

lemma unat_cursor: "cursor_at s n \<Longrightarrow> unat (next_kernel_heap_vaddr s) = 0xF0000000000 + n * 0x1000"
  by (simp add: cursor_at_def unat_heap_addr)

lemma MMU_alloc_pages_heap:
  assumes K: "kinv s F live" and al: "MMU_alloc_pages k s = (cur, s1)"
  shows "kinv s1 F live" "mm.more s1 = mm.more s"
    "cur \<noteq> NULL \<Longrightarrow> 0 < k \<and> unat cur = unat (next_kernel_heap_vaddr s) \<and>
       unat (next_kernel_heap_vaddr s1) = unat cur + nat k * 4096 \<and> nat k \<le> 2 ^ 28"
proof -
  have inv: "vm_inv s" by (rule kinvD(1) [OF K])
  then obtain n where n: "cursor_at s n" by (auto simp: vm_inv_def heap_cursor_at)
  obtain j where j: "j \<ge> n" "cursor_at s1 j" "mm.more s1 = mm.more s"
      "cur \<noteq> NULL \<longrightarrow> 0 < k \<and> cur = MMAP_KERNEL_HEAP_START + of_nat n * PAGE_SIZE \<and> j = n + nat k"
    using MMU_alloc_pages_cursor [OF n al] by blast
  have "vm_inv s1" using MMU_alloc_pages_inv [OF inv, of k] al by simp
  then show "kinv s1 F live"
    using kinv_advance [OF K j(3)] unat_cursor [OF n] unat_cursor [OF j(2)] j(1) by simp
  show "mm.more s1 = mm.more s" by (rule j(3))
  show "0 < k \<and> unat cur = unat (next_kernel_heap_vaddr s) \<and>
      unat (next_kernel_heap_vaddr s1) = unat cur + nat k * 4096 \<and> nat k \<le> 2 ^ 28" if "cur \<noteq> NULL"
    using j that n unat_cursor [OF n] unat_cursor [OF j(2)] by (auto simp: cursor_at_def)
qed

lemma blocks_of_unat:
  assumes "unat cur + n * unat (pool_block_size ! i) < 2 ^ 64" "k < n"
  shows "unat (cur + of_nat k * pool_block_size ! i) = unat cur + k * unat (pool_block_size ! i)"
proof -
  let ?bs = "unat (pool_block_size ! i)"
  have "Suc k * ?bs \<le> n * ?bs"
    using assms(2) by (intro mult_le_mono1) simp
  then have lt: "unat cur + k * ?bs < 2 ^ 64" using assms(1) by simp
  have "cur + of_nat k * pool_block_size ! i = of_nat (unat cur + k * ?bs)" by simp
  with lt show ?thesis by (simp only: unat_of_nat) simp
qed

lemma blocks_of_region:
  assumes "unat cur + n * unat (pool_block_size ! i) < 2 ^ 64" "k < n"
  shows "region (cur + of_nat k * pool_block_size ! i, Pool i) =
    {unat cur + k * unat (pool_block_size ! i)..<unat cur + Suc k * unat (pool_block_size ! i)}"
  using blocks_of_unat [OF assms] by (simp add: region_def algebra_simps)

lemma blocks_of_disjoint:
  assumes "unat cur + n * unat (pool_block_size ! i) < 2 ^ 64" "k < n" "l < n" "k \<noteq> l"
  shows "region (cur + of_nat k * pool_block_size ! i, Pool i) \<inter>
    region (cur + of_nat l * pool_block_size ! i, Pool i) = {}"
proof -
  let ?bs = "unat (pool_block_size ! i)"
  have "Suc k * ?bs \<le> l * ?bs \<or> Suc l * ?bs \<le> k * ?bs"
    using assms(4) mult_le_mono1 [of "Suc k" l ?bs] mult_le_mono1 [of "Suc l" k ?bs] by linarith
  then show ?thesis
    unfolding blocks_of_region [OF assms(1,2)] blocks_of_region [OF assms(1,3)] by auto
qed

definition new_blocks :: "nat \<Rightarrow> nat \<Rightarrow> addr \<Rightarrow> (addr \<times> bkind) set" where
  "new_blocks i n cur = (\<lambda>b. (b, Pool i)) ` set (blocks_of i n cur)"

lemma new_blocksE:
  assumes "x \<in> new_blocks i n cur"
  obtains k where "k < n" "x = (cur + of_nat k * pool_block_size ! i, Pool i)"
  using assms by (auto simp: new_blocks_def blocks_of_def)

lemma new_blocks_region:
  assumes "unat cur + n * unat (pool_block_size ! i) < 2 ^ 64" "x \<in> new_blocks i n cur"
  shows "region x \<subseteq> {unat cur..<unat cur + n * unat (pool_block_size ! i)}"
    "unat cur \<le> unat (fst x)" "unat (fst x) + bsize (snd x) \<le> unat cur + n * unat (pool_block_size ! i)"
proof -
  let ?bs = "unat (pool_block_size ! i)"
  obtain k where k: "k < n" "x = (cur + of_nat k * pool_block_size ! i, Pool i)"
    using assms(2) by (rule new_blocksE)
  have "Suc k * ?bs \<le> n * ?bs" using k(1) by (intro mult_le_mono1) simp
  then show "region x \<subseteq> {unat cur..<unat cur + n * ?bs}" "unat cur \<le> unat (fst x)"
      "unat (fst x) + bsize (snd x) \<le> unat cur + n * ?bs"
    using k blocks_of_unat [OF assms(1) k(1)] blocks_of_region [OF assms(1) k(1)] by auto
qed

lemma new_blocks_disjoint:
  assumes "unat cur + n * unat (pool_block_size ! i) < 2 ^ 64"
    and "x \<in> new_blocks i n cur" "y \<in> new_blocks i n cur" "x \<noteq> y"
  shows "region x \<inter> region y = {}"
proof -
  obtain k l where "k < n" "x = (cur + of_nat k * pool_block_size ! i, Pool i)"
    "l < n" "y = (cur + of_nat l * pool_block_size ! i, Pool i)"
    using assms(2,3) by (metis new_blocksE)
  with assms(4) blocks_of_disjoint [OF assms(1), of k l] show ?thesis by auto
qed

lemma distinct_blocks_of:
  assumes "unat cur + n * unat (pool_block_size ! i) < 2 ^ 64" "16 \<le> unat (pool_block_size ! i)"
  shows "distinct (blocks_of i n cur)"
proof -
  have "inj_on (\<lambda>k. cur + of_nat k * pool_block_size ! i) {0..<n}"
  proof (rule inj_onI)
    fix k l assume "k \<in> {0..<n}" "l \<in> {0..<n}"
      "cur + of_nat k * pool_block_size ! i = cur + of_nat l * pool_block_size ! i"
    then have "unat cur + k * unat (pool_block_size ! i) = unat cur + l * unat (pool_block_size ! i)"
      using blocks_of_unat [OF assms(1)] by (metis atLeastLessThan_iff)
    with assms(2) show "k = l" by auto
  qed
  then show ?thesis by (simp add: blocks_of_def distinct_map)
qed

text \<open>Adding blocks that lie behind everything there is.\<close>

lemma kinv_extend:
  assumes K: "kinv s F live" and oh: "only_heap s s'"
    and old: "\<And>x. x \<in> live \<union> free_blocks F \<Longrightarrow> unat (fst x) + bsize (snd x) \<le> lim"
    and mem: "\<And>a. unat a < lim \<Longrightarrow> vmem s' a = vmem s a"
    and sub: "live \<subseteq> live'" "\<And>j. j < 6 \<Longrightarrow> F j = F' j \<or> F j = []"
    and heads: "length (pool_free_head s') = 6"
      "\<And>j. j < 6 \<Longrightarrow> F j = F' j \<Longrightarrow> pool_free_head s' ! j = pool_free_head s ! j"
      "\<And>j. j < 6 \<Longrightarrow> F j \<noteq> F' j \<Longrightarrow> chain (vmem s') (pool_free_head s' ! j) (F' j) \<and> distinct (F' j)"
    and new: "live' \<union> free_blocks F' = live \<union> free_blocks F \<union> N" "live' \<inter> free_blocks F' = {}"
      "\<And>x. x \<in> N \<Longrightarrow> block_ok s' x \<and> region x \<subseteq> {lim..}"
      "\<And>x y. x \<in> N \<Longrightarrow> y \<in> N \<Longrightarrow> x \<noteq> y \<Longrightarrow> region x \<inter> region y = {}"
  shows "kinv s' F' live'"
proof -
  note H = only_heapD [OF oh]
  have words: "vmem s' c = vmem s c \<and> vmem s' (c + 8) = vmem s (c + 8)" if "(c, k) \<in> live \<union> free_blocks F" for c k
    using mem old [OF that] block_words(1,4) [OF kinvD(1) [OF K] kinvD(7) [OF K that]] by simp
  have "chain (vmem s') (pool_free_head s' ! j) (F' j) \<and> distinct (F' j)" if j: "j < 6" for j
  proof (cases "F j = F' j")
    case True
    have "chain (vmem s') (pool_free_head s ! j) (F j)"
      using kinvD(4) [OF K j] words free_blocks_mem [OF j, of _ F]
      by (subst chain_cong [of _ _ "vmem s"]) auto
    with True heads(2) [OF j] kinvD(5) [OF K j] show ?thesis by simp
  qed (use heads(3) [OF j] in blast)
  moreover have "block_ok s' x" if "x \<in> live' \<union> free_blocks F'" for x
  proof (cases "x \<in> live \<union> free_blocks F")
    case True
    with kinvD(7) [OF K True] words [of "fst x" "snd x"] H show ?thesis
      by (auto simp: block_ok_def split: bkind.splits)
  qed (use that new(1,3) in blast)
  moreover have "pairwise (\<lambda>x y. region x \<inter> region y = {}) (live' \<union> free_blocks F')"
  proof -
    have "region x \<inter> region y = {}" if "x \<in> live \<union> free_blocks F" "y \<in> N" for x y
      using old [OF that(1)] new(3) [OF that(2)] by (fastforce simp: region_def)
    with kinvD(8) [OF K] new(4) show ?thesis
      unfolding pairwise_def new(1) by (metis (no_types, lifting) Int_commute Un_iff)
  qed
  ultimately show ?thesis
    using K heads(1) new(2) unfolding kinv_def by (simp add: H)
qed

text \<open>Four new pages become blocks of an empty pool.\<close>

lemma kinv_grow:
  assumes K: "kinv s F live" and i: "i < 6" and e: "F i = []" and al: "MMU_alloc_pages 4 s = (cur, s1)"
    and cur: "cur \<noteq> NULL" and nb: "nb = unat ((4 * PAGE_SIZE) div pool_block_size ! i)"
    and s2: "s2 = increase_loop i nb (Free_head i) cur s1"
  shows "kinv s2 (F(i := blocks_of i nb cur)) live" "blocks_of i nb cur \<noteq> []"
proof -
  note A = MMU_alloc_pages_heap [OF K al]
  let ?bs = "unat (pool_block_size ! i)" and ?F = "F(i := blocks_of i nb cur)"
  have nb': "nb * ?bs = 16384" "0 < nb" and bs: "16 \<le> ?bs"
    using pool_sizes [OF i] by (simp_all add: nb)
  have A3: "unat cur = unat (next_kernel_heap_vaddr s)" "unat (next_kernel_heap_vaddr s1) = unat cur + 16384"
    using A(3) [OF cur] by simp_all
  then have lt: "unat cur + nb * ?bs < 2 ^ 64" using nb' unat_less_pow [of "next_kernel_heap_vaddr s1"] by simp
  obtain n where cn: "cursor_at s n" using kinvD(1) [OF K] by (auto simp: vm_inv_def heap_cursor_at)
  have lo: "0xF0000000000 \<le> unat cur" "0 < unat cur" using A3 unat_cursor [OF cn] by simp_all
  show ne: "blocks_of i nb cur \<noteq> []" using nb'(2) by (simp add: blocks_of_def)
  note C = increase_loop_chain [OF lt bs nb'(2) lo(2), of "Free_head i" s1, folded s2]
  have oh: "only_heap s1 s2" unfolding s2 by (rule increase_loop_frame)
  have heads: "pool_free_head s2 = (pool_free_head s1)[i := cur]"
    unfolding s2 using nb'(2) by (rule increase_loop_heads)
  have old: "unat (fst x) + bsize (snd x) \<le> unat cur" if "x \<in> live \<union> free_blocks F" for x
    using kinvD(7) [OF K that] A3(1) by (auto simp: block_ok_def)
  have fb: "free_blocks ?F = free_blocks F \<union> new_blocks i nb cur"
    using e by (auto simp: free_blocks_upd [OF i] new_blocks_def) (auto simp: free_blocks_def)
  note R = new_blocks_region [OF lt]
  have nblock: "block_ok s2 x \<and> region x \<subseteq> {unat cur..}" if x: "x \<in> new_blocks i nb cur" for x
    using R [OF x] x C i lo(1) A3(2) nb'(1) only_heapD [OF oh] by (auto simp: block_ok_def new_blocks_def)
  have "x \<notin> live" if x: "x \<in> new_blocks i nb cur" for x
    using old [of x] R(2) [OF x] bs x by (auto simp: new_blocks_def)
  then have dis: "live \<inter> free_blocks ?F = {}"
    using kinvD(6) [OF K] unfolding fb by blast
  have mem: "vmem s2 a = vmem s1 a" if "unat a < unat cur" for a
    unfolding s2 using lt bs that by (intro increase_loop_other) auto
  have Fi: "F j = ?F j \<longleftrightarrow> j \<noteq> i" for j using e ne by auto
  show "kinv s2 ?F live"
  proof (rule kinv_extend [OF A(1) oh old mem, where N = "new_blocks i nb cur"])
    fix j :: nat assume j: "j < 6"
    show "F j = ?F j \<or> F j = []" using e by simp
    show "F j = ?F j \<Longrightarrow> pool_free_head s2 ! j = pool_free_head s1 ! j"
      by (simp only: Fi heads nth_list_update_neq)
    show "F j \<noteq> ?F j \<Longrightarrow> chain (vmem s2) (pool_free_head s2 ! j) (?F j) \<and> distinct (?F j)"
      unfolding Fi using heads C distinct_blocks_of [OF lt bs] kinvD(2) [OF A(1)] i by simp
  next
    show "live \<union> free_blocks ?F = live \<union> free_blocks F \<union> new_blocks i nb cur" using fb by blast
  qed (use dis nblock new_blocks_disjoint [OF lt] heads kinvD(2) [OF A(1)] in auto)
qed

section \<open>The operations keep the invariant\<close>

lemma head_null: "kinv s F live \<Longrightarrow> i < 6 \<Longrightarrow> pool_free_head s ! i = NULL \<longleftrightarrow> F i = []"
  using kinvD(4) [of s F live i] by (cases "F i") auto

lemma kmalloc_alloc_spec:
  assumes K: "kinv s F live" and i: "i < 6" and eq: "kmalloc_alloc i s = (b, s')"
  shows "if b = NULL then \<exists>F'. kinv s' F' live
    else (b, Pool i) \<notin> live \<and> (\<exists>F'. kinv s' F' (insert (b, Pool i) live)) \<and>
         (F i \<noteq> [] \<longrightarrow> b = hd (F i))"
proof (cases "F i = []")
  case False
  then obtain c bs where F: "F i = c # bs" by (cases "F i") auto
  note P = kinv_pop [OF K i F refl]
  have "b = c" "s' = s\<lparr>vmem := (vmem s)(c + 8 := NULL), pool_free_head := (pool_free_head s)[i := vmem s (c + 8)]\<rparr>"
    using eq P(2,3) by (auto simp: kmalloc_alloc_def Let_def)
  with P F show ?thesis by auto
next
  case True
  then have h: "pool_free_head s ! i = NULL" using head_null [OF K i] by simp
  obtain cur s1 where al: "MMU_alloc_pages 4 s = (cur, s1)" by fastforce
  show ?thesis
  proof (cases "cur = NULL")
    case True
    then have "b = NULL" "s' = s1"
      using eq h al by (auto simp: kmalloc_alloc_def kmalloc_increase_pool_def POOL_PAGE_INCREASE_def)
    with MMU_alloc_pages_heap(1) [OF K al] show ?thesis by auto
  next
    case False
    define nb where "nb = unat ((4 * PAGE_SIZE) div pool_block_size ! i)"
    define s2 where "s2 = increase_loop i nb (Free_head i) cur s1"
    note G = kinv_grow [OF K i True al False nb_def s2_def]
    obtain c bs where F: "blocks_of i nb cur = c # bs" using G(2) by (cases "blocks_of i nb cur") auto
    then have F': "(F(i := blocks_of i nb cur)) i = c # bs" by simp
    note P = kinv_pop [OF G(1) i F' refl]
    have "kmalloc_increase_pool i 4 s = (0, s2)"
      using h al False by (simp add: kmalloc_increase_pool_def s2_def nb_def)
    then have "b = c"
        "s' = s2\<lparr>vmem := (vmem s2)(c + 8 := NULL), pool_free_head := (pool_free_head s2)[i := vmem s2 (c + 8)]\<rparr>"
      using eq h P(2,3) by (auto simp: kmalloc_alloc_def POOL_PAGE_INCREASE_def Let_def)
    with P True show ?thesis by auto
  qed
qed

subsection \<open>Whole pages\<close>

definition pages_for :: "u64 \<Rightarrow> nat" where
  "pages_for sz = (unat sz + 4095) div 4096"

lemma pages_for_eq: "pages_for sz = unat sz div 4096 + (if unat sz mod 4096 \<noteq> 0 then 1 else 0)"
proof -
  have "unat sz + 4095 = (unat sz mod 4096 + 4095) + unat sz div 4096 * 4096"
    using div_mult_mod_eq [of "unat sz" 4096] by linarith
  then have "pages_for sz = unat sz div 4096 + (unat sz mod 4096 + 4095) div 4096"
    unfolding pages_for_def by (metis add.commute div_mult_self1 zero_neq_numeral)
  moreover have "unat sz mod 4096 < 4096" by simp
  then have "(unat sz mod 4096 + 4095) div 4096 = (if unat sz mod 4096 \<noteq> 0 then 1 else 0)"
    by (auto simp: div_nat_eqI)
  ultimately show ?thesis by simp
qed

lemma num_pages:
  fixes sz :: u64
  assumes "unat sz < 2 ^ 40"
  defines "np \<equiv> (if sz mod PAGE_SIZE \<noteq> 0 then (ucast (sz div PAGE_SIZE) :: u32) + 1 else ucast (sz div PAGE_SIZE))"
  shows "unat np = pages_for sz" "sint np = int (pages_for sz)" "scast np = (of_nat (pages_for sz) :: u64)"
    "pages_for sz \<le> 2 ^ 28"
proof -
  have d: "unat (sz div PAGE_SIZE) = unat sz div 4096" "unat (sz mod PAGE_SIZE) = unat sz mod 4096"
    by (simp_all add: PAGE_SIZE_def unat_div unat_mod)
  have lt: "unat sz div 4096 < 2 ^ 28" using assms(1) by (simp add: div_less_iff_less_mult)
  have u: "unat (ucast (sz div PAGE_SIZE) :: u32) = unat sz div 4096"
    using lt d by (simp add: unsigned_ucast_eq take_bit_nat_eq_self)
  have m: "sz mod PAGE_SIZE \<noteq> 0 \<longleftrightarrow> unat sz mod 4096 \<noteq> 0"
    using d(2) by (metis unat_0 unsigned_eq_0_iff)
  note pf = pages_for_eq [of sz]
  show un: "unat np = pages_for sz"
    using u lt by (auto simp: np_def m pf unat_word_ariths)
  show le: "pages_for sz \<le> 2 ^ 28" using lt by (simp add: pf)
  have lt31: "unat np < 2 ^ 31" using un le by simp
  then show sn: "sint np = int (pages_for sz)"
    by (simp only: sint_u32 un)
  show "scast np = (of_nat (pages_for sz) :: u64)"
    by (metis of_int_sint sn of_int_of_nat_eq)
qed

lemma kinv_pages:
  assumes K: "kinv s F live" and al: "MMU_alloc_pages (int n) s = (b, s1)" and b: "b \<noteq> NULL"
    and s': "s' = s1\<lparr>vmem := (vmem s1)(b := NULL, b + 8 := of_nat n)\<rparr>"
  shows "kinv s' F (insert (b, Pages n) live)" "(b, Pages n) \<notin> live"
proof -
  note A = MMU_alloc_pages_heap [OF K al]
  have A3: "0 < n" "unat b = unat (next_kernel_heap_vaddr s)"
      "unat (next_kernel_heap_vaddr s1) = unat b + n * 4096" "n \<le> 2 ^ 28"
    using A(3) [OF b] by simp_all
  obtain j where cj: "cursor_at s j" using kinvD(1) [OF K] by (auto simp: vm_inv_def heap_cursor_at)
  have lo: "0xF0000000000 \<le> unat b" "unat b \<le> 2 ^ 44"
    using A3 unat_cursor [OF cj] cj by (simp_all add: cursor_at_def)
  then have b8: "unat (b + 8) = unat b + 8" by (simp add: unat_word_ariths)
  then have ne: "b \<noteq> b + 8" by auto
  have old: "unat (fst x) + bsize (snd x) \<le> unat b" if "x \<in> live \<union> free_blocks F" for x
    using kinvD(7) [OF K that] A3(2) by (auto simp: block_ok_def)
  have oh: "only_heap s1 s'" by (simp add: only_heap_def s')
  have ok: "block_ok s' (b, Pages n)"
    using A3 lo ne by (simp add: block_ok_def s')
  show nl: "(b, Pages n) \<notin> live"
    using old [of "(b, Pages n)"] A3(1) by auto
  have nf: "(b, Pages n) \<notin> free_blocks F" by (simp add: free_blocks_iff)
  have mem: "vmem s' a = vmem s1 a" if "unat a < unat b" for a
    using that b8 by (auto simp: s')
  show "kinv s' F (insert (b, Pages n) live)"
    by (rule kinv_extend [OF A(1) oh old mem, where N = "{(b, Pages n)}"])
      (use ok kinvD(2,6) [OF A(1)] nf in \<open>auto simp: s' region_def\<close>)
qed

lemma free_pages_loop_cursors: "same_cursors s (free_pages_loop va is s)"
proof (induction "is" arbitrary: s)
  case Nil
  then show ?case by simp
next
  case (Cons i "is")
  have "same_cursors s (MMU_free_page (va + PAGE_SIZE * of_nat i) s)"
    using PT_free_cursors [of s "va + PAGE_SIZE * of_nat i"] by (auto simp: MMU_free_page_def split: prod.split)
  with Cons.IH show ?case
    unfolding free_pages_loop_Cons by (rule same_cursors_trans [rotated])
qed

lemma heap_page_va:
  assumes "0xF0000000000 \<le> unat b" "unat b + n * 4096 \<le> 2 ^ 44" "i < n"
  shows "kernel_va (b + PAGE_SIZE * of_nat i)"
proof -
  have "b + PAGE_SIZE * of_nat i = of_nat (unat b + i * 4096)" by (simp add: PAGE_SIZE_def)
  moreover have "unat b + i * 4096 < 2 ^ 48" using assms by simp
  ultimately have "unat (b + PAGE_SIZE * of_nat i) = unat b + i * 4096"
    by (simp only: unat_of_nat) simp
  with assms show ?thesis by (intro kernel_va_range) auto
qed

lemma kinv_subset: "kinv s F live \<Longrightarrow> live' \<subseteq> live \<Longrightarrow> kinv s F live'"
  unfolding kinv_def by (blast intro: pairwise_subset)

lemma find_pool_ptr:
  assumes "kinv s F live" "i < 6" "vmem s b = pool_ptr s i"
  shows "find (\<lambda>j. pool_ptr s j = vmem s b) [0..<NUM_POOLS] = Some i"
proof -
  have inj: "pool_ptr s j = pool_ptr s i \<longleftrightarrow> j = i" if "j < 6" for j
    using that assms(2) unfolding less_6 by (auto simp: pool_ptr_def)
  show ?thesis
    unfolding find_Some_iff using assms(2,3) inj by (auto simp: NUM_POOLS_def intro!: exI [of _ i])
qed

text \<open>Freeing a live block succeeds and makes it available again.\<close>

lemma kfree_spec:
  assumes K: "kinv s F live" and x: "(b, k) \<in> live"
  shows "\<exists>s' F'. kfree (b + HEADER_SIZE) s = Some s' \<and> kinv s' F' (live - {(b, k)}) \<and>
    (\<forall>i. k = Pool i \<longrightarrow> F' i = b # F i)"
proof (cases k)
  case (Pool i)
  note B = kinvD(7) [OF K, of "(b, k)"]
  have i: "i < 6" "vmem s b = pool_ptr s i" using B x Pool by (auto simp: block_ok_def)
  have "kfree (b + HEADER_SIZE) s = Some (s\<lparr>vmem := (vmem s)(b + 8 := pool_free_head s ! i),
      pool_free_head := (pool_free_head s)[i := b]\<rparr>)"
    using find_pool_ptr [OF K i] kinvD(3) [OF K i(1)] i by (simp add: kfree_def Let_def)
  moreover note kinv_push [OF K x [unfolded Pool] refl]
  ultimately show ?thesis using Pool by auto
next
  case (Pages n)
  note B = kinvD(7) [OF K, of "(b, k)"] and W = block_words [OF kinvD(1) [OF K], of b k]
  have n: "0 < n" "n \<le> 2 ^ 28" "vmem s b = NULL" "vmem s (b + 8) = of_nat n"
    "0xF0000000000 \<le> unat b" "unat b + n * 4096 \<le> 2 ^ 44"
    using B W(6) x Pages by (auto simp: block_ok_def)
  have "unat (ucast (of_nat n :: u64) :: u32) = n"
    using n(2) by (simp add: unsigned_ucast_eq unat_of_nat take_bit_nat_eq_self take_bit_eq_mod)
  then have "sint (ucast (of_nat n :: u64) :: u32) = int n"
    using n(2) by (subst sint_u32) simp_all
  then have fr: "kfree (b + HEADER_SIZE) s = Some (MMU_free_pages b (int n) s)"
    using n(3,4) by (simp add: kfree_def Let_def)
  have "vm_inv (MMU_free_pages b (int n) s)"
    unfolding MMU_free_pages_def using heap_page_va [OF n(5,6)]
    by (intro free_pages_loop_inv kinvD(1) [OF K]) auto
  moreover have "same_cursors s (MMU_free_pages b (int n) s)"
    unfolding MMU_free_pages_def by (rule free_pages_loop_cursors)
  ultimately have "kinv (MMU_free_pages b (int n) s) F live"
    by (intro kinv_advance [OF K]) (auto simp: same_cursors_def)
  then have "kinv (MMU_free_pages b (int n) s) F (live - {(b, k)})"
    by (rule kinv_subset) auto
  with fr Pages show ?thesis by auto
qed

section \<open>Histories of the heap\<close>

definition kind_of :: "u64 \<Rightarrow> bkind" where
  "kind_of sz = (case find_pool sz [0..<NUM_POOLS] of Some i \<Rightarrow> Pool i | None \<Rightarrow> Pages (pages_for sz))"

lemma find_pool_SomeD: "find_pool sz is = Some i \<Longrightarrow> i \<in> set is \<and> sz + HEADER_SIZE \<le> pool_block_size ! i"
  by (induction "is") (auto split: if_splits)

lemma kmalloc_spec:
  assumes K: "kinv s F live" and sz: "unat sz < 2 ^ 40" and eq: "kmalloc sz s = (p, s')"
  shows "if p = NULL then \<exists>F'. kinv s' F' live
    else (p - HEADER_SIZE, kind_of sz) \<notin> live \<and> (\<exists>F'. kinv s' F' (insert (p - HEADER_SIZE, kind_of sz) live)) \<and>
      (\<forall>i. kind_of sz = Pool i \<and> F i \<noteq> [] \<longrightarrow> p = hd (F i) + HEADER_SIZE)"
proof (cases "sz = 0")
  case True
  with eq K show ?thesis by (auto simp: kmalloc_def)
next
  case nz: False
  show ?thesis
  proof (cases "find_pool sz [0..<NUM_POOLS]")
    case (Some i)
    then have i: "i < 6" using find_pool_SomeD [OF Some] by (simp add: NUM_POOLS_def)
    obtain b s1 where al: "kmalloc_alloc i s = (b, s1)" by fastforce
    note A = kmalloc_alloc_spec [OF K i al]
    have p: "p = (if b = NULL then NULL else b + HEADER_SIZE)" "s' = s1"
      using eq Some nz al by (auto simp: kmalloc_def split: if_splits)
    have "b + HEADER_SIZE \<noteq> NULL" if b: "b \<noteq> NULL"
    proof -
      obtain F' where K1: "kinv s1 F' (insert (b, Pool i) live)" using A b by auto
      have "unat b + bsize (Pool i) \<le> 2 ^ 44" "16 \<le> bsize (Pool i)"
        using block_words(4,6) [OF kinvD(1) [OF K1] kinvD(7) [OF K1], of b "Pool i"] by simp_all
      then have "unat (b + HEADER_SIZE) = unat b + 16" by (simp add: HEADER_SIZE_def unat_word_ariths)
      then show ?thesis by auto
    qed
    with A p Some show ?thesis by (auto simp: kind_of_def)
  next
    case None
    let ?np = "if sz mod PAGE_SIZE \<noteq> 0 then (ucast (sz div PAGE_SIZE) :: u32) + 1 else ucast (sz div PAGE_SIZE)"
    note N = num_pages [OF sz]
    obtain b s1 where al: "MMU_alloc_pages (int (pages_for sz)) s = (b, s1)" by fastforce
    then have "MMU_alloc_pages (sint ?np) s = (b, s1)" by (simp only: N(2))
    then have p: "p = (if b = NULL then NULL else b + HEADER_SIZE)"
      "s' = (if b = NULL then s1 else s1\<lparr>vmem := (vmem s1)(b := NULL, b + 8 := scast ?np)\<rparr>)"
      using eq None nz by (auto simp: kmalloc_def Let_def split: if_splits)
    show ?thesis
    proof (cases "b = NULL")
      case True
      with p MMU_alloc_pages_heap(1) [OF K al] show ?thesis by auto
    next
      case False
      have s': "s' = s1\<lparr>vmem := (vmem s1)(b := NULL, b + 8 := of_nat (pages_for sz))\<rparr>"
        using p(2) False by (simp only: N(3) if_False)
      note P = kinv_pages [OF K al False s']
      have "unat b + bsize (Pages (pages_for sz)) \<le> 2 ^ 44" "16 \<le> bsize (Pages (pages_for sz))"
        using block_words(4,6) [OF kinvD(1) [OF P(1)] kinvD(7) [OF P(1)], of b "Pages (pages_for sz)"] by simp_all
      then have "unat (b + HEADER_SIZE) = unat b + 16" by (simp add: HEADER_SIZE_def unat_word_ariths)
      then have "b + HEADER_SIZE \<noteq> NULL" by auto
      moreover have "p = b + HEADER_SIZE" using p(1) False by simp
      ultimately show ?thesis
        using P None by (auto simp: kind_of_def)
    qed
  qed
qed

text \<open>The fields that other components add to the state are left alone.\<close>

lemma only_heap_more: "only_heap s t \<Longrightarrow> kheap.more t = kheap.more s"
  by (cases s; cases t) (simp add: only_heap_def)

lemma mm_more_kheap: "mm.more t = mm.more s \<Longrightarrow> kheap.more t = kheap.more (s :: ('d, 'a) kheap_scheme)"
  by (cases s; cases t) simp

lemma kmalloc_alloc_more:
  assumes "kinv s F live" "kmalloc_alloc i s = (b, t)"
  shows "kheap.more t = kheap.more s"
proof (cases "pool_free_head s ! i = NULL")
  case False
  then show ?thesis using assms(2) by (auto simp: kmalloc_alloc_def Let_def)
next
  case True
  obtain cur s1 where al: "MMU_alloc_pages POOL_PAGE_INCREASE s = (cur, s1)" by fastforce
  obtain r u where inc: "kmalloc_increase_pool i POOL_PAGE_INCREASE s = (r, u)" by fastforce
  have "kheap.more s1 = kheap.more s" by (rule mm_more_kheap [OF MMU_alloc_pages_heap(2) [OF assms(1) al]])
  moreover have "u = s1 \<or> (\<exists>n p c. u = increase_loop i n p c s1)"
    using inc al True by (auto simp: kmalloc_increase_pool_def Let_def split: if_splits)
  ultimately have "kheap.more u = kheap.more s" by (auto simp: only_heap_more [OF increase_loop_frame])
  then show ?thesis using assms(2) True inc by (auto simp: kmalloc_alloc_def Let_def split: if_splits)
qed

lemma kmalloc_more:
  assumes "kinv s F live" "kmalloc sz s = (p, t)"
  shows "kheap.more t = kheap.more s"
proof (cases "find_pool sz [0..<NUM_POOLS]")
  case (Some i)
  obtain b u where "kmalloc_alloc i s = (b, u)" by fastforce
  with kmalloc_alloc_more [OF assms(1) this] assms(2) Some show ?thesis by (auto simp: kmalloc_def split: if_splits)
next
  case None
  let ?np = "if sz mod PAGE_SIZE \<noteq> 0 then (ucast (sz div PAGE_SIZE) :: u32) + 1 else ucast (sz div PAGE_SIZE)"
  obtain b u where al: "MMU_alloc_pages (sint ?np) s = (b, u)" by fastforce
  note mm_more_kheap [OF MMU_alloc_pages_heap(2) [OF assms(1) al]]
  with al assms(2) None show ?thesis by (auto simp: kmalloc_def Let_def split: if_splits)
qed

text \<open>The heap keeps the contract of an allocator.\<close>

interpretation hp: block_heap "\<lambda>s live. \<exists>F. kinv s F live" kmalloc kfree "\<lambda>p sz. (p - HEADER_SIZE, kind_of sz)" region NULL "\<lambda>sz. unat sz < 2 ^ 40"
proof unfold_locales
  show "(p - HEADER_SIZE, kind_of z) \<notin> L \<and> (\<exists>F. kinv t F (insert (p - HEADER_SIZE, kind_of z) L))"
    if "\<exists>F. kinv s F L" "unat z < 2 ^ 40" "kmalloc z s = (p, t)" "p \<noteq> NULL" for s t :: "('a, 'b) kheap_scheme" and L z p
    using that kmalloc_spec [of s _ L z p t] by auto
  show "\<exists>F. kinv t F L" if "\<exists>F. kinv s F L" "unat z < 2 ^ 40" "kmalloc z s = (NULL, t)" for s t :: "('a, 'b) kheap_scheme" and L z
    using that kmalloc_spec [of s _ L z NULL t] by auto
  show "\<exists>t. kfree p s = Some t \<and> (\<exists>F. kinv t F (L - {(p - HEADER_SIZE, kind_of z)}))"
    if "\<exists>F. kinv s F L" "(p - HEADER_SIZE, kind_of z) \<in> L" for s :: "('a, 'b) kheap_scheme" and L p z
    using that kfree_spec [of s _ L "p - HEADER_SIZE" "kind_of z"] by fastforce
  show "region b \<inter> region c = {}" if "\<exists>F. kinv s F L" "b \<in> L" "c \<in> L" "b \<noteq> c" for s :: "('a, 'b) kheap_scheme" and L b c
    using that kinvD(8) by blast
qed

text \<open>
  A history: the second component are the live blocks. Sizes are below the size of the heap
  area (a larger request is truncated when its number of pages is stored in an \<open>int\<close>).
\<close>

inductive heap_step ::
  "('d, 'a) kheap_scheme \<times> (addr \<times> bkind) set \<Rightarrow> ('d, 'a) kheap_scheme \<times> (addr \<times> bkind) set \<Rightarrow> bool" where
  Malloc: "\<lbrakk>kmalloc sz s = (p, s'); unat sz < 2 ^ 40; p \<noteq> NULL\<rbrakk> \<Longrightarrow>
     heap_step (s, live) (s', insert (p - HEADER_SIZE, kind_of sz) live)"
| Malloc_fails: "\<lbrakk>kmalloc sz s = (NULL, s'); unat sz < 2 ^ 40\<rbrakk> \<Longrightarrow> heap_step (s, live) (s', live)"
| Free: "\<lbrakk>(b, k) \<in> live; kfree (b + HEADER_SIZE) s = Some s'\<rbrakk> \<Longrightarrow> heap_step (s, live) (s', live - {(b, k)})"
| Write: "\<lbrakk>(b, k) \<in> live; unat b + 16 \<le> unat a; unat a < unat b + bsize k\<rbrakk> \<Longrightarrow>
     heap_step (s, live) (s\<lparr>vmem := (vmem s)(a := v)\<rparr>, live)"

definition heap_init :: "('d, 'a) kheap_scheme \<Rightarrow> bool" where
  "heap_init s \<longleftrightarrow> vm_inv s \<and> pool_free_head s = replicate 6 NULL \<and> (\<forall>i<6. pool_ptr s i \<noteq> NULL)"

lemma heap_init_kinv: "heap_init s \<Longrightarrow> kinv s (\<lambda>_. []) {}"
  by (auto simp: heap_init_def kinv_def free_blocks_def)

lemma heap_step_inv:
  assumes "heap_step c c'" "\<exists>F. kinv (fst c) F (snd c)"
  shows "\<exists>F. kinv (fst c') F (snd c')"
  using assms
proof (induction rule: heap_step.induct)
  case (Malloc sz s p s' live)
  then obtain F where "kinv s F live" by auto
  from kmalloc_spec [OF this Malloc(2,1)] Malloc(3) show ?case by auto
next
  case (Malloc_fails sz s s' live)
  then obtain F where "kinv s F live" by auto
  from kmalloc_spec [OF this Malloc_fails(2,1)] show ?case by auto
next
  case (Free b k live s s')
  then obtain F where "kinv s F live" by auto
  from kfree_spec [OF this Free(1)] Free(2) show ?case by auto
next
  case (Write b k live a s v)
  then obtain F where "kinv s F live" by auto
  from kinv_payload [OF this Write(1-3)] show ?case by auto
qed

lemma heap_history_inv:
  assumes "heap_init s" "heap_step\<^sup>*\<^sup>* (s, {}) (t, live)"
  shows "\<exists>F. kinv t F live"
proof -
  have "\<exists>F. kinv (fst c) F (snd c)" if "heap_step\<^sup>*\<^sup>* (s, {}) c" for c
    using that
  proof (induction rule: rtranclp_induct)
    case base
    then show ?case using heap_init_kinv [OF assms(1)] by auto
  next
    case (step c d)
    then show ?case using heap_step_inv by blast
  qed
  from this [OF assms(2)] show ?thesis by simp
qed

lemma find_pool_small:
  assumes "0 < unat sz" "unat sz \<le> 2032"
  shows "\<exists>i<6. find_pool sz [0..<NUM_POOLS] = Some i \<and> unat sz + 16 \<le> unat (pool_block_size ! i)"
proof -
  have u: "unat (sz + HEADER_SIZE) = unat sz + 16"
    using assms by (simp add: HEADER_SIZE_def unat_word_ariths)
  have "find_pool sz [0..<NUM_POOLS] \<noteq> None"
    using assms u by (simp add: NUM_POOLS_def upt_rec pool_block_size_def word_le_nat_alt)
  then obtain i where i: "find_pool sz [0..<NUM_POOLS] = Some i" by blast
  from find_pool_SomeD [OF this] u i show ?thesis
    by (auto simp: NUM_POOLS_def word_le_nat_alt)
qed

section \<open>Allocation succeeds while the area has room\<close>

lemma alloc_page_succeeds:
  assumes "cursor_at s n" "n < 2 ^ 28"
  shows "fst (MMU_alloc_page s) \<noteq> NULL" "cursor_at (snd (MMU_alloc_page s)) (Suc n)"
proof -
  obtain p s' where eq: "MMU_alloc_page s = (p, s')" by fastforce
  have "next_kernel_heap_vaddr s \<noteq> MMAP_KERNEL_HEAP_END"
    using cursor_end [OF assms(1)] assms(2) by simp
  then have "p = next_kernel_heap_vaddr s"
    using eq by (auto simp: MMU_alloc_page_def Let_def split: prod.splits)
  moreover have "unat (next_kernel_heap_vaddr s) \<noteq> 0" using unat_cursor [OF assms(1)] by simp
  ultimately have "p \<noteq> NULL" by auto
  with MMU_alloc_page_cursor [OF assms(1) eq] eq
  show "fst (MMU_alloc_page s) \<noteq> NULL" "cursor_at (snd (MMU_alloc_page s)) (Suc n)" by auto
qed

lemma alloc_more_pages_succeeds:
  "cursor_at s n \<Longrightarrow> n + k \<le> 2 ^ 28 \<Longrightarrow> fst (alloc_more_pages k s)"
proof (induction k arbitrary: s n)
  case (Suc k)
  with alloc_page_succeeds [OF Suc.prems(1)] Suc.IH [of "snd (MMU_alloc_page s)" "Suc n"] show ?case
    by (auto split: prod.split)
qed simp

lemma alloc_pages_succeeds:
  assumes "cursor_at s n" "0 < k" "n + nat k \<le> 2 ^ 28"
  shows "fst (MMU_alloc_pages k s) \<noteq> NULL"
proof -
  have "cursor_at (IRQ_disable s) n" using assms(1) by (simp add: cursor_at_def)
  then have "fst (MMU_alloc_page (IRQ_disable s)) \<noteq> NULL"
      "cursor_at (snd (MMU_alloc_page (IRQ_disable s))) (Suc n)"
    using alloc_page_succeeds [of "IRQ_disable s" n] assms by auto
  moreover have "Suc n + nat (k - 1) \<le> 2 ^ 28" using assms(2,3) by simp
  ultimately show ?thesis
    using alloc_more_pages_succeeds [of "snd (MMU_alloc_page (IRQ_disable s))" "Suc n" "nat (k - 1)"] assms(2)
    by (auto simp: MMU_alloc_pages_def split: prod.split)
qed

lemma kmalloc_alloc_succeeds:
  assumes K: "kinv s F live" and i: "i < 6" and c: "cursor_at s n" "n + 4 \<le> 2 ^ 28"
  shows "fst (kmalloc_alloc i s) \<noteq> NULL"
proof (cases "F i = []")
  case False
  then obtain b bs where F: "F i = b # bs" by (cases "F i") auto
  from kinv_pop(2,3) [OF K i F refl] show ?thesis by (simp add: kmalloc_alloc_def Let_def)
next
  case True
  then have h: "pool_free_head s ! i = NULL" using head_null [OF K i] by simp
  obtain cur s1 where al: "MMU_alloc_pages 4 s = (cur, s1)" by fastforce
  have cur: "cur \<noteq> NULL" using alloc_pages_succeeds [OF c(1), of 4] c(2) al by simp
  note G = kinv_grow [OF K i True al cur refl refl]
  then obtain b bs where F: "blocks_of i (unat ((4 * PAGE_SIZE) div pool_block_size ! i)) cur = b # bs"
    by (cases "blocks_of i (unat ((4 * PAGE_SIZE) div pool_block_size ! i)) cur") auto
  from kinv_pop(2,3) [OF G(1) i, of b bs] F h al cur show ?thesis
    by (simp add: kmalloc_alloc_def kmalloc_increase_pool_def POOL_PAGE_INCREASE_def Let_def)
qed

lemma kmalloc_small_succeeds:
  assumes K: "kinv s F live" and c: "cursor_at s n" "n + 4 \<le> 2 ^ 28" and sz: "0 < unat sz" "unat sz \<le> 2032"
  shows "fst (kmalloc sz s) \<noteq> NULL"
proof -
  obtain i where i: "i < 6" "find_pool sz [0..<NUM_POOLS] = Some i"
    using find_pool_small [OF sz] by blast
  obtain b s1 where al: "kmalloc_alloc i s = (b, s1)" by fastforce
  have b: "b \<noteq> NULL" using kmalloc_alloc_succeeds [OF K i(1) c] al by simp
  obtain F' where K': "kinv s1 F' (insert (b, Pool i) live)"
    using kmalloc_alloc_spec [OF K i(1) al] b by auto
  have "unat b + bsize (Pool i) \<le> 2 ^ 44" "16 \<le> bsize (Pool i)"
    using block_words(4,6) [OF kinvD(1) [OF K'] kinvD(7) [OF K'], of b "Pool i"] by simp_all
  then have "unat (b + HEADER_SIZE) = unat b + 16" by (simp add: HEADER_SIZE_def unat_word_ariths)
  then have "b + HEADER_SIZE \<noteq> NULL" by auto
  with al b i(2) sz(1) show ?thesis by (auto simp: kmalloc_def)
qed

text \<open>A small request takes at most four pages of the remaining addresses.\<close>

lemma kmalloc_small_cursor:
  assumes K: "kinv s F live" and c: "cursor_at s n" "n + 4 \<le> 2 ^ 28" and sz: "0 < unat sz" "unat sz \<le> 2032"
    and eq: "kmalloc sz s = (p, t)"
  shows "\<exists>j. cursor_at t j \<and> j \<le> n + 4"
proof -
  obtain i where i: "i < 6" "find_pool sz [0..<NUM_POOLS] = Some i" using find_pool_small [OF sz] by blast
  obtain b u where al: "kmalloc_alloc i s = (b, u)" by fastforce
  have t: "t = u" using eq al i(2) sz(1) by (auto simp: kmalloc_def split: if_splits)
  show ?thesis
  proof (cases "pool_free_head s ! i = NULL")
    case False
    then have "cursor_at u n" using al c(1) by (auto simp: kmalloc_alloc_def Let_def cursor_at_def)
    then show ?thesis using t by auto
  next
    case True
    obtain cur s1 where ap: "MMU_alloc_pages 4 s = (cur, s1)" by fastforce
    have cur: "cur \<noteq> NULL" using alloc_pages_succeeds [OF c(1), of 4] c(2) ap by simp
    then have c1: "cursor_at s1 (n + 4)" using MMU_alloc_pages_cursor [OF c(1) ap] by auto
    obtain r v where inc: "kmalloc_increase_pool i POOL_PAGE_INCREASE s = (r, v)" by fastforce
    have "v = s1 \<or> (\<exists>k p c. v = increase_loop i k p c s1)"
      using inc ap True by (auto simp: kmalloc_increase_pool_def POOL_PAGE_INCREASE_def Let_def split: if_splits)
    then have "cursor_at v (n + 4)" using c1 by (auto simp: only_heapD(3) [OF increase_loop_frame])
    then have "cursor_at u (n + 4)" using al True inc by (auto simp: kmalloc_alloc_def Let_def cursor_at_def split: if_splits)
    then show ?thesis using t by auto
  qed
qed

lemma kmalloc_pages_cursor:
  assumes K: "kinv s F live" and c: "cursor_at s n" "n + pages_for sz \<le> 2 ^ 28" and sz: "0 < unat sz" "unat sz < 2 ^ 40"
    and None: "find_pool sz [0..<NUM_POOLS] = None" and eq: "kmalloc sz s = (p, t)"
  shows "p \<noteq> NULL" "cursor_at t (n + pages_for sz)"
proof -
  let ?np = "if sz mod PAGE_SIZE \<noteq> 0 then (ucast (sz div PAGE_SIZE) :: u32) + 1 else ucast (sz div PAGE_SIZE)"
  note N = num_pages [OF sz(2)]
  have pos: "0 < pages_for sz" using sz(1) by (simp add: pages_for_def div_greater_zero_iff)
  obtain b u where al: "MMU_alloc_pages (int (pages_for sz)) s = (b, u)" by fastforce
  then have al': "MMU_alloc_pages (sint ?np) s = (b, u)" by (simp only: N(2))
  have b: "b \<noteq> NULL" using alloc_pages_succeeds [OF c(1), of "int (pages_for sz)"] c(2) pos al by simp
  then have cu: "cursor_at u (n + pages_for sz)" using MMU_alloc_pages_cursor [OF c(1) al] by auto
  have t: "t = u\<lparr>vmem := (vmem u)(b := NULL, b + 8 := scast ?np)\<rparr>" and p: "p = b + HEADER_SIZE"
    using eq None sz(1) al' b by (auto simp: kmalloc_def Let_def split: if_splits)
  show "cursor_at t (n + pages_for sz)" using cu by (simp add: t cursor_at_def)
  have P: "kinv t F (insert (b, Pages (pages_for sz)) live)"
    by (rule kinv_pages(1) [OF K al b]) (unfold t, simp only: N(3))
  have "unat b + bsize (Pages (pages_for sz)) \<le> 2 ^ 44" "16 \<le> bsize (Pages (pages_for sz))"
    using block_words(4,6) [OF kinvD(1) [OF P] kinvD(7) [OF P], of b "Pages (pages_for sz)"] by simp_all
  then have "unat p = unat b + 16" by (simp add: p HEADER_SIZE_def unat_word_ariths)
  then show "p \<noteq> NULL" by auto
qed

text \<open>Allocation succeeds while there are addresses left; a request takes at most four pages more than its size.\<close>

lemma kmalloc_room:
  assumes K: "kinv s F live" and c: "cursor_at s n" "n + 4 + pages_for sz \<le> 2 ^ 28" and sz: "0 < unat sz" "unat sz < 2 ^ 40"
    and eq: "kmalloc sz s = (p, t)"
  shows "p \<noteq> NULL" "kheap.more t = kheap.more s" "(p - HEADER_SIZE, kind_of sz) \<notin> live"
    "\<exists>F'. kinv t F' (insert (p - HEADER_SIZE, kind_of sz) live)" "\<exists>j \<le> n + 4 + pages_for sz. cursor_at t j"
proof -
  have "p \<noteq> NULL \<and> (\<exists>j \<le> n + 4 + pages_for sz. cursor_at t j)"
  proof (cases "find_pool sz [0..<NUM_POOLS]")
    case None
    have "n + pages_for sz \<le> 2 ^ 28" using c(2) by simp
    from kmalloc_pages_cursor [OF K c(1) this sz None eq] show ?thesis by (auto intro!: exI [of _ "n + pages_for sz"])
  next
    case (Some i)
    have "unat (sz + HEADER_SIZE) = unat sz + 16" using sz(2) by (simp add: HEADER_SIZE_def unat_word_ariths)
    then have le: "unat sz \<le> 2032" and "i < 6"
      using find_pool_SomeD [OF Some] by (auto simp: NUM_POOLS_def less_6 pool_block_size_def word_le_nat_alt)
    have c4: "n + 4 \<le> 2 ^ 28" using c(2) by simp
    obtain j where "cursor_at t j" "j \<le> n + 4" using kmalloc_small_cursor [OF K c(1) c4 sz(1) le eq] by blast
    then show ?thesis using kmalloc_small_succeeds [OF K c(1) c4 sz(1) le] eq by (auto intro!: exI [of _ j])
  qed
  then show p: "p \<noteq> NULL" and "\<exists>j \<le> n + 4 + pages_for sz. cursor_at t j" by blast+
  show "kheap.more t = kheap.more s" by (rule kmalloc_more [OF K eq])
  show "(p - HEADER_SIZE, kind_of sz) \<notin> live" "\<exists>F'. kinv t F' (insert (p - HEADER_SIZE, kind_of sz) live)"
    using kmalloc_spec [OF K sz(2) eq] p by auto
qed

section \<open>Properties\<close>

text \<open>An example: the heap before its first use.\<close>

definition heap_example :: "unit kheap" where
  "heap_example = mm.extend vm_example (kheap.fields (\<lambda>_. 0) (replicate 6 NULL) 0x100000)"

lemma heap_example_sel:
  "vmem heap_example = (\<lambda>_. 0)" "pool_free_head heap_example = replicate 6 NULL"
  "pools_base heap_example = 0x100000" "next_kernel_heap_vaddr heap_example = MMAP_KERNEL_HEAP_START"
  by (simp_all add: heap_example_def mm.extend_def kheap.fields_def vm_example_def mm_example_def)

lemma heap_example_init: "heap_init heap_example" "cursor_at heap_example 0"
proof -
  have "pt_ok heap_example [0x1000, 0x2000, 0x3000, 0x4000, 0x5000]"
    using vm_example_ok(1) pt_ok_cong [of heap_example vm_example]
    by (simp add: heap_example_def mm.extend_def kheap.fields_def vm_example_def mm_example_def)
  moreover show c: "cursor_at heap_example 0"
    by (simp add: cursor_at_def heap_example_sel)
  ultimately have "vm_inv heap_example"
    by (auto simp: vm_inv_def vm_ok_def heap_cursor_at)
  then show "heap_init heap_example"
    by (auto simp: heap_init_def heap_example_sel pool_ptr_def less_6)
qed



text \<open>A freed block is reused first. In any reachable state, freeing a live block of a pool and
  then allocating any size of that pool returns the same address.\<close>

theorem kfree_kmalloc_reuse:
  assumes "heap_init s" "heap_step\<^sup>*\<^sup>* (s, {}) (t, live)" "(b, Pool i) \<in> live"
    and "kind_of sz = Pool i" "0 < sz" "unat sz < 2 ^ 40"
  shows "\<exists>t'. kfree (b + HEADER_SIZE) t = Some t' \<and> fst (kmalloc sz t') = b + HEADER_SIZE"
proof -
  obtain F where K: "kinv t F live" using heap_history_inv [OF assms(1,2)] by blast
  obtain t' F' where t': "kfree (b + HEADER_SIZE) t = Some t'" "kinv t' F' (live - {(b, Pool i)})"
    "F' i = b # F i" using kfree_spec [OF K assms(3)] by blast
  obtain p u where eq: "kmalloc sz t' = (p, u)" by fastforce
  have i: "i < 6" using kinvD(7) [OF K, of "(b, Pool i)"] assms(3) by (simp add: block_ok_def)
  have fp: "find_pool sz [0..<NUM_POOLS] = Some i"
    using assms(4) by (auto simp: kind_of_def split: option.splits)
  have bb: "pool_free_head t' ! i = b" "b \<noteq> NULL"
    using kinv_pop(2,3) [OF t'(2) i t'(3) refl] by auto
  then have "fst (kmalloc sz t') = b + HEADER_SIZE"
    using fp assms(5) by (auto simp: kmalloc_def kmalloc_alloc_def Let_def split: prod.split)
  with t'(1) show ?thesis by blast
qed

text \<open>An allocation of up to 2032 bytes succeeds in every reachable state in which the heap area
  has four pages of addresses left.\<close>

theorem kmalloc_small_available:
  assumes "heap_init s" "heap_step\<^sup>*\<^sup>* (s, {}) (t, live)" "cursor_at t n" "n + 4 \<le> 2 ^ 28"
    and "0 < unat sz" "unat sz \<le> 2032"
  shows "fst (kmalloc sz t) \<noteq> NULL"
  using heap_history_inv [OF assms(1,2)] kmalloc_small_succeeds assms(3-6) by blast

theorem kmalloc_small_available_witness: "fst (kmalloc 2032 heap_example) \<noteq> NULL"
  using kmalloc_small_available [OF heap_example_init(1) rtranclp.rtrancl_refl heap_example_init(2), of 2032]
  by simp

theorem kfree_kmalloc_reuse_witness:
  "\<exists>p t t'. kmalloc 100 heap_example = (p, t) \<and> kfree p t = Some t' \<and> fst (kmalloc 80 t') = p"
proof -
  obtain p t where eq: "kmalloc 100 heap_example = (p, t)" by fastforce
  have p: "p \<noteq> NULL"
    using kmalloc_small_succeeds [OF heap_init_kinv [OF heap_example_init(1)] heap_example_init(2), of 100] eq
    by simp
  have k: "kind_of 100 = Pool 2" "kind_of 80 = Pool 2"
    by (simp_all add: kind_of_def NUM_POOLS_def upt_rec pool_block_size_def HEADER_SIZE_def)
  have "heap_step (heap_example, {}) (t, insert (p - HEADER_SIZE, kind_of 100) {})"
    using eq p by (intro heap_step.Malloc) simp_all
  then have h: "heap_step\<^sup>*\<^sup>* (heap_example, {}) (t, {(p - HEADER_SIZE, Pool 2)})"
    by (simp add: k)
  have "\<exists>t'. kfree (p - HEADER_SIZE + HEADER_SIZE) t = Some t' \<and>
      fst (kmalloc 80 t') = p - HEADER_SIZE + HEADER_SIZE"
    by (rule kfree_kmalloc_reuse [OF heap_example_init(1) h]) (simp_all add: k)
  with eq show ?thesis by auto
qed





end
