(* ===== verification/Fifo_Spec.thy ===== *)
theory Fifo_Spec
  imports Prelude
begin

text \<open>
  The contract the kernel's queues promise to their clients: queues that live in one shared heap,
  each represented by the sequence of its elements. An element occupies a cell of the heap while
  it is queued, so an element can be put on a queue only when its cell is free, and an operation
  on one queue leaves alone every queue whose cells are others.

  The scheduler moves processes between a wait queue and the ready queue; the lemma
  \<open>transfer\<close> is that move, proved once from the contract.
\<close>

locale fifo_heap =
  fixes rep :: "'h \<Rightarrow> 'q \<Rightarrow> 'e list \<Rightarrow> bool"
    and foot :: "'h \<Rightarrow> 'q \<Rightarrow> 'e list \<Rightarrow> 'c set"
    and cell :: "'h \<Rightarrow> 'q \<Rightarrow> 'e \<Rightarrow> 'c"
    and enq :: "'q \<Rightarrow> 'e \<Rightarrow> 'h \<Rightarrow> 'h"
    and deq :: "'q \<Rightarrow> 'h \<Rightarrow> 'e \<times> 'h"
    and none :: 'e
  assumes enq_rep: "\<lbrakk>rep h q xs; cell h q x \<notin> foot h q xs\<rbrakk> \<Longrightarrow> rep (enq q x h) q (xs @ [x])"
    and deq_fst: "rep h q (x # xs) \<Longrightarrow> fst (deq q h) = x"
    and deq_rep: "rep h q (x # xs) \<Longrightarrow> rep (snd (deq q h)) q xs"
    and deq_none: "rep h q [] \<Longrightarrow> deq q h = (none, h)"
    and enq_frame: "\<lbrakk>rep h q xs; rep h r ys; foot h q xs \<inter> foot h r ys = {};
          cell h q x \<notin> foot h r ys\<rbrakk> \<Longrightarrow> rep (enq q x h) r ys"
    and deq_frame: "\<lbrakk>rep h q (x # xs); rep h r ys; foot h q (x # xs) \<inter> foot h r ys = {}\<rbrakk>
          \<Longrightarrow> rep (snd (deq q h)) r ys"
    and enq_stable: "cell (enq q x h) = cell h" "foot (enq q x h) = foot h"
    and deq_stable: "cell (snd (deq q h)) = cell h" "foot (snd (deq q h)) = foot h"
    and foot_Cons: "foot h q (x # xs) = insert (cell h q x) (foot h q xs)"
    and foot_snoc: "foot h q (xs @ [x]) = insert (cell h q x) (foot h q xs)"
    and rep_fresh: "rep h q (x # xs) \<Longrightarrow> cell h q x \<notin> foot h q xs"
begin

text \<open>Moving the head of one queue to the tail of another queue of the same kind of cells.\<close>

lemma transfer:
  assumes q: "rep h q (x # xs)" and r: "rep h r ys"
    and disj: "foot h q (x # xs) \<inter> foot h r ys = {}" and kind: "cell h q = cell h r"
    and h': "h' = enq r (fst (deq q h)) (snd (deq q h))"
  shows "rep h' q xs" "rep h' r (ys @ [x])" "foot h' q xs \<inter> foot h' r (ys @ [x]) = {}"
    "cell h' = cell h" "foot h' = foot h"
proof -
  let ?d = "snd (deq q h)"
  have h'_eq: "h' = enq r x ?d"
    using q by (simp add: h' deq_fst)
  have dq: "rep ?d q xs" and dr: "rep ?d r ys"
    using q r disj by (auto intro: deq_rep deq_frame)
  have st: "cell ?d = cell h" "foot ?d = foot h"
    by (rule deq_stable)+
  have dis: "foot ?d q xs \<inter> foot ?d r ys = {}" "cell ?d r x \<notin> foot ?d r ys"
    using disj kind by (auto simp: st foot_Cons)
  have fr: "cell ?d r x \<notin> foot ?d q xs"
    using rep_fresh [OF q] kind by (simp add: st)
  show "rep h' r (ys @ [x])"
    unfolding h'_eq using dr dis(2) by (rule enq_rep)
  show "rep h' q xs"
    unfolding h'_eq by (rule enq_frame [OF dr dq]) (use dis fr in auto)
  show "cell h' = cell h" "foot h' = foot h"
    by (simp_all add: h'_eq enq_stable st)
  then show "foot h' q xs \<inter> foot h' r (ys @ [x]) = {}"
    using dis fr by (auto simp: st foot_snoc)
qed

text \<open>A third queue sees nothing of the move.\<close>

lemma transfer_frame:
  assumes q: "rep h q (x # xs)" and r: "rep h r ys" and k: "rep h k zs"
    and disj: "foot h q (x # xs) \<inter> foot h r ys = {}" and kind: "cell h q = cell h r"
    and dk: "foot h q (x # xs) \<inter> foot h k zs = {}" "foot h r ys \<inter> foot h k zs = {}"
  shows "rep (enq r (fst (deq q h)) (snd (deq q h))) k zs"
proof -
  let ?d = "snd (deq q h)"
  have st: "cell ?d = cell h" "foot ?d = foot h"
    by (rule deq_stable)+
  have "rep ?d k zs" "rep ?d r ys"
    using q k r dk disj by (auto intro: deq_frame)
  then have "rep (enq r x ?d) k zs"
    by (intro enq_frame [of ?d r ys k zs]) (use dk kind in \<open>auto simp: st foot_Cons\<close>)
  then show ?thesis
    using q by (simp add: deq_fst)
qed

end

end
