(* ===== verification/Linked_List.thy ===== *)
theory Linked_List
  imports Fifo_Spec
begin

text \<open>
  The intrusive doubly linked list of \<^verbatim>\<open>src/src/list.c\<close> and \<^verbatim>\<open>src/src/list.h\<close>.

  A \<open>struct ListHeader\<close> is embedded in every element at the list's \<open>head_offset\<close>; the list
  itself holds a sentinel header. The model keeps one heap with a function per field
  (\<open>nxt\<close>, \<open>prv\<close> for the two links of a header at an address, \<open>hoff\<close> for the
  \<open>head_offset\<close> of a list at an address), so that aliasing between headers is the equality of
  addresses and every write happens in the order of the source. \<open>struct LinkedList\<close> starts with
  its sentinel, so the address of the list is the address of its sentinel.

  The abstraction is \<open>ll_list h l ds\<close>: the list at \<open>l\<close> holds the elements \<open>ds\<close>, in order.
  Every operation of the file is shown to act on \<open>ds\<close> as the corresponding operation on a
  sequence, and to leave the lists it does not touch alone.
\<close>

section \<open>Heap and operations\<close>

record lheap =
  nxt :: "addr \<Rightarrow> addr"
  prv :: "addr \<Rightarrow> addr"
  hoff :: "addr \<Rightarrow> u64"

text \<open>The macros \<open>LL_nhead\<close> and \<open>LL_ndata\<close>: element to embedded header and back.\<close>

definition LL_nhead :: "lheap \<Rightarrow> addr \<Rightarrow> addr \<Rightarrow> addr" where
  "LL_nhead h list data = data + hoff h list"

definition LL_ndata :: "lheap \<Rightarrow> addr \<Rightarrow> addr \<Rightarrow> addr" where
  "LL_ndata h list p = p + (- 1) * hoff h list"

definition ll_add :: "addr \<Rightarrow> addr \<Rightarrow> addr \<Rightarrow> lheap \<Rightarrow> lheap" where
  "ll_add new prev next h =
     (let h1 = h\<lparr>nxt := (nxt h)(new := next)\<rparr>;
          h2 = h1\<lparr>prv := (prv h1)(new := prev)\<rparr>;
          h3 = h2\<lparr>nxt := (nxt h2)(prev := new)\<rparr>
      in h3\<lparr>prv := (prv h3)(next := new)\<rparr>)"

definition ll_del :: "addr \<Rightarrow> addr \<Rightarrow> addr \<Rightarrow> lheap \<Rightarrow> lheap" where
  "ll_del del prev next h =
     (let h1 = h\<lparr>nxt := (nxt h)(prev := nxt h del)\<rparr>;
          h2 = h1\<lparr>prv := (prv h1)(next := prv h1 del)\<rparr>;
          h3 = h2\<lparr>nxt := (nxt h2)(del := NULL)\<rparr>
      in h3\<lparr>prv := (prv h3)(del := NULL)\<rparr>)"

definition LL_empty :: "addr \<Rightarrow> lheap \<Rightarrow> bool" where
  "LL_empty list h = (nxt h list = list)"

definition LL_next :: "addr \<Rightarrow> addr \<Rightarrow> lheap \<Rightarrow> addr" where
  "LL_next list cur h =
     (if LL_empty list h then NULL
      else if nxt h (LL_nhead h list cur) = list then LL_ndata h list (nxt h list)
      else LL_ndata h list (nxt h (LL_nhead h list cur)))"

definition LL_head :: "addr \<Rightarrow> lheap \<Rightarrow> addr" where
  "LL_head list h =
     (if LL_empty list h then NULL else LL_ndata h list (nxt h list))"

definition LL_add :: "addr \<Rightarrow> addr \<Rightarrow> lheap \<Rightarrow> lheap" where
  "LL_add new cur h = ll_add new cur (nxt h cur) h"

definition LL_del :: "addr \<Rightarrow> lheap \<Rightarrow> lheap" where
  "LL_del del h = ll_del del (prv h del) (nxt h del) h"

definition LL_add_prev :: "addr \<Rightarrow> addr \<Rightarrow> lheap \<Rightarrow> lheap" where
  "LL_add_prev new cur h = ll_add new (prv h cur) cur h"

definition LL_append :: "addr \<Rightarrow> addr \<Rightarrow> lheap \<Rightarrow> lheap" where
  "LL_append list data h = LL_add_prev (LL_nhead h list data) list h"

definition LL_enqueue :: "addr \<Rightarrow> addr \<Rightarrow> lheap \<Rightarrow> lheap" where
  "LL_enqueue list data h = LL_append list data h"

definition LL_dequeue :: "addr \<Rightarrow> lheap \<Rightarrow> addr \<times> lheap" where
  "LL_dequeue list h =
     (if LL_empty list h then (NULL, h)
      else let ret = nxt h list; h' = LL_del ret h in (LL_ndata h' list ret, h'))"

definition LL_init :: "addr \<Rightarrow> u64 \<Rightarrow> lheap \<Rightarrow> lheap" where
  "LL_init list head_offset h =
     (let h1 = h\<lparr>nxt := (nxt h)(list := list)\<rparr>;
          h2 = h1\<lparr>prv := (prv h1)(list := list)\<rparr>
      in h2\<lparr>hoff := (hoff h2)(list := head_offset)\<rparr>)"

text \<open>
  The macro \<open>LL_for_each\<close>: the elements its body is run on, in order; \<open>None\<close> when the walk
  never comes back to the sentinel. No body in the kernel changes the list it walks.
\<close>

partial_function (option) ll_walk :: "lheap \<Rightarrow> addr \<Rightarrow> addr \<Rightarrow> addr list option" where
  "ll_walk h list cur =
     (if LL_nhead h list cur = list then Some []
      else Option.bind (ll_walk h list (LL_ndata h list (nxt h (LL_nhead h list cur))))
             (\<lambda>ds. Some (cur # ds)))"

definition LL_for_each :: "addr \<Rightarrow> lheap \<Rightarrow> addr list option" where
  "LL_for_each list h = ll_walk h list (LL_ndata h list (nxt h list))"

section \<open>The abstraction\<close>

text \<open>\<open>links h a ps b\<close>: the headers \<open>ps\<close> are chained, both ways, from \<open>a\<close> to \<open>b\<close>.\<close>

fun links :: "lheap \<Rightarrow> addr \<Rightarrow> addr list \<Rightarrow> addr \<Rightarrow> bool" where
  "links h a [] b = (nxt h a = b \<and> prv h b = a)"
| "links h a (p # ps) b = (nxt h a = p \<and> prv h p = a \<and> links h p ps b)"

definition ll_nodes :: "lheap \<Rightarrow> addr \<Rightarrow> addr list \<Rightarrow> addr list" where
  "ll_nodes h l ds = map (LL_nhead h l) ds"

definition ll_list :: "lheap \<Rightarrow> addr \<Rightarrow> addr list \<Rightarrow> bool" where
  "ll_list h l ds = (distinct (l # ll_nodes h l ds) \<and> links h l (ll_nodes h l ds) l)"

text \<open>All headers a list occupies: its sentinel and those of its elements.\<close>

definition ll_foot :: "lheap \<Rightarrow> addr \<Rightarrow> addr list \<Rightarrow> addr set" where
  "ll_foot h l ds = insert l (set (ll_nodes h l ds))"


lemma ll_nodes_simps [simp]:
  "ll_nodes h l [] = []"
  "ll_nodes h l (d # ds) = LL_nhead h l d # ll_nodes h l ds"
  "ll_nodes h l (ds @ es) = ll_nodes h l ds @ ll_nodes h l es"
  by (simp_all add: ll_nodes_def)

lemma LL_nhead_inject [simp]: "LL_nhead h l d = LL_nhead h l e \<longleftrightarrow> d = e"
  by (simp add: LL_nhead_def)

lemma LL_ndata_nhead [simp]: "LL_ndata h l (LL_nhead h l d) = d"
  by (simp add: LL_ndata_def LL_nhead_def)

lemma LL_nhead_ndata [simp]: "LL_nhead h l (LL_ndata h l p) = p"
  by (simp add: LL_ndata_def LL_nhead_def)

lemma LL_nhead_in_nodes [simp]: "LL_nhead h l d \<in> set (ll_nodes h l ds) \<longleftrightarrow> d \<in> set ds"
  by (auto simp: ll_nodes_def)

lemma distinct_ll_nodes [simp]: "distinct (ll_nodes h l ds) \<longleftrightarrow> distinct ds"
  by (simp add: ll_nodes_def distinct_map inj_on_def)

lemma hoff_cong:
  assumes "hoff h' l = hoff h l"
  shows "LL_nhead h' l = LL_nhead h l" "LL_ndata h' l = LL_ndata h l"
    "ll_nodes h' l = ll_nodes h l"
  using assms by (auto simp: fun_eq_iff LL_nhead_def LL_ndata_def ll_nodes_def)

subsection \<open>Chains\<close>

lemma links_append:
  "links h a (ps @ q # qs) b \<longleftrightarrow> links h a ps q \<and> links h q qs b"
  by (induction ps arbitrary: a) auto

text \<open>A chain depends on the forward links of its start and members, and on the backward links
  of its members and end, only.\<close>

lemma links_cong:
  assumes "\<And>p. p \<in> insert a (set ps) \<Longrightarrow> nxt h' p = nxt h p"
    and "\<And>p. p \<in> insert b (set ps) \<Longrightarrow> prv h' p = prv h p"
  shows "links h' a ps b = links h a ps b"
  using assms
proof (induction ps arbitrary: a)
  case Nil
  then show ?case by simp
next
  case (Cons p ps)
  then have "links h' p ps b = links h p ps b"
    by (intro Cons.IH) auto
  with Cons.prems show ?case by simp
qed

lemma links_nxt_first: "links h a ps b \<Longrightarrow> nxt h a = hd (ps @ [b])"
  by (cases ps) auto

lemma links_prv_last: "links h a ps b \<Longrightarrow> prv h b = last (a # ps)"
  by (induction ps arbitrary: a) auto

lemma links_snoc: "links h a (ps @ [q]) b \<longleftrightarrow> links h a ps q \<and> nxt h q = b \<and> prv h b = q"
  by (simp add: links_append)

text \<open>Writing the forward link of the last member and the backward link of the end extends or
  shortens the chain there.\<close>

lemma links_retarget:
  assumes "links h a ps b" "distinct (a # ps)"
    and "\<And>p. p \<in> set (a # ps) \<Longrightarrow> p \<noteq> last (a # ps) \<Longrightarrow> nxt h' p = nxt h p"
    and "nxt h' (last (a # ps)) = b'"
    and "\<And>p. p \<in> set ps \<Longrightarrow> prv h' p = prv h p" and "prv h' b' = last (a # ps)"
  shows "links h' a ps b'"
  using assms
proof (induction ps arbitrary: a)
  case Nil
  then show ?case by simp
next
  case (Cons p ps)
  have "links h' p ps b'"
    using Cons.prems by (intro Cons.IH) auto
  moreover have "a \<noteq> last (p # ps)"
    using Cons.prems(2) by (metis distinct.simps(2) last_in_set list.distinct(1))
  then have "nxt h' a = p"
    using Cons.prems(1,3) by simp
  ultimately show ?case
    using Cons.prems by simp
qed

section \<open>Each operation acts on the sequence of elements\<close>

lemma hoff_ops [simp]:
  "hoff (ll_add n p q h) = hoff h" "hoff (ll_del n p q h) = hoff h"
  "hoff (LL_add n c h) = hoff h" "hoff (LL_del n h) = hoff h"
  "hoff (LL_add_prev n c h) = hoff h" "hoff (LL_append l d h) = hoff h"
  "hoff (LL_enqueue l d h) = hoff h" "hoff (snd (LL_dequeue l h)) = hoff h"
  by (simp_all add: ll_add_def ll_del_def LL_add_def LL_del_def LL_add_prev_def LL_append_def
      LL_enqueue_def LL_dequeue_def Let_def)

lemma ll_list_Nil: "ll_list h l [] \<longleftrightarrow> nxt h l = l \<and> prv h l = l"
  by (auto simp: ll_list_def)

lemma LL_init_list: "ll_list (LL_init l off h) l []"
  by (simp add: ll_list_Nil LL_init_def Let_def)

lemma LL_empty_list: "ll_list h l ds \<Longrightarrow> LL_empty l h \<longleftrightarrow> ds = []"
  by (cases ds) (auto simp: ll_list_def LL_empty_def)

lemma LL_head_list: "ll_list h l ds \<Longrightarrow> LL_head l h = (if ds = [] then NULL else hd ds)"
  by (cases ds) (auto simp: LL_head_def LL_empty_def ll_list_def)

lemma ll_list_links:
  assumes "ll_list h l (xs @ d # ys)"
  shows "links h l (ll_nodes h l xs) (LL_nhead h l d)"
    and "links h (LL_nhead h l d) (ll_nodes h l ys) l"
  using assms by (auto simp: ll_list_def links_append)

lemma LL_append_list:
  assumes ll: "ll_list h l ds" and fresh: "LL_nhead h l d \<notin> ll_foot h l ds"
  shows "ll_list (LL_append l d h) l (ds @ [d])"
proof -
  let ?n = "LL_nhead h l d" and ?ps = "ll_nodes h l ds" and ?h = "LL_append l d h"
  have last: "prv h l = last (l # ?ps)"
    using ll links_prv_last by (auto simp: ll_list_def)
  have nl: "?n \<noteq> l" "?n \<notin> set ?ps"
    using fresh by (auto simp: ll_foot_def)
  have "last (l # ?ps) \<noteq> ?n"
    using nl by (metis last_in_set list.distinct(1) set_ConsD)
  then have upd: "nxt ?h = (nxt h)(?n := l, last (l # ?ps) := ?n)"
      "prv ?h = (prv h)(?n := last (l # ?ps), l := ?n)"
    by (simp_all add: LL_append_def LL_add_prev_def ll_add_def last Let_def)
  have "links ?h l ?ps ?n"
    by (rule links_retarget [of h l ?ps l]) (use ll nl upd in \<open>auto simp: ll_list_def\<close>)
  moreover have "nxt ?h ?n = l" "prv ?h l = ?n"
    using upd nl \<open>last (l # ?ps) \<noteq> ?n\<close> by auto
  ultimately have "links ?h l (?ps @ [?n]) l"
    by (simp add: links_snoc)
  then show ?thesis
    using ll nl by (auto simp: ll_list_def hoff_cong [of ?h l h])
qed

text \<open>Unlinking an element, wherever it stands.\<close>

lemma LL_del_list:
  assumes ll: "ll_list h l (xs @ d # ys)"
  shows "ll_list (LL_del (LL_nhead h l d) h) l (xs @ ys)"
proof -
  let ?n = "LL_nhead h l d" and ?xs = "ll_nodes h l xs" and ?ys = "ll_nodes h l ys"
  let ?h = "LL_del ?n h"
  have dist: "distinct (l # ?xs @ ?n # ?ys)"
    using ll by (auto simp: ll_list_def)
  have prev: "prv h ?n = last (l # ?xs)" and nxt: "nxt h ?n = hd (?ys @ [l])"
    using ll_list_links [OF ll] links_prv_last links_nxt_first by blast+
  have ne: "last (l # ?xs) \<noteq> ?n" "hd (?ys @ [l]) \<noteq> ?n"
    using dist by (auto simp: hd_append dest: last_in_set hd_in_set split: if_splits)
  then have upd: "nxt ?h = (nxt h)(last (l # ?xs) := hd (?ys @ [l]), ?n := NULL)"
      "prv ?h = (prv h)(hd (?ys @ [l]) := last (l # ?xs), ?n := NULL)"
    by (simp_all add: LL_del_def ll_del_def prev nxt Let_def)
  have hd_ne: "hd (?ys @ [l]) \<notin> set ?xs"
    using dist by (cases ys) auto
  have fore: "links ?h l ?xs (hd (?ys @ [l]))"
    by (rule links_retarget [OF ll_list_links(1) [OF ll]])
      (use dist ne hd_ne upd in \<open>auto simp: fun_upd_apply\<close>)
  have "links ?h l (?xs @ ?ys) l"
  proof (cases ys)
    case Nil
    with fore show ?thesis by simp
  next
    case (Cons e zs)
    let ?e = "LL_nhead h l e" and ?zs = "ll_nodes h l zs"
    have "last (l # ?xs) \<in> set (l # ?xs)" by (rule last_in_set) simp
    then have "last (l # ?xs) \<notin> insert ?e (set ?zs)"
      using dist Cons by auto
    then have "links ?h ?e ?zs l = links h ?e ?zs l"
      using dist Cons by (intro links_cong) (auto simp: upd)
    with ll_list_links(2) [OF ll] fore Cons show ?thesis
      by (simp add: links_append)
  qed
  then show ?thesis
    using dist by (auto simp: ll_list_def hoff_cong [of ?h l h])
qed

lemma LL_dequeue_list:
  assumes "ll_list h l (d # ds)"
  shows "LL_dequeue l h = (d, LL_del (LL_nhead h l d) h)"
    and "ll_list (snd (LL_dequeue l h)) l ds"
proof -
  let ?h = "LL_del (LL_nhead h l d) h"
  have "nxt h l = LL_nhead h l d" "\<not> LL_empty l h"
    using assms by (auto simp: ll_list_def LL_empty_def)
  moreover have "LL_ndata ?h l = LL_ndata h l"
    by (rule hoff_cong) simp
  ultimately show eq: "LL_dequeue l h = (d, ?h)"
    by (simp add: LL_dequeue_def Let_def)
  show "ll_list (snd (LL_dequeue l h)) l ds"
    using LL_del_list [of h l "[]" d ds] assms by (simp add: eq)
qed

lemma LL_dequeue_empty: "ll_list h l [] \<Longrightarrow> LL_dequeue l h = (NULL, h)"
  by (simp add: LL_dequeue_def LL_empty_list)

text \<open>\<open>LL_next\<close> steps cyclically: past the last element it returns the first.\<close>

lemma LL_next_list:
  assumes ll: "ll_list h l (xs @ d # ys)"
  shows "LL_next l d h = hd (ys @ xs @ [d])"
proof -
  have "nxt h (LL_nhead h l d) = hd (ll_nodes h l ys @ [l])"
    using ll_list_links(2) [OF ll] by (rule links_nxt_first)
  moreover have "nxt h l = hd (ll_nodes h l (xs @ [d]))"
    using ll_list_links(1) [OF ll] by (cases xs) auto
  moreover have "l \<notin> set (ll_nodes h l (xs @ d # ys))"
    using ll by (simp add: ll_list_def)
  ultimately show ?thesis
    using LL_empty_list [OF ll] by (cases ys; cases xs) (auto simp: LL_next_def)
qed

lemma ll_walk_links:
  assumes "links h a (ll_nodes h l ds) l" "l \<notin> set (ll_nodes h l ds)"
  shows "ll_walk h l (LL_ndata h l (nxt h a)) = Some ds"
  using assms
proof (induction ds arbitrary: a)
  case Nil
  then show ?case by (simp add: ll_walk.simps)
next
  case (Cons d ds)
  then have "ll_walk h l (LL_ndata h l (nxt h (LL_nhead h l d))) = Some ds"
    by (intro Cons.IH) auto
  with Cons.prems show ?case
    by (subst ll_walk.simps) auto
qed

lemma LL_for_each_list: "ll_list h l ds \<Longrightarrow> LL_for_each l h = Some ds"
  unfolding LL_for_each_def by (rule ll_walk_links) (auto simp: ll_list_def)

section \<open>Separate lists\<close>

lemma ll_foot_simps [simp]:
  "ll_foot h l [] = {l}" "ll_foot h l (d # ds) = insert (LL_nhead h l d) (ll_foot h l ds)"
  "ll_foot h l (ds @ es) = ll_foot h l ds \<union> ll_foot h l es"
  by (auto simp: ll_foot_def)

lemma ll_list_cong:
  assumes "hoff h' l = hoff h l" and "\<And>p. p \<in> ll_foot h l ds \<Longrightarrow> nxt h' p = nxt h p"
    and "\<And>p. p \<in> ll_foot h l ds \<Longrightarrow> prv h' p = prv h p"
  shows "ll_list h' l ds = ll_list h l ds"
proof -
  have "links h' l (ll_nodes h l ds) l = links h l (ll_nodes h l ds) l"
    by (rule links_cong) (use assms in \<open>auto simp: ll_foot_def\<close>)
  then show ?thesis
    by (simp add: ll_list_def hoff_cong [OF assms(1)])
qed

lemma prv_in_foot: "ll_list h l ds \<Longrightarrow> prv h l \<in> ll_foot h l ds"
  by (auto simp: ll_list_def ll_foot_def dest!: links_prv_last split: if_splits)

text \<open>An operation on one list leaves every list alone whose headers are others.\<close>

lemma LL_append_frame [frame]:
  assumes "ll_list h l ds" "ll_list h k es" "ll_foot h l ds \<inter> ll_foot h k es = {}"
    and "LL_nhead h l d \<notin> ll_foot h k es"
  shows "ll_list (LL_append l d h) k es"
proof -
  have "l \<in> ll_foot h l ds" by (simp add: ll_foot_def)
  then show ?thesis
    using assms prv_in_foot [OF assms(1)]
    by (subst ll_list_cong [of _ _ h])
      (auto simp: LL_append_def LL_add_prev_def ll_add_def Let_def)
qed

lemma LL_del_frame [frame]:
  assumes "ll_list h l (xs @ d # ys)" "ll_list h k es"
    and "ll_foot h l (xs @ d # ys) \<inter> ll_foot h k es = {}"
  shows "ll_list (LL_del (LL_nhead h l d) h) k es"
proof -
  have "prv h (LL_nhead h l d) \<in> ll_foot h l (xs @ d # ys)"
    using links_prv_last [OF ll_list_links(1) [OF assms(1)]]
    by (auto simp: ll_foot_def split: if_splits)
  moreover have "nxt h (LL_nhead h l d) \<in> ll_foot h l (xs @ d # ys)"
    using links_nxt_first [OF ll_list_links(2) [OF assms(1)]]
    by (cases ys) (auto simp: ll_foot_def)
  ultimately show ?thesis
    using assms by (subst ll_list_cong [of _ _ h]) (auto simp: LL_del_def ll_del_def Let_def)
qed

lemma sentinel_in_foot [simp]: "l \<in> ll_foot h l ds"
  by (simp add: ll_foot_def)

lemmas LL_enqueue_list = LL_append_list [folded LL_enqueue_def]
lemmas LL_enqueue_frame = LL_append_frame [folded LL_enqueue_def]

lemma LL_stable [simp]:
  "LL_nhead (LL_enqueue q x h) = LL_nhead h" "ll_foot (LL_enqueue q x h) = ll_foot h"
  "LL_nhead (snd (LL_dequeue q h)) = LL_nhead h" "ll_foot (snd (LL_dequeue q h)) = ll_foot h"
  by (simp_all add: fun_eq_iff LL_nhead_def ll_foot_def ll_nodes_def)

interpretation ll: fifo_heap ll_list ll_foot LL_nhead LL_enqueue LL_dequeue NULL
proof
  fix h q r x xs ys
  show "LL_nhead h q x \<notin> ll_foot h q xs" if "ll_list h q (x # xs)"
    using that by (auto simp: ll_list_def ll_foot_def)
  show "fst (LL_dequeue q h) = x" "ll_list (snd (LL_dequeue q h)) q xs"
    if "ll_list h q (x # xs)"
    using LL_dequeue_list [OF that] by auto
  show "ll_list (snd (LL_dequeue q h)) r ys"
    if "ll_list h q (x # xs)" "ll_list h r ys" "ll_foot h q (x # xs) \<inter> ll_foot h r ys = {}"
    using LL_del_frame [of h q "[]" x xs r ys] that by (simp add: LL_dequeue_list(1))
qed (auto simp: LL_dequeue_empty intro: LL_enqueue_list LL_enqueue_frame)

section \<open>Properties\<close>

text \<open>Runs of the queue operations.\<close>

fun enqueue_all :: "addr \<Rightarrow> addr list \<Rightarrow> lheap \<Rightarrow> lheap" where
  "enqueue_all l [] h = h"
| "enqueue_all l (d # ds) h = enqueue_all l ds (LL_enqueue l d h)"

fun dequeue_n :: "addr \<Rightarrow> nat \<Rightarrow> lheap \<Rightarrow> addr list \<times> lheap" where
  "dequeue_n l 0 h = ([], h)"
| "dequeue_n l (Suc n) h =
     (let (d, h1) = LL_dequeue l h; (ds, h2) = dequeue_n l n h1 in (d # ds, h2))"

lemma enqueue_all_list:
  assumes "ll_list h l cs" "distinct (cs @ ds)" "l \<notin> set (ll_nodes h l ds)"
  shows "ll_list (enqueue_all l ds h) l (cs @ ds)"
  using assms
proof (induction ds arbitrary: h cs)
  case Nil
  then show ?case by simp
next
  case (Cons d ds)
  have "ll_list (LL_enqueue l d h) l (cs @ [d])"
    using Cons.prems by (intro LL_enqueue_list) (auto simp: ll_foot_def)
  moreover have "ll_nodes (LL_enqueue l d h) l = ll_nodes h l"
    by (rule hoff_cong) simp
  ultimately show ?case
    using Cons.IH [of "LL_enqueue l d h" "cs @ [d]"] Cons.prems by simp
qed

lemma dequeue_n_list:
  assumes "ll_list h l (ds @ es)"
  shows "fst (dequeue_n l (length ds) h) = ds \<and> ll_list (snd (dequeue_n l (length ds) h)) l es"
  using assms
proof (induction ds arbitrary: h)
  case Nil
  then show ?case by simp
next
  case (Cons d ds)
  then have "fst (LL_dequeue l h) = d" "ll_list (snd (LL_dequeue l h)) l (ds @ es)"
    using LL_dequeue_list [of h l d "ds @ es"] by auto
  with Cons.IH [OF this(2)] show ?case
    by (auto simp: Let_def split: prod.split)
qed

lemma LL_init_nodes [simp]: "ll_nodes (LL_init l off h) l ds = map (\<lambda>d. d + off) ds"
  by (simp add: ll_nodes_def LL_nhead_def LL_init_def Let_def)

text \<open>C36: a list used as a queue is first-in first-out: from an initialised list, putting on
  the elements \<open>ds\<close> one after the other and taking off as many returns them in the same order,
  and leaves the list empty.\<close>

theorem LL_queue_fifo:
  assumes "distinct ds" "l \<notin> (\<lambda>d. d + off) ` set ds"
  shows "fst (dequeue_n l (length ds) (enqueue_all l ds (LL_init l off h))) = ds \<and>
    LL_dequeue l (snd (dequeue_n l (length ds) (enqueue_all l ds (LL_init l off h)))) =
      (NULL, snd (dequeue_n l (length ds) (enqueue_all l ds (LL_init l off h))))"
proof -
  have "ll_list (enqueue_all l ds (LL_init l off h)) l ([] @ ds)"
    using assms by (intro enqueue_all_list) (auto simp: LL_init_list)
  then have "ll_list (enqueue_all l ds (LL_init l off h)) l (ds @ [])"
    by simp
  from dequeue_n_list [OF this] LL_dequeue_empty show ?thesis by blast
qed

theorem LL_queue_fifo_witness:
  "fst (dequeue_n 0x100 (Suc (Suc 0)) (enqueue_all 0x100 [0x400, 0x200]
     (LL_init 0x100 8 \<lparr>nxt = \<lambda>_. 0, prv = \<lambda>_. 0, hoff = \<lambda>_. 0\<rparr>))) = [0x400, 0x200]"
  using LL_queue_fifo [of "[0x400, 0x200]" "0x100" 8 "\<lparr>nxt = \<lambda>_. 0, prv = \<lambda>_. 0, hoff = \<lambda>_. 0\<rparr>"]
  by simp

text \<open>C37: deleting an element, wherever it stands in the list, removes exactly that element
  and keeps the order of the others; traversing the list with \<open>LL_for_each\<close> then ends and visits
  exactly those; a list with other headers is unchanged.\<close>

theorem LL_del_spec:
  assumes "ll_list h l (xs @ d # ys)" "ll_list h k es"
    and "ll_foot h l (xs @ d # ys) \<inter> ll_foot h k es = {}"
  shows "LL_for_each l (LL_del (LL_nhead h l d) h) = Some (xs @ ys) \<and>
    LL_for_each k (LL_del (LL_nhead h l d) h) = Some es"
  using LL_del_list [OF assms(1)] LL_del_frame [OF assms] by (simp add: LL_for_each_list)

definition two_lists :: lheap where
  "two_lists = LL_init 0x900 0 (enqueue_all 0x100 [0x200, 0x300, 0x400]
     (LL_init 0x100 8 \<lparr>nxt = \<lambda>_. 0, prv = \<lambda>_. 0, hoff = \<lambda>_. 0\<rparr>))"

theorem LL_del_spec_witness:
  "LL_for_each 0x100 (LL_del 0x308 two_lists) = Some [0x200, 0x400]"
proof -
  let ?h = "LL_init 0x100 8 \<lparr>nxt = \<lambda>_. 0, prv = \<lambda>_. 0, hoff = \<lambda>_. 0\<rparr>"
  have "ll_list (enqueue_all 0x100 [0x200, 0x300, 0x400] ?h) 0x100 ([] @ [0x200, 0x300, 0x400])"
    by (rule enqueue_all_list) (simp_all add: ll_list_Nil LL_nhead_def LL_init_def Let_def)
  moreover have "hoff (enqueue_all 0x100 [0x200, 0x300, 0x400] ?h) 0x100 = 8"
    by (simp add: LL_init_def)
  ultimately have "ll_list two_lists 0x100 ([0x200] @ 0x300 # [0x400])"
    unfolding two_lists_def
    by (subst ll_list_cong [of _ _ "enqueue_all 0x100 [0x200, 0x300, 0x400] ?h"])
      (auto simp: LL_init_def Let_def ll_foot_def ll_nodes_def LL_nhead_def)
  moreover have "ll_list two_lists 0x900 []"
    by (simp add: two_lists_def LL_init_list)
  moreover have "hoff two_lists 0x100 = 8"
    by (simp add: two_lists_def LL_init_def Let_def)
  ultimately show ?thesis
    using LL_del_spec [of two_lists "0x100" "[0x200]" "0x300" "[0x400]" "0x900" "[]"]
    by (simp add: ll_foot_def ll_nodes_def LL_nhead_def)
qed

end
