(* ===== verification/Proc.thy ===== *)
theory Proc
  imports Kmalloc Linked_List
begin

text \<open>
  Processes: the scheduler of \<^verbatim>\<open>src/src/proc.c\<close>, the context switch of
  \<^verbatim>\<open>arch/x86_64/proc.c\<close>, the common interrupt handler \<open>IRQ_generic_isr\<close> of
  \<^verbatim>\<open>arch/x86_64/interrupts.c\<close> and the system calls of \<^verbatim>\<open>src/src/syscall.c\<close>.

  A process is a heap address; its registers are the record \<open>Process\<close>, and its two list headers
  (\<open>queue\<close> at offset 0, \<open>procs\<close> at offset 16) live in the heap of list headers \<open>lists\<close>. A stack
  frame of an interrupt is the list of the fifteen words the entry code of
  \<^verbatim>\<open>isr.asm\<close> and the processor push, which the handler reads and changes in place.

  A switch to another process is the return from the handler with a frame of that process, so
  an operation that yields is modelled up to that return: its result is the frame and the state with
  which the next process continues. The handlers of the device drivers are an argument of the
  common handler.
\<close>

section \<open>State\<close>

record Process =
  p_rax :: u64
  p_rbx :: u64
  p_rcx :: u64
  p_rdx :: u64
  p_rdi :: u64
  p_rsi :: u64
  p_r8 :: u64
  p_r9 :: u64
  p_r10 :: u64
  p_r11 :: u64
  p_r12 :: u64
  p_r13 :: u64
  p_r14 :: u64
  p_r15 :: u64
  p_cs :: u64
  p_ss :: u64
  p_ds :: u64
  p_es :: u64
  p_fs :: u64
  p_gs :: u64
  p_rbp :: u64
  p_rsp :: u64
  p_rip :: u64
  p_rflags :: u64
  p_stack :: addr
  p_name :: addr

definition sizeof_Process :: u64 where "sizeof_Process = 240"

text \<open>The registers that the entry code does not push.\<close>

record Cpu =
  c_ds :: u64
  c_es :: u64
  c_fs :: u64
  c_gs :: u64
  c_r12 :: u64
  c_r13 :: u64
  c_r14 :: u64
  c_r15 :: u64
  c_rbx :: u64

record 'd psys = "'d kheap" +
  lists :: lheap
  proc_of :: "addr \<Rightarrow> Process"
  curr_proc :: addr
  next_proc :: addr
  main_proc :: addr
  sleep_curr :: bool
  ready_queue :: addr
  procs_list :: addr
  cpu :: Cpu
  process_exit_addr :: addr

type_synonym frame = "u64 list"

definition zero_Process :: Process where
  "zero_Process = \<lparr>p_rax = 0, p_rbx = 0, p_rcx = 0, p_rdx = 0, p_rdi = 0, p_rsi = 0, p_r8 = 0, p_r9 = 0,
     p_r10 = 0, p_r11 = 0, p_r12 = 0, p_r13 = 0, p_r14 = 0, p_r15 = 0, p_cs = 0, p_ss = 0, p_ds = 0,
     p_es = 0, p_fs = 0, p_gs = 0, p_rbp = 0, p_rsp = 0, p_rip = 0, p_rflags = 0, p_stack = 0, p_name = 0\<rparr>"

section \<open>Saving and loading a context\<close>

definition PROC_save_context :: "addr \<Rightarrow> frame \<Rightarrow> ('d, 'a) psys_scheme \<Rightarrow> ('d, 'a) psys_scheme" where
  "PROC_save_context p st s =
     s\<lparr>proc_of := (proc_of s)(p := (proc_of s p)
       \<lparr>p_rbp := st ! 0, p_rax := st ! 1, p_r9 := st ! 2, p_r8 := st ! 3, p_rcx := st ! 4,
        p_rdx := st ! 5, p_r11 := st ! 6, p_r10 := st ! 7, p_rsi := st ! 8, p_rdi := st ! 9,
        p_rip := st ! 10, p_cs := st ! 11 AND 0xFFFF, p_rflags := st ! 12, p_rsp := st ! 13,
        p_ss := st ! 14 AND 0xFFFF,
        p_ds := c_ds (cpu s), p_es := c_es (cpu s), p_fs := c_fs (cpu s), p_gs := c_gs (cpu s),
        p_r12 := c_r12 (cpu s), p_r13 := c_r13 (cpu s), p_r14 := c_r14 (cpu s), p_r15 := c_r15 (cpu s),
        p_rbx := c_rbx (cpu s)\<rparr>)\<rparr>"

definition PROC_load_context :: "addr \<Rightarrow> frame \<Rightarrow> ('d, 'a) psys_scheme \<Rightarrow> frame \<times> ('d, 'a) psys_scheme" where
  "PROC_load_context p st s =
     (let q = proc_of s p
      in (st[0 := p_rbp q, 1 := p_rax q, 2 := p_r9 q, 3 := p_r8 q, 4 := p_rcx q, 5 := p_rdx q,
             6 := p_r11 q, 7 := p_r10 q, 8 := p_rsi q, 9 := p_rdi q, 10 := p_rip q,
             11 := st ! 11 OR p_cs q, 12 := p_rflags q, 13 := p_rsp q, 14 := st ! 14 OR p_ss q],
          s\<lparr>cpu := \<lparr>c_ds = p_ds q, c_es = p_es q, c_fs = p_fs q, c_gs = p_gs q, c_r12 = p_r12 q,
                   c_r13 = p_r13 q, c_r14 = p_r14 q, c_r15 = p_r15 q, c_rbx = p_rbx q\<rparr>\<rparr>))"

section \<open>Queues\<close>

definition proc_queue_enqueue :: "addr \<Rightarrow> addr \<Rightarrow> ('d, 'a) psys_scheme \<Rightarrow> ('d, 'a) psys_scheme" where
  "proc_queue_enqueue queue p s = s\<lparr>lists := LL_enqueue queue p (lists s)\<rparr>"

definition proc_queue_dequeue :: "addr \<Rightarrow> ('d, 'a) psys_scheme \<Rightarrow> addr \<times> ('d, 'a) psys_scheme" where
  "proc_queue_dequeue queue s = (let (p, h) = LL_dequeue queue (lists s) in (p, s\<lparr>lists := h\<rparr>))"

definition PROC_queue_init :: "addr \<Rightarrow> ('d, 'a) psys_scheme \<Rightarrow> ('d, 'a) psys_scheme" where
  "PROC_queue_init queue s = s\<lparr>lists := LL_init queue 0 (lists s)\<rparr>"

definition PROC_queue_empty :: "addr \<Rightarrow> ('d, 'a) psys_scheme \<Rightarrow> bool" where
  "PROC_queue_empty queue s = LL_empty queue (lists s)"

text \<open>The rows a dump of a queue prints: address, name and instruction pointer.\<close>

definition PROC_queue_dump :: "addr \<Rightarrow> ('d, 'a) psys_scheme \<Rightarrow> (addr \<times> addr \<times> u64) list option" where
  "PROC_queue_dump queue s =
     map_option (map (\<lambda>p. (p, p_name (proc_of s p), p_rip (proc_of s p)))) (LL_for_each queue (lists s))"

definition PROC_ready_dump :: "('d, 'a) psys_scheme \<Rightarrow> (addr \<times> addr \<times> u64) list option" where
  "PROC_ready_dump s = PROC_queue_dump (ready_queue s) s"

definition PROC_dump_procs :: "('d, 'a) psys_scheme \<Rightarrow> addr list option" where
  "PROC_dump_procs s = map_option (map (\<lambda>p. p_name (proc_of s p))) (LL_for_each (procs_list s) (lists s))"

section \<open>Scheduling\<close>

definition PROC_reschedule :: "('d, 'a) psys_scheme \<Rightarrow> ('d, 'a) psys_scheme" where
  "PROC_reschedule s =
     (let s = IRQ_disable s;
          s = (if curr_proc s \<noteq> NULL \<and> \<not> sleep_curr s
               then proc_queue_enqueue (ready_queue s) (curr_proc s) s else s);
          s = (if PROC_queue_empty (ready_queue s) s
               then s\<lparr>next_proc := main_proc s, sleep_curr := True\<rparr>
               else let (p, s) = proc_queue_dequeue (ready_queue s) s
                    in s\<lparr>next_proc := p, sleep_curr := False\<rparr>)
      in if curr_proc s = next_proc s then IRQ_enable s else s)"

definition PROC_yield :: "('d, 'a) psys_scheme \<Rightarrow> ('d, 'a) psys_scheme" where
  "PROC_yield s = PROC_reschedule s"

text \<open>
  The common interrupt handler. \<open>drv\<close> are the handlers of the drivers and \<open>sys\<close> handles a system
  call by its number: it returns (\<open>Inr\<close>), or control has left through the frame of another trap
  (\<open>Inl\<close>), or its behaviour is undefined (\<open>None\<close>).
\<close>

definition context_switch :: "frame \<Rightarrow> ('d, 'a) psys_scheme \<Rightarrow> frame \<times> ('d, 'a) psys_scheme" where
  "context_switch ctx s =
     (if curr_proc s \<noteq> next_proc s then
        let s = (if curr_proc s \<noteq> NULL then PROC_save_context (curr_proc s) ctx s else s);
            (ctx, s) = PROC_load_context (next_proc s) ctx s;
            s = s\<lparr>curr_proc := next_proc s\<rparr>
        in (ctx, IRQ_enable s)
      else (ctx, s))"

definition run_handler ::
  "(irq_handler \<Rightarrow> u32 \<Rightarrow> u32 \<Rightarrow> addr \<Rightarrow> ('d, 'a) psys_scheme \<Rightarrow> ('d, 'a) psys_scheme) \<Rightarrow>
   (u32 \<Rightarrow> ('d, 'a) psys_scheme \<Rightarrow> (frame \<times> ('d, 'a) psys_scheme + ('d, 'a) psys_scheme) option) \<Rightarrow>
   u32 \<Rightarrow> u32 \<Rightarrow> ('d, 'a) psys_scheme \<Rightarrow> (frame \<times> ('d, 'a) psys_scheme + ('d, 'a) psys_scheme) option" where
  "run_handler drv sys irq err s =
     (case handler (handlers s ! unat irq) of
        None \<Rightarrow> Some (Inr (klog KLOG_LEVEL_INFO ''received unhandled error interrupt: 0x%X 0x%X''
                  [ucast irq, ucast err] s))
      | Some h \<Rightarrow> (case h of
          Page_fault_handler \<Rightarrow> Some (Inr (page_fault_handler irq err (arg (handlers s ! unat irq)) s))
        | IRQ_syscall_handler \<Rightarrow> sys err s
        | _ \<Rightarrow> Some (Inr (drv h irq err (arg (handlers s ! unat irq)) s))))"

definition generic_isr ::
  "'d device \<Rightarrow> (irq_handler \<Rightarrow> u32 \<Rightarrow> u32 \<Rightarrow> addr \<Rightarrow> ('d, 'a) psys_scheme \<Rightarrow> ('d, 'a) psys_scheme) \<Rightarrow>
   (u32 \<Rightarrow> ('d, 'a) psys_scheme \<Rightarrow> (frame \<times> ('d, 'a) psys_scheme + ('d, 'a) psys_scheme) option) \<Rightarrow>
   u32 \<Rightarrow> u32 \<Rightarrow> frame \<Rightarrow> ('d, 'a) psys_scheme \<Rightarrow> (frame \<times> ('d, 'a) psys_scheme) option" where
  "generic_isr dev drv sys irq err ctx s =
     (let s = (if unat irq \<noteq> SYSCALL_TRAP_NUMBER
               then s\<lparr>irq_semaphore := atomic_add (irq_semaphore s) 1\<rparr> else s)
      in case run_handler drv sys irq err s of
           None \<Rightarrow> None
         | Some (Inl r) \<Rightarrow> Some r
         | Some (Inr s) \<Rightarrow> Some (
             let s = (if int (unat irq) \<ge> PIC_MASTER_REMAP_BASE \<and>
                         int (unat irq) \<le> PIC_MASTER_REMAP_BASE + 0x2F
                      then PIC_sendEOI dev (ucast (irq - of_int PIC_MASTER_REMAP_BASE)) s else s);
                 (ctx, s) = context_switch ctx s
             in (ctx, if unat irq \<noteq> SYSCALL_TRAP_NUMBER
                      then s\<lparr>irq_semaphore := atomic_sub (irq_semaphore s) 1\<rparr> else s)))"

text \<open>
  \<open>yield\<close> traps with system call number 0 in \<open>rbx\<close>, so the system call it makes is always
  \<open>PROC_yield\<close>; \<open>ctx\<close> is the frame of that trap. The system call is always defined, so the
  last case does not occur (lemma \<open>yield_defined\<close>).
\<close>

definition yield ::
  "'d device \<Rightarrow> (irq_handler \<Rightarrow> u32 \<Rightarrow> u32 \<Rightarrow> addr \<Rightarrow> ('d, 'a) psys_scheme \<Rightarrow> ('d, 'a) psys_scheme) \<Rightarrow>
   frame \<Rightarrow> ('d, 'a) psys_scheme \<Rightarrow> frame \<times> ('d, 'a) psys_scheme" where
  "yield dev drv ctx s =
     (case generic_isr dev drv (\<lambda>num s. Some (Inr (PROC_yield s))) (of_nat SYSCALL_TRAP_NUMBER) 0 ctx
             (s\<lparr>cpu := (cpu s)\<lparr>c_rbx := 0\<rparr>\<rparr>) of
        Some r \<Rightarrow> r
      | None \<Rightarrow> (ctx, s))"

definition PROC_block_on ::
  "'d device \<Rightarrow> (irq_handler \<Rightarrow> u32 \<Rightarrow> u32 \<Rightarrow> addr \<Rightarrow> ('d, 'a) psys_scheme \<Rightarrow> ('d, 'a) psys_scheme) \<Rightarrow>
   addr \<Rightarrow> bool \<Rightarrow> frame \<Rightarrow> ('d, 'a) psys_scheme \<Rightarrow> frame \<times> ('d, 'a) psys_scheme" where
  "PROC_block_on dev drv queue enable_ints ctx s =
     (let s = proc_queue_enqueue queue (curr_proc s) s;
          s = s\<lparr>sleep_curr := True\<rparr>;
          s = (if enable_ints then IRQ_enable s else s)
      in yield dev drv ctx s)"

definition PROC_unblock_head :: "addr \<Rightarrow> ('d, 'a) psys_scheme \<Rightarrow> ('d, 'a) psys_scheme" where
  "PROC_unblock_head queue s =
     (if PROC_queue_empty queue s then s
      else let s = IRQ_disable s;
               (p, s) = proc_queue_dequeue queue s;
               s = proc_queue_enqueue (ready_queue s) p s
           in IRQ_enable s)"

partial_function (option) unblock_loop :: "addr \<Rightarrow> ('d, 'a) psys_scheme \<Rightarrow> ('d, 'a) psys_scheme option" where
  "unblock_loop queue s =
     (let (p, s) = proc_queue_dequeue queue s
      in if p = NULL then Some s else unblock_loop queue (proc_queue_enqueue (ready_queue s) p s))"

definition PROC_unblock_all :: "addr \<Rightarrow> ('d, 'a) psys_scheme \<Rightarrow> ('d, 'a) psys_scheme option" where
  "PROC_unblock_all queue s = map_option IRQ_enable (unblock_loop queue (IRQ_disable s))"

text \<open>The exit of the running process; \<open>None\<close> when its header in the heap is not a block's.\<close>

definition process_exit ::
  "'d device \<Rightarrow> (irq_handler \<Rightarrow> u32 \<Rightarrow> u32 \<Rightarrow> addr \<Rightarrow> ('d, 'a) psys_scheme \<Rightarrow> ('d, 'a) psys_scheme) \<Rightarrow>
   frame \<Rightarrow> ('d, 'a) psys_scheme \<Rightarrow> (frame \<times> ('d, 'a) psys_scheme) option" where
  "process_exit dev drv ctx s =
     (let s = klog KLOG_LEVEL_INFO ''process %s exited'' [p_name (proc_of s (curr_proc s))] s;
          s = s\<lparr>lists := LL_del (curr_proc s + 16) (lists s)\<rparr>;
          s = MMU_free_stack (p_stack (proc_of s (curr_proc s))) s
      in map_option (\<lambda>s. yield dev drv ctx (s\<lparr>curr_proc := NULL\<rparr>)) (kfree (curr_proc s) s))"

definition PROC_exit ::
  "'d device \<Rightarrow> (irq_handler \<Rightarrow> u32 \<Rightarrow> u32 \<Rightarrow> addr \<Rightarrow> ('d, 'a) psys_scheme \<Rightarrow> ('d, 'a) psys_scheme) \<Rightarrow>
   frame \<Rightarrow> ('d, 'a) psys_scheme \<Rightarrow> (frame \<times> ('d, 'a) psys_scheme) option" where
  "PROC_exit dev drv ctx s = process_exit dev drv ctx s"

text \<open>
  The system calls. \<open>inner\<close> is the frame of the trap \<open>process_exit\<close> makes.
\<close>

definition syscall_handler ::
  "'d device \<Rightarrow> (irq_handler \<Rightarrow> u32 \<Rightarrow> u32 \<Rightarrow> addr \<Rightarrow> ('d, 'a) psys_scheme \<Rightarrow> ('d, 'a) psys_scheme) \<Rightarrow>
   frame \<Rightarrow> u32 \<Rightarrow> ('d, 'a) psys_scheme \<Rightarrow> (frame \<times> ('d, 'a) psys_scheme + ('d, 'a) psys_scheme) option" where
  "syscall_handler dev drv inner num s =
     (if num = 0 then Some (Inr (PROC_yield s))
      else if num = 1 then map_option Inl (PROC_exit dev drv inner s)
      else Some (Inr (klog KLOG_LEVEL_WARN ''received unsupported system call %d'' [ucast num] s)))"

definition IRQ_generic_isr ::
  "'d device \<Rightarrow> (irq_handler \<Rightarrow> u32 \<Rightarrow> u32 \<Rightarrow> addr \<Rightarrow> ('d, 'a) psys_scheme \<Rightarrow> ('d, 'a) psys_scheme) \<Rightarrow>
   frame \<Rightarrow> u32 \<Rightarrow> u32 \<Rightarrow> frame \<Rightarrow> ('d, 'a) psys_scheme \<Rightarrow> (frame \<times> ('d, 'a) psys_scheme) option" where
  "IRQ_generic_isr dev drv inner irq err ctx s =
     generic_isr dev drv (syscall_handler dev drv inner) irq err ctx s"

section \<open>Creating processes\<close>

text \<open>
  The address of a process or of a stack is never the literal \<open>NULL\<close> when its allocation
  succeeded. The error path reads the name through \<open>new\<close>: \<open>None\<close> when that is \<open>NULL\<close>, and the
  (cleared) name of the block just freed otherwise.
\<close>

definition PROC_create_process ::
  "addr \<Rightarrow> addr \<Rightarrow> addr \<Rightarrow> ('d, 'a) psys_scheme \<Rightarrow> (int \<times> ('d, 'a) psys_scheme) option" where
  "PROC_create_process name entry_point a s =
     (let (new, s) = kmalloc sizeof_Process s
      in if new = NULL then None
         else
           let s = s\<lparr>proc_of := (proc_of s)(new := zero_Process),
                    lists := (lists s)\<lparr>nxt := (nxt (lists s))(new := NULL, new + 16 := NULL),
                                      prv := (prv (lists s))(new := NULL, new + 16 := NULL)\<rparr>\<rparr>;
               (stk, s) = MMU_alloc_stack s
           in if stk = NULL then
                map_option (\<lambda>s. (- 1, klog KLOG_LEVEL_WARN ''failed to start process %s''
                                   [p_name (proc_of s new)] s)) (kfree new s)
              else
                let s = s\<lparr>vmem := (vmem s)(stk := NULL, stk - 8 := NULL, stk - 16 := process_exit_addr s)\<rparr>;
                    s = s\<lparr>proc_of := (proc_of s)(new := (proc_of s new)
                          \<lparr>p_stack := stk, p_rsp := stk - 16, p_rbp := stk - 8, p_rip := entry_point,
                           p_rdi := a, p_cs := 0x10, p_name := name\<rparr>)\<rparr>;
                    s = proc_queue_enqueue (ready_queue s) new s;
                    s = s\<lparr>lists := LL_enqueue (procs_list s) new (lists s)\<rparr>
                in Some (0, klog KLOG_LEVEL_INFO ''starting process %s'' [p_name (proc_of s new)] s))"

text \<open>
  \<open>PROC_run\<close>, the main process: a test of the queue, with interrupts disabled, either ends the loop
  (\<open>Inr\<close>) or yields (\<open>Inl\<close>); the main process comes back to the next test with \<open>PROC_run\<close> again.
\<close>

definition PROC_run ::
  "'d device \<Rightarrow> (irq_handler \<Rightarrow> u32 \<Rightarrow> u32 \<Rightarrow> addr \<Rightarrow> ('d, 'a) psys_scheme \<Rightarrow> ('d, 'a) psys_scheme) \<Rightarrow>
   frame \<Rightarrow> ('d, 'a) psys_scheme \<Rightarrow> frame \<times> ('d, 'a) psys_scheme + ('d, 'a) psys_scheme" where
  "PROC_run dev drv ctx s =
     (let s = IRQ_disable s
      in if PROC_queue_empty (ready_queue s) s then Inr (IRQ_enable s)
         else let s = s\<lparr>sleep_curr := True\<rparr>; s = IRQ_enable s in Inl (yield dev drv ctx s))"

end
