(* ===== verification/Scheduler.thy ===== *)
theory Scheduler
  imports Proc
begin

text \<open>
  What the scheduler guarantees. The ready queue and the wait queues are sequences of processes
  (through the interpretation of the queue contract by the linked lists); the operations of
  \<^verbatim>\<open>proc.c\<close> are shown to act on these sequences, to leave other queues alone, and to
  balance the interrupt counter over a context switch. From this follow round-robin order and the
  order of waking up.
\<close>

section \<open>Fields the other components leave alone\<close>

lemma IRQ_psys [simp]:
  "lists (IRQ_disable s) = lists s" "proc_of (IRQ_disable s) = proc_of s" "curr_proc (IRQ_disable s) = curr_proc s"
  "next_proc (IRQ_disable s) = next_proc s" "main_proc (IRQ_disable s) = main_proc s"
  "sleep_curr (IRQ_disable s) = sleep_curr s" "ready_queue (IRQ_disable s) = ready_queue s"
  "procs_list (IRQ_disable s) = procs_list s" "cpu (IRQ_disable s) = cpu s"
  "lists (IRQ_enable s) = lists s" "proc_of (IRQ_enable s) = proc_of s" "curr_proc (IRQ_enable s) = curr_proc s"
  "next_proc (IRQ_enable s) = next_proc s" "main_proc (IRQ_enable s) = main_proc s"
  "sleep_curr (IRQ_enable s) = sleep_curr s" "ready_queue (IRQ_enable s) = ready_queue s"
  "procs_list (IRQ_enable s) = procs_list s" "cpu (IRQ_enable s) = cpu s"
  by (simp_all add: IRQ_disable_def IRQ_enable_def Let_def)

lemma proc_queue_simps [simp]:
  "lists (proc_queue_enqueue q p s) = LL_enqueue q p (lists s)"
  "curr_proc (proc_queue_enqueue q p s) = curr_proc s" "ready_queue (proc_queue_enqueue q p s) = ready_queue s"
  "main_proc (proc_queue_enqueue q p s) = main_proc s" "sleep_curr (proc_queue_enqueue q p s) = sleep_curr s"
  "irq_semaphore (proc_queue_enqueue q p s) = irq_semaphore s" "int_flag (proc_queue_enqueue q p s) = int_flag s"
  "handlers (proc_queue_enqueue q p s) = handlers s" "next_proc (proc_queue_enqueue q p s) = next_proc s"
  "proc_of (proc_queue_enqueue q p s) = proc_of s" "cpu (proc_queue_enqueue q p s) = cpu s"
  by (simp_all add: proc_queue_enqueue_def)

section \<open>Choosing the next process\<close>

text \<open>The specification: the running process goes to the end of the queue unless it sleeps; the head
  runs next, or the main process when nobody is ready.\<close>

definition pick_next :: "addr \<Rightarrow> addr \<Rightarrow> bool \<Rightarrow> addr list \<Rightarrow> addr \<times> bool \<times> addr list" where
  "pick_next mn c sleeping rs =
     (case (if c \<noteq> NULL \<and> \<not> sleeping then rs @ [c] else rs) of
        [] \<Rightarrow> (mn, True, [])
      | p # ps \<Rightarrow> (p, False, ps))"

text \<open>The list header of a process is free when the process is on no list at all.\<close>

definition cell_free :: "('d, 'a) psys_scheme \<Rightarrow> addr \<Rightarrow> addr list \<Rightarrow> bool" where
  "cell_free s p rs \<longleftrightarrow> LL_nhead (lists s) (ready_queue s) p \<notin> ll_foot (lists s) (ready_queue s) rs"

lemma PROC_reschedule_lists:
  assumes rep: "ll_list (lists s) (ready_queue s) rs"
    and free: "curr_proc s \<noteq> NULL \<Longrightarrow> \<not> sleep_curr s \<Longrightarrow> cell_free s (curr_proc s) rs"
    and pk: "pick_next (main_proc s) (curr_proc s) (sleep_curr s) rs = (p, sl, ps)"
  shows "next_proc (PROC_reschedule s) = p" "sleep_curr (PROC_reschedule s) = sl"
    "ll_list (lists (PROC_reschedule s)) (ready_queue s) ps"
proof -
  let ?q = "ready_queue s" and ?c = "curr_proc s"
  define s1 where "s1 = (if ?c \<noteq> NULL \<and> \<not> sleep_curr s
    then proc_queue_enqueue ?q ?c (IRQ_disable s) else IRQ_disable s)"
  define rs1 where "rs1 = (if ?c \<noteq> NULL \<and> \<not> sleep_curr s then rs @ [?c] else rs)"
  have sel: "ready_queue s1 = ?q" "main_proc s1 = main_proc s" "curr_proc s1 = ?c"
    by (simp_all add: s1_def)
  have rep1: "ll_list (lists s1) ?q rs1"
    using rep free LL_enqueue_list [of "lists s" ?q rs ?c] by (auto simp: s1_def rs1_def cell_free_def)
  define s2 where "s2 = (if PROC_queue_empty ?q s1 then s1\<lparr>next_proc := main_proc s1, sleep_curr := True\<rparr>
      else let (p, s) = proc_queue_dequeue ?q s1 in s\<lparr>next_proc := p, sleep_curr := False\<rparr>)"
  have R: "PROC_reschedule s = (if curr_proc s2 = next_proc s2 then IRQ_enable s2 else s2)"
    by (simp add: PROC_reschedule_def Let_def s2_def s1_def sel)
  have "next_proc s2 = p \<and> sleep_curr s2 = sl \<and> ll_list (lists s2) ?q ps"
  proof (cases rs1)
    case Nil
    then have "(p, sl, ps) = (main_proc s, True, [])"
      using pk by (simp add: pick_next_def rs1_def)
    moreover have "PROC_queue_empty ?q s1"
      using LL_empty_list [OF rep1] Nil by (simp add: PROC_queue_empty_def)
    ultimately show ?thesis using rep1 Nil by (simp add: s2_def sel)
  next
    case (Cons x xs)
    then have "(p, sl, ps) = (x, False, xs)"
      using pk by (simp add: pick_next_def rs1_def)
    moreover have "\<not> PROC_queue_empty ?q s1"
      using LL_empty_list [OF rep1] Cons by (simp add: PROC_queue_empty_def)
    moreover have "LL_dequeue ?q (lists s1) = (x, snd (LL_dequeue ?q (lists s1)))"
      using ll.deq_fst [of "lists s1" ?q x xs] rep1 Cons by (metis prod.collapse)
    ultimately show ?thesis
      using ll.deq_rep [of "lists s1" ?q x xs] rep1 Cons
      by (auto simp: s2_def proc_queue_dequeue_def split: prod.splits)
  qed
  then show "next_proc (PROC_reschedule s) = p" "sleep_curr (PROC_reschedule s) = sl"
    "ll_list (lists (PROC_reschedule s)) ?q ps" by (auto simp: R)
qed

text \<open>The remaining fields.\<close>

lemma proc_queue_dequeue_eq:
  "proc_queue_dequeue q s = (fst (LL_dequeue q (lists s)), s\<lparr>lists := snd (LL_dequeue q (lists s))\<rparr>)"
  by (simp add: proc_queue_dequeue_def split: prod.split)

definition resched_heap :: "('d, 'a) psys_scheme \<Rightarrow> lheap" where
  "resched_heap s =
     (let h = (if curr_proc s \<noteq> NULL \<and> \<not> sleep_curr s then LL_enqueue (ready_queue s) (curr_proc s) (lists s)
               else lists s)
      in if LL_empty (ready_queue s) h then h else snd (LL_dequeue (ready_queue s) h))"

lemma PROC_reschedule_frame [simp]:
  "lists (PROC_reschedule s) = resched_heap s" "curr_proc (PROC_reschedule s) = curr_proc s"
  "main_proc (PROC_reschedule s) = main_proc s" "ready_queue (PROC_reschedule s) = ready_queue s"
  "handlers (PROC_reschedule s) = handlers s" "proc_of (PROC_reschedule s) = proc_of s"
  "cpu (PROC_reschedule s) = cpu s"
  by (auto simp: PROC_reschedule_def Let_def resched_heap_def PROC_queue_empty_def proc_queue_dequeue_eq)

text \<open>The state before the last test of \<open>PROC_reschedule\<close>.\<close>

definition resched_state :: "('d, 'a) psys_scheme \<Rightarrow> ('d, 'a) psys_scheme" where
  "resched_state s =
     (let s = IRQ_disable s;
          s = (if curr_proc s \<noteq> NULL \<and> \<not> sleep_curr s
               then proc_queue_enqueue (ready_queue s) (curr_proc s) s else s)
      in if PROC_queue_empty (ready_queue s) s
         then s\<lparr>next_proc := main_proc s, sleep_curr := True\<rparr>
         else let (p, s) = proc_queue_dequeue (ready_queue s) s
              in s\<lparr>next_proc := p, sleep_curr := False\<rparr>)"

lemma PROC_reschedule_eq:
  "PROC_reschedule s =
     (if curr_proc (resched_state s) = next_proc (resched_state s) then IRQ_enable (resched_state s)
      else resched_state s)"
  by (simp add: PROC_reschedule_def resched_state_def Let_def)

lemma resched_state_irq:
  "irq_semaphore (resched_state s) = irq_semaphore (IRQ_disable s)"
  "int_flag (resched_state s) = int_flag (IRQ_disable s)" "curr_proc (resched_state s) = curr_proc s"
  by (simp_all add: resched_state_def Let_def proc_queue_dequeue_eq)

lemma PROC_reschedule_irq:
  assumes "irq_ok s" "irq_semaphore s + 1 \<noteq> 0"
  shows "if next_proc (PROC_reschedule s) = curr_proc s
    then irq_semaphore (PROC_reschedule s) = irq_semaphore s \<and> int_flag (PROC_reschedule s) = int_flag s
    else irq_semaphore (PROC_reschedule s) = irq_semaphore (IRQ_disable s) \<and>
         int_flag (PROC_reschedule s) = int_flag (IRQ_disable s)"
  using irq_restored [OF assms resched_state_irq(1,2)] resched_state_irq [of s]
  by (auto simp: PROC_reschedule_eq)

lemma resched_heap_other:
  assumes rep: "ll_list (lists s) (ready_queue s) rs" "ll_list (lists s) k es"
    and dis: "ll_foot (lists s) (ready_queue s) rs \<inter> ll_foot (lists s) k es = {}"
    and free: "curr_proc s \<noteq> NULL \<Longrightarrow> \<not> sleep_curr s \<Longrightarrow> cell_free s (curr_proc s) rs \<and>
      LL_nhead (lists s) (ready_queue s) (curr_proc s) \<notin> ll_foot (lists s) k es"
  shows "ll_list (resched_heap s) k es" "ll_foot (resched_heap s) = ll_foot (lists s)"
    "LL_nhead (resched_heap s) = LL_nhead (lists s)"
proof -
  let ?q = "ready_queue s" and ?c = "curr_proc s"
  define h where "h = (if ?c \<noteq> NULL \<and> \<not> sleep_curr s then LL_enqueue ?q ?c (lists s) else lists s)"
  define rs1 where "rs1 = (if ?c \<noteq> NULL \<and> \<not> sleep_curr s then rs @ [?c] else rs)"
  have st: "ll_foot h = ll_foot (lists s)" "LL_nhead h = LL_nhead (lists s)" by (simp_all add: h_def)
  have r1: "ll_list h ?q rs1" "ll_list h k es"
    using rep free dis LL_enqueue_list [of "lists s" ?q rs ?c] ll.enq_frame [OF rep dis, of ?c]
    by (auto simp: h_def rs1_def cell_free_def)
  have d1: "ll_foot h ?q rs1 \<inter> ll_foot h k es = {}"
    using dis free sentinel_in_foot [of ?q "lists s" rs] by (auto simp: st rs1_def simp del: sentinel_in_foot)
  have R: "resched_heap s = (if LL_empty ?q h then h else snd (LL_dequeue ?q h))"
    by (simp add: resched_heap_def h_def Let_def)
  show "ll_list (resched_heap s) k es"
  proof (cases rs1)
    case Nil
    then show ?thesis using r1 LL_empty_list [OF r1(1)] by (simp add: R)
  next
    case (Cons x xs)
    then show ?thesis
      using r1 d1 LL_empty_list [OF r1(1)] ll.deq_frame [of h ?q x xs k es] by (simp add: R)
  qed
  show "ll_foot (resched_heap s) = ll_foot (lists s)" "LL_nhead (resched_heap s) = LL_nhead (lists s)"
    by (simp_all add: R st)
qed

section \<open>The context switch\<close>

lemma context_switch_sel:
  "curr_proc (snd (context_switch ctx s)) = next_proc s" "lists (snd (context_switch ctx s)) = lists s"
  "sleep_curr (snd (context_switch ctx s)) = sleep_curr s" "ready_queue (snd (context_switch ctx s)) = ready_queue s"
  "main_proc (snd (context_switch ctx s)) = main_proc s" "handlers (snd (context_switch ctx s)) = handlers s"
  by (auto simp: context_switch_def PROC_load_context_def PROC_save_context_def Let_def)

lemma context_switch_irq:
  "irq_semaphore (snd (context_switch ctx s)) =
     (if curr_proc s \<noteq> next_proc s then irq_semaphore (IRQ_enable s) else irq_semaphore s)"
  "int_flag (snd (context_switch ctx s)) =
     (if curr_proc s \<noteq> next_proc s then int_flag (IRQ_enable s) else int_flag s)"
  by (auto simp: context_switch_def PROC_load_context_def PROC_save_context_def Let_def IRQ_enable_def)

text \<open>\<open>yield\<close>, once the handler for the trap is installed.\<close>

definition syscalls_ready :: "('d, 'a) psys_scheme \<Rightarrow> bool" where
  "syscalls_ready s \<longleftrightarrow> length (handlers s) = 256 \<and> handler (handlers s ! SYSCALL_TRAP_NUMBER) = Some IRQ_syscall_handler"

lemma yield_defined:
  assumes "syscalls_ready s"
  shows "yield dev drv ctx s = context_switch ctx (PROC_reschedule (s\<lparr>cpu := (cpu s)\<lparr>c_rbx := 0\<rparr>\<rparr>))"
  using assms
  by (simp add: yield_def generic_isr_def run_handler_def syscalls_ready_def SYSCALL_TRAP_NUMBER_def
      PIC_MASTER_REMAP_BASE_def PROC_yield_def Let_def split: prod.split)

text \<open>A process is running, the processes \<open>rs\<close> are ready behind it.\<close>

definition running :: "('d, 'a) psys_scheme \<Rightarrow> addr \<Rightarrow> addr list \<Rightarrow> bool" where
  "running s c rs \<longleftrightarrow> curr_proc s = c \<and> c \<noteq> NULL \<and> NULL \<notin> set rs \<and> \<not> sleep_curr s \<and>
     ll_list (lists s) (ready_queue s) rs \<and> cell_free s c rs \<and> syscalls_ready s \<and>
     irq_ok s \<and> irq_semaphore s + 1 \<noteq> 0"

lemma yield_irq:
  assumes "syscalls_ready s" "irq_ok s" "irq_semaphore s + 1 \<noteq> 0"
  shows "irq_semaphore (snd (yield dev drv ctx s)) = irq_semaphore s"
    "int_flag (snd (yield dev drv ctx s)) = int_flag s"
proof -
  let ?s = "s\<lparr>cpu := (cpu s)\<lparr>c_rbx := 0\<rparr>\<rparr>"
  have ok: "irq_ok ?s" "irq_semaphore ?s + 1 \<noteq> 0" using assms by (simp_all add: irq_ok_def)
  note R = PROC_reschedule_irq [OF ok]
  show "irq_semaphore (snd (yield dev drv ctx s)) = irq_semaphore s"
    "int_flag (snd (yield dev drv ctx s)) = int_flag s"
    using R irq_restored [OF ok, of "PROC_reschedule ?s"]
    by (auto simp: yield_defined [OF assms(1)] context_switch_irq split: if_splits)
qed

lemma ll_list_distinct: "ll_list h l ds \<Longrightarrow> distinct ds"
  by (simp add: ll_list_def)

text \<open>One yield of a running process is one rotation.\<close>

lemma yield_running:
  assumes "running s c rs"
  shows "running (snd (yield dev drv ctx s)) (hd (rs @ [c])) (tl (rs @ [c]))"
    "ready_queue (snd (yield dev drv ctx s)) = ready_queue s"
proof -
  let ?s = "s\<lparr>cpu := (cpu s)\<lparr>c_rbx := 0\<rparr>\<rparr>" and ?q = "ready_queue s"
  let ?t = "snd (yield dev drv ctx s)"
  have r: "curr_proc s = c" "c \<noteq> NULL" "NULL \<notin> set rs" "\<not> sleep_curr s" "ll_list (lists s) ?q rs"
    "cell_free s c rs" "syscalls_ready s" "irq_ok s" "irq_semaphore s + 1 \<noteq> 0"
    using assms by (auto simp: running_def)
  have pk: "pick_next (main_proc ?s) (curr_proc ?s) (sleep_curr ?s) rs = (hd (rs @ [c]), False, tl (rs @ [c]))"
    using r by (cases rs) (simp_all add: pick_next_def)
  have free: "cell_free ?s (curr_proc ?s) rs" using r by (simp add: cell_free_def)
  note R = PROC_reschedule_lists [of ?s rs, OF _ _ pk]
  note Y = yield_defined [OF r(7), of dev drv ctx]
  have all: "ll_list (LL_enqueue ?q c (lists s)) ?q (rs @ [c])"
    using r by (intro LL_enqueue_list) (simp_all add: cell_free_def)
  show q: "ready_queue ?t = ?q" by (simp add: Y context_switch_sel)
  have cur: "curr_proc ?t = hd (rs @ [c])" "\<not> sleep_curr ?t" "ll_list (lists ?t) ?q (tl (rs @ [c]))"
    using R r(5) free by (simp_all add: Y context_switch_sel)
  have hs: "LL_nhead (lists ?t) = LL_nhead (lists s)" "ll_foot (lists ?t) = ll_foot (lists s)"
    by (simp_all add: Y context_switch_sel resched_heap_def Let_def)
  obtain x xs where xs: "rs @ [c] = x # xs" by (cases "rs @ [c]") auto
  have "LL_nhead (lists s) ?q x \<notin> ll_foot (lists s) ?q xs"
    using ll.rep_fresh [of "LL_enqueue ?q c (lists s)" ?q x xs] all xs by simp
  then have "cell_free ?t (hd (rs @ [c])) (tl (rs @ [c]))"
    by (simp add: cell_free_def q hs xs)
  moreover have "x \<noteq> NULL" "NULL \<notin> set xs"
  proof -
    have "NULL \<notin> set (x # xs)" using r(2,3) by (simp flip: xs)
    then show "x \<noteq> NULL" "NULL \<notin> set xs" by auto
  qed
  moreover have "syscalls_ready ?t" using r(7) by (simp add: Y context_switch_sel syscalls_ready_def)
  moreover have "irq_ok ?t" "irq_semaphore ?t + 1 \<noteq> 0"
    using yield_irq [OF r(7,8,9)] r(8,9) by (simp_all add: irq_ok_def)
  ultimately show "running ?t (hd (rs @ [c])) (tl (rs @ [c]))"
    using cur by (simp add: running_def q xs)
qed

fun yields :: "'d device \<Rightarrow> (irq_handler \<Rightarrow> u32 \<Rightarrow> u32 \<Rightarrow> addr \<Rightarrow> ('d, 'a) psys_scheme \<Rightarrow> ('d, 'a) psys_scheme) \<Rightarrow>
   frame list \<Rightarrow> ('d, 'a) psys_scheme \<Rightarrow> ('d, 'a) psys_scheme" where
  "yields dev drv [] s = s"
| "yields dev drv (ctx # cs) s = yields dev drv cs (snd (yield dev drv ctx s))"

lemma yields_rotate:
  assumes "running s c rs"
  shows "running (yields dev drv cs s) (hd (rotate (length cs) (c # rs))) (tl (rotate (length cs) (c # rs)))"
  using assms
proof (induction cs arbitrary: s c rs)
  case Nil
  then show ?case by simp
next
  case (Cons ctx cs)
  obtain x xs where xs: "rs @ [c] = x # xs" by (cases "rs @ [c]") auto
  have "running (snd (yield dev drv ctx s)) x xs"
    using yield_running(1) [OF Cons.prems, of dev drv ctx] xs by simp
  moreover have "rotate (Suc (length cs)) (c # rs) = rotate (length cs) (x # xs)"
  proof -
    have "rotate (Suc (length cs)) (c # rs) = rotate (length cs) (rotate1 (c # rs))"
      by (simp only: rotate_def funpow_Suc_right o_apply)
    then show ?thesis by (simp only: rotate1.simps xs)
  qed
  ultimately show ?case
    using Cons.IH [of "snd (yield dev drv ctx s)" x xs] by (simp only: yields.simps list.size add_0 add_Suc_right add_0_right)
qed

lemma yields_irq:
  assumes "running s c rs"
  shows "irq_semaphore (yields dev drv cs s) = irq_semaphore s"
  using assms
proof (induction cs arbitrary: s c rs)
  case (Cons ctx cs)
  have "irq_semaphore (snd (yield dev drv ctx s)) = irq_semaphore s"
    using Cons.prems by (auto simp: running_def intro: yield_irq)
  then show ?case
    using Cons.IH [OF yield_running(1) [OF Cons.prems, of dev drv ctx]] by simp
qed simp

section \<open>Waiting and waking up\<close>

lemma unblock_loop_spec:
  assumes "ll_list (lists s) q ws" "ll_list (lists s) (ready_queue s) rs" "NULL \<notin> set ws"
    and "ll_foot (lists s) q ws \<inter> ll_foot (lists s) (ready_queue s) rs = {}"
    and "LL_nhead (lists s) q = LL_nhead (lists s) (ready_queue s)"
  shows "\<exists>h. unblock_loop q s = Some (s\<lparr>lists := h\<rparr>) \<and> ll_list h q [] \<and> ll_list h (ready_queue s) (rs @ ws) \<and>
    ll_foot h q [] \<inter> ll_foot h (ready_queue s) (rs @ ws) = {} \<and> LL_nhead h = LL_nhead (lists s)"
  using assms
proof (induction ws arbitrary: s rs)
  case Nil
  have "proc_queue_dequeue q s = (NULL, s)"
    using Nil.prems(1) by (simp add: proc_queue_dequeue_eq LL_dequeue_empty)
  then have "unblock_loop q s = Some (s\<lparr>lists := lists s\<rparr>)"
    using unblock_loop.simps [of q s] by simp
  with Nil.prems(1,2,4) show ?case by (intro exI [of _ "lists s"]) simp
next
  case (Cons w ws)
  let ?q = "ready_queue s"
  define h where "h = LL_enqueue ?q w (snd (LL_dequeue q (lists s)))"
  have w: "fst (LL_dequeue q (lists s)) = w" using ll.deq_fst Cons.prems(1) by blast
  have T: "ll_list h q ws" "ll_list h ?q (rs @ [w])" "ll_foot h q ws \<inter> ll_foot h ?q (rs @ [w]) = {}"
    "LL_nhead h = LL_nhead (lists s)"
    using ll.transfer [OF Cons.prems(1,2,4,5) refl] by (simp_all add: w h_def)
  have "unblock_loop q s = unblock_loop q (s\<lparr>lists := h\<rparr>)"
    using Cons.prems(3) w unblock_loop.simps [of q s]
    by (simp add: proc_queue_dequeue_eq proc_queue_enqueue_def h_def)
  with Cons.IH [of "s\<lparr>lists := h\<rparr>" "rs @ [w]"] T Cons.prems(3,5) show ?case by auto
qed

text \<open>A wait queue of processes beside the ready queue.\<close>

definition waiting :: "('d, 'a) psys_scheme \<Rightarrow> addr \<Rightarrow> addr list \<Rightarrow> addr list \<Rightarrow> bool" where
  "waiting s q ws rs \<longleftrightarrow> ll_list (lists s) q ws \<and> ll_list (lists s) (ready_queue s) rs \<and>
     ll_foot (lists s) q ws \<inter> ll_foot (lists s) (ready_queue s) rs = {} \<and>
     LL_nhead (lists s) q = LL_nhead (lists s) (ready_queue s)"

lemma PROC_unblock_all_waiting:
  assumes w: "waiting s q ws rs" and nn: "NULL \<notin> set ws" and irq: "irq_ok s" "irq_semaphore s + 1 \<noteq> 0"
  shows "\<exists>h. PROC_unblock_all q s = Some (s\<lparr>lists := h\<rparr>) \<and> ll_list h q [] \<and> ll_list h (ready_queue s) (rs @ ws) \<and>
    waiting (s\<lparr>lists := h\<rparr>) q [] (rs @ ws)"
proof -
  let ?s = "IRQ_disable s"
  obtain h where h: "unblock_loop q ?s = Some (?s\<lparr>lists := h\<rparr>)" "ll_list h q []" "ll_list h (ready_queue s) (rs @ ws)"
      "ll_foot h q [] \<inter> ll_foot h (ready_queue s) (rs @ ws) = {}" "LL_nhead h = LL_nhead (lists s)"
    using unblock_loop_spec [of ?s q ws rs] w nn by (auto simp: waiting_def)
  have "?s\<lparr>lists := h\<rparr> = IRQ_disable (s\<lparr>lists := h\<rparr>)"
    by (simp add: IRQ_disable_def Let_def)
  then have "IRQ_enable (?s\<lparr>lists := h\<rparr>) = s\<lparr>lists := h\<rparr>"
    using irq by (simp add: irq_ok_def)
  with h w show ?thesis by (auto simp: PROC_unblock_all_def waiting_def)
qed

lemma PROC_unblock_head_waiting:
  assumes w: "waiting s q ws rs" and irq: "irq_ok s" "irq_semaphore s + 1 \<noteq> 0"
  shows "\<exists>h. PROC_unblock_head q s = s\<lparr>lists := h\<rparr> \<and> ll_list h q (tl ws) \<and>
    ll_list h (ready_queue s) (rs @ take 1 ws)"
proof (cases ws)
  case Nil
  then have "PROC_unblock_head q s = s\<lparr>lists := lists s\<rparr>"
    using w LL_empty_list [of "lists s" q "[]"] by (simp add: waiting_def PROC_unblock_head_def PROC_queue_empty_def)
  with Nil w show ?thesis by (intro exI [of _ "lists s"]) (simp add: waiting_def)
next
  case (Cons x xs)
  let ?q = "ready_queue s"
  define h where "h = LL_enqueue ?q x (snd (LL_dequeue q (lists s)))"
  have lq: "ll_list (lists s) q (x # xs)" "ll_list (lists s) ?q rs"
    "ll_foot (lists s) q (x # xs) \<inter> ll_foot (lists s) ?q rs = {}" "LL_nhead (lists s) q = LL_nhead (lists s) ?q"
    using w Cons by (auto simp: waiting_def)
  have x: "fst (LL_dequeue q (lists s)) = x" using ll.deq_fst lq(1) by blast
  have "PROC_unblock_head q s = IRQ_enable ((IRQ_disable s)\<lparr>lists := h\<rparr>)"
    using LL_empty_list [OF lq(1)] x
    by (simp add: PROC_unblock_head_def PROC_queue_empty_def proc_queue_dequeue_eq proc_queue_enqueue_def h_def Let_def)
  also have "(IRQ_disable s)\<lparr>lists := h\<rparr> = IRQ_disable (s\<lparr>lists := h\<rparr>)"
    by (simp add: IRQ_disable_def Let_def)
  finally have "PROC_unblock_head q s = s\<lparr>lists := h\<rparr>" using irq by (simp add: irq_ok_def)
  moreover have "ll_list h q xs" "ll_list h ?q (rs @ [x])"
    using ll.transfer [OF lq refl] by (simp_all add: x h_def)
  ultimately show ?thesis using Cons by auto
qed

text \<open>The same with a further list \<open>k\<close> beside the wait queue and the ready queue.\<close>

definition beside :: "('d, 'a) psys_scheme \<Rightarrow> addr \<Rightarrow> addr list \<Rightarrow> addr \<Rightarrow> addr list \<Rightarrow> addr list \<Rightarrow> bool" where
  "beside s k es q ws rs \<longleftrightarrow> waiting s q ws rs \<and> ll_list (lists s) k es \<and>
     ll_foot (lists s) k es \<inter> (ll_foot (lists s) q ws \<union> ll_foot (lists s) (ready_queue s) rs) = {}"

lemma PROC_unblock_head_beside:
  assumes b: "beside s k es q (x # xs) rs" and irq: "irq_ok s" "irq_semaphore s + 1 \<noteq> 0"
  shows "\<exists>h. PROC_unblock_head q s = s\<lparr>lists := h\<rparr> \<and> beside (s\<lparr>lists := h\<rparr>) k es q xs (rs @ [x]) \<and>
    ll_foot h = ll_foot (lists s) \<and> LL_nhead h = LL_nhead (lists s)"
proof -
  let ?q = "ready_queue s"
  define h where "h = LL_enqueue ?q x (snd (LL_dequeue q (lists s)))"
  have lq: "ll_list (lists s) q (x # xs)" "ll_list (lists s) ?q rs" "ll_list (lists s) k es"
    "ll_foot (lists s) q (x # xs) \<inter> ll_foot (lists s) ?q rs = {}" "LL_nhead (lists s) q = LL_nhead (lists s) ?q"
    "ll_foot (lists s) k es \<inter> (ll_foot (lists s) q (x # xs) \<union> ll_foot (lists s) ?q rs) = {}"
    using b by (auto simp: waiting_def beside_def)
  have x: "fst (LL_dequeue q (lists s)) = x" using ll.deq_fst lq(1) by blast
  have "PROC_unblock_head q s = IRQ_enable ((IRQ_disable s)\<lparr>lists := h\<rparr>)"
    using LL_empty_list [OF lq(1)] x
    by (simp add: PROC_unblock_head_def PROC_queue_empty_def proc_queue_dequeue_eq proc_queue_enqueue_def h_def Let_def)
  also have "(IRQ_disable s)\<lparr>lists := h\<rparr> = IRQ_disable (s\<lparr>lists := h\<rparr>)"
    by (simp add: IRQ_disable_def Let_def)
  finally have eq: "PROC_unblock_head q s = s\<lparr>lists := h\<rparr>" using irq by (simp add: irq_ok_def)
  have h: "h = LL_enqueue ?q (fst (LL_dequeue q (lists s))) (snd (LL_dequeue q (lists s)))" by (simp add: h_def x)
  have K: "ll_list h k es" unfolding h by (rule ll.transfer_frame [OF lq(1-5)]) (use lq(6) in auto)
  note T = ll.transfer [OF lq(1,2,4,5) h]
  have "ll_foot h k es \<inter> (ll_foot h q xs \<union> ll_foot h ?q (rs @ [x])) = {}"
    using lq(5,6) by (auto simp: T(5))
  with T K lq(5) have "beside (s\<lparr>lists := h\<rparr>) k es q xs (rs @ [x])" by (simp add: beside_def waiting_def)
  with eq T(4,5) show ?thesis by blast
qed

text \<open>The state in which \<open>PROC_block_on\<close> yields.\<close>

definition block_state :: "addr \<Rightarrow> bool \<Rightarrow> ('d, 'a) psys_scheme \<Rightarrow> ('d, 'a) psys_scheme" where
  "block_state q en s =
     (let s = (proc_queue_enqueue q (curr_proc s) s)\<lparr>sleep_curr := True\<rparr> in if en then IRQ_enable s else s)"

lemma PROC_block_on_eq: "PROC_block_on dev drv q en ctx s = yield dev drv ctx (block_state q en s)"
  by (simp add: PROC_block_on_def block_state_def Let_def)

lemma block_state_sel [simp]:
  "lists (block_state q en s) = LL_enqueue q (curr_proc s) (lists s)" "sleep_curr (block_state q en s)"
  "curr_proc (block_state q en s) = curr_proc s" "ready_queue (block_state q en s) = ready_queue s"
  "main_proc (block_state q en s) = main_proc s" "handlers (block_state q en s) = handlers s"
  by (simp_all add: block_state_def Let_def)

lemma IRQ_enable_cong:
  "irq_semaphore s = irq_semaphore t \<Longrightarrow> int_flag s = int_flag t \<Longrightarrow>
     irq_semaphore (IRQ_enable s) = irq_semaphore (IRQ_enable t) \<and> int_flag (IRQ_enable s) = int_flag (IRQ_enable t)"
  by (simp add: IRQ_enable_def atomic_get_def atomic_sub_def Let_def)

lemma block_state_irq:
  "irq_semaphore (block_state q en s) = irq_semaphore (if en then IRQ_enable s else s)"
  "int_flag (block_state q en s) = int_flag (if en then IRQ_enable s else s)"
  using IRQ_enable_cong [of "(proc_queue_enqueue q (curr_proc s) s)\<lparr>sleep_curr := True\<rparr>" s]
  by (auto simp: block_state_def Let_def)

text \<open>Yielding with the running process asleep on a wait queue.\<close>

lemma yield_sleeping:
  assumes w: "waiting s q ws rs" and sl: "sleep_curr s" and sys: "syscalls_ready s"
  shows "ll_list (lists (snd (yield dev drv ctx s))) q ws"
    "ll_list (lists (snd (yield dev drv ctx s))) (ready_queue s) (tl rs)"
    "curr_proc (snd (yield dev drv ctx s)) = (if rs = [] then main_proc s else hd rs)"
proof -
  let ?s = "s\<lparr>cpu := (cpu s)\<lparr>c_rbx := 0\<rparr>\<rparr>"
  note Y = yield_defined [OF sys, of dev drv ctx]
  have pk: "pick_next (main_proc ?s) (curr_proc ?s) (sleep_curr ?s) rs =
      (if rs = [] then main_proc s else hd rs, rs = [], tl rs)"
    using sl by (cases rs) (simp_all add: pick_next_def)
  have rep: "ll_list (lists ?s) (ready_queue ?s) rs" "ll_list (lists ?s) q ws"
    "ll_foot (lists ?s) (ready_queue ?s) rs \<inter> ll_foot (lists ?s) q ws = {}"
    using w by (auto simp: waiting_def)
  note R = PROC_reschedule_lists [OF rep(1) _ pk] and O = resched_heap_other [OF rep(1,2,3)]
  show "ll_list (lists (snd (yield dev drv ctx s))) q ws"
    "ll_list (lists (snd (yield dev drv ctx s))) (ready_queue s) (tl rs)"
    "curr_proc (snd (yield dev drv ctx s)) = (if rs = [] then main_proc s else hd rs)"
    using R O sl by (simp_all add: Y context_switch_sel)
qed

lemma yield_sleeping_waiting:
  assumes w: "waiting s q ws rs" and sl: "sleep_curr s" and sys: "syscalls_ready s"
  shows "waiting (snd (yield dev drv ctx s)) q ws (tl rs)" "ready_queue (snd (yield dev drv ctx s)) = ready_queue s"
proof -
  let ?s = "s\<lparr>cpu := (cpu s)\<lparr>c_rbx := 0\<rparr>\<rparr>" and ?t = "snd (yield dev drv ctx s)"
  note Y = yield_defined [OF sys, of dev drv ctx] and S = yield_sleeping [OF assms, of dev drv ctx]
  show rq: "ready_queue ?t = ready_queue s" by (simp add: Y context_switch_sel)
  have rep: "ll_list (lists ?s) (ready_queue ?s) rs" "ll_list (lists ?s) q ws"
    "ll_foot (lists ?s) (ready_queue ?s) rs \<inter> ll_foot (lists ?s) q ws = {}"
    using w by (auto simp: waiting_def)
  have st: "ll_foot (lists ?t) = ll_foot (lists s)" "LL_nhead (lists ?t) = LL_nhead (lists s)"
    using resched_heap_other(2,3) [OF rep] sl by (simp_all add: Y context_switch_sel)
  have "ll_foot (lists s) (ready_queue s) (tl rs) \<subseteq> ll_foot (lists s) (ready_queue s) rs" by (cases rs) auto
  then show "waiting ?t q ws (tl rs)" using w S(1,2) unfolding waiting_def rq st by blast
qed

text \<open>A yield changes nothing of the components above the processes.\<close>

lemma yield_more:
  assumes "syscalls_ready s"
  shows "psys.more (snd (yield dev drv ctx s)) = psys.more s" "devst (snd (yield dev drv ctx s)) = devst s"
proof -
  have more: "psys.more (IRQ_disable t) = psys.more t" "psys.more (IRQ_enable t) = psys.more t"
    "devst (IRQ_disable t) = devst t" "devst (IRQ_enable t) = devst t" for t :: "('a, 'b) psys_scheme"
    by (simp_all add: IRQ_disable_def IRQ_enable_def Let_def)
  have "psys.more (PROC_reschedule t) = psys.more t" "devst (PROC_reschedule t) = devst t" for t :: "('a, 'b) psys_scheme"
    by (simp_all add: PROC_reschedule_eq resched_state_def proc_queue_dequeue_eq proc_queue_enqueue_def more Let_def)
  then show "psys.more (snd (yield dev drv ctx s)) = psys.more s" "devst (snd (yield dev drv ctx s)) = devst s"
    by (simp_all add: yield_defined [OF assms] context_switch_def PROC_load_context_def PROC_save_context_def more Let_def)
qed

lemma PROC_block_on_waiting:
  assumes run: "running s c rs" and w: "waiting s q ws rs"
    and free: "LL_nhead (lists s) q c \<notin> ll_foot (lists s) q ws \<union> ll_foot (lists s) (ready_queue s) rs"
    and res: "t = snd (PROC_block_on dev drv q en ctx s)"
  shows "waiting t q (ws @ [c]) (tl rs)" "ready_queue t = ready_queue s" "psys.more t = psys.more s" "devst t = devst s"
    "irq_ok t" "irq_semaphore t + 1 \<noteq> 0" "irq_semaphore t = irq_semaphore (if en then IRQ_enable s else s)"
    "curr_proc t = (if rs = [] then main_proc s else hd rs)"
proof -
  let ?b = "block_state q en s"
  have t: "t = snd (yield dev drv ctx ?b)" by (simp add: res PROC_block_on_eq)
  have r: "curr_proc s = c" "syscalls_ready s" "irq_ok s" "irq_semaphore s + 1 \<noteq> 0"
    using run by (auto simp: running_def)
  have lists: "waiting ?b q (ws @ [c]) rs"
    using w free ll.enq_rep [of "lists s" q ws c] ll.enq_frame [of "lists s" q ws "ready_queue s" rs c]
      sentinel_in_foot [of q "lists s" ws]
    by (auto simp: waiting_def r(1) simp del: sentinel_in_foot)
  have sys: "syscalls_ready ?b" using r(2) by (simp add: syscalls_ready_def)
  have "irq_ok (if en then IRQ_enable s else s)" using r(3) by simp
  then have ok: "irq_ok ?b" by (simp add: irq_ok_def block_state_irq)
  have "irq_semaphore (if en then IRQ_enable s else s) + 1 \<noteq> 0"
    using r(4) by (auto simp: IRQ_enable_def Let_def atomic_get_def atomic_sub_def)
  then have nz: "irq_semaphore ?b + 1 \<noteq> 0" by (simp add: block_state_irq)
  note I = yield_irq [OF sys ok nz, of dev drv ctx, folded t]
  show "waiting t q (ws @ [c]) (tl rs)" "ready_queue t = ready_queue s"
    using yield_sleeping_waiting [OF lists block_state_sel(2) sys, of dev drv ctx] by (simp_all add: t)
  show "psys.more t = psys.more s" "devst t = devst s"
    using yield_more [OF sys, of dev drv ctx]
    by (simp_all add: t block_state_def proc_queue_enqueue_def IRQ_enable_def Let_def)
  show "irq_ok t" "irq_semaphore t + 1 \<noteq> 0" using ok nz by (simp_all add: irq_ok_def I)
  show "irq_semaphore t = irq_semaphore (if en then IRQ_enable s else s)" by (simp add: I(1) block_state_irq)
  show "curr_proc t = (if rs = [] then main_proc s else hd rs)"
    using yield_sleeping(3) [OF lists block_state_sel(2) sys, of dev drv ctx] by (simp add: t)
qed

lemma PROC_block_on_beside:
  assumes run: "running s c rs" and b: "beside s k es q ws rs"
    and free: "LL_nhead (lists s) q c \<notin> ll_foot (lists s) q ws \<union> ll_foot (lists s) (ready_queue s) rs \<union> ll_foot (lists s) k es"
    and res: "t = snd (PROC_block_on dev drv q en ctx s)"
  shows "beside t k es q (ws @ [c]) (tl rs)" "ll_foot (lists t) = ll_foot (lists s)" "LL_nhead (lists t) = LL_nhead (lists s)"
proof -
  let ?b = "(block_state q en s)\<lparr>cpu := (cpu (block_state q en s))\<lparr>c_rbx := 0\<rparr>\<rparr>"
  have w: "waiting s q ws rs" and lk: "ll_list (lists s) k es"
    and dk: "ll_foot (lists s) k es \<inter> (ll_foot (lists s) q ws \<union> ll_foot (lists s) (ready_queue s) rs) = {}"
    using b by (simp_all add: beside_def)
  have f2: "LL_nhead (lists s) q c \<notin> ll_foot (lists s) q ws \<union> ll_foot (lists s) (ready_queue s) rs" using free by blast
  note W = PROC_block_on_waiting [OF run w f2 res]
  have c: "curr_proc s = c" "syscalls_ready (block_state q en s)" using run by (auto simp: running_def syscalls_ready_def)
  have lt: "lists t = resched_heap ?b"
    by (simp add: res PROC_block_on_eq yield_defined [OF c(2)] context_switch_sel)
  have lq: "ll_list (lists s) q ws" "ll_list (lists s) (ready_queue s) rs"
    "ll_foot (lists s) q ws \<inter> ll_foot (lists s) (ready_queue s) rs = {}" using w by (auto simp: waiting_def)
  have e1: "ll_list (LL_enqueue q c (lists s)) k es" using ll.enq_frame [OF lq(1) lk, of c] dk free by blast
  have e2: "ll_list (LL_enqueue q c (lists s)) (ready_queue s) rs" using ll.enq_frame [OF lq(1,2,3), of c] f2 by blast
  have R: "ll_list (resched_heap ?b) k es" "ll_foot (resched_heap ?b) = ll_foot (lists ?b)" "LL_nhead (resched_heap ?b) = LL_nhead (lists ?b)"
    using resched_heap_other [of ?b rs k es] e1 e2 dk by (simp_all add: c(1) Int_commute Int_Un_distrib)
  show st: "ll_foot (lists t) = ll_foot (lists s)" "LL_nhead (lists t) = LL_nhead (lists s)" using R(2,3) by (simp_all add: lt c(1))
  have "ll_foot (lists s) (ready_queue s) (tl rs) \<subseteq> ll_foot (lists s) (ready_queue s) rs" by (cases rs) auto
  moreover have "ll_foot (lists s) q (ws @ [c]) = insert (LL_nhead (lists s) q c) (ll_foot (lists s) q ws)" by (rule ll.foot_snoc)
  ultimately show "beside t k es q (ws @ [c]) (tl rs)"
    using W(1,2) R(1) dk free unfolding beside_def st by (auto simp: lt)
qed

section \<open>Saved contexts\<close>

text \<open>What a frame becomes when a context is loaded into it: the selectors of the code and stack segments
  are combined with those the frame held.\<close>

definition merged :: "frame \<Rightarrow> frame \<Rightarrow> frame" where
  "merged old fr = fr[11 := old ! 11 OR (fr ! 11 AND 0xFFFF), 14 := old ! 14 OR (fr ! 14 AND 0xFFFF)]"

lemma load_saved:
  assumes "length ctx = 15" "length fr = 15"
    and "proc_of t p = proc_of (PROC_save_context p ctx s) p"
  shows "fst (PROC_load_context p fr t) = merged fr ctx" "cpu (snd (PROC_load_context p fr t)) = cpu s"
proof -
  show "fst (PROC_load_context p fr t) = merged fr ctx"
    using assms
    by (auto simp: PROC_load_context_def PROC_save_context_def merged_def Let_def eval_nat_numeral length_Suc_conv)
  show "cpu (snd (PROC_load_context p fr t)) = cpu s"
    using assms(3) by (simp add: PROC_load_context_def PROC_save_context_def Let_def)
qed

section \<open>An example\<close>

text \<open>Process \<open>0x1000\<close> (the main process) is running, \<open>0x2000\<close> and \<open>0x3000\<close> are ready,
  \<open>0x4000\<close> and \<open>0x5000\<close> wait on the queue at \<open>0x700\<close>.\<close>

definition sched_lists :: lheap where
  "sched_lists = \<lparr>
     nxt = (\<lambda>_. 0)(0x900 := 0x2000, 0x2000 := 0x3000, 0x3000 := 0x900, 0x700 := 0x4000, 0x4000 := 0x5000, 0x5000 := 0x700),
     prv = (\<lambda>_. 0)(0x900 := 0x3000, 0x2000 := 0x900, 0x3000 := 0x2000, 0x700 := 0x5000, 0x4000 := 0x700, 0x5000 := 0x4000),
     hoff = (\<lambda>_. 0)\<rparr>"

definition null_device :: "unit device" where
  "null_device = \<lparr>dev_in = (\<lambda>_ _ d. (0, d)), dev_out = (\<lambda>_ _ _ d. d)\<rparr>"

definition sched_example :: "unit psys" where
  "sched_example =
     (kheap.extend heap_example (psys.fields sched_lists (\<lambda>_. zero_Process) 0x1000 0x1000 0x1000 False 0x900 0x910
        \<lparr>c_ds = 1, c_es = 2, c_fs = 3, c_gs = 4, c_r12 = 5, c_r13 = 6, c_r14 = 7, c_r15 = 8, c_rbx = 9\<rparr> 0x100))
     \<lparr>int_flag := True,
      handlers := (replicate 256 \<lparr>handler = None, arg = NULL\<rparr>)[SYSCALL_TRAP_NUMBER :=
        \<lparr>handler = Some IRQ_syscall_handler, arg = NULL\<rparr>]\<rparr>"

lemma sched_example_sel [simp]:
  "lists sched_example = sched_lists" "curr_proc sched_example = 0x1000" "next_proc sched_example = 0x1000"
  "main_proc sched_example = 0x1000" "sleep_curr sched_example = False" "ready_queue sched_example = 0x900"
  "irq_semaphore sched_example = 0" "int_flag sched_example = True"
  by (simp_all add: sched_example_def kheap.extend_def psys.fields_def heap_example_def mm.extend_def
      kheap.fields_def vm_example_def mm_example_def)

lemma sched_example_ready: "syscalls_ready sched_example" "irq_ok sched_example"
  by (simp_all add: syscalls_ready_def irq_ok_def SYSCALL_TRAP_NUMBER_def)
    (simp_all add: sched_example_def SYSCALL_TRAP_NUMBER_def)

lemma sched_example_lists:
  "running sched_example 0x1000 [0x2000, 0x3000]" "waiting sched_example 0x700 [0x4000, 0x5000] [0x2000, 0x3000]"
  "LL_nhead sched_lists 0x700 0x1000 \<notin> ll_foot sched_lists 0x700 [0x4000, 0x5000] \<union> ll_foot sched_lists 0x900 [0x2000, 0x3000]"
  using sched_example_ready
  by (simp_all add: running_def waiting_def cell_free_def ll_list_def LL_nhead_def fun_eq_iff sched_lists_def)

section \<open>Properties\<close>

text \<open>C8: scheduling is round robin, so every ready process runs: after \<open>n\<close> yields of whichever process is
  running, the running process is the one \<open>n\<close> places behind in the queue, whatever the frames of the traps are; a process at
  position \<open>i\<close> runs after \<open>i\<close> yields, and after as many yields as there are processes the first one
  runs again with the queue in its original order. Each yield leaves the interrupt counter as it was.\<close>

theorem round_robin:
  assumes "running s c rs"
  shows "(\<forall>cs. curr_proc (yields dev drv cs s) = (c # rs) ! (length cs mod length (c # rs)) \<and>
      irq_semaphore (yields dev drv cs s) = irq_semaphore s) \<and>
    (\<forall>p\<in>set (c # rs). \<exists>n\<le>length rs. \<forall>cs. length cs = n \<longrightarrow> curr_proc (yields dev drv cs s) = p) \<and>
    (\<forall>cs. length cs = Suc (length rs) \<longrightarrow> running (yields dev drv cs s) c rs)"
proof -
  have cur: "curr_proc (yields dev drv cs s) = (c # rs) ! (length cs mod length (c # rs))" for cs
  proof -
    have "curr_proc (yields dev drv cs s) = hd (rotate (length cs) (c # rs))"
      using yields_rotate [OF assms, of dev drv cs] by (simp add: running_def)
    also have "\<dots> = (c # rs) ! (length cs mod length (c # rs))" by (rule hd_rotate_conv_nth) simp
    finally show ?thesis .
  qed
  moreover have "\<exists>n\<le>length rs. \<forall>cs. length cs = n \<longrightarrow> curr_proc (yields dev drv cs s) = p" if p: "p \<in> set (c # rs)" for p
  proof -
    obtain i where "i < length (c # rs)" "p = (c # rs) ! i" using p by (metis in_set_conv_nth)
    then show ?thesis using cur by (intro exI [of _ i]) (auto simp: less_Suc_eq_le)
  qed
  moreover have "running (yields dev drv cs s) c rs" if n: "length cs = Suc (length rs)" for cs
    using yields_rotate [OF assms, of dev drv cs] rotate_length01 n
    by (metis (no_types) length_Cons list.sel(1) list.sel(3) mod_self rotate_conv_mod rotate0 id_apply)
  moreover have "irq_semaphore (yields dev drv cs s) = irq_semaphore s" for cs
    using yields_irq [OF assms] .
  ultimately show ?thesis by blast
qed

theorem round_robin_witness:
  "curr_proc (yields null_device (\<lambda>_ _ _ _ s. s) [[], [], [], []] sched_example) = 0x2000"
proof -
  have "curr_proc (yields null_device (\<lambda>_ _ _ _ s. s) [[], [], [], []] sched_example) =
      [0x1000, 0x2000, 0x3000] ! (length [[], [], [], [] :: frame] mod length [0x1000, 0x2000, 0x3000 :: addr])"
    by (rule round_robin [OF sched_example_lists(1), THEN conjunct1, rule_format, THEN conjunct1])
  also have "\<dots> = 0x2000" by code_simp
  finally show ?thesis .
qed

text \<open>C28: a process that blocks goes to the end of the wait queue and off the processor: the head of
  the ready queue runs next (the main process when nobody is ready), the ready queue keeps its order and does
  not contain the blocked process, and the interrupt counter is the one \<open>PROC_block_on\<close> was
  called with, less one if it was asked to enable interrupts.\<close>

theorem PROC_block_on_correct:
  assumes "running s c rs" "waiting s q ws rs"
    and "LL_nhead (lists s) q c \<notin> ll_foot (lists s) q ws \<union> ll_foot (lists s) (ready_queue s) rs"
    and "PROC_block_on dev drv q en ctx s = (ctx', s')"
  shows "ll_list (lists s') q (ws @ [c]) \<and> ll_list (lists s') (ready_queue s) (tl rs) \<and> c \<notin> set (tl rs) \<and>
    curr_proc s' = (if rs = [] then main_proc s else hd rs) \<and>
    irq_semaphore s' = (if en \<and> irq_semaphore s \<noteq> 0 then irq_semaphore s - 1 else irq_semaphore s)"
proof -
  have s': "s' = snd (PROC_block_on dev drv q en ctx s)" using assms(4) by simp
  note W = PROC_block_on_waiting [OF assms(1-3) s']
  have "c \<notin> set rs" using assms(1) by (auto simp: running_def cell_free_def ll_foot_def)
  then have "c \<notin> set (tl rs)" using list.set_sel(2) [of rs c] by (cases rs) auto
  moreover have "irq_semaphore s' = (if en \<and> irq_semaphore s \<noteq> 0 then irq_semaphore s - 1 else irq_semaphore s)"
    unfolding W(7) by (simp add: IRQ_enable_def Let_def atomic_get_def atomic_sub_def)
  ultimately show ?thesis using W(1,2,8) by (simp add: waiting_def)
qed

theorem PROC_block_on_correct_witness:
  "LL_for_each 0x700 (lists (snd (PROC_block_on null_device (\<lambda>_ _ _ _ s. s) 0x700 True [] sched_example))) =
     Some [0x4000, 0x5000, 0x1000]"
proof -
  obtain ctx' s' where r: "PROC_block_on null_device (\<lambda>_ _ _ _ s. s) 0x700 True [] sched_example = (ctx', s')"
    by fastforce
  have "ll_list (lists s') 0x700 ([0x4000, 0x5000] @ [0x1000])"
    using PROC_block_on_correct [OF sched_example_lists(1,2) _ r] sched_example_lists(3) by simp
  then show ?thesis using LL_for_each_list r by fastforce
qed

text \<open>C27: waking up ends, and wakes all waiting processes in the order in which they blocked: whatever the
  length of the wait queue, \<open>PROC_unblock_all\<close> returns, all waiting processes stand behind the
  ready ones in their order, the wait queue is empty and everything else, the interrupt state
  included, is as before; \<open>PROC_unblock_head\<close> moves only the first.\<close>

theorem unblock_wakes_in_order:
  assumes "waiting s q ws rs" "NULL \<notin> set ws" "irq_ok s" "irq_semaphore s + 1 \<noteq> 0"
  shows "(\<exists>h. PROC_unblock_all q s = Some (s\<lparr>lists := h\<rparr>) \<and> LL_for_each q h = Some [] \<and>
      LL_for_each (ready_queue s) h = Some (rs @ ws)) \<and>
    (\<exists>h. PROC_unblock_head q s = s\<lparr>lists := h\<rparr> \<and> LL_for_each q h = Some (tl ws) \<and>
      LL_for_each (ready_queue s) h = Some (rs @ take 1 ws))"
proof
  show "\<exists>h. PROC_unblock_all q s = Some (s\<lparr>lists := h\<rparr>) \<and> LL_for_each q h = Some [] \<and>
      LL_for_each (ready_queue s) h = Some (rs @ ws)"
    using PROC_unblock_all_waiting [OF assms] LL_for_each_list by blast
  show "\<exists>h. PROC_unblock_head q s = s\<lparr>lists := h\<rparr> \<and> LL_for_each q h = Some (tl ws) \<and>
      LL_for_each (ready_queue s) h = Some (rs @ take 1 ws)"
    using PROC_unblock_head_waiting [OF assms(1,3,4)] LL_for_each_list by blast
qed

theorem unblock_wakes_in_order_witness:
  "\<exists>h. PROC_unblock_all 0x700 sched_example = Some (sched_example\<lparr>lists := h\<rparr>) \<and>
     LL_for_each 0x900 h = Some [0x2000, 0x3000, 0x4000, 0x5000]"
  using unblock_wakes_in_order [OF sched_example_lists(2) _ sched_example_ready(2)] by auto

text \<open>C26: a process that is switched out and later switched back in continues with the context it had: if
  process \<open>p\<close> is interrupted with frame \<open>ctx\<close> and another process runs next, then whatever
  happens in between to everything but the saved context of \<open>p\<close>, the switch back to \<open>p\<close>
  restores the processor's registers, and the frame up to the code and stack segment
  selectors, into which the selectors of the process switched out are OR-ed; it is exactly the
  frame when both use the same selectors.\<close>

theorem context_switch_roundtrip:
  assumes "curr_proc s = p" "p \<noteq> NULL" "next_proc s \<noteq> p" "length ctx = 15"
    and "context_switch ctx s = (ctx1, s1)"
    and "proc_of t p = proc_of s1 p" "curr_proc t \<noteq> p" "next_proc t = p" "length fr = 15"
    and "context_switch fr t = (fr', t')"
  shows "curr_proc t' = p \<and> cpu t' = cpu s \<and> fr' = merged fr ctx \<and>
    (fr ! 11 = ctx ! 11 AND 0xFFFF \<and> fr ! 14 = ctx ! 14 AND 0xFFFF \<and> ctx ! 11 = ctx ! 11 AND 0xFFFF \<and>
       ctx ! 14 = ctx ! 14 AND 0xFFFF \<longrightarrow> fr' = ctx)"
proof -
  have saved: "proc_of t p = proc_of (PROC_save_context p ctx s) p"
    using assms(1-3,5,6) by (auto simp: context_switch_def PROC_load_context_def Let_def)
  define t1 where "t1 = (if curr_proc t \<noteq> NULL then PROC_save_context (curr_proc t) fr t else t)"
  have t1: "proc_of t1 p = proc_of (PROC_save_context p ctx s) p" "next_proc t1 = p"
    using saved assms(7,8) by (auto simp: t1_def PROC_save_context_def)
  have sw: "fr' = fst (PROC_load_context p fr t1)" "cpu t' = cpu (snd (PROC_load_context p fr t1))" "curr_proc t' = p"
    using assms(7,8,10) t1 by (auto simp: context_switch_def t1_def [symmetric] Let_def PROC_load_context_def)
  note L = load_saved [OF assms(4,9) t1(1)]
  have "merged fr ctx = ctx" if "fr ! 11 = ctx ! 11 AND 0xFFFF \<and> fr ! 14 = ctx ! 14 AND 0xFFFF \<and>
      ctx ! 11 = ctx ! 11 AND 0xFFFF \<and> ctx ! 14 = ctx ! 14 AND 0xFFFF"
    using that unfolding merged_def by (metis list_update_id or.idem)
  with sw L show ?thesis by simp
qed

theorem context_switch_roundtrip_witness:
  "let s1 = snd (context_switch (replicate 15 7) (sched_example\<lparr>next_proc := 0x2000\<rparr>))
   in fst (context_switch (replicate 15 7) (s1\<lparr>next_proc := 0x1000\<rparr>)) = replicate 15 7"
proof -
  let ?s = "sched_example\<lparr>next_proc := 0x2000\<rparr>" and ?c = "replicate 15 (7 :: u64)"
  obtain c1 s1 where 1: "context_switch ?c ?s = (c1, s1)" by fastforce
  obtain c2 s2 where 2: "context_switch ?c (s1\<lparr>next_proc := 0x1000\<rparr>) = (c2, s2)" by fastforce
  have "curr_proc s1 = 0x2000" using context_switch_sel(1) [of ?c ?s] 1 by simp
  then have "c2 = ?c" using context_switch_roundtrip [OF _ _ _ _ 1 _ _ _ _ 2, of "0x1000"] by auto
  with 1 2 show ?thesis by (simp add: Let_def)
qed

end
