(* ===== verification/Fs.thy ===== *)
theory Fs
  imports Scheduler String_Ops
begin

text \<open>
  Files and block devices: \<^verbatim>\<open>src/src/fs.c\<close> and \<^verbatim>\<open>src/src/fs.h\<close>.

  The structures of \<^verbatim>\<open>fs.h\<close> are kept by their address, with their list headers in the heap of
  headers: \<open>inode_list\<close> at offset 32 of an \<open>INode\<close>, \<open>cdev_list\<close> at 16 of a \<open>CharDev\<close>,
  \<open>bdev_list\<close> at 40 of a \<open>BlockDev\<close>. Names are addresses of strings in the byte memory \<open>bytes\<close>, which
  also holds the sectors that are read. The functions a driver supplies (\<open>struct FileOps\<close>, and
  \<open>read_block\<close> of the physical device) are arguments of the operations that call them.
\<close>

section \<open>State\<close>

definition FILE_TYPE_CHAR_DEVICE :: u32 where "FILE_TYPE_CHAR_DEVICE = of_char CHR ''c''"
definition FS_TYPE_FAT32 :: u8 where "FS_TYPE_FAT32 = 0x0C"

text \<open>What a driver supplies. The result of \<open>read\<close> is left open, since reading may block.\<close>

record ('s, 'r) FileOps =
  fo_open :: "addr \<Rightarrow> addr \<Rightarrow> 's \<Rightarrow> (int \<times> 's) option"
  fo_close :: "addr \<Rightarrow> 's \<Rightarrow> (int \<times> 's) option"
  fo_read :: "addr \<Rightarrow> addr \<Rightarrow> u64 \<Rightarrow> 's \<Rightarrow> 'r"

record CharDev =
  cd_fops :: addr
  cd_inode :: addr

datatype BlockDevType = MASS_STORAGE | PARTITION

text \<open>The functions that \<open>read_block\<close> of a \<open>BlockDev\<close> may point to.\<close>

datatype read_fn = Part_read_block | Ata_read_block

record BlockDev =
  read_block_fn :: read_fn
  blk_size :: u64
  total_len :: u64
  bd_name :: addr
  bd_type :: BlockDevType
  fs_type :: u8

record INode =
  in_fops :: addr
  in_type :: u32
  in_cdev :: addr
  in_name :: addr
  in_private :: addr

record OFile =
  of_inode :: addr
  of_fops :: addr
  private_data :: addr

text \<open>The two members that a \<open>PartBlockDev\<close> has beyond its \<open>dev\<close>.\<close>

record PartBlockDev =
  phys_dev :: addr
  sect_start :: u64

definition sizeof_INode :: u64 where "sizeof_INode = 56"
definition sizeof_PartBlockDev :: u64 where "sizeof_PartBlockDev = 72"

record 'd files = "'d psys" +
  bytes :: bmem
  cdev_of :: "addr \<Rightarrow> CharDev"
  bdev_of :: "addr \<Rightarrow> BlockDev"
  part_of :: "addr \<Rightarrow> PartBlockDev"
  inode_of :: "addr \<Rightarrow> INode"
  ofile_of :: "addr \<Rightarrow> OFile"
  f_inodes :: addr
  f_blocks :: addr
  f_chars :: addr

text \<open>The static initialisers: the third list is initialised with the address of the second.\<close>

definition Files_init :: "addr \<Rightarrow> addr \<Rightarrow> addr \<Rightarrow> lheap \<Rightarrow> lheap" where
  "Files_init inodes blocks chars h =
     h\<lparr>nxt := (nxt h)(inodes := inodes, blocks := blocks, chars := blocks),
       prv := (prv h)(inodes := inodes, blocks := blocks, chars := blocks),
       hoff := (hoff h)(inodes := 32, blocks := 40, chars := 16)\<rparr>"

section \<open>Block devices\<close>

text \<open>\<open>rd\<close> is \<open>read_block\<close> of a physical device: device, sector, destination. The recursion follows the
  pointers to the underlying devices; \<open>None\<close> stands for a cycle of them.\<close>

partial_function (option) read_block ::
  "(addr \<Rightarrow> u64 \<Rightarrow> addr \<Rightarrow> ('d, 'a) files_scheme \<Rightarrow> (int \<times> ('d, 'a) files_scheme) option) \<Rightarrow>
   addr \<Rightarrow> u64 \<Rightarrow> addr \<Rightarrow> ('d, 'a) files_scheme \<Rightarrow> (int \<times> ('d, 'a) files_scheme) option" where
  "read_block rd d blk dst s =
     (case read_block_fn (bdev_of s d) of
        Ata_read_block \<Rightarrow> rd d blk dst s
      | Part_read_block \<Rightarrow> read_block rd (phys_dev (part_of s d)) (blk + sect_start (part_of s d)) dst s)"

definition part_read_block ::
  "(addr \<Rightarrow> u64 \<Rightarrow> addr \<Rightarrow> ('d, 'a) files_scheme \<Rightarrow> (int \<times> ('d, 'a) files_scheme) option) \<Rightarrow>
   addr \<Rightarrow> u64 \<Rightarrow> addr \<Rightarrow> ('d, 'a) files_scheme \<Rightarrow> (int \<times> ('d, 'a) files_scheme) option" where
  "part_read_block rd d blk dst s =
     read_block rd (phys_dev (part_of s d)) (blk + sect_start (part_of s d)) dst s"

definition BLK_register :: "addr \<Rightarrow> ('d, 'a) files_scheme \<Rightarrow> int \<times> ('d, 'a) files_scheme" where
  "BLK_register bdev s = (0, s\<lparr>lists := LL_enqueue (f_blocks s) bdev (lists s)\<rparr>)"

text \<open>The search of both \<open>LL_for_each\<close> loops: the first element whose name compares equal.\<close>

fun find_name :: "bmem \<Rightarrow> addr \<Rightarrow> (addr \<Rightarrow> addr) \<Rightarrow> addr list \<Rightarrow> addr option option" where
  "find_name m name nm [] = Some None"
| "find_name m name nm (c # cs) =
     Option.bind (strcmp m name (nm c)) (\<lambda>r. if r = 0 then Some (Some c) else find_name m name nm cs)"

definition BLK_open :: "addr \<Rightarrow> ('d, 'a) files_scheme \<Rightarrow> (addr \<times> ('d, 'a) files_scheme) option" where
  "BLK_open name s =
     Option.bind (LL_for_each (f_blocks s) (lists s)) (\<lambda>ds.
       Option.bind (find_name (bytes s) name (\<lambda>d. bd_name (bdev_of s d)) ds) (\<lambda>r.
         case r of Some d \<Rightarrow> Some (d, s)
         | None \<Rightarrow> Some (NULL, klog KLOG_LEVEL_DEBUG ''failed to open block device %s'' [name] s)))"

section \<open>Partitions\<close>

text \<open>The members of a master boot record at an address.\<close>

definition mbr_boot_sig :: "bmem \<Rightarrow> addr \<Rightarrow> u16" where
  "mbr_boot_sig m mbr = load16 (mbr + 510) m"

definition part_record :: "addr \<Rightarrow> nat \<Rightarrow> addr" where
  "part_record mbr i = mbr + 446 + 16 * of_nat i"

definition partition_type :: "bmem \<Rightarrow> addr \<Rightarrow> nat \<Rightarrow> u8" where
  "partition_type m mbr i = m (part_record mbr i + 4)"

definition start_lba :: "bmem \<Rightarrow> addr \<Rightarrow> nat \<Rightarrow> u32" where
  "start_lba m mbr i = load32 (part_record mbr i + 8) m"

definition num_sectors :: "bmem \<Rightarrow> addr \<Rightarrow> nat \<Rightarrow> u32" where
  "num_sectors m mbr i = load32 (part_record mbr i + 12) m"

text \<open>The members of a new partition that the table and the disk give.\<close>

definition fill_partition :: "addr \<Rightarrow> addr \<Rightarrow> nat \<Rightarrow> addr \<Rightarrow> ('d, 'a) files_scheme \<Rightarrow> ('d, 'a) files_scheme" where
  "fill_partition dev mbr i new s =
     (let s = s\<lparr>part_of := (part_of s)(new := \<lparr>phys_dev = dev, sect_start = ucast (start_lba (bytes s) mbr i)\<rparr>)\<rparr>
      in s\<lparr>bdev_of := (bdev_of s)(new := (bdev_of s new)
            \<lparr>blk_size := blk_size (bdev_of s dev),
             total_len := ucast (num_sectors (bytes s) mbr i) * blk_size (bdev_of s dev),
             bd_type := PARTITION, fs_type := partition_type (bytes s) mbr i,
             read_block_fn := Part_read_block\<rparr>)\<rparr>)"

text \<open>The name is built in the block at \<open>nm\<close>, and the partition is registered.\<close>

definition name_partition :: "addr \<Rightarrow> nat \<Rightarrow> addr \<Rightarrow> addr \<Rightarrow> ('d, 'a) files_scheme \<Rightarrow> ('d, 'a) files_scheme option" where
  "name_partition dev i new nm s =
     Option.bind (strlen (bytes s) (bd_name (bdev_of s dev))) (\<lambda>len.
       let name = (scast (ucast len :: u32) :: u64)
       in Option.bind (strcpy nm (bd_name (bdev_of s dev)) (bytes s)) (\<lambda>(_, m).
         let s = s\<lparr>bytes := m(nm + name := of_char CHR ''_'', nm + name + 1 := of_char CHR ''1'' + of_nat i,
                          nm + name + 2 := 0)\<rparr>;
             s = klog KLOG_LEVEL_INFO ''partition %s with fs type 0x%X at sector 0x%lX with size %ld detected''
                   [nm, ucast (fs_type (bdev_of s new)), sect_start (part_of s new), total_len (bdev_of s new)] s
         in Some (snd (BLK_register new s))))"

text \<open>The body of the loop for an entry that is in use; \<open>Inl\<close> is the return with an error.\<close>

definition add_partition ::
  "addr \<Rightarrow> addr \<Rightarrow> nat \<Rightarrow> ('d, 'a) files_scheme \<Rightarrow> (('d, 'a) files_scheme + ('d, 'a) files_scheme) option" where
  "add_partition dev mbr i s =
     (let (new, s) = kmalloc sizeof_PartBlockDev s
      in if new = NULL then Some (Inl s)
         else
           let s = fill_partition dev mbr i new s;
               (nm, s) = kmalloc 20 s;
               s = s\<lparr>bdev_of := (bdev_of s)(new := (bdev_of s new)\<lparr>bd_name := nm\<rparr>)\<rparr>
           in if nm = NULL then map_option Inl (kfree new s)
              else map_option Inr (name_partition dev i new nm s))"

fun mbr_loop :: "addr \<Rightarrow> addr \<Rightarrow> nat list \<Rightarrow> ('d, 'a) files_scheme \<Rightarrow> (int \<times> ('d, 'a) files_scheme) option" where
  "mbr_loop dev mbr [] s = Some (0, s)"
| "mbr_loop dev mbr (i # is) s =
     (if start_lba (bytes s) mbr i = 0 then mbr_loop dev mbr is s
      else case add_partition dev mbr i s of
        None \<Rightarrow> None
      | Some (Inl s) \<Rightarrow> Some (- 1, s)
      | Some (Inr s) \<Rightarrow> mbr_loop dev mbr is s)"

definition FS_process_mbr :: "addr \<Rightarrow> addr \<Rightarrow> ('d, 'a) files_scheme \<Rightarrow> (int \<times> ('d, 'a) files_scheme) option" where
  "FS_process_mbr dev mbr s =
     (if mbr_boot_sig (bytes s) mbr \<noteq> 0xaa55
      then Some (- 1, klog KLOG_LEVEL_WARN ''%s device does not have valid MBR signature'' [bd_name (bdev_of s dev)] s)
      else mbr_loop dev mbr [0..<4] s)"

section \<open>Character devices and files\<close>

text \<open>\<open>memset\<close> clears the structure, its list header included.\<close>

definition FS_cdev_init :: "addr \<Rightarrow> addr \<Rightarrow> ('d, 'a) files_scheme \<Rightarrow> ('d, 'a) files_scheme" where
  "FS_cdev_init cdev fops s =
     s\<lparr>cdev_of := (cdev_of s)(cdev := \<lparr>cd_fops = fops, cd_inode = NULL\<rparr>),
       lists := (lists s)\<lparr>nxt := (nxt (lists s))(cdev + 16 := NULL), prv := (prv (lists s))(cdev + 16 := NULL)\<rparr>\<rparr>"

definition FS_register_cdev :: "addr \<Rightarrow> addr \<Rightarrow> ('d, 'a) files_scheme \<Rightarrow> int \<times> ('d, 'a) files_scheme" where
  "FS_register_cdev cdev name s =
     (let (new, s) = kmalloc sizeof_INode s
      in if new = NULL then (- 1, s)
         else
           let s = s\<lparr>inode_of := (inode_of s)(new := (inode_of s new)
                      \<lparr>in_fops := cd_fops (cdev_of s cdev), in_cdev := cdev, in_name := name,
                       in_type := FILE_TYPE_CHAR_DEVICE\<rparr>)\<rparr>;
               s = s\<lparr>cdev_of := (cdev_of s)(cdev := (cdev_of s cdev)\<lparr>cd_inode := new\<rparr>)\<rparr>;
               s = s\<lparr>lists := LL_enqueue (f_inodes s) new (lists s)\<rparr>;
               s = s\<lparr>lists := LL_enqueue (f_chars s) cdev (lists s)\<rparr>
           in (0, s))"

definition FS_open ::
  "(addr \<Rightarrow> (('d, 'a) files_scheme, 'r) FileOps) \<Rightarrow> addr \<Rightarrow> u32 \<Rightarrow> ('d, 'a) files_scheme \<Rightarrow>
   (addr \<times> ('d, 'a) files_scheme) option" where
  "FS_open fops name flags s =
     Option.bind (LL_for_each (f_inodes s) (lists s)) (\<lambda>is.
       Option.bind (find_name (bytes s) name (\<lambda>i. in_name (inode_of s i)) is) (\<lambda>r.
         let failed = (\<lambda>new s. (new, klog KLOG_LEVEL_DEBUG ''failed to open file %s'' [name] s))
         in case r of
              None \<Rightarrow> Some (failed NULL s)
            | Some cur \<Rightarrow>
                let (new, s) = kmalloc sizeof_INode s
                in if new = NULL then Some (failed NULL s)
                   else
                     let s = s\<lparr>ofile_of := (ofile_of s)(new := (ofile_of s new)
                                \<lparr>of_inode := cur, of_fops := in_fops (inode_of s cur)\<rparr>)\<rparr>
                     in map_option (\<lambda>(ret, s). if ret < 0 then failed new s else (new, s))
                          (fo_open (fops (in_fops (inode_of s cur))) cur new s)))"

definition FS_read ::
  "(addr \<Rightarrow> (('d, 'a) files_scheme, 'r) FileOps) \<Rightarrow> addr \<Rightarrow> addr \<Rightarrow> u64 \<Rightarrow> ('d, 'a) files_scheme \<Rightarrow> 'r" where
  "FS_read fops file buff len s = fo_read (fops (of_fops (ofile_of s file))) file buff len s"

definition FS_close ::
  "(addr \<Rightarrow> (('d, 'a) files_scheme, 'r) FileOps) \<Rightarrow> addr \<Rightarrow> ('d, 'a) files_scheme \<Rightarrow> ('d, 'a) files_scheme option" where
  "FS_close fops file s = map_option snd (fo_close (fops (of_fops (ofile_of s file))) file s)"

text \<open>The names a dump prints.\<close>

definition FS_dump_files :: "('d, 'a) files_scheme \<Rightarrow> addr list option" where
  "FS_dump_files s = map_option (map (\<lambda>i. in_name (inode_of s i))) (LL_for_each (f_inodes s) (lists s))"

text \<open>\<open>reg\<close> is \<open>FS_register_fat32\<close>.\<close>

definition FS_register_fs ::
  "(addr \<Rightarrow> ('d, 'a) files_scheme \<Rightarrow> (int \<times> ('d, 'a) files_scheme) option) \<Rightarrow> addr \<Rightarrow> ('d, 'a) files_scheme \<Rightarrow>
   (int \<times> ('d, 'a) files_scheme) option" where
  "FS_register_fs reg blk s =
     (if fs_type (bdev_of s blk) = FS_TYPE_FAT32 then reg blk s
      else Some (- 1, klog KLOG_LEVEL_WARN ''partition type %x not supported'' [ucast (fs_type (bdev_of s blk))] s))"

section \<open>The directory of devices\<close>

text \<open>Statically allocated structures lie below the heap area.\<close>

definition below_heap :: "addr \<Rightarrow> bool" where
  "below_heap a \<longleftrightarrow> unat a < 0xF0000000000"

definition fs_ok :: "('d, 'a) files_scheme \<Rightarrow> addr list \<Rightarrow> (addr \<times> bkind) set \<Rightarrow> bool" where
  "fs_ok s is live \<longleftrightarrow> (\<exists>F. kinv s F live) \<and> ll_list (lists s) (f_inodes s) is \<and>
     hoff (lists s) (f_inodes s) = 32 \<and> hoff (lists s) (f_chars s) = 16 \<and>
     below_heap (f_inodes s) \<and> below_heap (f_chars s) \<and> below_heap (prv (lists s) (f_chars s)) \<and>
     f_inodes s \<notin> {f_chars s, prv (lists s) (f_chars s)} \<and>
     (\<forall>i\<in>set is. (i - HEADER_SIZE, kind_of sizeof_INode) \<in> live)"

text \<open>The abstraction: name, device and operations of each inode, in order of registration.\<close>

type_synonym dir_entry = "u8 list \<times> addr \<times> addr"

definition entry_at :: "('d, 'a) files_scheme \<Rightarrow> addr \<Rightarrow> dir_entry \<Rightarrow> bool" where
  "entry_at s i e \<longleftrightarrow> cstr (bytes s) (in_name (inode_of s i)) (fst e) \<and> in_cdev (inode_of s i) = fst (snd e) \<and>
     in_fops (inode_of s i) = snd (snd e)"

definition directory :: "('d, 'a) files_scheme \<Rightarrow> dir_entry list \<Rightarrow> bool" where
  "directory s dir \<longleftrightarrow> (\<exists>is live. fs_ok s is live \<and> list_all2 (entry_at s) is dir)"

lemma kheap_more_files:
  fixes s t :: "('d, 'a) files_scheme"
  assumes "kheap.more t = kheap.more s"
  shows "lists t = lists s" "bytes t = bytes s" "cdev_of t = cdev_of s" "bdev_of t = bdev_of s" "part_of t = part_of s"
    "inode_of t = inode_of s" "ofile_of t = ofile_of s" "f_inodes t = f_inodes s" "f_blocks t = f_blocks s" "f_chars t = f_chars s"
  using assms by (cases s; cases t; simp)+

lemma kind_of_INode: "kind_of sizeof_INode = Pool 2"
  by (simp add: kind_of_def sizeof_INode_def NUM_POOLS_def HEADER_SIZE_def pool_block_size_def upt_conv_Cons)

text \<open>Inside of a heap block the header of a list element is not below the heap.\<close>

lemma heap_header:
  assumes "kinv s F live" "(p - HEADER_SIZE, k) \<in> live" "unat off + 16 < bsize k"
  shows "\<not> below_heap (p + off)"
proof -
  let ?b = "p - HEADER_SIZE"
  have ok: "block_ok s (?b, k)" using kinvD(7) [OF assms(1)] assms(2) by blast
  have u: "unat ?b + bsize k \<le> 2 ^ 44" by (rule block_words(6) [OF kinvD(1) [OF assms(1)] ok])
  have o: "unat (off + HEADER_SIZE) = unat off + 16"
    using assms(3) u by (simp add: unat_word_ariths HEADER_SIZE_def)
  have "p + off = ?b + (off + HEADER_SIZE)" by simp
  then have "unat (p + off) = unat (?b + (off + HEADER_SIZE))" by simp
  also have "\<dots> = unat ?b + (unat off + 16)"
    using u assms(3) by (subst unat_add_no_wrap) (simp_all add: o)
  finally show ?thesis using ok by (simp add: below_heap_def block_ok_def)
qed

text \<open>An address that the heap will not hand out: it is static, or belongs to a block that is in use.\<close>

definition held :: "(addr \<times> bkind) set \<Rightarrow> addr \<Rightarrow> bool" where
  "held live a \<longleftrightarrow> below_heap a \<or> (\<exists>x\<in>live. unat a \<in> region x)"

lemma held_mono: "held live a \<Longrightarrow> live \<subseteq> live' \<Longrightarrow> held live' a"
  by (auto simp: held_def)

lemma fresh_not_held:
  assumes "kinv s F (insert (p - HEADER_SIZE, k) live)" "(p - HEADER_SIZE, k) \<notin> live" "unat off + 16 < bsize k"
  shows "\<not> held live (p + off)" "held (insert (p - HEADER_SIZE, k) live) (p + off)"
proof -
  let ?b = "p - HEADER_SIZE"
  have ok: "block_ok s (?b, k)" using kinvD(7) [OF assms(1)] by blast
  have u: "unat ?b + bsize k \<le> 2 ^ 44" by (rule block_words(6) [OF kinvD(1) [OF assms(1)] ok])
  have o: "unat (off + HEADER_SIZE) = unat off + 16" using assms(3) u by (simp add: unat_word_ariths HEADER_SIZE_def)
  have "unat (?b + (off + HEADER_SIZE)) = unat ?b + (unat off + 16)"
    using u assms(3) by (subst unat_add_no_wrap) (simp_all add: o)
  then have r: "unat (p + off) \<in> region (?b, k)" using assms(3) by (simp add: region_def)
  then show "held (insert (?b, k) live) (p + off)" by (auto simp: held_def)
  have "\<not> below_heap (p + off)" by (rule heap_header [OF assms(1) insertI1 assms(3)])
  moreover have "unat (p + off) \<notin> region x" if "x \<in> live" for x
  proof -
    have "x \<noteq> (?b, k)" using that assms(2) by blast
    then have "region x \<inter> region (?b, k) = {}" using kinvD(8) [OF assms(1), of x "(?b, k)"] that by blast
    with r show ?thesis by blast
  qed
  ultimately show "\<not> held live (p + off)" by (auto simp: held_def)
qed

lemma live_held:
  assumes "kinv s F live" "(p - HEADER_SIZE, k) \<in> live" "unat off + 16 < bsize k"
  shows "held live (p + off)" "\<not> below_heap (p + off)"
  using fresh_not_held(2) [of s F p k "live - {(p - HEADER_SIZE, k)}" off] heap_header [OF assms] assms by (simp_all add: insert_absorb)

lemma LL_enqueue_links:
  "nxt (LL_enqueue l d h) = (nxt h)(d + hoff h l := l, prv h l := d + hoff h l)"
  "prv (LL_enqueue l d h) = (prv h)(d + hoff h l := prv h l, l := d + hoff h l)"
  by (simp_all add: LL_enqueue_def LL_append_def LL_add_prev_def ll_add_def LL_nhead_def Let_def)

text \<open>Adding a header to a list leaves a list alone with which it shares no header.\<close>

lemma ll_list_outside:
  assumes "ll_list h q ds" "d + hoff h l \<notin> ll_foot h q ds" "prv h l \<notin> ll_foot h q ds" "l \<notin> ll_foot h q ds"
  shows "ll_list (LL_enqueue l d h) q ds"
  using assms(1) by (subst ll_list_cong [where h = h]) (use assms(2-4) in \<open>auto simp: LL_enqueue_links\<close>)

lemma FS_register_cdev_directory:
  assumes "directory s dir" "cstr (bytes s) name cs"
    and cd: "below_heap (cdev + 16)" "cdev + 16 \<noteq> f_inodes s"
    and eq: "FS_register_cdev cdev name s = (r, t)"
  shows "r = 0 \<and> directory t (dir @ [(cs, cdev, cd_fops (cdev_of s cdev))]) \<or> r = - 1 \<and> directory t dir"
proof -
  obtain "is" live F where ok: "fs_ok s is live" and ent: "list_all2 (entry_at s) is dir" and K: "kinv s F live"
    using assms(1) by (auto simp: directory_def fs_ok_def)
  obtain new u where al: "kmalloc sizeof_INode s = (new, u)" by fastforce
  note more = kheap_more_files [OF kmalloc_more [OF K al]]
  note M = kmalloc_spec [OF K _ al]
  show ?thesis
  proof (cases "new = NULL")
    case True
    then obtain F' where "kinv u F' live" using M by (auto simp: sizeof_INode_def)
    with ok have "fs_ok u is live" by (auto simp: fs_ok_def more)
    moreover have "list_all2 (entry_at u) is dir" using ent by (simp add: entry_at_def [abs_def] more)
    ultimately show ?thesis using eq al True by (auto simp: FS_register_cdev_def directory_def)
  next
    case False
    let ?x = "(new - HEADER_SIZE, kind_of sizeof_INode)"
    obtain F' where K': "kinv u F' (insert ?x live)" and nl: "?x \<notin> live" using M False by (auto simp: sizeof_INode_def)
    let ?in = "(inode_of u new)\<lparr>in_fops := cd_fops (cdev_of s cdev), in_cdev := cdev, in_name := name, in_type := FILE_TYPE_CHAR_DEVICE\<rparr>"
    let ?h = "LL_enqueue (f_inodes s) new (lists s)"
    have t: "r = 0" "t = u\<lparr>inode_of := (inode_of u)(new := ?in), cdev_of := (cdev_of u)(cdev := (cdev_of u cdev)\<lparr>cd_inode := new\<rparr>),
        lists := LL_enqueue (f_chars s) cdev ?h\<rparr>"
      using eq al False by (simp_all add: FS_register_cdev_def more)
    have nin: "new \<notin> set is" using ok nl by (auto simp: fs_ok_def)
    have above: "\<not> below_heap (i + 32)" if "i \<in> set is \<or> i = new" for i
      using heap_header [OF K', of i "kind_of sizeof_INode" 32] that ok
      by (auto simp: fs_ok_def kind_of_INode pool_block_size_def)
    have ll: "ll_list (lists s) (f_inodes s) is" and ho: "hoff (lists s) (f_inodes s) = 32" "hoff (lists s) (f_chars s) = 16"
      using ok by (auto simp: fs_ok_def)
    have foot: "ll_foot h (f_inodes s) js = insert (f_inodes s) ((\<lambda>i. i + 32) ` set js)" if "hoff h (f_inodes s) = 32" for h js
      using that by (auto simp: ll_foot_def ll_nodes_def LL_nhead_def)
    have "LL_nhead (lists s) (f_inodes s) new \<notin> ll_foot (lists s) (f_inodes s) is"
      using above [of new] ok nin by (auto simp: foot ho LL_nhead_def fs_ok_def)
    then have ll1: "ll_list ?h (f_inodes s) (is @ [new])" by (rule LL_enqueue_list [OF ll])
    have pc: "prv ?h (f_chars s) = prv (lists s) (f_chars s)"
      using above [of new] ok by (auto simp: LL_enqueue_links ho fs_ok_def)
    have out: "a \<notin> ll_foot ?h (f_inodes s) (is @ [new])" if "below_heap a" "a \<noteq> f_inodes s" for a
      using above that by (subst foot) (auto simp: ho)
    have ll2: "ll_list (lists t) (f_inodes s) (is @ [new])" unfolding t
      using ll_list_outside [OF ll1, of cdev "f_chars s"] out cd ok pc by (auto simp: ho fs_ok_def)
    have "fs_ok t (is @ [new]) (insert ?x live)"
    proof -
      have "\<exists>F. kinv t F (insert ?x live)"
        using K' by (subst kinv_cong [of _ u]) (auto simp: t)
      then show ?thesis using ok ll2 cd by (auto simp: fs_ok_def t more ho LL_enqueue_links)
    qed
    moreover have "list_all2 (entry_at t) (is @ [new]) (dir @ [(cs, cdev, cd_fops (cdev_of s cdev))])"
    proof (rule list_all2_appendI)
      have "entry_at t i e" if "i \<in> set is" "entry_at s i e" for i e
        using that nin by (auto simp: entry_at_def t more)
      then show "list_all2 (entry_at t) is dir" using ent by (auto simp: list_all2_conv_all_nth)
      show "list_all2 (entry_at t) [new] [(cs, cdev, cd_fops (cdev_of s cdev))]"
        using assms(2) by (simp add: entry_at_def t more)
    qed
    ultimately show ?thesis using t(1) by (auto simp: directory_def)
  qed
qed

lemma find_name_map_of:
  assumes "list_all2 (\<lambda>i e. cstr m (nm i) (fst e)) is dir" "cstr m name cs"
  shows "\<exists>r. find_name m name nm is = Some r \<and>
    (case r of None \<Rightarrow> map_of dir cs = None
     | Some i \<Rightarrow> \<exists>k<length is. is ! k = i \<and> fst (dir ! k) = cs \<and> map_of dir cs = Some (snd (dir ! k)))"
  using assms(1)
proof (induction "is" dir rule: list_all2_induct)
  case (Cons i "is" e dir)
  obtain r where r: "strcmp m name (nm i) = Some r" "r = 0 \<longleftrightarrow> cs = fst e"
    using strcmp_cstr [OF assms(2) Cons.hyps(1)] by blast
  show ?case
  proof (cases "r = 0")
    case True
    with r show ?thesis by (cases e) (auto intro!: exI [of _ 0])
  next
    case False
    obtain q where q: "find_name m name nm is = Some q"
      "case q of None \<Rightarrow> map_of dir cs = None
       | Some i \<Rightarrow> \<exists>k<length is. is ! k = i \<and> fst (dir ! k) = cs \<and> map_of dir cs = Some (snd (dir ! k))"
      using Cons.IH by blast
    have "map_of (e # dir) cs = map_of dir cs" using False r(2) by (cases e) auto
    moreover have "find_name m name nm (i # is) = Some q" using q(1) r False by simp
    moreover have "\<exists>k<length (i # is). (i # is) ! k = j \<and> fst ((e # dir) ! k) = cs \<and> map_of dir cs = Some (snd ((e # dir) ! k))"
      if j: "q = Some j" for j
    proof -
      obtain k where "k < length is" "is ! k = j" "fst (dir ! k) = cs" "map_of dir cs = Some (snd (dir ! k))"
        using q(2) j by auto
      then show ?thesis by (intro exI [of _ "Suc k"]) simp
    qed
    ultimately show ?thesis using q(2) by (cases q) auto
  qed
qed simp

section \<open>Partitions\<close>

text \<open>A range of bytes below the heap, and the blocks of the partitions and their names.\<close>

definition range_below :: "addr \<Rightarrow> nat \<Rightarrow> bool" where
  "range_below a n \<longleftrightarrow> unat a + n \<le> 0xF0000000000"

definition blocks_ok :: "('d, 'a) files_scheme \<Rightarrow> addr list \<Rightarrow> (addr \<times> bkind) set \<Rightarrow> bool" where
  "blocks_ok s bs live \<longleftrightarrow> (\<exists>F. kinv s F live) \<and> ll_list (lists s) (f_blocks s) bs \<and>
     hoff (lists s) (f_blocks s) = 40 \<and> below_heap (f_blocks s) \<and>
     (\<forall>b\<in>set bs. held live (b + 40))"

text \<open>The device of entry \<open>i\<close> of the partition table: its geometry is the table's, and its name is the name of
  the disk, an underscore and the number of the entry.\<close>

definition part_dev :: "addr \<Rightarrow> u8 list \<Rightarrow> addr \<Rightarrow> u64 \<Rightarrow> bmem \<Rightarrow> (addr \<times> bkind) set \<Rightarrow> ('d, 'a) files_scheme \<Rightarrow> addr \<Rightarrow> nat \<Rightarrow> bool" where
  "part_dev dev dn mbr sz m live s b i \<longleftrightarrow>
     part_of s b = \<lparr>phys_dev = dev, sect_start = ucast (start_lba m mbr i)\<rparr> \<and>
     read_block_fn (bdev_of s b) = Part_read_block \<and> blk_size (bdev_of s b) = sz \<and>
     total_len (bdev_of s b) = ucast (num_sectors m mbr i) * sz \<and>
     bd_type (bdev_of s b) = PARTITION \<and> fs_type (bdev_of s b) = partition_type m mbr i \<and>
     cstr (bytes s) (bd_name (bdev_of s b)) (dn @ [of_char CHR ''_'', of_char CHR ''1'' + of_nat i]) \<and>
     (b - HEADER_SIZE, kind_of sizeof_PartBlockDev) \<in> live \<and> (bd_name (bdev_of s b) - HEADER_SIZE, kind_of 20) \<in> live"

lemma kind_of_part: "kind_of sizeof_PartBlockDev = Pool 2" "kind_of 20 = Pool 1"
  by (simp_all add: kind_of_def sizeof_PartBlockDev_def NUM_POOLS_def HEADER_SIZE_def pool_block_size_def upt_conv_Cons)

text \<open>The bytes of a block behind its header.\<close>

definition payload :: "addr \<Rightarrow> nat \<Rightarrow> nat set" where
  "payload p n = {unat p..<unat p + n}"

lemma payload_region:
  assumes "kinv s F live" "(p - HEADER_SIZE, k) \<in> live" "n + 16 \<le> bsize k"
  shows "payload p n \<subseteq> region (p - HEADER_SIZE, k)" "0xF0000000000 \<le> unat p" "unat p + n < 2 ^ 64"
proof -
  let ?b = "p - HEADER_SIZE"
  have ok: "block_ok s (?b, k)" using kinvD(7) [OF assms(1)] assms(2) by blast
  have u: "unat ?b + bsize k \<le> 2 ^ 44" by (rule block_words(6) [OF kinvD(1) [OF assms(1)] ok])
  have "unat (?b + HEADER_SIZE) = unat ?b + 16"
    using u assms(3) by (subst unat_add_no_wrap) (simp_all add: HEADER_SIZE_def)
  then have p: "unat p = unat ?b + 16" by simp
  then show "payload p n \<subseteq> region (?b, k)" using assms(3) by (auto simp: payload_def region_def)
  show "0xF0000000000 \<le> unat p" using ok p by (simp add: block_ok_def)
  show "unat p + n < 2 ^ 64" using u p assms(3) by simp
qed

lemma in_range_payload: "unat p + n < 2 ^ 64 \<Longrightarrow> in_range x p n \<Longrightarrow> unat x \<in> payload p n"
proof -
  assume w: "unat p + n < 2 ^ 64" and r: "in_range x p n"
  have "unat (p + (x - p)) = unat p + unat (x - p)"
    using w r by (intro unat_add_no_wrap) (simp add: in_range_def)
  then show "unat x \<in> payload p n" using r by (simp add: payload_def in_range_def)
qed

lemma unat_of_nat_u64: "n < 2 ^ 64 \<Longrightarrow> unat (of_nat n :: u64) = n"
  by (simp only: unat_of_nat) simp

lemma of_nat_eq_u64: "a < 2 ^ 64 \<Longrightarrow> b < 2 ^ 64 \<Longrightarrow> (of_nat a :: u64) = of_nat b \<longleftrightarrow> a = b"
  by (metis unat_of_nat_u64)

lemma in_range_of_nat: "k < 2 ^ 64 \<Longrightarrow> in_range (a + of_nat k) a n \<longleftrightarrow> k < n"
  by (simp add: in_range_def unat_of_nat_u64)

lemma cstr_nth:
  "cstr m a bs \<longleftrightarrow> (\<forall>k<length bs. m (a + of_nat k) = bs ! k \<and> bs ! k \<noteq> 0) \<and> m (a + of_nat (length bs)) = 0"
proof (induction bs arbitrary: a)
  case (Cons b bs)
  have "(\<forall>k<length (b # bs). m (a + of_nat k) = (b # bs) ! k \<and> (b # bs) ! k \<noteq> 0) \<longleftrightarrow>
      (m a = b \<and> b \<noteq> 0) \<and> (\<forall>k<length bs. m (a + 1 + of_nat k) = bs ! k \<and> bs ! k \<noteq> 0)"
    by (auto simp: less_Suc_eq_0_disj add.assoc)
  then show ?case by (simp add: Cons.IH add.assoc)
qed simp

text \<open>The name that is built in the block at \<open>nm\<close>.\<close>

lemma partition_name:
  assumes c: "cstr m src dn" and dn: "dn \<noteq> []" "length dn \<le> 17" "x \<noteq> 0" "y \<noteq> 0"
    and sep: "range_below src (Suc (length dn))" and nm: "0xF0000000000 \<le> unat nm" "unat nm + 20 < 2 ^ 64"
  obtains m' where "strcpy nm src m = Some (nm, m')"
    and "cstr (m'(nm + of_nat (length dn) := x, nm + of_nat (length dn) + 1 := y, nm + of_nat (length dn) + 2 := 0)) nm (dn @ [x, y])"
    and "\<And>a. unat a \<notin> payload nm 20 \<Longrightarrow>
      (m'(nm + of_nat (length dn) := x, nm + of_nat (length dn) + 1 := y, nm + of_nat (length dn) + 2 := 0)) a = m a"
proof -
  let ?n = "length dn"
  let ?m = "\<lambda>a. if in_range a nm ?n then m (src + (a - nm)) else m a"
  let ?u = "?m(nm + of_nat ?n := x, nm + of_nat ?n + 1 := y, nm + of_nat ?n + 2 := 0)"
  have in_pay: "unat a \<in> payload nm 20" if "in_range a nm 20" for a
    using in_range_payload [OF nm(2) that] .
  have "\<not> in_range a nm ?n" if "in_range a src (Suc ?n)" for a
  proof
    assume "in_range a nm ?n"
    then have "0xF0000000000 \<le> unat a" using in_pay [of a] dn(2) nm(1) by (auto simp: in_range_def payload_def)
    moreover have "unat a < unat src + Suc ?n"
      using in_range_payload [of src "Suc ?n" a] that sep by (auto simp: range_below_def payload_def)
    ultimately show False using sep by (simp add: range_below_def)
  qed
  then have cp: "strcpy nm src m = Some (nm, ?m)"
    using strcpy_loop_cstr [OF c dn(1)] dn(2) by (simp add: strcpy_def)
  have idx: "nm + of_nat ?n + 1 = nm + of_nat (?n + 1)" "nm + of_nat ?n + 2 = nm + of_nat (?n + 2)" by simp_all
  have at: "?u (nm + of_nat k) = (if k < ?n then m (src + of_nat k) else if k = ?n then x else if k = ?n + 1 then y
      else if k = ?n + 2 then 0 else m (nm + of_nat k))" if "k < 20" for k
    unfolding idx using that dn(2) by (auto simp: of_nat_eq_u64 in_range_of_nat simp del: of_nat_add of_nat_Suc)
  have "cstr ?u nm (dn @ [x, y])"
  proof -
    have "?u (nm + of_nat k) = (dn @ [x, y]) ! k \<and> (dn @ [x, y]) ! k \<noteq> 0" if k: "k < ?n + 2" for k
    proof -
      consider "k < ?n" | "k = ?n" | "k = ?n + 1" using k by linarith
      then show ?thesis using at [of k] c dn by cases (auto simp: cstr_nth nth_append)
    qed
    moreover have "?u (nm + of_nat (?n + 2)) = 0" by (simp add: add.assoc)
    ultimately show ?thesis unfolding cstr_nth by simp
  qed
  moreover have "?u a = m a" if a: "unat a \<notin> payload nm 20" for a
  proof -
    have r: "\<not> in_range a nm 20" using in_pay a by blast
    then have "a \<noteq> nm + of_nat k" if "k < 20" for k using that by (auto simp: in_range_of_nat)
    moreover have "\<not> in_range a nm ?n" using r dn(2) by (auto simp: in_range_def)
    ultimately show ?thesis unfolding idx using dn(2) by (simp del: of_nat_add of_nat_Suc)
  qed
  ultimately show thesis using that cp by blast
qed

text \<open>What stays the same for the partitions that exist already: the structures at other blocks, and
  the bytes outside of a new block.\<close>

lemma part_dev_keep:
  assumes "part_dev dev dn mbr sz m live s b i" "kinv u F live'" "live \<subseteq> live'"
    and "part_of t b = part_of s b" "bdev_of t b = bdev_of s b" "length dn \<le> 17"
    and "(nm - HEADER_SIZE, kind_of 20) \<in> live' - live"
    and "\<And>a. unat a \<notin> payload nm 20 \<Longrightarrow> bytes t a = bytes s a"
  shows "part_dev dev dn mbr sz m live' t b i"
proof -
  let ?q = "bd_name (bdev_of s b)" and ?s = "dn @ [of_char CHR ''_'', of_char CHR ''1'' + of_nat i]"
  have q: "(?q - HEADER_SIZE, kind_of 20) \<in> live'" "(?q - HEADER_SIZE, kind_of 20) \<noteq> (nm - HEADER_SIZE, kind_of 20)"
    using assms(1,3,7) by (auto simp: part_dev_def)
  have sz: "20 + 16 \<le> bsize (kind_of 20)" by (simp add: kind_of_part pool_block_size_def)
  note Q = payload_region [OF assms(2) q(1) sz]
  note N = payload_region [OF assms(2) _ sz, of nm]
  have "region (?q - HEADER_SIZE, kind_of 20) \<inter> region (nm - HEADER_SIZE, kind_of 20) = {}"
    using kinvD(8) [OF assms(2), of "(?q - HEADER_SIZE, kind_of 20)" "(nm - HEADER_SIZE, kind_of 20)"] q assms(7) by blast
  then have dj: "payload ?q 20 \<inter> payload nm 20 = {}" using Q(1) N(1) assms(7) by blast
  have "bytes t a = bytes s a" if "in_range a ?q (Suc (length ?s))" for a
  proof -
    have "in_range a ?q 20" using that assms(6) by (auto simp: in_range_def)
    from in_range_payload [OF Q(3) this] show ?thesis using dj assms(8) by blast
  qed
  then have "cstr (bytes t) ?q ?s = cstr (bytes s) ?q ?s"
    using assms(6) by (intro cstr_cong) auto
  then show ?thesis using assms(1,3-5) by (auto simp: part_dev_def)
qed

lemma scast_length: "n \<le> 17 \<Longrightarrow> (scast (ucast (of_nat n :: u64) :: u32) :: u64) = of_nat n"
proof -
  assume n: "n \<le> 17"
  have "unat (ucast (of_nat n :: u64) :: u32) = n"
    using n by (simp add: unsigned_ucast_eq unat_of_nat take_bit_nat_eq_self take_bit_eq_mod)
  then have "sint (ucast (of_nat n :: u64) :: u32) = int n" using n by (subst sint_u32) simp_all
  then show ?thesis by (simp add: scast_eq)
qed

lemma digit_nonzero: "i < 4 \<Longrightarrow> of_char CHR ''1'' + of_nat i \<noteq> (0 :: u8)"
proof -
  assume "i < 4"
  then consider "i = 0" | "i = 1" | "i = 2" | "i = 3" by linarith
  then show ?thesis by cases simp_all
qed

definition disk_ok :: "('d, 'a) files_scheme \<Rightarrow> addr list \<Rightarrow> addr \<Rightarrow> u8 list \<Rightarrow> bool" where
  "disk_ok s bs dev dn \<longleftrightarrow> dev \<in> set bs \<and> cstr (bytes s) (bd_name (bdev_of s dev)) dn \<and> dn \<noteq> [] \<and> length dn \<le> 17 \<and>
     range_below (bd_name (bdev_of s dev)) (Suc (length dn))"

lemma bytes_below:
  assumes "\<And>a. unat a \<notin> payload nm 20 \<Longrightarrow> bytes t a = bytes s a" "0xF0000000000 \<le> unat nm" "range_below p n" "k < n"
  shows "bytes t (p + of_nat k) = bytes s (p + of_nat k)"
proof -
  have "unat (p + of_nat k) = unat p + k"
    using assms(3,4) by (subst unat_add_no_wrap) (simp_all add: range_below_def unat_of_nat_u64)
  then show ?thesis using assms by (intro assms(1)) (simp add: payload_def range_below_def)
qed

lemma blocks_ok_extend:
  assumes ok: "blocks_ok s bs live" and K: "kinv t F (insert y (insert (b - HEADER_SIZE, kind_of sizeof_PartBlockDev) live))"
    and above: "\<not> held live (b + 40)"
    and t: "lists t = LL_enqueue (f_blocks s) b (lists s)" "f_blocks t = f_blocks s"
  shows "blocks_ok t (bs @ [b]) (insert y (insert (b - HEADER_SIZE, kind_of sizeof_PartBlockDev) live))" "b \<notin> set bs"
proof -
  let ?x = "(b - HEADER_SIZE, kind_of sizeof_PartBlockDev)"
  have off: "unat (40 :: u64) + 16 < bsize (kind_of sizeof_PartBlockDev)" by (simp add: kind_of_part pool_block_size_def)
  have h: "held (insert y (insert ?x live)) (b + 40)" using live_held(1) [OF K _ off] by blast
  have mono: "held live a \<Longrightarrow> held (insert y (insert ?x live)) a" for a by (rule held_mono) auto
  show nb: "b \<notin> set bs" using ok above by (auto simp: blocks_ok_def)
  have "LL_nhead (lists s) (f_blocks s) b \<notin> ll_foot (lists s) (f_blocks s) bs"
    using ok above nb by (auto simp: blocks_ok_def LL_nhead_def ll_foot_def ll_nodes_def held_def)
  then have "ll_list (lists t) (f_blocks t) (bs @ [b])"
    unfolding t using ok by (intro LL_enqueue_list) (auto simp: blocks_ok_def)
  then show "blocks_ok t (bs @ [b]) (insert y (insert (b - HEADER_SIZE, kind_of sizeof_PartBlockDev) live))"
    using ok K h mono by (auto simp: blocks_ok_def t)
qed

lemma fill_partition_heap [simp]:
  "kinv (fill_partition dev mbr i b s) F live = kinv s F live" "cursor_at (fill_partition dev mbr i b s) n = cursor_at s n"
  by (rule kinv_cong; simp add: fill_partition_def Let_def)+ (simp add: cursor_at_def fill_partition_def Let_def)

lemma name_partition_spec:
  fixes s :: "('d, 'a) files_scheme"
  assumes K: "kinv s F live" "(nm - HEADER_SIZE, kind_of 20) \<in> live" and disk: "disk_ok s bs dev dn" and i: "i < 4"
  shows "\<exists>t. name_partition dev i b nm s = Some t \<and> kinv t F live \<and> part_of t = part_of s \<and> bdev_of t = bdev_of s \<and>
    f_blocks t = f_blocks s \<and> lists t = LL_enqueue (f_blocks s) b (lists s) \<and>
    cstr (bytes t) nm (dn @ [of_char CHR ''_'', of_char CHR ''1'' + of_nat i]) \<and> (\<forall>a. unat a \<notin> payload nm 20 \<longrightarrow> bytes t a = bytes s a)"
proof -
  let ?src = "bd_name (bdev_of s dev)"
  have P: "0xF0000000000 \<le> unat nm" "unat nm + 20 < 2 ^ 64"
    using payload_region [OF K, of 20] by (auto simp: kind_of_part pool_block_size_def)
  have D: "cstr (bytes s) ?src dn" "dn \<noteq> []" "length dn \<le> 17" "range_below ?src (Suc (length dn))" using disk by (auto simp: disk_ok_def)
  show ?thesis
  proof (rule partition_name [OF D(1-3) _ digit_nonzero [OF i] D(4) P, of "of_char CHR ''_''"])
    show "of_char CHR ''_'' \<noteq> (0 :: u8)" by simp
    fix m' assume m': "strcpy nm ?src (bytes s) = Some (nm, m')"
    let ?m = "m'(nm + of_nat (length dn) := of_char CHR ''_'', nm + of_nat (length dn) + 1 := of_char CHR ''1'' + of_nat i,
        nm + of_nat (length dn) + 2 := 0)"
    assume c: "cstr ?m nm (dn @ [of_char CHR ''_'', of_char CHR ''1'' + of_nat i])"
      and out: "\<And>a. unat a \<notin> payload nm 20 \<Longrightarrow> ?m a = bytes s a"
    define t where "t = snd (BLK_register b (klog KLOG_LEVEL_INFO ''partition %s with fs type 0x%X at sector 0x%lX with size %ld detected''
        [nm, ucast (fs_type (bdev_of s b)), sect_start (part_of s b), total_len (bdev_of s b)] (s\<lparr>bytes := ?m\<rparr>)))"
    have "name_partition dev i b nm s = Some t"
      using strlen_cstr [OF D(1)] m' scast_length [OF D(3)] by (simp add: name_partition_def Let_def t_def del: fun_upd_apply)
    moreover have "bytes t = ?m" "part_of t = part_of s" "bdev_of t = bdev_of s" "f_blocks t = f_blocks s" "lists t = LL_enqueue (f_blocks s) b (lists s)"
      by (simp_all add: t_def BLK_register_def klog_def)
    moreover have "kinv t F live" using K(1) by (subst kinv_cong [of _ s]) (auto simp: t_def BLK_register_def klog_def)
    ultimately show ?thesis using c out by auto
  qed
qed

lemma add_partition_spec:
  fixes s :: "('d, 'a) files_scheme"
  assumes ok: "blocks_ok s bs live" and disk: "disk_ok s bs dev dn" and i: "i < 4" and m: "m = bytes s"
  shows "\<exists>r. add_partition dev mbr i s = Some r \<and> (\<forall>t. r = Inr t \<longrightarrow>
    (\<exists>b nm live'. blocks_ok t (bs @ [b]) live' \<and> live \<subseteq> live' \<and> b \<notin> set bs \<and>
       part_dev dev dn mbr (blk_size (bdev_of s dev)) m live' t b i \<and>
       (nm - HEADER_SIZE, kind_of 20) \<in> live' - live \<and> (b - HEADER_SIZE, kind_of sizeof_PartBlockDev) \<notin> live \<and>
       (\<forall>c. c \<noteq> b \<longrightarrow> part_of t c = part_of s c \<and> bdev_of t c = bdev_of s c) \<and>
       (\<forall>a. unat a \<notin> payload nm 20 \<longrightarrow> bytes t a = bytes s a)))"
proof -
  obtain F where K: "kinv s F live" using ok by (auto simp: blocks_ok_def)
  obtain b s1 where al: "kmalloc sizeof_PartBlockDev s = (b, s1)" by fastforce
  note more1 = kheap_more_files [OF kmalloc_more [OF K al]]
  show ?thesis
  proof (cases "b = NULL")
    case True
    then show ?thesis using al by (auto simp: add_partition_def)
  next
    case b0: False
    let ?x = "(b - HEADER_SIZE, kind_of sizeof_PartBlockDev)"
    obtain F1 where K1: "kinv s1 F1 (insert ?x live)" and nl: "?x \<notin> live"
      using kmalloc_spec [OF K _ al] b0 by (auto simp: sizeof_PartBlockDev_def)
    let ?s2 = "fill_partition dev mbr i b s1"
    have K2: "kinv ?s2 F1 (insert ?x live)" using K1 by simp
    obtain nm s3 where al2: "kmalloc 20 ?s2 = (nm, s3)" by fastforce
    note more3 = kheap_more_files [OF kmalloc_more [OF K2 al2]]
    let ?s3 = "s3\<lparr>bdev_of := (bdev_of s3)(b := (bdev_of s3 b)\<lparr>bd_name := nm\<rparr>)\<rparr>"
    have above: "\<not> held live (b + 40)" using fresh_not_held(1) [OF K1 nl, of 40] by (simp add: kind_of_part pool_block_size_def)
    then have bd: "b \<noteq> dev" using ok disk by (auto simp: blocks_ok_def disk_ok_def)
    have unf: "add_partition dev mbr i s = (if nm = NULL then map_option Inl (kfree b ?s3) else map_option Inr (name_partition dev i b nm ?s3))"
      using b0 by (simp add: add_partition_def al al2)
    show ?thesis
    proof (cases "nm = NULL")
      case True
      obtain F3 where "kinv s3 F3 (insert ?x live)" using kmalloc_spec [OF K2 _ al2] True by auto
      then have "kinv ?s3 F3 (insert ?x live)" by (subst kinv_cong [of _ s3]) auto
      from kfree_spec [OF this, of "b - HEADER_SIZE" "kind_of sizeof_PartBlockDev"] show ?thesis using True unf by auto
    next
      case False
      let ?live = "insert (nm - HEADER_SIZE, kind_of 20) (insert ?x live)"
      obtain F3 where K3: "kinv s3 F3 ?live" and ny: "(nm - HEADER_SIZE, kind_of 20) \<notin> insert ?x live" using kmalloc_spec [OF K2 _ al2] False by auto
      have K4: "kinv ?s3 F3 ?live" using K3 by (subst kinv_cong [of _ s3]) auto
      have S: "bytes ?s3 = bytes s" "bdev_of ?s3 dev = bdev_of s dev" "f_blocks ?s3 = f_blocks s" "lists ?s3 = lists s"
        "\<And>c. c \<noteq> b \<Longrightarrow> part_of ?s3 c = part_of s c \<and> bdev_of ?s3 c = bdev_of s c"
        using bd by (simp_all add: more3 more1 fill_partition_def Let_def)
      have d3: "disk_ok ?s3 bs dev dn" using disk unfolding disk_ok_def S by simp
      obtain t where t: "name_partition dev i b nm ?s3 = Some t" "kinv t F3 ?live" "part_of t = part_of ?s3" "bdev_of t = bdev_of ?s3"
          "f_blocks t = f_blocks s" "lists t = LL_enqueue (f_blocks s) b (lists s)"
          "cstr (bytes t) nm (dn @ [of_char CHR ''_'', of_char CHR ''1'' + of_nat i])" "\<forall>a. unat a \<notin> payload nm 20 \<longrightarrow> bytes t a = bytes s a"
        using name_partition_spec [OF K4 _ d3 i, of nm b] unfolding S by blast
      have "part_dev dev dn mbr (blk_size (bdev_of s dev)) m ?live t b i"
        using t(7) bd by (simp add: part_dev_def t(3,4) m) (simp add: more3 more1 fill_partition_def Let_def)
      moreover have "\<forall>c. c \<noteq> b \<longrightarrow> part_of t c = part_of s c \<and> bdev_of t c = bdev_of s c" using S(5) unfolding t(3,4) by blast
      moreover note blocks_ok_extend [OF ok t(2) above t(6,5)] t(8)
      ultimately have "\<exists>b nm live'. blocks_ok t (bs @ [b]) live' \<and> live \<subseteq> live' \<and> b \<notin> set bs \<and>
          part_dev dev dn mbr (blk_size (bdev_of s dev)) m live' t b i \<and>
          (nm - HEADER_SIZE, kind_of 20) \<in> live' - live \<and> (b - HEADER_SIZE, kind_of sizeof_PartBlockDev) \<notin> live \<and>
          (\<forall>c. c \<noteq> b \<longrightarrow> part_of t c = part_of s c \<and> bdev_of t c = bdev_of s c) \<and>
          (\<forall>a. unat a \<notin> payload nm 20 \<longrightarrow> bytes t a = bytes s a)"
        using ny nl by (intro exI [of _ b] exI [of _ nm] exI [of _ ?live]) blast
      then show ?thesis using False t(1) unf by simp
    qed
  qed
qed

text \<open>The partition table is not written to.\<close>

definition agree :: "bmem \<Rightarrow> bmem \<Rightarrow> addr \<Rightarrow> nat \<Rightarrow> bool" where
  "agree m' m p n \<longleftrightarrow> (\<forall>k<n. m' (p + of_nat k) = m (p + of_nat k))"

lemma mbr_below:
  assumes "agree m' m mbr 512" "i < 4"
  shows "start_lba m' mbr i = start_lba m mbr i" "num_sectors m' mbr i = num_sectors m mbr i"
    "partition_type m' mbr i = partition_type m mbr i"
proof -
  have e: "m' (part_record mbr i + of_nat j) = m (part_record mbr i + of_nat j)" if j: "j < 16" for j
  proof -
    have "446 + 16 * i + j < 512" using assms(2) j by simp
    then have "m' (mbr + of_nat (446 + 16 * i + j)) = m (mbr + of_nat (446 + 16 * i + j))"
      using assms(1) unfolding agree_def by blast
    then show ?thesis by (simp add: part_record_def add.assoc)
  qed
  have a: "m' (part_record mbr i + 4) = m (part_record mbr i + 4)" using e [of 4] by simp
  have b: "m' (part_record mbr i + 8) = m (part_record mbr i + 8)" "m' (part_record mbr i + 8 + 1) = m (part_record mbr i + 8 + 1)"
    "m' (part_record mbr i + 8 + 2) = m (part_record mbr i + 8 + 2)" "m' (part_record mbr i + 8 + 2 + 1) = m (part_record mbr i + 8 + 2 + 1)"
    using e [of 8] e [of 9] e [of 10] e [of 11] by (simp_all add: add.assoc)
  have c: "m' (part_record mbr i + 12) = m (part_record mbr i + 12)" "m' (part_record mbr i + 12 + 1) = m (part_record mbr i + 12 + 1)"
    "m' (part_record mbr i + 12 + 2) = m (part_record mbr i + 12 + 2)" "m' (part_record mbr i + 12 + 2 + 1) = m (part_record mbr i + 12 + 2 + 1)"
    using e [of 12] e [of 13] e [of 14] e [of 15] by (simp_all add: add.assoc)
  show "start_lba m' mbr i = start_lba m mbr i" "num_sectors m' mbr i = num_sectors m mbr i"
    "partition_type m' mbr i = partition_type m mbr i"
    using a b c by (simp_all add: start_lba_def num_sectors_def partition_type_def load32_def load16_def)
qed

lemma part_dev_mbr:
  assumes "agree m' m mbr 512" "i < 4"
  shows "part_dev dev dn mbr sz m' live s b i = part_dev dev dn mbr sz m live s b i"
  by (simp add: part_dev_def mbr_below [OF assms])

lemma disk_ok_keep:
  assumes "disk_ok s bs dev dn" "bdev_of t dev = bdev_of s dev" "0xF0000000000 \<le> unat nm"
    and "\<And>a. unat a \<notin> payload nm 20 \<Longrightarrow> bytes t a = bytes s a"
  shows "disk_ok t (bs @ bs') dev dn"
proof -
  have "cstr (bytes t) (bd_name (bdev_of s dev)) dn"
    using assms(1) bytes_below [OF assms(4,3), of "bd_name (bdev_of s dev)" "Suc (length dn)"]
    by (auto simp: disk_ok_def cstr_nth)
  with assms(1,2) show ?thesis by (simp add: disk_ok_def)
qed

definition partitions :: "addr \<Rightarrow> u8 list \<Rightarrow> addr \<Rightarrow> ('d, 'a) files_scheme \<Rightarrow> (addr \<times> bkind) set \<Rightarrow> ('d, 'a) files_scheme \<Rightarrow> addr list \<Rightarrow> nat list \<Rightarrow> bool" where
  "partitions dev dn mbr s live t = list_all2 (part_dev dev dn mbr (blk_size (bdev_of s dev)) (bytes s) live t)"

lemma partitions_mbr:
  assumes "agree (bytes t) (bytes s) mbr 512" "bdev_of t dev = bdev_of s dev" "set js \<subseteq> {..<4}"
  shows "partitions dev dn mbr t live u ps js = partitions dev dn mbr s live u ps js"
proof -
  have "part_dev dev dn mbr sz (bytes t) live u (ps ! k) (js ! k) = part_dev dev dn mbr sz (bytes s) live u (ps ! k) (js ! k)"
    if k: "k < length js" for sz k
  proof -
    have "js ! k < 4" using nth_mem [OF k] assms(3) by blast
    then show ?thesis by (rule part_dev_mbr [OF assms(1)])
  qed
  then show ?thesis by (auto simp: partitions_def assms(2) list_all2_conv_all_nth)
qed

text \<open>What the loop leaves alone: the devices there were, and the memory below the heap.\<close>

definition blocks_keep :: "addr list \<Rightarrow> ('d, 'a) files_scheme \<Rightarrow> ('d, 'a) files_scheme \<Rightarrow> bool" where
  "blocks_keep bs s t \<longleftrightarrow> (\<forall>c\<in>set bs. bdev_of t c = bdev_of s c \<and> part_of t c = part_of s c) \<and>
     (\<forall>a. below_heap a \<longrightarrow> bytes t a = bytes s a)"

lemma blocks_keep_trans: "blocks_keep bs s t \<Longrightarrow> blocks_keep (bs @ cs) t u \<Longrightarrow> blocks_keep bs s u"
  by (simp add: blocks_keep_def)

lemma partitions_step:
  fixes s :: "('d, 'a) files_scheme"
  assumes ok: "blocks_ok s bs live" "disk_ok s bs dev dn" "range_below mbr 512" "i < 4"
    and ps: "partitions dev dn mbr s live s ps js" "set ps \<subseteq> set bs" "set js \<subseteq> {..<4}"
    and add: "add_partition dev mbr i s = Some (Inr t)"
  shows "\<exists>b live'. blocks_ok t (bs @ [b]) live' \<and> disk_ok t (bs @ [b]) dev dn \<and> partitions dev dn mbr t live' t (ps @ [b]) (js @ [i]) \<and>
    agree (bytes t) (bytes s) mbr 512 \<and> bdev_of t dev = bdev_of s dev \<and> blocks_keep bs s t"
proof -
  obtain b nm live' where A: "blocks_ok t (bs @ [b]) live'" "live \<subseteq> live'" "b \<notin> set bs"
      "part_dev dev dn mbr (blk_size (bdev_of s dev)) (bytes s) live' t b i"
      "(nm - HEADER_SIZE, kind_of 20) \<in> live' - live" "\<forall>c. c \<noteq> b \<longrightarrow> part_of t c = part_of s c \<and> bdev_of t c = bdev_of s c"
      "\<forall>a. unat a \<notin> payload nm 20 \<longrightarrow> bytes t a = bytes s a"
    using add_partition_spec [OF ok(1,2,4) refl, of mbr] add by auto
  obtain F where K: "kinv t F live'" using A(1) by (auto simp: blocks_ok_def)
  have nm: "0xF0000000000 \<le> unat nm"
    using payload_region(2) [OF K, of nm "kind_of 20" 20] A(5) by (simp add: kind_of_part pool_block_size_def)
  have bd: "b \<noteq> dev"
    using A(3) ok(2) by (auto simp: disk_ok_def)
  then have dev: "bdev_of t dev = bdev_of s dev" using A(6) by auto
  have ag: "agree (bytes t) (bytes s) mbr 512"
    unfolding agree_def using bytes_below [OF _ nm ok(3)] A(7) by blast
  have "part_dev dev dn mbr (blk_size (bdev_of s dev)) (bytes s) live' t p j"
    if p: "p \<in> set ps" "part_dev dev dn mbr (blk_size (bdev_of s dev)) (bytes s) live s p j" for p j
  proof -
    have "p \<noteq> b" using p(1) ps(2) A(3) by blast
    then show ?thesis using part_dev_keep [OF p(2) K A(2), of t nm] A(5,6,7) ok(2) by (simp add: disk_ok_def)
  qed
  then have "list_all2 (part_dev dev dn mbr (blk_size (bdev_of s dev)) (bytes s) live' t) (ps @ [b]) (js @ [i])"
    using ps(1) A(4) by (auto simp: partitions_def list_all2_conv_all_nth nth_append)
  moreover have "set (js @ [i]) \<subseteq> {..<4}" using ps(3) ok(4) by auto
  ultimately have "partitions dev dn mbr t live' t (ps @ [b]) (js @ [i])"
    by (subst partitions_mbr [OF ag dev]) (simp_all add: partitions_def)
  moreover have "blocks_keep bs s t"
    using A(3,6,7) nm by (auto simp: blocks_keep_def below_heap_def payload_def)
  ultimately show ?thesis using A(1) ag dev disk_ok_keep [OF ok(2) dev nm] A(7) by blast
qed

text \<open>With 32 pages of heap addresses left, memory does not run out.\<close>

lemma add_partition_room:
  fixes s :: "('d, 'a) files_scheme"
  assumes ok: "blocks_ok s bs live" "disk_ok s bs dev dn" "i < 4" and c: "cursor_at s n" "n + 8 \<le> 2 ^ 28"
  shows "\<exists>t j. add_partition dev mbr i s = Some (Inr t) \<and> cursor_at t j \<and> j \<le> n + 8"
proof -
  obtain F where K: "kinv s F live" using ok by (auto simp: blocks_ok_def)
  obtain b s1 where al: "kmalloc sizeof_PartBlockDev s = (b, s1)" by fastforce
  have sz: "0 < unat sizeof_PartBlockDev" "unat sizeof_PartBlockDev \<le> 2032" by (simp_all add: sizeof_PartBlockDev_def)
  have b: "b \<noteq> NULL" using kmalloc_small_succeeds [OF K c(1) _ sz] c(2) al by simp
  obtain j1 where j1: "cursor_at s1 j1" "j1 \<le> n + 4" using kmalloc_small_cursor [OF K c(1) _ sz al] c(2) by auto
  obtain F1 where K1: "kinv s1 F1 (insert (b - HEADER_SIZE, kind_of sizeof_PartBlockDev) live)"
    using kmalloc_spec [OF K _ al] b by (auto simp: sizeof_PartBlockDev_def)
  let ?s2 = "fill_partition dev mbr i b s1"
  have K2: "kinv ?s2 F1 (insert (b - HEADER_SIZE, kind_of sizeof_PartBlockDev) live)" and c2: "cursor_at ?s2 j1" using K1 j1(1) by simp_all
  obtain nm s3 where al2: "kmalloc 20 ?s2 = (nm, s3)" by fastforce
  have nm: "nm \<noteq> NULL" using kmalloc_small_succeeds [OF K2 c2, of 20] j1(2) c(2) al2 by simp
  obtain j2 where j2: "cursor_at s3 j2" "j2 \<le> j1 + 4" using kmalloc_small_cursor [OF K2 c2 _ _ _ al2] j1(2) c(2) by auto
  obtain r where r: "add_partition dev mbr i s = Some r" using add_partition_spec [OF ok refl] by blast
  have "\<exists>t. r = Inr t \<and> cursor_at t j2"
    using r b nm al al2 j2(1) unfolding add_partition_def name_partition_def
    by (auto simp: Let_def BLK_register_def klog_def cursor_at_def split: Option.bind_splits prod.splits)
  then show ?thesis using r j1(2) j2(2) by (auto intro!: exI [of _ j2])
qed

lemma mbr_loop_spec:
  fixes s :: "('d, 'a) files_scheme"
  assumes "blocks_ok s bs live" "disk_ok s bs dev dn" "range_below mbr 512" "set is \<subseteq> {..<4}"
    and "partitions dev dn mbr s live s ps js" "set ps \<subseteq> set bs" "set js \<subseteq> {..<4}"
    and "cursor_at s n" "n + 8 * length is \<le> 2 ^ 28"
  shows "\<exists>t qs live' j. mbr_loop dev mbr is s = Some (0, t) \<and> blocks_ok t (bs @ qs) live' \<and>
    partitions dev dn mbr s live' t (ps @ qs) (js @ filter (\<lambda>i. start_lba (bytes s) mbr i \<noteq> 0) is) \<and>
    blocks_keep bs s t \<and> cursor_at t j \<and> j \<le> n + 8 * length is"
  using assms
proof (induction "is" arbitrary: s bs live ps js n)
  case Nil
  then show ?case by (intro exI [of _ s] exI [of _ "[]"] exI [of _ live] exI [of _ n]) (simp add: blocks_keep_def)
next
  case (Cons i "is")
  have i: "i < 4" "set is \<subseteq> {..<4}" using Cons.prems(4) by simp_all
  show ?case
  proof (cases "start_lba (bytes s) mbr i = 0")
    case True
    have "n + 8 * length is \<le> 2 ^ 28" using Cons.prems(9) by simp
    from Cons.IH [OF Cons.prems(1-3) i(2) Cons.prems(5-8) this] obtain t qs l j where
      "mbr_loop dev mbr is s = Some (0, t)" "blocks_ok t (bs @ qs) l" "blocks_keep bs s t" "cursor_at t j" "j \<le> n + 8 * length is"
      "partitions dev dn mbr s l t (ps @ qs) (js @ filter (\<lambda>i. start_lba (bytes s) mbr i \<noteq> 0) is)" by blast
    then show ?thesis using True by (intro exI [of _ t] exI [of _ qs] exI [of _ l] exI [of _ j]) simp
  next
    case False
    obtain t j where t: "add_partition dev mbr i s = Some (Inr t)" "cursor_at t j" "j \<le> n + 8"
      using add_partition_room [OF Cons.prems(1,2) i(1) Cons.prems(8), of mbr] Cons.prems(9) by auto
    obtain b live' where P: "blocks_ok t (bs @ [b]) live'" "disk_ok t (bs @ [b]) dev dn" "partitions dev dn mbr t live' t (ps @ [b]) (js @ [i])"
        "agree (bytes t) (bytes s) mbr 512" "bdev_of t dev = bdev_of s dev" "blocks_keep bs s t"
      using partitions_step [OF Cons.prems(1-3) i(1) Cons.prems(5-7) t(1)] by blast
    have sub: "set (ps @ [b]) \<subseteq> set (bs @ [b])" "set (js @ [i]) \<subseteq> {..<4}" "j + 8 * length is \<le> 2 ^ 28"
      using Cons.prems(6,7,9) i(1) t(3) by auto
    from Cons.IH [OF P(1,2) Cons.prems(3) i(2) P(3) sub(1,2) t(2) sub(3)] obtain u qs l k where
      R: "mbr_loop dev mbr is t = Some (0, u)" "blocks_ok u ((bs @ [b]) @ qs) l"
        "partitions dev dn mbr t l u ((ps @ [b]) @ qs) ((js @ [i]) @ filter (\<lambda>i. start_lba (bytes t) mbr i \<noteq> 0) is)"
        "blocks_keep (bs @ [b]) t u" "cursor_at u k" "k \<le> j + 8 * length is" by blast
    have f: "filter (\<lambda>i. start_lba (bytes t) mbr i \<noteq> 0) is = filter (\<lambda>i. start_lba (bytes s) mbr i \<noteq> 0) is"
      using i(2) mbr_below(1) [OF P(4)] by (intro filter_cong) auto
    have "set ((js @ [i]) @ filter (\<lambda>i. start_lba (bytes t) mbr i \<noteq> 0) is) \<subseteq> {..<4}" using Cons.prems(7) i by auto
    from R(3) [unfolded partitions_mbr [OF P(4,5) this]] R(1,2,5,6) blocks_keep_trans [OF P(6) R(4)] t(1,3) False show ?thesis
      by (intro exI [of _ u] exI [of _ "b # qs"] exI [of _ l] exI [of _ k]) (simp add: f)
  qed
qed

text \<open>A device as a partition of a disk: \<open>s\<close> is the state in which the table was read.\<close>

definition is_partition :: "addr \<Rightarrow> u8 list \<Rightarrow> addr \<Rightarrow> ('d, 'a) files_scheme \<Rightarrow> ('d, 'a) files_scheme \<Rightarrow> addr \<Rightarrow> nat \<Rightarrow> bool" where
  "is_partition dev dn mbr s t p i \<longleftrightarrow>
     total_len (bdev_of t p) = ucast (num_sectors (bytes s) mbr i) * blk_size (bdev_of s dev) \<and>
     blk_size (bdev_of t p) = blk_size (bdev_of s dev) \<and> fs_type (bdev_of t p) = partition_type (bytes s) mbr i \<and>
     cstr (bytes t) (bd_name (bdev_of t p)) (dn @ [of_char CHR ''_'', of_char CHR ''1'' + of_nat i]) \<and>
     (\<forall>rd k dst. read_block rd p k dst t = read_block rd dev (k + ucast (start_lba (bytes s) mbr i)) dst t)"

lemma part_dev_is_partition:
  assumes "part_dev dev dn mbr (blk_size (bdev_of s dev)) (bytes s) l t p i"
  shows "is_partition dev dn mbr s t p i"
proof -
  have "read_block rd p k dst t = read_block rd dev (k + ucast (start_lba (bytes s) mbr i)) dst t" for rd k dst
    using assms by (subst read_block.simps) (simp add: part_dev_def)
  with assms show ?thesis by (simp add: part_dev_def is_partition_def)
qed

lemma FS_process_mbr_spec:
  fixes s :: "('d, 'a) files_scheme"
  assumes "blocks_ok s bs live" "disk_ok s bs dev dn" "range_below mbr 512" "cursor_at s n" "n + 32 \<le> 2 ^ 28"
    and "mbr_boot_sig (bytes s) mbr = 0xaa55" and js: "js = filter (\<lambda>i. start_lba (bytes s) mbr i \<noteq> 0) [0..<4]"
  shows "\<exists>t ps live' j. FS_process_mbr dev mbr s = Some (0, t) \<and> blocks_ok t (bs @ ps) live' \<and>
    partitions dev dn mbr s live' t ps js \<and> blocks_keep bs s t \<and> cursor_at t j \<and> j \<le> n + 32"
proof -
  have is4: "set [0..<4] \<subseteq> {..<4 :: nat}" by auto
  have none: "partitions dev dn mbr s live s [] []" by (simp add: partitions_def)
  show ?thesis using mbr_loop_spec [OF assms(1-3) is4 none _ _ assms(4)] assms(5,6) by (simp add: FS_process_mbr_def js)
qed

section \<open>Properties\<close>

text \<open>C16: partitions. For a registered disk with a valid boot signature, and with at least 32 pages of heap addresses left,
  \<open>FS_process_mbr\<close> returns 0 and has registered, behind the block devices there were, exactly one device per used entry of the
  partition table, in order: its size and type are the entry's, its name is the disk's with \<open>_1\<close> to \<open>_4\<close> appended, properly
  terminated, and reading its sector \<open>k\<close> is reading sector \<open>start + k\<close> of the disk (\<open>is_partition\<close>). Without the
  signature it returns an error and registers nothing.\<close>

theorem FS_process_mbr_correct:
  fixes s :: "('d, 'a) files_scheme"
  assumes "blocks_ok s bs live" "disk_ok s bs dev dn" "range_below mbr 512" "cursor_at s n" "n + 32 \<le> 2 ^ 28"
  shows "if mbr_boot_sig (bytes s) mbr = 0xaa55
    then \<exists>t ps. FS_process_mbr dev mbr s = Some (0, t) \<and> LL_for_each (f_blocks t) (lists t) = Some (bs @ ps) \<and>
      list_all2 (is_partition dev dn mbr s t) ps (filter (\<lambda>i. start_lba (bytes s) mbr i \<noteq> 0) [0..<4])
    else \<exists>t. FS_process_mbr dev mbr s = Some (- 1, t) \<and> lists t = lists s"
proof (cases "mbr_boot_sig (bytes s) mbr = 0xaa55")
  case True
  let ?js = "filter (\<lambda>i. start_lba (bytes s) mbr i \<noteq> 0) [0..<4]"
  obtain t qs l where t: "FS_process_mbr dev mbr s = Some (0, t)" and q: "blocks_ok t (bs @ qs) l" "partitions dev dn mbr s l t qs ?js"
    using FS_process_mbr_spec [OF assms True refl] by blast
  have "LL_for_each (f_blocks t) (lists t) = Some (bs @ qs)"
    using q(1) by (intro LL_for_each_list) (simp add: blocks_ok_def)
  moreover have "list_all2 (is_partition dev dn mbr s t) qs ?js"
    by (rule list_all2_mono [OF q(2) [unfolded partitions_def] part_dev_is_partition])
  ultimately show ?thesis using t True by auto
next
  case False
  then show ?thesis by (simp add: FS_process_mbr_def klog_def)
qed

text \<open>C17: the device directory. Registering a character device appends its name, device and operations to the
  directory (or fails without changing it when memory runs out), and opening a name finds the first entry with
  that name: it calls the \<open>open\<close> of the registered operations with the inode of the registered device and a
  new file that refers to them. An unknown name gives \<open>NULL\<close>. A file is returned even when the driver's \<open>open\<close> fails.\<close>

theorem device_directory:
  fixes s :: "('d, 'a) files_scheme"
  assumes "directory s dir" "cstr (bytes s) name cs"
  shows "(\<forall>cdev r t. below_heap (cdev + 16) \<and> cdev + 16 \<noteq> f_inodes s \<and> FS_register_cdev cdev name s = (r, t) \<longrightarrow>
      r = 0 \<and> directory t (dir @ [(cs, cdev, cd_fops (cdev_of s cdev))]) \<or> r = - 1 \<and> directory t dir) \<and>
    (case map_of dir cs of
       None \<Rightarrow> FS_open fops name fl s = Some (NULL, s)
     | Some (cd, fo) \<Rightarrow> \<exists>i. in_cdev (inode_of s i) = cd \<and> in_fops (inode_of s i) = fo \<and>
         FS_open fops name fl s =
           (let (new, u) = kmalloc sizeof_INode s
            in if new = NULL then Some (NULL, u)
               else map_option (\<lambda>(ret, t). (new, t)) (fo_open (fops fo) i new
                      (u\<lparr>ofile_of := (ofile_of u)(new := (ofile_of u new)\<lparr>of_inode := i, of_fops := fo\<rparr>)\<rparr>))))"
proof (intro conjI allI impI)
  fix cdev r t
  assume "below_heap (cdev + 16) \<and> cdev + 16 \<noteq> f_inodes s \<and> FS_register_cdev cdev name s = (r, t)"
  then show "r = 0 \<and> directory t (dir @ [(cs, cdev, cd_fops (cdev_of s cdev))]) \<or> r = - 1 \<and> directory t dir"
    using FS_register_cdev_directory [OF assms, of cdev r t] by blast
next
  obtain "is" live F where ok: "fs_ok s is live" and ent: "list_all2 (entry_at s) is dir" and K: "kinv s F live"
    using assms(1) by (auto simp: directory_def fs_ok_def)
  have each: "LL_for_each (f_inodes s) (lists s) = Some is" using ok by (intro LL_for_each_list) (simp add: fs_ok_def)
  have "list_all2 (\<lambda>i e. cstr (bytes s) (in_name (inode_of s i)) (fst e)) is dir"
    by (rule list_all2_mono [OF ent]) (simp add: entry_at_def)
  from find_name_map_of [OF this assms(2)] obtain r where
    r: "find_name (bytes s) name (\<lambda>i. in_name (inode_of s i)) is = Some r"
      "case r of None \<Rightarrow> map_of dir cs = None
       | Some i \<Rightarrow> \<exists>k<length is. is ! k = i \<and> fst (dir ! k) = cs \<and> map_of dir cs = Some (snd (dir ! k))" by blast
  obtain new u where al: "kmalloc sizeof_INode s = (new, u)" by fastforce
  note more = kheap_more_files [OF kmalloc_more [OF K al]]
  have nolog: "klog KLOG_LEVEL_DEBUG f a v = v" for f a and v :: "('d, 'a) files_scheme"
    by (simp add: klog_def KLOG_LEVEL_DEBUG_def KLOG_MIN_LOG_LEVEL_def)
  show "case map_of dir cs of
       None \<Rightarrow> FS_open fops name fl s = Some (NULL, s)
     | Some (cd, fo) \<Rightarrow> \<exists>i. in_cdev (inode_of s i) = cd \<and> in_fops (inode_of s i) = fo \<and>
         FS_open fops name fl s =
           (let (new, u) = kmalloc sizeof_INode s
            in if new = NULL then Some (NULL, u)
               else map_option (\<lambda>(ret, t). (new, t)) (fo_open (fops fo) i new
                      (u\<lparr>ofile_of := (ofile_of u)(new := (ofile_of u new)\<lparr>of_inode := i, of_fops := fo\<rparr>)\<rparr>)))"
  proof (cases r)
    case None
    then show ?thesis using r each by (simp add: FS_open_def nolog)
  next
    case (Some i)
    then obtain k where k: "k < length is" "is ! k = i" "map_of dir cs = Some (snd (dir ! k))" using r(2) by auto
    then have "in_cdev (inode_of s i) = fst (snd (dir ! k))" "in_fops (inode_of s i) = snd (snd (dir ! k))"
      using list_all2_nthD [OF ent k(1)] by (simp_all add: entry_at_def)
    then show ?thesis
      using r(1) Some each k(3) al by (auto simp: FS_open_def nolog more Let_def split: prod.splits intro!: exI [of _ i])
  qed
qed

text \<open>The list of character devices is initialised with the address of the list of block devices, so that the
  first registration of a character device corrupts the block list: although no block device was registered,
  a walk over the block devices visits two of them, at addresses inside of the character device and of the
  list heads.\<close>

theorem cdev_registration_corrupts_blocks:
  assumes "kinv s F live" "lists s = Files_init (f_inodes s) (f_blocks s) (f_chars s) h"
    and "distinct [f_inodes s, f_blocks s, f_chars s, cdev + 16]"
    and "below_heap (f_inodes s)" "below_heap (f_blocks s)" "below_heap (f_chars s)" "below_heap (cdev + 16)"
    and "FS_register_cdev cdev name s = (0, t)"
  shows "LL_for_each (f_blocks s) (lists s) = Some [] \<and> LL_for_each (f_blocks s) (lists t) = Some [cdev - 24, f_chars s - 40]"
proof
  show "LL_for_each (f_blocks s) (lists s) = Some []"
    using assms(2,3) by (simp add: LL_for_each_def ll_walk.simps Files_init_def)
  obtain new u where al: "kmalloc sizeof_INode s = (new, u)" by fastforce
  note more = kheap_more_files [OF kmalloc_more [OF assms(1) al]]
  have n: "new \<noteq> NULL" using assms(8) al by (auto simp: FS_register_cdev_def)
  then obtain F' where K': "kinv u F' (insert (new - HEADER_SIZE, kind_of sizeof_INode) live)"
    using kmalloc_spec [OF assms(1) _ al] by (auto simp: sizeof_INode_def)
  have "\<not> below_heap (new + 32)"
    using heap_header [OF K', of new "kind_of sizeof_INode" 32] by (simp add: kind_of_INode pool_block_size_def)
  then have ne: "new + 32 \<noteq> f_inodes s" "new + 32 \<noteq> f_blocks s" "new + 32 \<noteq> f_chars s" "new + 32 \<noteq> cdev + 16"
    using assms(4-7) by metis+
  let ?h = "LL_enqueue (f_chars s) cdev (LL_enqueue (f_inodes s) new (lists s))"
  have t: "lists t = ?h" using assms(8) al n by (auto simp: FS_register_cdev_def more)
  have N: "nxt ?h (f_blocks s) = cdev + 16" "nxt ?h (cdev + 16) = f_chars s" "nxt ?h (f_chars s) = f_blocks s"
    "hoff (lists s) (f_blocks s) = 40"
    using assms(2,3) ne by (auto simp: LL_enqueue_links Files_init_def)
  have w0: "ll_walk ?h (f_blocks s) (f_blocks s - 40) = Some []"
    by (subst ll_walk.simps) (simp add: LL_nhead_def N)
  have w1: "ll_walk ?h (f_blocks s) (f_chars s - 40) = Some [f_chars s - 40]"
    using assms(3) w0 by (subst ll_walk.simps) (auto simp: LL_nhead_def LL_ndata_def N)
  have "ll_walk ?h (f_blocks s) (cdev - 24) = Some [cdev - 24, f_chars s - 40]"
    using assms(3) w1 N(2) by (subst ll_walk.simps) (auto simp: LL_nhead_def LL_ndata_def N(4) add.commute [of cdev])
  then show "LL_for_each (f_blocks s) (lists t) = Some [cdev - 24, f_chars s - 40]"
    by (simp add: t LL_for_each_def LL_ndata_def N)
qed

section \<open>Examples\<close>

text \<open>The empty system, and a system with a disk \<open>ata\<close> at \<open>0x5200\<close> whose boot record at \<open>0x6000\<close> has one
  entry: a FAT32 partition of 100 sectors at sector \<open>0x800\<close>.\<close>

definition fs_bytes :: bmem where
  "fs_bytes = (\<lambda>_. 0)(0x5100 := 0x61, 0x5101 := 0x74, 0x5102 := 0x61,
     0x61C2 := 0x0C, 0x61C7 := 0x08, 0x61CA := 100, 0x61FE := 0x55, 0x61FF := 0xAA)"

definition fs_example :: "unit files" where
  "fs_example = psys.extend (sched_example\<lparr>lists := Files_init 0x5000 0x5020 0x5040 sched_lists\<rparr>)
     (files.fields fs_bytes (\<lambda>_. \<lparr>cd_fops = 0x5300, cd_inode = NULL\<rparr>)
        (\<lambda>_. \<lparr>read_block_fn = Ata_read_block, blk_size = 512, total_len = 0, bd_name = 0x5100, bd_type = MASS_STORAGE, fs_type = 0\<rparr>)
        (\<lambda>_. \<lparr>phys_dev = NULL, sect_start = 0\<rparr>)
        (\<lambda>_. \<lparr>in_fops = NULL, in_type = 0, in_cdev = NULL, in_name = NULL, in_private = NULL\<rparr>)
        (\<lambda>_. \<lparr>of_inode = NULL, of_fops = NULL, private_data = NULL\<rparr>) 0x5000 0x5020 0x5040)"

lemma fs_example_sel [simp]:
  "lists fs_example = Files_init 0x5000 0x5020 0x5040 sched_lists" "bytes fs_example = fs_bytes"
  "f_inodes fs_example = 0x5000" "f_blocks fs_example = 0x5020" "f_chars fs_example = 0x5040"
  "blk_size (bdev_of fs_example d) = 512" "bd_name (bdev_of fs_example d) = 0x5100" "cd_fops (cdev_of fs_example c) = 0x5300"
  by (simp_all add: fs_example_def psys.extend_def files.fields_def)

lemma fs_example_kinv: "kinv fs_example (\<lambda>_. []) {}"
proof -
  have "kinv fs_example (\<lambda>_. []) {} = kinv heap_example (\<lambda>_. []) {}"
    by (rule kinv_cong)
      (simp_all add: fs_example_def sched_example_def psys.extend_def files.fields_def kheap.extend_def psys.fields_def)
  then show ?thesis using heap_init_kinv [OF heap_example_init(1)] by simp
qed

lemma fs_example_directory: "directory fs_example []"
proof -
  have "fs_ok fs_example [] {}"
    using fs_example_kinv by (auto simp: fs_ok_def ll_list_Nil Files_init_def below_heap_def)
  then show ?thesis by (auto simp: directory_def)
qed

lemma fs_example_name: "cstr fs_bytes 0x5100 [0x61, 0x74, 0x61]"
  by (simp add: fs_bytes_def)

lemma fs_example_cursor: "cursor_at fs_example 0"
  using heap_example_init(2)
  by (simp add: cursor_at_def fs_example_def sched_example_def psys.extend_def files.fields_def kheap.extend_def psys.fields_def)

lemma fs_example_register: "\<exists>t. FS_register_cdev 0x5400 0x5100 fs_example = (0, t)"
  using kmalloc_small_succeeds [OF fs_example_kinv fs_example_cursor, of sizeof_INode]
  by (auto simp: FS_register_cdev_def sizeof_INode_def split: prod.split)

theorem device_directory_witness:
  "\<exists>t. FS_register_cdev 0x5400 0x5100 fs_example = (0, t) \<and> directory t [([0x61, 0x74, 0x61], 0x5400, 0x5300)] \<and>
     FS_open (\<lambda>_. undefined :: (unit files, unit) FileOps) 0x5100 0 fs_example = Some (NULL, fs_example)"
proof -
  obtain t where t: "FS_register_cdev 0x5400 0x5100 fs_example = (0, t)" using fs_example_register by blast
  have n: "cstr (bytes fs_example) 0x5100 [0x61, 0x74, 0x61]" using fs_example_name by simp
  note D = device_directory [OF fs_example_directory n, of "\<lambda>_. undefined :: (unit files, unit) FileOps" 0]
  show ?thesis
    using D [THEN conjunct1, rule_format, of "0x5400" 0 t] D [THEN conjunct2] t by (simp add: below_heap_def)
qed

theorem cdev_registration_corrupts_blocks_witness:
  "\<exists>t. FS_register_cdev 0x5400 0x5100 fs_example = (0, t) \<and> LL_for_each 0x5020 (lists t) = Some [0x53E8, 0x5018]"
  using cdev_registration_corrupts_blocks [OF fs_example_kinv, of sched_lists "0x5400" "0x5100"] fs_example_register
  by (auto simp: below_heap_def)

definition disk_example :: "unit files" where
  "disk_example = fs_example\<lparr>lists := LL_enqueue 0x5020 0x5200 (lists fs_example)\<rparr>"

theorem FS_process_mbr_correct_witness:
  "\<exists>t p. FS_process_mbr 0x5200 0x6000 disk_example = Some (0, t) \<and> LL_for_each (f_blocks t) (lists t) = Some [0x5200, p] \<and>
     total_len (bdev_of t p) = 51200 \<and> fs_type (bdev_of t p) = 0x0C"
proof -
  have K: "kinv disk_example (\<lambda>_. []) {}" using fs_example_kinv by (subst kinv_cong [of _ fs_example]) (auto simp: disk_example_def)
  have "ll_list (Files_init 0x5000 0x5020 0x5040 sched_lists) 0x5020 []" by (simp add: ll_list_Nil Files_init_def)
  then have "ll_list (lists disk_example) 0x5020 ([] @ [0x5200])"
    unfolding disk_example_def by (simp, intro LL_enqueue_list [where ds = "[]", simplified]) (simp_all add: LL_nhead_def Files_init_def)
  then have ok: "blocks_ok disk_example [0x5200] {}"
    using K by (auto simp: blocks_ok_def held_def below_heap_def disk_example_def Files_init_def)
  have d: "disk_ok disk_example [0x5200] 0x5200 [0x61, 0x74, 0x61]" "range_below 0x6000 512"
    using fs_example_name by (simp_all add: disk_ok_def disk_example_def range_below_def below_heap_def)
  have sig: "mbr_boot_sig (bytes disk_example) 0x6000 = 0xaa55"
    by (simp add: mbr_boot_sig_def load16_def disk_example_def fs_bytes_def)
  have st: "filter (\<lambda>i. start_lba (bytes disk_example) 0x6000 i \<noteq> 0) [0..<4] = [0]"
    by (simp add: upt_conv_Cons start_lba_def part_record_def load32_def load16_def disk_example_def fs_bytes_def)
  have v: "num_sectors fs_bytes 0x6000 0 = 100" "partition_type fs_bytes 0x6000 0 = 0x0C"
    by (simp_all add: num_sectors_def partition_type_def part_record_def load32_def load16_def fs_bytes_def)
  have c: "cursor_at disk_example 0" using fs_example_cursor by (simp add: cursor_at_def disk_example_def)
  obtain t ps where "FS_process_mbr 0x5200 0x6000 disk_example = Some (0, t)" "LL_for_each (f_blocks t) (lists t) = Some ([0x5200] @ ps)"
      "list_all2 (is_partition 0x5200 [0x61, 0x74, 0x61] 0x6000 disk_example t) ps [0]"
    using FS_process_mbr_correct [OF ok d c] sig st by auto
  then show ?thesis
    by (auto simp: list_all2_Cons2 is_partition_def disk_example_def v)
qed

end
