(* ===== verification/Ps2.thy ===== *)
theory Ps2
  imports Fs "HOL-Library.Monad_Syntax"
begin

text \<open>
  The keyboard: the translation of scan codes in \<^verbatim>\<open>drivers/keyboard/keyboard.c\<close> and the PS/2
  driver in \<^verbatim>\<open>drivers/keyboard/ps2.c\<close>, with its interrupt handler, its ring of 128 characters and its blocking
  read.

  The loops that poll the controller may run forever; \<open>None\<close> is that run. A read that finds nothing
  blocks: its result is the frame and the state with which the next process continues (\<open>Inl\<close>). When the
  reader is scheduled again, it disables interrupts and tests again, which is what \<open>ps2_read\<close> does from its
  start, so the rest of the call is \<open>ps2_read\<close> again.
\<close>

section \<open>Scan codes\<close>

definition LEFT_SHIFT_SCAN_CODE :: u8 where "LEFT_SHIFT_SCAN_CODE = 0x12"
definition RIGHT_SHIFT_SCAN_CODE :: u8 where "RIGHT_SHIFT_SCAN_CODE = 0x59"
definition RELEASED_SCAN_CODE :: u8 where "RELEASED_SCAN_CODE = 0xf0"

text \<open>The cases of the \<open>switch\<close>: code, character with shift, character without.\<close>

definition scan_codes :: "(u8 \<times> char \<times> char) list" where
  "scan_codes =
    [(0x1c, CHR ''A'', CHR ''a''), (0x32, CHR ''B'', CHR ''b''), (0x21, CHR ''C'', CHR ''c''), (0x23, CHR ''D'', CHR ''d''),
     (0x24, CHR ''E'', CHR ''e''), (0x2b, CHR ''F'', CHR ''f''), (0x34, CHR ''G'', CHR ''g''), (0x33, CHR ''H'', CHR ''h''),
     (0x43, CHR ''I'', CHR ''i''), (0x3b, CHR ''J'', CHR ''j''), (0x42, CHR ''K'', CHR ''k''), (0x4b, CHR ''L'', CHR ''l''),
     (0x3a, CHR ''M'', CHR ''m''), (0x31, CHR ''N'', CHR ''n''), (0x44, CHR ''O'', CHR ''o''), (0x4d, CHR ''P'', CHR ''p''),
     (0x15, CHR ''Q'', CHR ''q''), (0x2d, CHR ''R'', CHR ''r''), (0x1b, CHR ''S'', CHR ''s''), (0x2c, CHR ''T'', CHR ''t''),
     (0x3c, CHR ''U'', CHR ''u''), (0x2a, CHR ''V'', CHR ''v''), (0x1d, CHR ''W'', CHR ''w''), (0x22, CHR ''X'', CHR ''x''),
     (0x35, CHR ''Y'', CHR ''y''), (0x1a, CHR ''Z'', CHR ''z''), (0x16, CHR ''!'', CHR ''1''), (0x1e, CHR ''@'', CHR ''2''),
     (0x26, CHR ''#'', CHR ''3''), (0x25, CHR ''$'', CHR ''4''), (0x2e, CHR ''%'', CHR ''5''), (0x36, CHR ''^'', CHR ''6''),
     (0x3d, CHR ''&'', CHR ''7''), (0x3e, CHR ''*'', CHR ''8''), (0x46, CHR ''('', CHR ''9''), (0x45, CHR '')'', CHR ''0''),
     (0x4e, CHR ''_'', CHR ''-''), (0x55, CHR ''+'', CHR ''=''), (0x5A, CHR 0x0A, CHR 0x0A), (0x29, CHR '' '', CHR '' '')]"

definition translate_scan_code :: "u8 \<Rightarrow> u8 \<Rightarrow> u8" where
  "translate_scan_code shift code =
     (case map_of scan_codes code of
        Some (up, lo) \<Rightarrow> of_char (if shift \<noteq> 0 then up else lo)
      | None \<Rightarrow> of_char CHR ''?'')"

section \<open>State\<close>

definition PS2_DATA_PORT :: u16 where "PS2_DATA_PORT = 0x60"
definition PS2_CMD_PORT :: u16 where "PS2_CMD_PORT = 0x64"
definition PS2_STATUS_PORT :: u16 where "PS2_STATUS_PORT = 0x64"
definition PS2_CMD_DISABLE_P1 :: u8 where "PS2_CMD_DISABLE_P1 = 0xAD"
definition PS2_CMD_ENABLE_P1 :: u8 where "PS2_CMD_ENABLE_P1 = 0xAE"
definition PS2_CMD_DISABLE_P2 :: u8 where "PS2_CMD_DISABLE_P2 = 0xA7"
definition PS2_CMD_READ_CNTL_CFG :: u8 where "PS2_CMD_READ_CNTL_CFG = 0x20"
definition PS2_CMD_WRITE_CNTL_CFG :: u8 where "PS2_CMD_WRITE_CNTL_CFG = 0x60"
definition PS2_CMD_P1_SELF_TEST :: u8 where "PS2_CMD_P1_SELF_TEST = 0xAA"
definition PS2_CMD_P1_INTERFACE_TEST :: u8 where "PS2_CMD_P1_INTERFACE_TEST = 0xAB"
definition PS2_STATUS_OUTPUT :: u8 where "PS2_STATUS_OUTPUT = 1"
definition PS2_STATUS_INPUT :: u8 where "PS2_STATUS_INPUT = 2"
definition PS2_CNTL_CFG_P1_INT :: u8 where "PS2_CNTL_CFG_P1_INT = 1"
definition PS2_CNTL_CFG_P2_INT :: u8 where "PS2_CNTL_CFG_P2_INT = 2"
definition PS2_CNTL_CFG_TRANS :: u8 where "PS2_CNTL_CFG_TRANS = 64"
definition PS2_BUFF_SIZE :: u64 where "PS2_BUFF_SIZE = 128"
definition sizeof_PS2User :: u64 where "sizeof_PS2User = 16"

text \<open>\<open>struct PS2Device\<close> with its only instance \<open>ps2_dev\<close>; \<open>user_pos\<close> is the member of the \<open>struct PS2User\<close> at
  an address. \<open>ps2_cdev\<close>, \<open>ps2_fops_addr\<close> and \<open>ps2_name\<close> are the addresses of the device, of \<open>ps2_fops\<close> and
  of the string literal.\<close>

record 'd ps2 = "'d files" +
  ps2_cdev :: addr
  blocked_procs :: addr
  shift_pressed :: u8
  ps2_data :: "u8 list"
  ps2_pos :: u64
  num_open :: int
  user_pos :: "addr \<Rightarrow> u64"
  ps2_fops_addr :: addr
  ps2_name :: addr

definition BUFF_POS :: "u64 \<Rightarrow> u64" where
  "BUFF_POS pos = (if pos = - 1 then PS2_BUFF_SIZE - 1 else pos) mod PS2_BUFF_SIZE"

definition consumer_read_next :: "addr \<Rightarrow> ('d, 'a) ps2_scheme \<Rightarrow> u8 \<times> ('d, 'a) ps2_scheme" where
  "consumer_read_next user s =
     (ps2_data s ! unat (user_pos s user), s\<lparr>user_pos := (user_pos s)(user := BUFF_POS (user_pos s user + 1))\<rparr>)"

definition producer_add :: "u8 \<Rightarrow> ('d, 'a) ps2_scheme \<Rightarrow> ('d, 'a) ps2_scheme" where
  "producer_add c s =
     (let s = s\<lparr>ps2_data := (ps2_data s)[unat (ps2_pos s) := c]\<rparr> in s\<lparr>ps2_pos := BUFF_POS (ps2_pos s + 1)\<rparr>)"

definition consumer_has_bytes :: "addr \<Rightarrow> ('d, 'a) ps2_scheme \<Rightarrow> bool" where
  "consumer_has_bytes user s = (\<not> user_pos s user = ps2_pos s)"

section \<open>The controller\<close>

partial_function (option) ps2_wait_writable :: "'d device \<Rightarrow> ('d, 'a) kbase_scheme \<Rightarrow> ('d, 'a) kbase_scheme option" where
  "ps2_wait_writable dev s =
     (let (status, s) = inb dev PS2_STATUS_PORT s
      in if status AND PS2_STATUS_INPUT \<noteq> 0 then ps2_wait_writable dev s else Some s)"

partial_function (option) ps2_wait_readable :: "'d device \<Rightarrow> ('d, 'a) kbase_scheme \<Rightarrow> ('d, 'a) kbase_scheme option" where
  "ps2_wait_readable dev s =
     (let (status, s) = inb dev PS2_STATUS_PORT s
      in if status AND PS2_STATUS_OUTPUT = 0 then ps2_wait_readable dev s else Some s)"

definition ps2_read_cmd :: "'d device \<Rightarrow> u8 \<Rightarrow> ('d, 'a) kbase_scheme \<Rightarrow> (u8 \<times> ('d, 'a) kbase_scheme) option" where
  "ps2_read_cmd dev cmd s = do {
     s \<leftarrow> ps2_wait_writable dev s;
     s \<leftarrow> ps2_wait_readable dev (outb dev PS2_CMD_PORT cmd s);
     Some (inb dev PS2_DATA_PORT s) }"

definition ps2_write_cmd :: "'d device \<Rightarrow> u8 \<Rightarrow> u8 \<Rightarrow> ('d, 'a) kbase_scheme \<Rightarrow> ('d, 'a) kbase_scheme option" where
  "ps2_write_cmd dev cmd val s = do {
     s \<leftarrow> ps2_wait_writable dev s;
     s \<leftarrow> ps2_wait_writable dev (outb dev PS2_CMD_PORT cmd s);
     Some (outb dev PS2_DATA_PORT val s) }"

definition ps2_write_data_p1 :: "'d device \<Rightarrow> u8 \<Rightarrow> ('d, 'a) kbase_scheme \<Rightarrow> ('d, 'a) kbase_scheme option" where
  "ps2_write_data_p1 dev val s = do { s \<leftarrow> ps2_wait_writable dev s; Some (outb dev PS2_DATA_PORT val s) }"

definition ps2_read_data_p1 :: "'d device \<Rightarrow> ('d, 'a) kbase_scheme \<Rightarrow> (u8 \<times> ('d, 'a) kbase_scheme) option" where
  "ps2_read_data_p1 dev s = do { s \<leftarrow> ps2_wait_readable dev s; Some (inb dev PS2_DATA_PORT s) }"

definition ps2_char_avail :: "'d device \<Rightarrow> ('d, 'a) kbase_scheme \<Rightarrow> bool \<times> ('d, 'a) kbase_scheme" where
  "ps2_char_avail dev s = (let (v, s) = inb dev PS2_STATUS_PORT s in (v AND PS2_STATUS_OUTPUT \<noteq> 0, s))"

definition ps2_read_char :: "'d device \<Rightarrow> ('d, 'a) ps2_scheme \<Rightarrow> (u8 \<times> ('d, 'a) ps2_scheme) option" where
  "ps2_read_char dev s =
     (let (avail, s) = ps2_char_avail dev s
      in if \<not> avail then Some (0, s)
         else do {
           (scode, s) \<leftarrow> ps2_read_data_p1 dev s;
           if scode = LEFT_SHIFT_SCAN_CODE \<or> scode = RIGHT_SHIFT_SCAN_CODE then Some (0, s\<lparr>shift_pressed := 1\<rparr>)
           else if scode \<noteq> RELEASED_SCAN_CODE then Some (translate_scan_code (shift_pressed s) scode, s)
           else do {
             (scode, s) \<leftarrow> ps2_read_data_p1 dev s;
             Some (0, if scode = LEFT_SHIFT_SCAN_CODE \<or> scode = RIGHT_SHIFT_SCAN_CODE then s\<lparr>shift_pressed := 0\<rparr> else s) } })"

definition ps2_isr :: "'d device \<Rightarrow> u32 \<Rightarrow> u32 \<Rightarrow> addr \<Rightarrow> ('d, 'a) ps2_scheme \<Rightarrow> ('d, 'a) ps2_scheme option" where
  "ps2_isr dev irq err a s = do {
     (c, s) \<leftarrow> ps2_read_char dev s;
     if c = 0 then Some s
     else PROC_unblock_all (blocked_procs s) (producer_add c s) }"

definition ps2_init :: "'d device \<Rightarrow> ('d, 'a) kbase_scheme \<Rightarrow> (int \<times> ('d, 'a) kbase_scheme) option" where
  "ps2_init dev s = do {
     let s = outb dev PS2_CMD_PORT PS2_CMD_DISABLE_P1 s;
     let s = outb dev PS2_CMD_PORT PS2_CMD_DISABLE_P2 s;
     let (_, s) = inb dev PS2_DATA_PORT s;
     (cntl_cfg, s) \<leftarrow> ps2_read_cmd dev PS2_CMD_READ_CNTL_CFG s;
     let cntl_cfg = cntl_cfg AND NOT (PS2_CNTL_CFG_P1_INT OR PS2_CNTL_CFG_P2_INT OR PS2_CNTL_CFG_TRANS);
     let cntl_cfg = cntl_cfg OR PS2_CNTL_CFG_P1_INT;
     s \<leftarrow> ps2_write_cmd dev PS2_CMD_WRITE_CNTL_CFG cntl_cfg s;
     (resp, s) \<leftarrow> ps2_read_cmd dev PS2_CMD_P1_SELF_TEST s;
     let s = (if resp \<noteq> 0x55 then klog KLOG_LEVEL_ERR ''PS2 port 1 failed self check'' [] s else s);
     s \<leftarrow> ps2_write_cmd dev PS2_CMD_WRITE_CNTL_CFG cntl_cfg s;
     (resp, s) \<leftarrow> ps2_read_cmd dev PS2_CMD_P1_INTERFACE_TEST s;
     let s = (if resp \<noteq> 0x00 then klog KLOG_LEVEL_ERR ''PS2 port 1 interface test failed'' [] s else s);
     let s = outb dev PS2_CMD_PORT PS2_CMD_ENABLE_P1 s;
     s \<leftarrow> ps2_write_data_p1 dev 0xFF s;
     (resp, s) \<leftarrow> ps2_read_data_p1 dev s;
     let s = (if resp \<noteq> 0xFA then klog KLOG_LEVEL_ERR ''PS2 device did not reset'' [] s else s);
     (resp, s) \<leftarrow> ps2_read_data_p1 dev s;
     let s = (if resp \<noteq> 0xAA then klog KLOG_LEVEL_ERR ''PS2 device did not reset'' [] s else s);
     s \<leftarrow> IRQ_set_handler 0x21 (Some Ps2_isr) NULL s;
     Some (0, IRQ_clear_mask dev 0x21 s) }"

definition ps2_cleanup :: "'d device \<Rightarrow> ('d, 'a) kbase_scheme \<Rightarrow> int \<times> ('d, 'a) kbase_scheme" where
  "ps2_cleanup dev s = (0, IRQ_set_mask dev 0x21 s)"

section \<open>The file operations\<close>

definition ps2_open :: "'d device \<Rightarrow> addr \<Rightarrow> addr \<Rightarrow> ('d, 'a) ps2_scheme \<Rightarrow> (int \<times> ('d, 'a) ps2_scheme) option" where
  "ps2_open dev inode file s =
     (let (user, s) = kmalloc sizeof_PS2User s
      in if user = NULL then Some (- 1, s)
         else do {
           let s = s\<lparr>ofile_of := (ofile_of s)(file := (ofile_of s file)\<lparr>private_data := user\<rparr>)\<rparr>;
           let s = IRQ_disable s;
           s \<leftarrow> (if num_open s = 0 then map_option snd (ps2_init dev s) else Some s);
           let s = s\<lparr>num_open := num_open s + 1\<rparr>;
           let s = s\<lparr>user_pos := (user_pos s)(user := ps2_pos s)\<rparr>;
           Some (0, IRQ_enable s) })"

text \<open>The bytes that are stored at \<open>dest\<close>; their number is the result.\<close>

fun ps2_copy :: "nat \<Rightarrow> addr \<Rightarrow> ('d, 'a) ps2_scheme \<Rightarrow> u8 list \<times> ('d, 'a) ps2_scheme" where
  "ps2_copy 0 user s = ([], s)"
| "ps2_copy (Suc len) user s =
     (if consumer_has_bytes user s
      then let (c, s) = consumer_read_next user s; (cs, s) = ps2_copy len user s in (c # cs, s)
      else ([], s))"

definition ps2_read ::
  "'d device \<Rightarrow> (irq_handler \<Rightarrow> u32 \<Rightarrow> u32 \<Rightarrow> addr \<Rightarrow> ('d, 'a) ps2_scheme \<Rightarrow> ('d, 'a) ps2_scheme) \<Rightarrow> frame \<Rightarrow>
   addr \<Rightarrow> addr \<Rightarrow> u64 \<Rightarrow> ('d, 'a) ps2_scheme \<Rightarrow> (frame \<times> ('d, 'a) ps2_scheme) + (u8 list \<times> ('d, 'a) ps2_scheme)" where
  "ps2_read dev drv ctx fd dest len s =
     (let user = private_data (ofile_of s fd);
          s = IRQ_disable s
      in if \<not> consumer_has_bytes user s then Inl (PROC_block_on dev drv (blocked_procs s) True ctx s)
         else let (cs, s) = ps2_copy (unat len) user s in Inr (cs, IRQ_enable s))"

text \<open>\<open>ps2_close\<close> frees the file and not the \<open>PS2User\<close> its \<open>private_data\<close> refers to.\<close>

definition ps2_close :: "'d device \<Rightarrow> addr \<Rightarrow> ('d, 'a) ps2_scheme \<Rightarrow> (int \<times> ('d, 'a) ps2_scheme) option" where
  "ps2_close dev fd s = do {
     s \<leftarrow> kfree fd s;
     let s = IRQ_disable s;
     let s = s\<lparr>num_open := num_open s - 1\<rparr>;
     let s = (if num_open s = 0 then snd (ps2_cleanup dev s) else s);
     Some (0, IRQ_enable s) }"

definition ps2_fops ::
  "'d device \<Rightarrow> (irq_handler \<Rightarrow> u32 \<Rightarrow> u32 \<Rightarrow> addr \<Rightarrow> ('d, 'a) ps2_scheme \<Rightarrow> ('d, 'a) ps2_scheme) \<Rightarrow> frame \<Rightarrow>
   (('d, 'a) ps2_scheme, (frame \<times> ('d, 'a) ps2_scheme) + (u8 list \<times> ('d, 'a) ps2_scheme)) FileOps" where
  "ps2_fops dev drv ctx = \<lparr>fo_open = ps2_open dev, fo_close = ps2_close dev, fo_read = ps2_read dev drv ctx\<rparr>"

definition ps2_init_module :: "('d, 'a) ps2_scheme \<Rightarrow> int \<times> ('d, 'a) ps2_scheme" where
  "ps2_init_module s =
     (let s = FS_cdev_init (ps2_cdev s) (ps2_fops_addr s) s in (0, snd (FS_register_cdev (ps2_cdev s) (ps2_name s) s)))"

section \<open>The ring\<close>

text \<open>The characters a reader has not read yet stand between its position and the position of the producer.\<close>

definition kb_ring :: "('d, 'a) ps2_scheme \<Rightarrow> addr \<Rightarrow> u8 list \<Rightarrow> bool" where
  "kb_ring s u un \<longleftrightarrow> length (ps2_data s) = 128 \<and> unat (user_pos s u) < 128 \<and> length un < 128 \<and>
     unat (ps2_pos s) = (unat (user_pos s u) + length un) mod 128 \<and>
     (\<forall>k<length un. ps2_data s ! ((unat (user_pos s u) + k) mod 128) = un ! k)"

lemma BUFF_POS_succ: "unat p < 128 \<Longrightarrow> unat (BUFF_POS (p + 1)) = (unat p + 1) mod 128"
proof -
  assume p: "unat p < 128"
  then have u: "unat (p + 1) = unat p + 1" by (simp add: unat_word_ariths)
  have "unat (- 1 :: u64) = 2 ^ 64 - 1" by (simp add: unsigned_minus_1_eq_mask mask_eq_exp_minus_1)
  with u p have "unat (p + 1) \<noteq> unat (- 1 :: u64)" by simp
  then have "p + 1 \<noteq> - 1" by metis
  then show ?thesis using u by (simp add: BUFF_POS_def PS2_BUFF_SIZE_def unat_mod)
qed

lemma ring_index_inj:
  assumes "(p + a) mod 128 = (p + b) mod (128::nat)" "a < 128" "b < 128"
  shows "a = b"
proof -
  have "(int p + int a) mod 128 = (int p + int b) mod 128" using assms(1) by (metis of_nat_add of_nat_mod of_nat_numeral)
  then have "(int p + int a - int p) mod 128 = (int p + int b - int p) mod 128" by (metis mod_diff_left_eq)
  then show ?thesis using assms(2,3) by simp
qed

lemma producer_add_ring:
  assumes "kb_ring s u un" "length un < 127"
  shows "kb_ring (producer_add c s) u (un @ [c])"
proof -
  let ?p = "unat (user_pos s u)" and ?t = "producer_add c s"
  have r: "length (ps2_data s) = 128" "?p < 128" "unat (ps2_pos s) = (?p + length un) mod 128"
    "\<forall>k<length un. ps2_data s ! ((?p + k) mod 128) = un ! k" using assms(1) by (auto simp: kb_ring_def)
  have t: "ps2_data ?t = (ps2_data s)[(?p + length un) mod 128 := c]" "user_pos ?t = user_pos s"
    "unat (ps2_pos ?t) = (?p + length (un @ [c])) mod 128"
    using r BUFF_POS_succ [of "ps2_pos s"] by (simp_all add: producer_add_def Let_def mod_Suc_eq)
  have "ps2_data ?t ! ((?p + k) mod 128) = (un @ [c]) ! k" if k: "k < length (un @ [c])" for k
  proof (cases "k = length un")
    case True
    then show ?thesis using r(1) by (simp add: t)
  next
    case False
    then have "k < length un" using k by simp
    moreover from this have "(?p + k) mod 128 \<noteq> (?p + length un) mod 128"
      using ring_index_inj [of ?p k "length un"] assms(2) by auto
    ultimately show ?thesis using r(4) by (simp add: t nth_append)
  qed
  then show ?thesis using r assms(2) t by (simp add: kb_ring_def)
qed

text \<open>The 128th unread character makes the ring look empty: the reader loses all of them.\<close>

lemma producer_add_overrun:
  assumes "kb_ring s u un" "length un = 127"
  shows "kb_ring (producer_add c s) u [] \<and> \<not> consumer_has_bytes u (producer_add c s)"
proof -
  let ?p = "unat (user_pos s u)"
  have r: "length (ps2_data s) = 128" "?p < 128" "unat (ps2_pos s) = (?p + 127) mod 128"
    using assms by (auto simp: kb_ring_def)
  have "unat (ps2_pos (producer_add c s)) = ((?p + 127) mod 128 + 1) mod 128"
    using BUFF_POS_succ [of "ps2_pos s"] r by (simp add: producer_add_def)
  also have "\<dots> = (?p + 128) mod 128" by (simp add: mod_Suc_eq)
  also have "\<dots> = ?p" using r(2) by simp
  finally have "unat (ps2_pos (producer_add c s)) = ?p" .
  then show ?thesis using r by (auto simp: kb_ring_def consumer_has_bytes_def producer_add_def Let_def word_unat_eq_iff)
qed

lemma has_bytes_ring: "kb_ring s u un \<Longrightarrow> consumer_has_bytes u s \<longleftrightarrow> un \<noteq> []"
proof -
  assume r: "kb_ring s u un"
  have "unat (user_pos s u) = (unat (user_pos s u) + length un) mod 128 \<longleftrightarrow> length un = 0"
    using ring_index_inj [of "unat (user_pos s u)" 0 "length un"] r by (auto simp: kb_ring_def)
  then show ?thesis using r by (auto simp: consumer_has_bytes_def kb_ring_def word_unat_eq_iff)
qed

lemma consumer_read_next_ring:
  assumes "kb_ring s u (c # un)"
  shows "\<exists>p. consumer_read_next u s = (c, s\<lparr>user_pos := (user_pos s)(u := p)\<rparr>) \<and>
    kb_ring (s\<lparr>user_pos := (user_pos s)(u := p)\<rparr>) u un"
proof -
  let ?p = "unat (user_pos s u)" and ?q = "BUFF_POS (user_pos s u + 1)"
  have r: "length (ps2_data s) = 128" "?p < 128" "Suc (length un) < 128" "unat (ps2_pos s) = (?p + Suc (length un)) mod 128"
    "\<forall>k<Suc (length un). ps2_data s ! ((?p + k) mod 128) = (c # un) ! k" using assms by (auto simp: kb_ring_def)
  have q: "unat ?q = (?p + 1) mod 128" by (rule BUFF_POS_succ [OF r(2)])
  have "ps2_data s ! ?p = c" using r(5) [rule_format, of 0] r(2) by simp
  moreover have "kb_ring (s\<lparr>user_pos := (user_pos s)(u := ?q)\<rparr>) u un"
  proof -
    have "(unat ?q + k) mod 128 = (?p + Suc k) mod 128" for k by (simp add: q mod_add_left_eq)
    then show ?thesis using r q by (auto simp: kb_ring_def)
  qed
  ultimately show ?thesis by (auto simp: consumer_read_next_def)
qed

lemma ps2_copy_ring:
  assumes "kb_ring s u un"
  shows "\<exists>p. ps2_copy n u s = (take n un, s\<lparr>user_pos := (user_pos s)(u := p)\<rparr>) \<and>
    kb_ring (s\<lparr>user_pos := (user_pos s)(u := p)\<rparr>) u (drop n un)"
  using assms
proof (induction n arbitrary: s un)
  case 0
  then show ?case by (intro exI [of _ "user_pos s u"]) simp
next
  case (Suc n)
  show ?case
  proof (cases un)
    case Nil
    then show ?thesis using Suc.prems has_bytes_ring [OF Suc.prems] by (intro exI [of _ "user_pos s u"]) simp
  next
    case (Cons c cs)
    obtain p where p: "consumer_read_next u s = (c, s\<lparr>user_pos := (user_pos s)(u := p)\<rparr>)"
      "kb_ring (s\<lparr>user_pos := (user_pos s)(u := p)\<rparr>) u cs" using consumer_read_next_ring Suc.prems Cons by blast
    from Suc.IH [OF p(2)] obtain q where q: "ps2_copy n u (s\<lparr>user_pos := (user_pos s)(u := p)\<rparr>) = (take n cs, s\<lparr>user_pos := (user_pos s)(u := q)\<rparr>)"
      "kb_ring (s\<lparr>user_pos := (user_pos s)(u := q)\<rparr>) u (drop n cs)" by (auto simp del: fun_upd_apply)
    then show ?thesis using p(1) Cons has_bytes_ring [OF Suc.prems] by (intro exI [of _ q]) (simp del: fun_upd_apply)
  qed
qed

lemma kb_ring_other: "v \<noteq> u \<Longrightarrow> kb_ring (s\<lparr>user_pos := (user_pos s)(u := p)\<rparr>) v un = kb_ring s v un"
  by (simp add: kb_ring_def)

lemma kb_ring_cong:
  assumes "ps2_data t = ps2_data s" "ps2_pos t = ps2_pos s" "user_pos t = user_pos s"
  shows "kb_ring t u un = kb_ring s u un"
  by (simp add: kb_ring_def assms)

section \<open>The specification\<close>

text \<open>What the driver relies on: the status says whether the controller holds a scan code, and reading the data port
  takes the first one. \<open>codes\<close> are the codes the controller holds.\<close>

definition keyboard :: "'d device \<Rightarrow> ('d \<Rightarrow> u8 list) \<Rightarrow> bool" where
  "keyboard dev codes \<longleftrightarrow>
     (\<forall>d. (ucast (fst (dev_in dev PS2_STATUS_PORT 8 d)) AND PS2_STATUS_OUTPUT \<noteq> 0) = (codes d \<noteq> []) \<and>
        codes (snd (dev_in dev PS2_STATUS_PORT 8 d)) = codes d) \<and>
     (\<forall>d c cs. codes d = c # cs \<longrightarrow> ucast (fst (dev_in dev PS2_DATA_PORT 8 d)) = c \<and> codes (snd (dev_in dev PS2_DATA_PORT 8 d)) = cs)"

definition is_shift :: "u8 \<Rightarrow> bool" where
  "is_shift c \<longleftrightarrow> c = LEFT_SHIFT_SCAN_CODE \<or> c = RIGHT_SHIFT_SCAN_CODE"

text \<open>One interrupt: the new state of the shift key, the character typed if any, and the remaining codes. \<open>None\<close>: a release
  code without the code of its key, for which the driver waits.\<close>

fun kb_key :: "bool \<Rightarrow> u8 list \<Rightarrow> (bool \<times> u8 list \<times> u8 list) option" where
  "kb_key sh [] = Some (sh, [], [])"
| "kb_key sh (c # cs) =
     (if is_shift c then Some (True, [], cs)
      else if c \<noteq> RELEASED_SCAN_CODE then Some (sh, [translate_scan_code (if sh then 1 else 0) c], cs)
      else case cs of [] \<Rightarrow> None | d # ds \<Rightarrow> Some (if is_shift d then False else sh, [], ds))"

text \<open>The abstract keyboard: shift, codes in the controller, and for each open file the characters not yet read. Every file
  gets every character; at most 127 may be outstanding.\<close>

type_synonym kbd = "bool \<times> u8 list \<times> (addr \<Rightarrow> u8 list)"

datatype kb_event = Key | Read addr u64

fun kb_spec :: "addr set \<Rightarrow> kb_event list \<Rightarrow> kbd \<Rightarrow> (u8 list list \<times> kbd) option" where
  "kb_spec FD [] k = Some ([], k)"
| "kb_spec FD (Key # es) (sh, codes, un) =
     (case kb_key sh codes of
        None \<Rightarrow> None
      | Some (sh, cs, codes) \<Rightarrow>
          if cs \<noteq> [] \<and> \<not> (\<forall>fd\<in>FD. length (un fd) < 127) then None else kb_spec FD es (sh, codes, \<lambda>fd. un fd @ cs))"
| "kb_spec FD (Read fd n # es) (sh, codes, un) =
     (if fd \<notin> FD \<or> un fd = [] then None
      else map_option (apfst ((#) (take (unat n) (un fd)))) (kb_spec FD es (sh, codes, un(fd := drop (unat n) (un fd)))))"

fun kb_run ::
  "'d device \<Rightarrow> (irq_handler \<Rightarrow> u32 \<Rightarrow> u32 \<Rightarrow> addr \<Rightarrow> ('d, 'a) ps2_scheme \<Rightarrow> ('d, 'a) ps2_scheme) \<Rightarrow> frame \<Rightarrow>
   kb_event list \<Rightarrow> ('d, 'a) ps2_scheme \<Rightarrow> (u8 list list \<times> ('d, 'a) ps2_scheme) option" where
  "kb_run dev drv ctx [] s = Some ([], s)"
| "kb_run dev drv ctx (Key # es) s = Option.bind (ps2_isr dev 0x21 0 NULL s) (kb_run dev drv ctx es)"
| "kb_run dev drv ctx (Read fd n # es) s =
     (case ps2_read dev drv ctx fd NULL n s of
        Inl _ \<Rightarrow> None
      | Inr (cs, s) \<Rightarrow> map_option (apfst ((#) cs)) (kb_run dev drv ctx es s))"

definition kb_rep :: "('d \<Rightarrow> u8 list) \<Rightarrow> addr set \<Rightarrow> ('d, 'a) ps2_scheme \<Rightarrow> kbd \<Rightarrow> bool" where
  "kb_rep q FD s k \<longleftrightarrow> (case k of (sh, codes, un) \<Rightarrow>
     inj_on (\<lambda>fd. private_data (ofile_of s fd)) FD \<and> (\<forall>fd\<in>FD. kb_ring s (private_data (ofile_of s fd)) (un fd)) \<and>
     (shift_pressed s \<noteq> 0) = sh \<and> q (devst s) = codes)"

definition kb_sched :: "('d, 'a) ps2_scheme \<Rightarrow> bool" where
  "kb_sched s \<longleftrightarrow> (\<exists>ws rs. waiting s (blocked_procs s) ws rs \<and> NULL \<notin> set ws) \<and> irq_ok s \<and> irq_semaphore s + 1 \<noteq> 0"

section \<open>One interrupt\<close>

lemma ps2_read_data_p1_keyboard:
  assumes "keyboard dev q" "q (devst s) = c # cs"
  shows "\<exists>d. ps2_read_data_p1 dev s = Some (c, s\<lparr>devst := d\<rparr>) \<and> q d = cs"
proof -
  obtain v d where st: "dev_in dev PS2_STATUS_PORT 8 (devst s) = (v, d)" by fastforce
  obtain w e where rd: "dev_in dev PS2_DATA_PORT 8 d = (w, e)" by fastforce
  have "ucast v AND PS2_STATUS_OUTPUT \<noteq> 0" "q d = c # cs"
    using assms st unfolding keyboard_def by (metis fst_conv snd_conv list.distinct(1))+
  moreover from this have "ucast w = c" "q e = cs"
    using assms(1) rd unfolding keyboard_def by (metis fst_conv snd_conv)+
  ultimately show ?thesis
    by (subst ps2_read_data_p1_def, subst ps2_wait_readable.simps) (auto simp: inb_def st rd)
qed

lemma ps2_read_char_key:
  assumes k: "keyboard dev q" and sh: "(shift_pressed s \<noteq> 0) = sh" and key: "kb_key sh (q (devst s)) = Some (sh', cs, rest)"
  shows "\<exists>d x c. ps2_read_char dev s = Some (c, s\<lparr>devst := d, shift_pressed := x\<rparr>) \<and> q d = rest \<and> (x \<noteq> 0) = sh' \<and>
    cs = (if c = 0 then [] else [c])"
proof -
  obtain v d where st: "dev_in dev PS2_STATUS_PORT 8 (devst s) = (v, d)" by fastforce
  have av: "(ucast v AND PS2_STATUS_OUTPUT \<noteq> 0) = (q (devst s) \<noteq> [])" "q d = q (devst s)"
    using k st unfolding keyboard_def by (metis fst_conv snd_conv)+
  let ?s = "s\<lparr>devst := d\<rparr>"
  have ca: "ps2_char_avail dev s = (q (devst s) \<noteq> [], ?s)" by (simp add: ps2_char_avail_def inb_def st av)
  show ?thesis
  proof (cases "q (devst s)")
    case Nil
    then show ?thesis using key sh av ca by (auto simp: ps2_read_char_def intro!: exI [of _ d] exI [of _ "shift_pressed s"])
  next
    case (Cons c codes)
    obtain e where e: "ps2_read_data_p1 dev ?s = Some (c, s\<lparr>devst := e\<rparr>)" "q e = codes"
      using ps2_read_data_p1_keyboard [OF k, of ?s c codes] Cons av(2) by auto
    consider (shift) "is_shift c" | (key) "\<not> is_shift c" "c \<noteq> RELEASED_SCAN_CODE" | (release) "\<not> is_shift c" "c = RELEASED_SCAN_CODE"
      by blast
    then show ?thesis
    proof cases
      case shift
      then show ?thesis using key Cons ca e
        by (auto simp: ps2_read_char_def is_shift_def intro!: exI [of _ e] exI [of _ 1])
    next
      case key
      have "translate_scan_code x c \<noteq> 0" for x
        by (auto simp: translate_scan_code_def scan_codes_def split: option.splits if_splits)
      moreover have "translate_scan_code (if sh then 1 else 0) c = translate_scan_code (shift_pressed s) c"
        using sh by (auto simp: translate_scan_code_def split: option.split)
      ultimately show ?thesis using key assms(3) sh Cons ca e
        by (auto simp: ps2_read_char_def is_shift_def intro!: exI [of _ e] exI [of _ "shift_pressed s"])
    next
      case release
      then obtain d2 rest2 where c2: "codes = d2 # rest2" using assms(3) Cons by (cases codes) auto
      obtain f where f: "ps2_read_data_p1 dev (s\<lparr>devst := e\<rparr>) = Some (d2, s\<lparr>devst := f\<rparr>)" "q f = rest2"
        using ps2_read_data_p1_keyboard [OF k, of "s\<lparr>devst := e\<rparr>" d2 rest2] c2 e(2) by auto
      show ?thesis using release assms(3) sh Cons ca e f c2
        by (auto simp: ps2_read_char_def is_shift_def split: if_splits
            intro!: exI [of _ f] exI [of _ "if is_shift d2 then 0 else shift_pressed s"])
    qed
  qed
qed

lemma ps2_isr_key:
  assumes k: "keyboard dev q" and rep: "kb_rep q FD s (sh, codes, un)" and sch: "kb_sched s"
    and key: "kb_key sh codes = Some (sh', cs, rest)" and room: "cs = [] \<or> (\<forall>fd\<in>FD. length (un fd) < 127)"
  shows "\<exists>t. ps2_isr dev irq err a s = Some t \<and> kb_rep q FD t (sh', rest, \<lambda>fd. un fd @ cs) \<and> kb_sched t"
proof -
  have r: "inj_on (\<lambda>fd. private_data (ofile_of s fd)) FD" "\<forall>fd\<in>FD. kb_ring s (private_data (ofile_of s fd)) (un fd)"
    "(shift_pressed s \<noteq> 0) = sh" "q (devst s) = codes" using rep by (auto simp: kb_rep_def)
  obtain d x c where c: "ps2_read_char dev s = Some (c, s\<lparr>devst := d, shift_pressed := x\<rparr>)" "q d = rest" "(x \<noteq> 0) = sh'"
    "cs = (if c = 0 then [] else [c])" using ps2_read_char_key [OF k r(3)] key r(4) by blast
  let ?s = "s\<lparr>devst := d, shift_pressed := x\<rparr>"
  have sched: "kb_sched ?s" using sch by (simp add: kb_sched_def waiting_def irq_ok_def)
  show ?thesis
  proof (cases "c = 0")
    case True
    have "kb_rep q FD ?s (sh', rest, un)" using r c by (simp add: kb_rep_def kb_ring_def)
    then show ?thesis using True c sched by (simp add: ps2_isr_def)
  next
    case False
    let ?t = "producer_add c ?s"
    have sel: "ofile_of ?t = ofile_of s" "shift_pressed ?t = x" "devst ?t = d" "blocked_procs ?t = blocked_procs s"
      "lists ?t = lists s" "ready_queue ?t = ready_queue s" "irq_semaphore ?t = irq_semaphore s" "int_flag ?t = int_flag s"
      by (simp_all add: producer_add_def Let_def)
    obtain ws rs where w: "waiting ?t (blocked_procs s) ws rs" "NULL \<notin> set ws" "irq_ok ?t" "irq_semaphore ?t + 1 \<noteq> 0"
      using sch by (auto simp: kb_sched_def waiting_def irq_ok_def sel)
    obtain h where h: "PROC_unblock_all (blocked_procs s) ?t = Some (?t\<lparr>lists := h\<rparr>)"
        "waiting (?t\<lparr>lists := h\<rparr>) (blocked_procs s) [] (rs @ ws)" using PROC_unblock_all_waiting [OF w] by blast
    have "kb_ring (?t\<lparr>lists := h\<rparr>) (private_data (ofile_of s fd)) (un fd @ [c])" if "fd \<in> FD" for fd
    proof -
      have "kb_ring ?s (private_data (ofile_of s fd)) (un fd)" using r(2) that by (simp add: kb_ring_def)
      moreover have "length (un fd) < 127" using room that c(4) False by simp
      ultimately show ?thesis using producer_add_ring [of ?s _ "un fd" c] by (subst kb_ring_cong [of _ ?t]) simp_all
    qed
    then have "kb_rep q FD (?t\<lparr>lists := h\<rparr>) (sh', rest, \<lambda>fd. un fd @ cs)"
      using r c False by (simp add: kb_rep_def sel)
    moreover have "kb_sched (?t\<lparr>lists := h\<rparr>)"
      unfolding kb_sched_def using h(2) w(3,4)
      by (intro conjI exI [of _ "[]"] exI [of _ "rs @ ws"]) (simp_all add: sel irq_ok_def)
    ultimately show ?thesis using h(1) c(1) False by (simp add: ps2_isr_def)
  qed
qed

lemma ps2_isr_wakes:
  assumes k: "keyboard dev q" and key: "kb_key (shift_pressed s \<noteq> 0) (q (devst s)) = Some (sh', [c], rest)"
    and w: "waiting s (blocked_procs s) ws rs" "NULL \<notin> set ws" "irq_ok s" "irq_semaphore s + 1 \<noteq> 0"
    and isr: "ps2_isr dev irq err a s = Some u"
  shows "ll_list (lists u) (ready_queue u) (rs @ ws)"
proof -
  obtain d x where "ps2_read_char dev s = Some (c, s\<lparr>devst := d, shift_pressed := x\<rparr>)" "c \<noteq> 0"
    using ps2_read_char_key [OF k refl key] by (auto split: if_splits)
  then have u: "PROC_unblock_all (blocked_procs s) (producer_add c (s\<lparr>devst := d, shift_pressed := x\<rparr>)) = Some u"
    using isr by (simp add: ps2_isr_def)
  let ?t = "producer_add c (s\<lparr>devst := d, shift_pressed := x\<rparr>)"
  have T: "waiting ?t (blocked_procs s) ws rs" "irq_ok ?t" "irq_semaphore ?t + 1 \<noteq> 0" "ready_queue ?t = ready_queue s"
    using w by (simp_all add: producer_add_def waiting_def irq_ok_def Let_def)
  from PROC_unblock_all_waiting [OF T(1) w(2) T(2,3)] u T(4) show ?thesis by auto
qed

section \<open>Reading\<close>

lemma ps2_read_available:
  assumes rep: "kb_rep q FD s (sh, codes, un)" and sch: "kb_sched s" and fd: "fd \<in> FD" "un fd \<noteq> []"
  shows "\<exists>t. ps2_read dev drv ctx fd dest n s = Inr (take (unat n) (un fd), t) \<and>
    kb_rep q FD t (sh, codes, un(fd := drop (unat n) (un fd))) \<and> kb_sched t \<and> (\<exists>p. t = s\<lparr>user_pos := p\<rparr>)"
proof -
  let ?u = "private_data (ofile_of s fd)" and ?s = "IRQ_disable s"
  have r: "inj_on (\<lambda>fd. private_data (ofile_of s fd)) FD" "\<forall>fd\<in>FD. kb_ring s (private_data (ofile_of s fd)) (un fd)"
    "(shift_pressed s \<noteq> 0) = sh" "q (devst s) = codes" using rep by (auto simp: kb_rep_def)
  have sel: "ofile_of ?s = ofile_of s" "ps2_data ?s = ps2_data s" "ps2_pos ?s = ps2_pos s" "user_pos ?s = user_pos s"
    by (simp_all add: IRQ_disable_def Let_def)
  have ring: "kb_ring ?s ?u (un fd)" using r(2) fd(1) by (subst kb_ring_cong [of _ s]) (simp_all add: sel)
  obtain p where p: "ps2_copy (unat n) ?u ?s = (take (unat n) (un fd), ?s\<lparr>user_pos := (user_pos ?s)(?u := p)\<rparr>)"
    "kb_ring (?s\<lparr>user_pos := (user_pos ?s)(?u := p)\<rparr>) ?u (drop (unat n) (un fd))" using ps2_copy_ring [OF ring] by blast
  let ?t = "s\<lparr>user_pos := (user_pos s)(?u := p)\<rparr>"
  have "?s\<lparr>user_pos := (user_pos ?s)(?u := p)\<rparr> = IRQ_disable ?t" by (simp add: IRQ_disable_def Let_def)
  moreover have "IRQ_enable (IRQ_disable ?t) = ?t" using sch by (intro IRQ_disable_enable) (simp_all add: kb_sched_def irq_ok_def)
  ultimately have rd: "ps2_read dev drv ctx fd dest n s = Inr (take (unat n) (un fd), ?t)"
    using has_bytes_ring [OF ring] fd(2) p(1) by (simp add: ps2_read_def Let_def)
  have "kb_ring ?t (private_data (ofile_of s f)) ((un(fd := drop (unat n) (un fd))) f)" if f: "f \<in> FD" for f
  proof (cases "f = fd")
    case True
    then show ?thesis using p(2) by (subst kb_ring_cong [of _ "?s\<lparr>user_pos := (user_pos ?s)(?u := p)\<rparr>"]) (simp_all add: sel)
  next
    case False
    then have "private_data (ofile_of s f) \<noteq> ?u" using r(1) f fd(1) by (auto dest: inj_onD)
    then show ?thesis using False r(2) f by (simp add: kb_ring_def)
  qed
  then have "kb_rep q FD ?t (sh, codes, un(fd := drop (unat n) (un fd)))" using r by (simp add: kb_rep_def)
  moreover have "kb_sched ?t" using sch by (simp add: kb_sched_def waiting_def irq_ok_def)
  ultimately show ?thesis using rd by blast
qed

text \<open>A read that finds nothing puts the process at the end of the queue and changes nothing else of the driver.\<close>

lemma ps2_read_blocks:
  assumes rep: "kb_rep q FD s (sh, codes, un)" "fd \<in> FD" "un fd = []"
    and run: "running s c rs" "waiting s (blocked_procs s) ws rs" "irq_semaphore s = 0"
      "LL_nhead (lists s) (blocked_procs s) c \<notin> ll_foot (lists s) (blocked_procs s) ws \<union> ll_foot (lists s) (ready_queue s) rs"
  shows "\<exists>ctx' t. ps2_read dev drv ctx fd dest n s = Inl (ctx', t) \<and> psys.more t = psys.more s \<and> kb_rep q FD t (sh, codes, un) \<and>
    waiting t (blocked_procs t) (ws @ [c]) (tl rs) \<and> irq_ok t \<and> irq_semaphore t = 0"
proof -
  let ?s = "IRQ_disable s" and ?q = "blocked_procs s"
  have R: "running ?s c rs" "waiting ?s ?q ws rs"
    using run(1-3) by (simp_all add: running_def waiting_def cell_free_def syscalls_ready_def irq_ok_def IRQ_disable_def
        atomic_get_def atomic_add_def Let_def)
  have free: "LL_nhead (lists ?s) ?q c \<notin> ll_foot (lists ?s) ?q ws \<union> ll_foot (lists ?s) (ready_queue ?s) rs"
    using run(4) by simp
  define t where "t = snd (PROC_block_on dev drv ?q True ctx ?s)"
  note T = PROC_block_on_waiting [OF R free t_def]
  have ring: "kb_ring s (private_data (ofile_of s fd)) []" using rep by (force simp: kb_rep_def)
  have more: "psys.more t = psys.more s" using T(3) by (simp add: IRQ_disable_def Let_def)
  then have f: "ofile_of t = ofile_of s" "ps2_data t = ps2_data s" "ps2_pos t = ps2_pos s" "user_pos t = user_pos s"
      "shift_pressed t = shift_pressed s" "blocked_procs t = blocked_procs s"
    by (cases s; cases t; simp)+
  have hb: "\<not> consumer_has_bytes (private_data (ofile_of s fd)) ?s"
    using has_bytes_ring [OF ring] by (simp add: consumer_has_bytes_def IRQ_disable_def Let_def)
  have rd: "ps2_read dev drv ctx fd dest n s = Inl (fst (PROC_block_on dev drv ?q True ctx ?s), t)"
    using hb by (simp add: ps2_read_def t_def Let_def IRQ_disable_def)
  have "kb_rep q FD t (sh, codes, un)" using rep(1) T(4) by (simp add: kb_rep_def kb_ring_def f)
  moreover have "irq_semaphore t = 0" using T(7) run(3)
    by (simp add: IRQ_disable_def IRQ_enable_def atomic_get_def atomic_add_def atomic_sub_def Let_def)
  ultimately show ?thesis using rd more T(1,5) f(6) by auto
qed

section \<open>Properties\<close>


text \<open>C13: no reader sleeps through a key. A process that reads a file without unread characters blocks: it
  stands at the end of the queue of the keyboard's readers, interrupts are enabled again, and no character and no scan
  code is lost. The next interrupt for a key that types a character moves all blocked readers to the
  ready queue, in order, behind the processes that are ready, and the read of the blocked process then
  returns that character.\<close>

theorem reader_wakes_up:
  assumes "keyboard dev q" "kb_rep q FD s (sh, codes, un)" "fd \<in> FD" "un fd = []" "\<forall>f\<in>FD. length (un f) < 127"
    and "running s c rs" "waiting s (blocked_procs s) ws rs" "NULL \<notin> set ws" "irq_semaphore s = 0"
    and "LL_nhead (lists s) (blocked_procs s) c \<notin> ll_foot (lists s) (blocked_procs s) ws \<union> ll_foot (lists s) (ready_queue s) rs"
    and "kb_key sh codes = Some (sh', [ch], rest)" "0 < n"
  shows "\<exists>ctx' t u v. ps2_read dev drv ctx fd dest n s = Inl (ctx', t) \<and>
    LL_for_each (blocked_procs t) (lists t) = Some (ws @ [c]) \<and> irq_semaphore t = 0 \<and>
    ps2_isr dev 0x21 0 NULL t = Some u \<and> LL_for_each (ready_queue u) (lists u) = Some (tl rs @ ws @ [c]) \<and>
    ps2_read dev drv ctx fd dest n u = Inr ([ch], v)"
proof -
  obtain ctx' t where rd: "ps2_read dev drv ctx fd dest n s = Inl (ctx', t)" "psys.more t = psys.more s"
      and rep: "kb_rep q FD t (sh, codes, un)" and T: "waiting t (blocked_procs t) (ws @ [c]) (tl rs)" "irq_ok t" "irq_semaphore t = 0"
    using ps2_read_blocks [OF assms(2-4,6,7,9,10)] by blast
  have nn: "NULL \<notin> set (ws @ [c])" using assms(6,8) by (simp add: running_def)
  have sch: "kb_sched t" unfolding kb_sched_def using T nn by (intro conjI exI [of _ "ws @ [c]"] exI [of _ "tl rs"]) simp_all
  obtain u where u: "ps2_isr dev 0x21 0 NULL t = Some u" "kb_rep q FD u (sh', rest, \<lambda>f. un f @ [ch])" "kb_sched u"
    using ps2_isr_key [OF assms(1) rep sch assms(11)] assms(5) by blast
  have "kb_key (shift_pressed t \<noteq> 0) (q (devst t)) = Some (sh', [ch], rest)" using assms(11) rep by (simp add: kb_rep_def)
  from ps2_isr_wakes [OF assms(1) this T(1) nn T(2) _ u(1)] T(3) have "ll_list (lists u) (ready_queue u) (tl rs @ (ws @ [c]))" by simp
  then have rq: "LL_for_each (ready_queue u) (lists u) = Some (tl rs @ ws @ [c])" using LL_for_each_list by simp
  have "(un fd @ [ch]) \<noteq> []" by simp
  from ps2_read_available [OF u(2,3) assms(3) this, of dev drv ctx dest n] obtain v where
    "ps2_read dev drv ctx fd dest n u = Inr (take (unat n) [ch], v)" using assms(4) by auto
  moreover have "take (unat n) [ch] = [ch]" using assms(12) by (cases "unat n") (auto simp: word_less_nat_alt)
  moreover have "LL_for_each (blocked_procs t) (lists t) = Some (ws @ [c])"
    using T(1) by (intro LL_for_each_list) (simp add: waiting_def)
  ultimately show ?thesis using rd(1) T(3) u(1) rq by auto
qed

section \<open>Examples\<close>

text \<open>A controller that holds the codes in its state, and the processes of the example of the scheduler, with the wait queue at
  \<open>0x700\<close> for the readers.\<close>

definition kbd_example :: "u8 list device" where
  "kbd_example = \<lparr>dev_in = (\<lambda>p w d. if p = 0x64 then (if d = [] then 0 else 1, d)
       else case d of [] \<Rightarrow> (0, []) | c # cs \<Rightarrow> (ucast c, cs)), dev_out = (\<lambda>p w v d. d)\<rparr>"

definition ps2_example :: "u8 list \<Rightarrow> u8 list ps2" where
  "ps2_example codes =
     files.extend ((kbase.extend \<lparr>irq_semaphore = 0, int_flag = True, handlers = handlers sched_example, klogs = [], devst = codes\<rparr>
        (kbase.more fs_example))\<lparr>lists := sched_lists\<rparr>)
     (ps2.fields 0x5400 0x700 0 (replicate 128 0) 0 1 (\<lambda>_. 0) 0x5300 0x5100)"

lemma ps2_example_sel [simp]:
  "lists (ps2_example codes) = sched_lists" "curr_proc (ps2_example codes) = 0x1000" "sleep_curr (ps2_example codes) = False"
  "ready_queue (ps2_example codes) = 0x900" "irq_semaphore (ps2_example codes) = 0" "int_flag (ps2_example codes) = True"
  "handlers (ps2_example codes) = handlers sched_example" "devst (ps2_example codes) = codes"
  "blocked_procs (ps2_example codes) = 0x700" "shift_pressed (ps2_example codes) = 0" "ps2_data (ps2_example codes) = replicate 128 0"
  "ps2_pos (ps2_example codes) = 0" "user_pos (ps2_example codes) = (\<lambda>_. 0)"
  using sched_example_sel(2,5,6)
  by (simp_all add: ps2_example_def files.extend_def ps2.fields_def kbase.extend_def fs_example_def psys.extend_def files.fields_def
      sched_example_def kheap.extend_def psys.fields_def heap_example_def mm.extend_def kheap.fields_def vm_example_def mm_example_def)

lemma kbd_example_keyboard: "keyboard kbd_example (\<lambda>d. d)"
  by (simp add: keyboard_def kbd_example_def PS2_STATUS_PORT_def PS2_STATUS_OUTPUT_def PS2_DATA_PORT_def)

lemma ps2_example_rep:
  "kb_rep (\<lambda>d. d) {0x7000} (ps2_example codes) (False, codes, \<lambda>_. [])"
  "running (ps2_example codes) 0x1000 [0x2000, 0x3000]" "waiting (ps2_example codes) 0x700 [0x4000, 0x5000] [0x2000, 0x3000]"
proof -
  show "kb_rep (\<lambda>d. d) {0x7000} (ps2_example codes) (False, codes, \<lambda>_. [])" by (simp add: kb_rep_def kb_ring_def)
  show "running (ps2_example codes) 0x1000 [0x2000, 0x3000]" "waiting (ps2_example codes) 0x700 [0x4000, 0x5000] [0x2000, 0x3000]"
    using sched_example_lists(1,2)
    by (simp_all add: running_def waiting_def cell_free_def syscalls_ready_def irq_ok_def LL_nhead_def sched_lists_def)
qed

lemmas key_codes = is_shift_def LEFT_SHIFT_SCAN_CODE_def RIGHT_SHIFT_SCAN_CODE_def RELEASED_SCAN_CODE_def
  translate_scan_code_def scan_codes_def


theorem reader_wakes_up_witness:
  "\<exists>ctx t u. ps2_read kbd_example (\<lambda>_ _ _ _ s. s) [] 0x7000 NULL 1 (ps2_example [0x1c]) = Inl (ctx, t) \<and>
     ps2_isr kbd_example 0x21 0 NULL t = Some u \<and>
     LL_for_each (ready_queue u) (lists u) = Some [0x3000, 0x4000, 0x5000, 0x1000]"
proof -
  have k: "kb_key False [0x1c] = Some (False, [0x61], [])" by (simp add: key_codes)
  show ?thesis
    using reader_wakes_up [OF kbd_example_keyboard ps2_example_rep(1), of "0x7000", OF _ _ _ ps2_example_rep(2) _ _ _ _ k,
        of "[0x4000, 0x5000]" 1 "\<lambda>_ _ _ _ s. s" "[]" NULL] ps2_example_rep(3) sched_example_lists(3)
    by auto
qed

end
