(* ===== verification/Keyboard_Bounds.thy ===== *)
theory Keyboard_Bounds
  imports Ps2
begin

text \<open>
  The ring of the keyboard driver in every run of the driver: opening, reading, blocking, closing and interrupts in any order, however many
  characters are typed. Nothing is assumed about the keyboard or about how often the files are read, so the runs include those in which
  characters are lost.
\<close>

section \<open>Frames\<close>

lemma ps2_wait_more:
  fixes s :: "('d, 'a) kbase_scheme"
  shows "ps2_wait_writable dev s = Some t \<Longrightarrow> kbase.more t = kbase.more s"
    and "ps2_wait_readable dev s = Some t \<Longrightarrow> kbase.more t = kbase.more s"
proof -
  have "kbase.more (snd (inb dev p s)) = kbase.more s" for dev p and s :: "('d, 'a) kbase_scheme" by (simp add: inb_def case_prod_beta)
  then have i: "inb dev p s = (v, u) \<Longrightarrow> kbase.more u = kbase.more s" for dev p v u and s :: "('d, 'a) kbase_scheme" by (metis snd_conv)
  show "kbase.more t = kbase.more s" if "ps2_wait_writable dev s = Some t"
    using that by (rule ps2_wait_writable.raw_induct [where P = "\<lambda>dev s t. kbase.more t = kbase.more s", rotated])
      (auto split: prod.splits if_splits dest: i)
  show "kbase.more t = kbase.more s" if "ps2_wait_readable dev s = Some t"
    using that by (rule ps2_wait_readable.raw_induct [where P = "\<lambda>dev s t. kbase.more t = kbase.more s", rotated])
      (auto split: prod.splits if_splits dest: i)
qed

lemma ports_more [simp]:
  "kbase.more (outb dev p v s) = kbase.more s" "kbase.more (snd (inb dev p s)) = kbase.more s" "kbase.more (klog l fm as s) = kbase.more s"
  "kbase.more (IRQ_disable s) = kbase.more s" "kbase.more (IRQ_enable s) = kbase.more s"
  by (simp_all add: outb_def inb_def klog_def IRQ_disable_def IRQ_enable_def Let_def case_prod_beta)

lemma masks_more [simp]: "kbase.more (IRQ_set_mask dev irq s) = kbase.more s" "kbase.more (IRQ_clear_mask dev irq s) = kbase.more s"
  by (simp_all add: IRQ_set_mask_def IRQ_clear_mask_def Let_def case_prod_beta)

lemma ps2_command_more:
  "ps2_read_cmd dev cmd s = Some (v, t) \<Longrightarrow> kbase.more t = kbase.more s" "ps2_write_cmd dev cmd w s = Some t \<Longrightarrow> kbase.more t = kbase.more s"
  "ps2_write_data_p1 dev w s = Some t \<Longrightarrow> kbase.more t = kbase.more s" "ps2_read_data_p1 dev s = Some (v, t) \<Longrightarrow> kbase.more t = kbase.more s"
proof -
  have i: "inb dev p s = (v, u) \<Longrightarrow> kbase.more u = kbase.more s" for p v u and s :: "('a, 'b) kbase_scheme" using ports_more(2) by (metis snd_conv)
  show "ps2_read_cmd dev cmd s = Some (v, t) \<Longrightarrow> kbase.more t = kbase.more s" "ps2_write_cmd dev cmd w s = Some t \<Longrightarrow> kbase.more t = kbase.more s"
    "ps2_write_data_p1 dev w s = Some t \<Longrightarrow> kbase.more t = kbase.more s" "ps2_read_data_p1 dev s = Some (v, t) \<Longrightarrow> kbase.more t = kbase.more s"
    by (auto simp: ps2_read_cmd_def ps2_write_cmd_def ps2_write_data_p1_def ps2_read_data_p1_def bind_eq_Some_conv dest!: i ps2_wait_more)
qed

lemma IRQ_set_handler_more: "IRQ_set_handler irq h a s = Some t \<Longrightarrow> kbase.more t = kbase.more s"
  by (auto simp: IRQ_set_handler_def Let_def split: if_splits)

lemma ps2_init_more:
  assumes "ps2_init dev s = Some (r, t)"
  shows "kbase.more t = kbase.more s"
proof -
  have c: "kbase.more (if b then klog l fm as u else u) = kbase.more u" for b l fm as and u :: "('a, 'b) kbase_scheme" by simp
  show ?thesis
    using assms unfolding ps2_init_def Let_def
    by (auto simp: bind_eq_Some_conv case_prod_beta c dest!: ps2_command_more IRQ_set_handler_more)
qed

lemma unblock_loop_more:
  fixes s :: "('d, 'a) psys_scheme"
  assumes "unblock_loop q s = Some t"
  shows "psys.more t = psys.more s"
  using assms
  by (rule unblock_loop.raw_induct [where P = "\<lambda>q s t. psys.more t = psys.more s", rotated])
    (auto simp: proc_queue_dequeue_eq proc_queue_enqueue_def split: if_splits prod.splits)

lemma PT_free_more: "mm.more (snd (PT_free va s)) = mm.more s"
  by (simp add: PT_free_def Let_def split: option.split)

lemma MMU_free_pages_more: "mm.more (MMU_free_pages va n s) = mm.more s"
proof -
  have "mm.more (free_pages_loop va ks s) = mm.more s" for ks
  proof (induction ks arbitrary: s)
    case (Cons k ks)
    then show ?case using PT_free_more [of "va + PAGE_SIZE * of_nat k" s] by (simp add: case_prod_beta)
  qed simp
  then show ?thesis by (simp add: MMU_free_pages_def)
qed

lemma kfree_more:
  fixes s :: "('d, 'a) kheap_scheme"
  assumes "kfree a s = Some t"
  shows "kheap.more t = kheap.more s"
  using assms mm_more_kheap [OF MMU_free_pages_more] by (auto simp: kfree_def Let_def split: if_splits option.splits)

section \<open>The positions\<close>

definition ring_inv :: "addr set \<Rightarrow> ('d, 'a) ps2_scheme \<Rightarrow> bool" where
  "ring_inv FD s \<longleftrightarrow> length (ps2_data s) = 128 \<and> unat (ps2_pos s) < 128 \<and>
     (\<forall>fd\<in>FD. unat (user_pos s (private_data (ofile_of s fd))) < 128)"

text \<open>The part of the state that the invariant is about; everything below the driver leaves it alone.\<close>

definition ring_part :: "('d, 'a) ps2_scheme \<Rightarrow> u8 list \<times> u64 \<times> (addr \<Rightarrow> u64) \<times> (addr \<Rightarrow> OFile)" where
  "ring_part s = (ps2_data s, ps2_pos s, user_pos s, ofile_of s)"

lemma ring_inv_part: "ring_part t = ring_part s \<Longrightarrow> ring_inv FD t = ring_inv FD s"
  by (simp add: ring_part_def ring_inv_def)

lemma psys_part:
  fixes s t :: "('d, 'a) ps2_scheme"
  assumes "psys.more t = psys.more s"
  shows "ring_part t = ring_part s"
  using assms by (cases s; cases t) (simp add: ring_part_def)

lemma base_part:
  fixes s t :: "('d, 'a) ps2_scheme"
  assumes "kbase.more t = kbase.more s"
  shows "ring_part t = ring_part s"
  using assms by (cases s; cases t) (simp add: ring_part_def)

lemma heap_part:
  fixes s t :: "('d, 'a) ps2_scheme"
  assumes "kheap.more t = kheap.more s"
  shows "ring_part t = ring_part s"
  using assms by (cases s; cases t) (simp add: ring_part_def)

lemma BUFF_POS_bound: "unat (BUFF_POS p) < 128"
  by (simp add: BUFF_POS_def PS2_BUFF_SIZE_def unat_mod)

lemma ps2_copy_bound:
  "ps2_copy n u s = (cs, t) \<Longrightarrow> \<exists>p. t = s\<lparr>user_pos := p\<rparr> \<and> (\<forall>v. p v = user_pos s v \<or> unat (p v) < 128)"
proof (induction n arbitrary: s cs)
  case 0
  then show ?case by (intro exI [of _ "user_pos s"]) simp
next
  case (Suc n)
  show ?case
  proof (cases "consumer_has_bytes u s")
    case False
    then show ?thesis using Suc.prems by (intro exI [of _ "user_pos s"]) simp
  next
    case True
    let ?s = "s\<lparr>user_pos := (user_pos s)(u := BUFF_POS (user_pos s u + 1))\<rparr>"
    obtain ds where "ps2_copy n u ?s = (ds, t)"
      using Suc.prems True by (auto simp: consumer_read_next_def split: prod.splits)
    from Suc.IH [OF this] show ?thesis using BUFF_POS_bound by (fastforce split: if_splits)
  qed
qed

section \<open>The operations\<close>

lemma ps2_read_char_part:
  fixes s :: "('d, 'a) ps2_scheme"
  assumes "ps2_read_char dev s = Some (c, t)"
  shows "ring_part t = ring_part s"
proof -
  obtain av w where w: "ps2_char_avail dev s = (av, w)" by fastforce
  then have "w = snd (inb dev PS2_STATUS_PORT s)" by (simp add: ps2_char_avail_def case_prod_beta)
  then have ws: "ring_part w = ring_part s" by (intro base_part) simp
  have r: "ps2_read_data_p1 dev v = Some (x, y) \<Longrightarrow> ring_part y = ring_part v" for x and v y :: "('d, 'a) ps2_scheme"
    by (rule base_part) (rule ps2_command_more(4))
  have sh: "ring_part (v\<lparr>shift_pressed := x\<rparr>) = ring_part v" for x and v :: "('d, 'a) ps2_scheme" by (simp add: ring_part_def)
  show ?thesis
  proof (cases av)
    case False
    then show ?thesis using assms ws w by (simp add: ps2_read_char_def)
  next
    case True
    have "ps2_read_data_p1 dev w \<noteq> None" using assms w True by (cases "ps2_read_data_p1 dev w") (simp_all add: ps2_read_char_def)
    then obtain sc x where x: "ps2_read_data_p1 dev w = Some (sc, x)" by auto
    consider "is_shift sc" | "\<not> is_shift sc" "sc \<noteq> RELEASED_SCAN_CODE" | "\<not> is_shift sc" "sc = RELEASED_SCAN_CODE" by blast
    then have "ring_part t = ring_part x"
    proof cases
      case 3
      have "ps2_read_data_p1 dev x \<noteq> None"
        using assms w True x 3 by (cases "ps2_read_data_p1 dev x") (simp_all add: ps2_read_char_def is_shift_def)
      then obtain sd y where y: "ps2_read_data_p1 dev x = Some (sd, y)" by auto
      then show ?thesis using assms w True x 3 r [OF y] sh by (auto simp: ps2_read_char_def is_shift_def split: if_splits)
    qed (use assms w True x sh in \<open>auto simp: ps2_read_char_def is_shift_def\<close>)
    then show ?thesis using r [OF x] ws by simp
  qed
qed

lemma ps2_isr_bound:
  fixes s :: "('d, 'a) ps2_scheme"
  assumes "ring_inv FD s" "ps2_isr dev irq err a s = Some t"
  shows "ring_inv FD t"
proof -
  obtain c u where u: "ps2_read_char dev s = Some (c, u)" "if c = 0 then t = u else PROC_unblock_all (blocked_procs u) (producer_add c u) = Some t"
    using assms(2) by (auto simp: ps2_isr_def bind_eq_Some_conv split: if_splits)
  have "ring_part u = ring_part s" by (rule ps2_read_char_part [OF u(1)])
  then have U: "ring_inv FD u" using assms(1) by (simp add: ring_inv_part [of u s])
  show ?thesis
  proof (cases "c = 0")
    case True
    then show ?thesis using U u(2) by simp
  next
    case False
    have "ring_inv FD (producer_add c u)" using U BUFF_POS_bound by (simp add: ring_inv_def producer_add_def Let_def)
    moreover obtain v where "unblock_loop (blocked_procs u) (IRQ_disable (producer_add c u)) = Some v" "t = IRQ_enable v"
      using u(2) False by (auto simp: PROC_unblock_all_def)
    then have "psys.more t = psys.more (producer_add c u)" using unblock_loop_more by (fastforce simp: IRQ_disable_def IRQ_enable_def Let_def)
    ultimately show ?thesis using ring_inv_part [OF psys_part] by blast
  qed
qed

lemma ps2_read_bound:
  fixes s :: "('d, 'a) ps2_scheme"
  assumes "ring_inv FD s" "ps2_read dev drv ctx fd dest n s = Inr (cs, t)"
  shows "ring_inv FD t"
proof -
  let ?s = "IRQ_disable s"
  obtain u where u: "ps2_copy (unat n) (private_data (ofile_of s fd)) ?s = (cs, u)" "t = IRQ_enable u"
    using assms(2) by (auto simp: ps2_read_def Let_def split: if_splits prod.splits)
  obtain p where p: "u = ?s\<lparr>user_pos := p\<rparr>" "\<forall>v. p v = user_pos ?s v \<or> unat (p v) < 128" using ps2_copy_bound [OF u(1)] by blast
  have "ring_part t = ring_part u" unfolding u(2) by (rule base_part) simp
  moreover have "ring_part ?s = ring_part s" by (rule base_part) simp
  ultimately have "ring_part t = (ps2_data s, ps2_pos s, p, ofile_of s)" "user_pos ?s = user_pos s" by (simp_all add: ring_part_def p(1))
  then show ?thesis using assms(1) p(2) by (simp add: ring_part_def ring_inv_def) metis
qed

lemma ps2_block_bound:
  fixes s :: "('d, 'a) ps2_scheme"
  assumes "ring_inv FD s" "syscalls_ready s" "ps2_read dev drv ctx fd dest n s = Inl (ctx', t)"
  shows "ring_inv FD t"
proof -
  let ?b = "block_state (blocked_procs (IRQ_disable s)) True (IRQ_disable s)"
  have "t = snd (yield dev drv ctx ?b)"
    using assms(3) by (auto simp: ps2_read_def Let_def PROC_block_on_eq split: if_splits prod.splits)
  moreover have "syscalls_ready ?b" using assms(2) by (simp add: syscalls_ready_def)
  ultimately have "psys.more t = psys.more ?b" using yield_more(1) by blast
  also have "psys.more ?b = psys.more s"
    by (simp add: block_state_def proc_queue_enqueue_def IRQ_disable_def IRQ_enable_def Let_def)
  finally show ?thesis using assms(1) ring_inv_part [OF psys_part] by blast
qed

lemma ps2_open_bound:
  fixes s :: "('d, 'a) ps2_scheme"
  assumes "ring_inv FD s" "kinv s F live" "ps2_open dev inode file s = Some (r, t)" "r = 0 \<or> file \<notin> FD'" "FD' \<subseteq> insert file FD"
  shows "ring_inv FD' t"
proof -
  obtain user u where m: "kmalloc sizeof_PS2User s = (user, u)" by fastforce
  have U: "ring_part u = ring_part s" by (rule heap_part [OF kmalloc_more [OF assms(2) m]])
  show ?thesis
  proof (cases "user = NULL")
    case True
    then have "r \<noteq> 0" "t = u" using assms(3) m by (auto simp: ps2_open_def)
    then show ?thesis using assms(1,4,5) U by (auto simp: ring_part_def ring_inv_def)
  next
    case False
    let ?v = "IRQ_disable (u\<lparr>ofile_of := (ofile_of u)(file := (ofile_of u file)\<lparr>private_data := user\<rparr>)\<rparr>)"
    obtain w where w: "(if num_open ?v = 0 then map_option snd (ps2_init dev ?v) else Some ?v) = Some w"
      and t: "t = IRQ_enable (w\<lparr>num_open := num_open w + 1, user_pos := (user_pos w)(user := ps2_pos w)\<rparr>)"
      using assms(3) m False by (auto simp: ps2_open_def Let_def bind_eq_Some_conv)
    have "kbase.more w = kbase.more ?v" using w ps2_init_more [of dev ?v] by (auto split: if_splits)
    then have "ring_part w = ring_part ?v" by (rule base_part)
    also have "\<dots> = ring_part (u\<lparr>ofile_of := (ofile_of u)(file := (ofile_of u file)\<lparr>private_data := user\<rparr>)\<rparr>)" by (rule base_part) simp
    finally have W: "ring_part w = (ps2_data s, ps2_pos s, user_pos s, (ofile_of s)(file := (ofile_of s file)\<lparr>private_data := user\<rparr>))"
      using U by (simp add: ring_part_def)
    have "ring_part t = ring_part (w\<lparr>num_open := num_open w + 1, user_pos := (user_pos w)(user := ps2_pos w)\<rparr>)" unfolding t by (rule base_part) simp
    then have "ring_part t = (ps2_data s, ps2_pos s, (user_pos s)(user := ps2_pos s), (ofile_of s)(file := (ofile_of s file)\<lparr>private_data := user\<rparr>))"
      using W by (simp add: ring_part_def)
    then show ?thesis using assms(1,5) by (auto simp: ring_part_def ring_inv_def)
  qed
qed

lemma ps2_close_bound:
  fixes s :: "('d, 'a) ps2_scheme"
  assumes "ring_inv FD s" "ps2_close dev fd s = Some (r, t)"
  shows "ring_inv FD t"
proof -
  obtain u where u: "kfree fd s = Some u" using assms(2) by (auto simp: ps2_close_def bind_eq_Some_conv)
  let ?w = "(IRQ_disable u)\<lparr>num_open := num_open (IRQ_disable u) - 1\<rparr>"
  have "t = IRQ_enable (if num_open ?w = 0 then snd (ps2_cleanup dev ?w) else ?w)"
    using assms(2) u by (simp add: ps2_close_def Let_def)
  then have "kbase.more t = kbase.more ?w" by (simp add: ps2_cleanup_def)
  then have "ring_part t = ring_part (IRQ_disable u)" using base_part [of t ?w] by (simp add: ring_part_def)
  also have "\<dots> = ring_part u" by (rule base_part) simp
  also have "\<dots> = ring_part s" by (rule heap_part [OF kfree_more [OF u]])
  finally show ?thesis using assms(1) by (simp add: ring_inv_part [of t s])
qed

section \<open>Runs\<close>

text \<open>The runs of the driver from a state in which no file is open; \<open>FD\<close> are the open files.\<close>

inductive kb_reach ::
  "'d device \<Rightarrow> (irq_handler \<Rightarrow> u32 \<Rightarrow> u32 \<Rightarrow> addr \<Rightarrow> ('d, 'a) ps2_scheme \<Rightarrow> ('d, 'a) ps2_scheme) \<Rightarrow> ('d, 'a) ps2_scheme \<Rightarrow>
   addr set \<Rightarrow> ('d, 'a) ps2_scheme \<Rightarrow> bool" for dev drv s0 where
  Start: "kb_reach dev drv s0 {} s0"
| Isr: "\<lbrakk>kb_reach dev drv s0 FD s; ps2_isr dev irq err a s = Some t\<rbrakk> \<Longrightarrow> kb_reach dev drv s0 FD t"
| Got: "\<lbrakk>kb_reach dev drv s0 FD s; fd \<in> FD; ps2_read dev drv ctx fd dest n s = Inr (cs, t)\<rbrakk> \<Longrightarrow> kb_reach dev drv s0 FD t"
| Blocked: "\<lbrakk>kb_reach dev drv s0 FD s; fd \<in> FD; syscalls_ready s; ps2_read dev drv ctx fd dest n s = Inl (ctx', t)\<rbrakk> \<Longrightarrow> kb_reach dev drv s0 FD t"
| Opened: "\<lbrakk>kb_reach dev drv s0 FD s; kinv s F live; ps2_open dev inode file s = Some (0, t)\<rbrakk> \<Longrightarrow> kb_reach dev drv s0 (insert file FD) t"
| Failed: "\<lbrakk>kb_reach dev drv s0 FD s; kinv s F live; file \<notin> FD; ps2_open dev inode file s = Some (r, t); r \<noteq> 0\<rbrakk> \<Longrightarrow> kb_reach dev drv s0 FD t"
| Closed: "\<lbrakk>kb_reach dev drv s0 FD s; fd \<in> FD; ps2_close dev fd s = Some (r, t)\<rbrakk> \<Longrightarrow> kb_reach dev drv s0 (FD - {fd}) t"

lemma kb_reach_inv: "kb_reach dev drv s0 FD s \<Longrightarrow> ring_inv {} s0 \<Longrightarrow> ring_inv FD s"
proof (induction rule: kb_reach.induct)
  case (Opened FD s F live inode fd t)
  from ps2_open_bound [OF Opened.IH [OF Opened.prems] Opened.hyps(2,3)] show ?case by simp
next
  case (Failed FD s F live fd inode r t)
  from ps2_open_bound [OF Failed.IH [OF Failed.prems] Failed.hyps(2,4), of FD] show ?case using Failed.hyps(3) by blast
next
  case (Closed FD s fd r t)
  then show ?case using ps2_close_bound [of FD s dev fd r t] by (auto simp: ring_inv_def)
qed (auto intro: ps2_isr_bound ps2_read_bound ps2_block_bound)

text \<open>C7: the keyboard buffer is never left. In every run of the driver, with files opened and closed, reads that return or block, and
  any number of keyboard interrupts from any hardware, the buffer keeps its 128 bytes and the positions of the interrupt handler and of
  every open file stay below 128: no character is stored or read outside of the buffer, also when characters are lost because nobody reads them.\<close>

theorem keyboard_buffer_typed:
  assumes "kb_reach dev drv s0 FD s" "length (ps2_data s0) = 128" "unat (ps2_pos s0) < 128"
  shows "length (ps2_data s) = 128 \<and> unat (ps2_pos s) < 128 \<and> (\<forall>fd\<in>FD. unat (user_pos s (private_data (ofile_of s fd))) < 128)"
  using kb_reach_inv [OF assms(1)] assms(2,3) by (simp add: ring_inv_def)

theorem keyboard_buffer_typed_witness:
  "\<exists>t. ps2_isr kbd_example 0x21 0 NULL (ps2_example [0x1c]) = Some t \<and> length (ps2_data t) = 128 \<and> unat (ps2_pos t) < 128"
proof -
  have sch: "kb_sched (ps2_example [0x1c])"
    unfolding kb_sched_def using ps2_example_rep(3) [of "[0x1c]"]
    by (intro conjI exI [of _ "[0x4000, 0x5000]"] exI [of _ "[0x2000, 0x3000]"]) (simp_all add: irq_ok_def)
  have "kb_key False [0x1c] = Some (False, [0x61], [])" by (simp add: key_codes)
  from ps2_isr_key [OF kbd_example_keyboard ps2_example_rep(1) sch this] obtain t where
    t: "ps2_isr kbd_example 0x21 0 NULL (ps2_example [0x1c]) = Some t" by force
  have "kb_reach kbd_example (\<lambda>_ _ _ _ s. s) (ps2_example [0x1c]) {} t" by (rule Isr [OF Start t])
  from keyboard_buffer_typed [OF this] t show ?thesis by simp
qed

end
