(* ===== verification/Pci.thy ===== *)
theory Pci
  imports Ps2
begin

text \<open>
  The PCI bus: \<^verbatim>\<open>src/src/drivers/pci.c\<close> with \<^verbatim>\<open>pci.h\<close>.

  A \<open>struct PCIConfigHeader\<close> is four 32-bit registers of the configuration space, read through the
  ports \<open>PCI_CONFIG_ADDR\<close> and \<open>PCI_CONFIG_DATA\<close>; the bus behind the ports is the hardware parameter. Devices are
  kept by their address; their list header is their first member.
\<close>

section \<open>Structures and state\<close>

definition PCI_CONFIG_ADDR :: u16 where "PCI_CONFIG_ADDR = 0xCF8"
definition PCI_CONFIG_DATA :: u16 where "PCI_CONFIG_DATA = 0xCFC"

record PCIDevId =
  id_vendor :: u16
  id_device :: u16
  id_class :: u8
  id_sub_class :: u8

record PCIConfigHeader =
  ch_vendor_id :: u16
  ch_device_id :: u16
  ch_command :: u16
  ch_status :: u16
  ch_rev :: u8
  ch_prog_if :: u8
  ch_sub_class :: u8
  ch_class :: u8
  ch_cache_line_size :: u8
  ch_latency_timer :: u8
  ch_header_type :: u8
  ch_bist :: u8

text \<open>The first four registers as the members they overlay.\<close>

definition header_of :: "u32 \<Rightarrow> u32 \<Rightarrow> u32 \<Rightarrow> u32 \<Rightarrow> PCIConfigHeader" where
  "header_of r0 r1 r2 r3 =
     \<lparr>ch_vendor_id = ucast r0, ch_device_id = ucast (drop_bit 16 r0), ch_command = ucast r1, ch_status = ucast (drop_bit 16 r1),
      ch_rev = ucast r2, ch_prog_if = ucast (drop_bit 8 r2), ch_sub_class = ucast (drop_bit 16 r2), ch_class = ucast (drop_bit 24 r2),
      ch_cache_line_size = ucast r3, ch_latency_timer = ucast (drop_bit 8 r3), ch_header_type = ucast (drop_bit 16 r3),
      ch_bist = ucast (drop_bit 24 r3)\<rparr>"

record PCIConfigHeader_0 =
  h0_hdr :: PCIConfigHeader
  bar0 :: u32
  bar1 :: u32
  bar2 :: u32
  bar3 :: u32
  bar4 :: u32
  bar5 :: u32

record PCIDevice =
  pd_id :: PCIDevId
  pd_bus :: u8
  pd_slot :: u8
  pd_func :: u8
  pd_hdr :: PCIConfigHeader

definition sizeof_PCIDevice :: u64 where "sizeof_PCIDevice = 48"

text \<open>\<open>probe\<close> of a driver is an argument of the operation that calls it.\<close>

record PCIDriver =
  drv_id :: PCIDevId

record 'd pci = "'d ps2" +
  pci_dev_list :: addr
  pcidev_of :: "addr \<Rightarrow> PCIDevice"

definition PCI_init :: "addr \<Rightarrow> lheap \<Rightarrow> lheap" where
  "PCI_init l h = h\<lparr>nxt := (nxt h)(l := l), prv := (prv h)(l := l), hoff := (hoff h)(l := 0)\<rparr>"

section \<open>Configuration space\<close>

definition config_address :: "u8 \<Rightarrow> u8 \<Rightarrow> u8 \<Rightarrow> u8 \<Rightarrow> u32" where
  "config_address bus slt func offset =
     push_bit 16 (ucast bus) OR push_bit 11 (ucast slt) OR push_bit 8 (ucast func) OR ucast (offset AND 0xfc) OR 0x80000000"

definition pci_read_config :: "'d device \<Rightarrow> u8 \<Rightarrow> u8 \<Rightarrow> u8 \<Rightarrow> u8 \<Rightarrow> ('d, 'a) kbase_scheme \<Rightarrow> u32 \<times> ('d, 'a) kbase_scheme" where
  "pci_read_config dev bus slt func offset s =
     (let s = outl dev PCI_CONFIG_ADDR (config_address bus slt func offset) s in inl dev PCI_CONFIG_DATA s)"

definition pci_read_config_vendor :: "'d device \<Rightarrow> u8 \<Rightarrow> u8 \<Rightarrow> u8 \<Rightarrow> ('d, 'a) kbase_scheme \<Rightarrow> u16 \<times> ('d, 'a) kbase_scheme" where
  "pci_read_config_vendor dev bus slt func s =
     (let (tmp, s) = pci_read_config dev bus slt func 0 s in (ucast (tmp AND 0xffff), s))"

text \<open>The loop over the registers, as the list of what it reads.\<close>

fun read_registers :: "'d device \<Rightarrow> u8 \<Rightarrow> u8 \<Rightarrow> u8 \<Rightarrow> u8 list \<Rightarrow> ('d, 'a) kbase_scheme \<Rightarrow> u32 list \<times> ('d, 'a) kbase_scheme" where
  "read_registers dev bus slt func [] s = ([], s)"
| "read_registers dev bus slt func (offset # os) s =
     (let (v, s) = pci_read_config dev bus slt func (offset * 4) s;
          (vs, s) = read_registers dev bus slt func os s
      in (v # vs, s))"

definition pci_read_config_header :: "'d device \<Rightarrow> u8 \<Rightarrow> u8 \<Rightarrow> u8 \<Rightarrow> ('d, 'a) kbase_scheme \<Rightarrow> PCIConfigHeader \<times> ('d, 'a) kbase_scheme" where
  "pci_read_config_header dev bus slt func s =
     (let (rhdr, s) = read_registers dev bus slt func [0, 1, 2, 3] s
      in (header_of (rhdr ! 0) (rhdr ! 1) (rhdr ! 2) (rhdr ! 3), s))"

text \<open>\<open>hdr\<close> is what the caller's structure holds before the call.\<close>

definition PCI_read_config_header_0 ::
  "'d device \<Rightarrow> addr \<Rightarrow> PCIConfigHeader_0 \<Rightarrow> ('d, 'a) pci_scheme \<Rightarrow> int \<times> PCIConfigHeader_0 \<times> ('d, 'a) pci_scheme" where
  "PCI_read_config_header_0 dev pd hdr s =
     (let p = pcidev_of s pd
      in if ch_header_type (pd_hdr p) \<noteq> 0
         then (- 1, hdr, klog KLOG_LEVEL_WARN ''attempting to read pci config header of incorrect type'' [] s)
         else
           let (rhdr, s) = read_registers dev (pd_bus p) (pd_slot p) (pd_func p) [4, 5, 6, 7, 8, 9] s
           in (0, \<lparr>h0_hdr = pd_hdr p, bar0 = rhdr ! 0, bar1 = rhdr ! 1, bar2 = rhdr ! 2, bar3 = rhdr ! 3,
                   bar4 = rhdr ! 4, bar5 = rhdr ! 5\<rparr>, s))"

section \<open>Enumeration\<close>

definition new_PCIDevice :: "u8 \<Rightarrow> u8 \<Rightarrow> u8 \<Rightarrow> PCIConfigHeader \<Rightarrow> PCIDevice" where
  "new_PCIDevice bus slt func hdr =
     \<lparr>pd_id = \<lparr>id_vendor = ch_vendor_id hdr, id_device = ch_device_id hdr, id_class = ch_class hdr, id_sub_class = ch_sub_class hdr\<rparr>,
      pd_bus = bus, pd_slot = slt, pd_func = func, pd_hdr = hdr\<rparr>"

text \<open>The loop over the functions of a device; \<open>memset\<close> clears the list header of the new structure too.\<close>

fun func_loop :: "'d device \<Rightarrow> u8 \<Rightarrow> u8 \<Rightarrow> u8 list \<Rightarrow> ('d, 'a) pci_scheme \<Rightarrow> int \<times> ('d, 'a) pci_scheme" where
  "func_loop dev bus slt [] s = (1, s)"
| "func_loop dev bus slt (func # fs) s =
     (let (hdr, s) = pci_read_config_header dev bus slt func s
      in if ch_vendor_id hdr = 0xffff then (1, s)
         else
           let (new, s) = kmalloc sizeof_PCIDevice s
           in if new = NULL then (- 1, s)
              else
                let s = s\<lparr>lists := (lists s)\<lparr>nxt := (nxt (lists s))(new := NULL), prv := (prv (lists s))(new := NULL)\<rparr>\<rparr>;
                    s = s\<lparr>pcidev_of := (pcidev_of s)(new := new_PCIDevice bus slt func hdr)\<rparr>;
                    s = s\<lparr>lists := LL_enqueue (pci_dev_list s) new (lists s)\<rparr>;
                    s = klog KLOG_LEVEL_INFO ''enumerated PCI device with class 0x%X on bus %d slot %d func %d''
                          [ucast (ch_class (pd_hdr (pcidev_of s new))), ucast (pd_bus (pcidev_of s new)),
                           ucast (pd_slot (pcidev_of s new)), ucast (pd_func (pcidev_of s new))] s
                in func_loop dev bus slt fs s)"

definition pci_enum_device :: "'d device \<Rightarrow> u8 \<Rightarrow> u8 \<Rightarrow> ('d, 'a) pci_scheme \<Rightarrow> int \<times> ('d, 'a) pci_scheme" where
  "pci_enum_device dev bus slt s =
     (let (v, s) = pci_read_config_vendor dev bus slt 0 s
      in if v = 0xffff then (0, s) else func_loop dev bus slt [0, 1, 2, 3] s)"

fun slot_loop :: "'d device \<Rightarrow> u8 \<Rightarrow> nat list \<Rightarrow> ('d, 'a) pci_scheme \<Rightarrow> ('d, 'a) pci_scheme" where
  "slot_loop dev bus [] s = s"
| "slot_loop dev bus (slt # ss) s = slot_loop dev bus ss (snd (pci_enum_device dev bus (of_nat slt) s))"

fun bus_loop :: "'d device \<Rightarrow> nat list \<Rightarrow> ('d, 'a) pci_scheme \<Rightarrow> ('d, 'a) pci_scheme" where
  "bus_loop dev [] s = s"
| "bus_loop dev (bus # bs) s = bus_loop dev bs (slot_loop dev (of_nat bus) [0..<32] s)"

definition PCI_enum :: "'d device \<Rightarrow> ('d, 'a) pci_scheme \<Rightarrow> int \<times> ('d, 'a) pci_scheme" where
  "PCI_enum dev s = (0, bus_loop dev [0..<256] s)"

text \<open>The walk over the list in which the body calls the driver; the next link is read after the call.\<close>

partial_function (option) probe_loop ::
  "(addr \<Rightarrow> ('d, 'a) pci_scheme \<Rightarrow> (int \<times> ('d, 'a) pci_scheme) option) \<Rightarrow> PCIDriver \<Rightarrow> addr \<Rightarrow> ('d, 'a) pci_scheme \<Rightarrow>
   ('d, 'a) pci_scheme option" where
  "probe_loop probe driver cur s =
     (if LL_nhead (lists s) (pci_dev_list s) cur = pci_dev_list s then Some s
      else Option.bind
        (if id_class (pd_id (pcidev_of s cur)) = id_class (drv_id driver) \<and>
            id_sub_class (pd_id (pcidev_of s cur)) = id_sub_class (drv_id driver)
         then map_option snd (probe cur s) else Some s)
        (\<lambda>s. probe_loop probe driver
           (LL_ndata (lists s) (pci_dev_list s) (nxt (lists s) (LL_nhead (lists s) (pci_dev_list s) cur))) s))"

definition PCI_register ::
  "(addr \<Rightarrow> ('d, 'a) pci_scheme \<Rightarrow> (int \<times> ('d, 'a) pci_scheme) option) \<Rightarrow> PCIDriver \<Rightarrow> ('d, 'a) pci_scheme \<Rightarrow>
   (int \<times> ('d, 'a) pci_scheme) option" where
  "PCI_register probe driver s =
     map_option (\<lambda>s. (0, s)) (probe_loop probe driver (LL_ndata (lists s) (pci_dev_list s) (nxt (lists s) (pci_dev_list s))) s)"

section \<open>What is enumerated\<close>

text \<open>What the bus promises (configuration mechanism 1): the address that selects a register is the sum of \<open>2\<^sup>3\<^sup>1\<close> and of bus, slot,
  function and register number with their weights, and reading the data port after it was written to the address port gives that
  register, whatever was done before.\<close>

definition register_address :: "u8 \<Rightarrow> u8 \<Rightarrow> u8 \<Rightarrow> u8 \<Rightarrow> u32" where
  "register_address bus slt func r = of_nat (2 ^ 31 + 65536 * unat bus + 2048 * unat slt + 256 * unat func + 4 * unat r)"

definition config_space :: "'d device \<Rightarrow> (u8 \<Rightarrow> u8 \<Rightarrow> u8 \<Rightarrow> u8 \<Rightarrow> u32) \<Rightarrow> bool" where
  "config_space dev cfg \<longleftrightarrow> (\<forall>bus slt func r d. slt < 32 \<longrightarrow> func < 8 \<longrightarrow> r < 64 \<longrightarrow>
     fst (dev_in dev 0xCFC 32 (dev_out dev 0xCF8 32 (register_address bus slt func r) d)) = cfg bus slt func r)"

lemma bit_below: "x < 2 ^ k \<Longrightarrow> bit x n \<Longrightarrow> n < k" for x :: "'a::len word"
proof (rule ccontr)
  assume x: "x < 2 ^ k" "bit x n" "\<not> n < k"
  have "drop_bit k x = 0" using x(1) by (simp add: drop_bit_eq_div div_word_less)
  then have "\<not> bit (drop_bit k x) (n - k)" by simp
  with x show False by (simp add: bit_drop_bit_eq)
qed

lemma bit_0xfc: "bit (0xfc :: u8) n \<longleftrightarrow> 2 \<le> n \<and> n < 8"
proof -
  have "(0xfc :: u8) = push_bit 2 (Bit_Operations.mask 6)" by (simp add: mask_eq_exp_minus_1 push_bit_eq_mult)
  then show ?thesis by (simp only:) (auto simp only: bit_push_bit_iff bit_mask_iff possible_bit_word, simp_all)
qed

lemma config_address_eq:
  assumes "slt < 32" "func < 8" "r < 64"
  shows "config_address bus slt func (r * 4) = register_address bus slt func r"
proof -
  have n: "n < 5" if "bit slt n" for n using bit_below [of slt 5 n] assms(1) that by simp
  have f: "n < 3" if "bit func n" for n using bit_below [of func 3 n] assms(2) that by simp
  have k: "n < 6" if "bit r n" for n using bit_below [of r 6 n] assms(3) that by simp
  have "push_bit 2 r AND 0xfc = push_bit 2 r" by (rule bit_word_eqI, unfold bit_and_iff bit_push_bit_iff bit_0xfc) auto
  moreover have "(ucast (push_bit 2 r) :: u32) = push_bit 2 (ucast r)"
  proof (rule bit_word_eqI)
    fix i assume "i < LENGTH(32)"
    then show "bit (ucast (push_bit 2 r) :: u32) i \<longleftrightarrow> bit (push_bit 2 (ucast r) :: u32) i"
      using k [of "i - 2"] by (auto simp: bit_simps)
  qed
  moreover have "r * 4 = push_bit 2 r" by (simp add: push_bit_eq_mult)
  ultimately have off: "(ucast (r * 4 AND 0xfc) :: u32) = push_bit 2 (ucast r)" by simp
  define c where "c = (0x80000000 :: u32)"
  have "c = push_bit 31 1" by (simp add: c_def push_bit_eq_mult)
  then have c: "bit c i \<longleftrightarrow> i = 31" for i by (simp only: bit_push_bit_iff bit_1_iff) auto
  define B S F R where "B = (push_bit 16 (ucast bus) :: u32)" and "S = (push_bit 11 (ucast slt) :: u32)"
    and "F = (push_bit 8 (ucast func) :: u32)" and "R = (push_bit 2 (ucast r) :: u32)"
  have B: "16 \<le> i \<and> i < 24" if "bit B i" for i using that by (auto simp: B_def bit_simps dest: bit_imp_le_length)
  have S: "11 \<le> i \<and> i < 16" if "bit S i" for i using that n [of "i - 11"] by (auto simp: S_def bit_simps)
  have F: "8 \<le> i \<and> i < 11" if "bit F i" for i using that f [of "i - 8"] by (auto simp: F_def bit_simps)
  have R: "2 \<le> i \<and> i < 8" if "bit R i" for i using that k [of "i - 2"] by (auto simp: R_def bit_simps)
  have "c + (B + (S + (F + R))) = c OR (B OR (S OR (F OR R)))"
  proof -
    have 1: "F + R = F OR R" by (rule disjunctive_add) (use F R in force)
    have 2: "S + (F OR R) = S OR (F OR R)" by (rule disjunctive_add) (use S F R in \<open>force simp: bit_or_iff\<close>)
    have 3: "B + (S OR (F OR R)) = B OR (S OR (F OR R))" by (rule disjunctive_add) (use B S F R in \<open>force simp: bit_or_iff\<close>)
    have 4: "c + (B OR (S OR (F OR R))) = c OR (B OR (S OR (F OR R)))"
      by (rule disjunctive_add) (use c B S F R in \<open>force simp: bit_or_iff\<close>)
    show ?thesis by (simp only: 1 2 3 4)
  qed
  moreover have "register_address bus slt func r = c + (B + (S + (F + R)))"
    by (simp add: register_address_def c_def B_def S_def F_def R_def push_bit_eq_mult)
  ultimately show ?thesis
    unfolding config_address_def off by (simp add: c_def B_def S_def F_def R_def ac_simps)
qed

definition cfg_header :: "(u8 \<Rightarrow> u8 \<Rightarrow> u8 \<Rightarrow> u8 \<Rightarrow> u32) \<Rightarrow> u8 \<Rightarrow> u8 \<Rightarrow> u8 \<Rightarrow> PCIConfigHeader" where
  "cfg_header cfg bus slt func =
     header_of (cfg bus slt func 0) (cfg bus slt func 1) (cfg bus slt func 2) (cfg bus slt func 3)"

definition present :: "(u8 \<Rightarrow> u8 \<Rightarrow> u8 \<Rightarrow> u8 \<Rightarrow> u32) \<Rightarrow> u8 \<Rightarrow> u8 \<Rightarrow> u8 \<Rightarrow> bool" where
  "present cfg bus slt func \<longleftrightarrow> ch_vendor_id (cfg_header cfg bus slt func) \<noteq> 0xffff"

text \<open>The functions of a device are numbered from 0 without a gap; at most four are looked at.\<close>

definition found :: "(u8 \<Rightarrow> u8 \<Rightarrow> u8 \<Rightarrow> u8 \<Rightarrow> u32) \<Rightarrow> u8 \<Rightarrow> u8 \<Rightarrow> u8 list \<Rightarrow> PCIDevice list" where
  "found cfg bus slt fs =
     map (\<lambda>f. new_PCIDevice bus slt f (cfg_header cfg bus slt f)) (takeWhile (present cfg bus slt) fs)"

definition pci_devices :: "(u8 \<Rightarrow> u8 \<Rightarrow> u8 \<Rightarrow> u8 \<Rightarrow> u32) \<Rightarrow> PCIDevice list" where
  "pci_devices cfg = concat (map (\<lambda>bus. concat (map (\<lambda>slt. found cfg (of_nat bus) (of_nat slt) [0, 1, 2, 3]) [0..<32])) [0..<256])"

lemma pci_read_config_spec:
  assumes "config_space dev cfg" "slt < 32" "func < 8" "r < 64"
  shows "\<exists>d. pci_read_config dev bus slt func (r * 4) s = (cfg bus slt func r, s\<lparr>devst := d\<rparr>)"
proof -
  have "fst (dev_in dev 0xCFC 32 (dev_out dev 0xCF8 32 (register_address bus slt func r) (devst s))) = cfg bus slt func r"
    using assms by (simp add: config_space_def)
  then show ?thesis
    by (auto simp: pci_read_config_def config_address_eq [OF assms(2-4)] outl_def inl_def PCI_CONFIG_ADDR_def PCI_CONFIG_DATA_def Let_def
        split: prod.splits)
qed

lemma read_registers_spec:
  assumes "config_space dev cfg" "slt < 32" "func < 8" "\<forall>r\<in>set rs. r < 64"
  shows "\<exists>d. read_registers dev bus slt func rs s = (map (cfg bus slt func) rs, s\<lparr>devst := d\<rparr>)"
  using assms(4)
proof (induction rs arbitrary: s)
  case Nil
  then show ?case by (auto intro!: exI [of _ "devst s"])
next
  case (Cons r rs)
  obtain d where "pci_read_config dev bus slt func (r * 4) s = (cfg bus slt func r, s\<lparr>devst := d\<rparr>)"
    using pci_read_config_spec [OF assms(1-3), of r bus s] Cons.prems by auto
  then show ?case using Cons.IH [of "s\<lparr>devst := d\<rparr>"] Cons.prems by auto
qed

lemma pci_read_config_header_spec:
  assumes "config_space dev cfg" "slt < 32" "func < 8"
  shows "\<exists>d. pci_read_config_header dev bus slt func s = (cfg_header cfg bus slt func, s\<lparr>devst := d\<rparr>)"
  using read_registers_spec [OF assms, of "[0, 1, 2, 3]" bus s]
  by (auto simp: pci_read_config_header_def cfg_header_def Let_def)

lemma pci_read_config_vendor_spec:
  assumes "config_space dev cfg" "slt < 32" "func < 8"
  shows "\<exists>d. pci_read_config_vendor dev bus slt func s = (ch_vendor_id (cfg_header cfg bus slt func), s\<lparr>devst := d\<rparr>)"
proof -
  have low: "ucast (r AND 0xffff) = (ucast r :: u16)" for r :: u32
  proof -
    have "(0xffff :: u32) = Bit_Operations.mask 16" by (simp add: mask_eq_exp_minus_1)
    then have "r AND 0xffff = take_bit 16 r" by (simp only: take_bit_eq_mask [symmetric])
    then show ?thesis by (auto intro!: bit_word_eqI simp: bit_simps)
  qed
  obtain d where "pci_read_config dev bus slt func (0 * 4) s = (cfg bus slt func 0, s\<lparr>devst := d\<rparr>)"
    using pci_read_config_spec [OF assms, of 0 bus s] by auto
  then show ?thesis by (auto simp: pci_read_config_vendor_def cfg_header_def header_of_def low Let_def)
qed

section \<open>The list of devices\<close>

definition pci_ok :: "('d, 'a) pci_scheme \<Rightarrow> addr list \<Rightarrow> (addr \<times> bkind) set \<Rightarrow> nat \<Rightarrow> bool" where
  "pci_ok s ds live n \<longleftrightarrow> (\<exists>F. kinv s F live) \<and> cursor_at s n \<and> ll_list (lists s) (pci_dev_list s) ds \<and>
     hoff (lists s) (pci_dev_list s) = 0 \<and> below_heap (pci_dev_list s) \<and>
     (\<forall>d\<in>set ds. (d - HEADER_SIZE, kind_of sizeof_PCIDevice) \<in> live)"

text \<open>The devices that are registered, in order; \<open>n\<close> heap pages have been used.\<close>

definition devices_at :: "('d, 'a) pci_scheme \<Rightarrow> PCIDevice list \<Rightarrow> nat \<Rightarrow> bool" where
  "devices_at s xs n \<longleftrightarrow> (\<exists>ds live. pci_ok s ds live n \<and> map (pcidev_of s) ds = xs)"

lemma pci_ok_cong:
  fixes s t :: "('d, 'a) pci_scheme"
  assumes "pci_ok s ds live n" "kheap.more t = kheap.more s" "\<exists>F. kinv t F live'" "live \<subseteq> live'" "cursor_at t n'"
  shows "pci_ok t ds live' n'"
proof -
  have "lists t = lists s" "pci_dev_list t = pci_dev_list s" using assms(2) by (cases s; cases t; simp)+
  then show ?thesis using assms by (auto simp: pci_ok_def)
qed

lemma devices_at_devst: "devices_at s xs n \<Longrightarrow> devices_at (s\<lparr>devst := d\<rparr>) xs n"
proof -
  assume "devices_at s xs n"
  then obtain ds live F where "pci_ok s ds live n" "map (pcidev_of s) ds = xs" "kinv s F live"
    by (auto simp: devices_at_def pci_ok_def)
  moreover have "kinv (s\<lparr>devst := d\<rparr>) F live" using calculation(3) by (subst kinv_cong) simp_all
  ultimately show ?thesis
    using pci_ok_cong [of s ds live n "s\<lparr>devst := d\<rparr>" live n]
    by (auto simp: devices_at_def pci_ok_def cursor_at_def)
qed

lemma kind_of_PCIDevice: "16 < bsize (kind_of sizeof_PCIDevice)"
  by (simp add: kind_of_def sizeof_PCIDevice_def NUM_POOLS_def HEADER_SIZE_def pool_block_size_def upt_conv_Cons)

text \<open>Adding a device: the new structure is linked behind the others, which keep their place and contents.\<close>

lemma add_device:
  fixes s :: "('d, 'a) pci_scheme"
  assumes "devices_at s xs n" "n + 4 \<le> 2 ^ 28" and al: "kmalloc sizeof_PCIDevice s = (new, u)"
    and t: "lists t = LL_enqueue (pci_dev_list u) new ((lists u)\<lparr>nxt := (nxt (lists u))(new := NULL), prv := (prv (lists u))(new := NULL)\<rparr>)"
      "pcidev_of t = (pcidev_of u)(new := x)" "pci_dev_list t = pci_dev_list u"
      "\<And>F live. kinv t F live = kinv u F live" "\<And>n. cursor_at t n = cursor_at u n"
  shows "new \<noteq> NULL" "\<exists>m\<le>n + 4. devices_at t (xs @ [x]) m"
proof -
  obtain ds live F where ok: "pci_ok s ds live n" and xs: "map (pcidev_of s) ds = xs" and K: "kinv s F live"
    using assms(1) by (auto simp: devices_at_def pci_ok_def)
  have c: "cursor_at s n" using ok by (simp add: pci_ok_def)
  show new: "new \<noteq> NULL" using kmalloc_small_succeeds [OF K c assms(2), of sizeof_PCIDevice] al by (simp add: sizeof_PCIDevice_def)
  obtain m where m: "cursor_at u m" "m \<le> n + 4"
    using kmalloc_small_cursor [OF K c assms(2) _ _ al] by (auto simp: sizeof_PCIDevice_def)
  let ?x = "(new - HEADER_SIZE, kind_of sizeof_PCIDevice)"
  obtain F' where K': "kinv u F' (insert ?x live)" and nl: "?x \<notin> live"
    using kmalloc_spec [OF K _ al] new by (auto simp: sizeof_PCIDevice_def)
  have U: "lists u = lists s" "pci_dev_list u = pci_dev_list s" "pcidev_of u = pcidev_of s"
    using kmalloc_more [OF K al] by (cases s; cases u; simp)+
  let ?l = "pci_dev_list s" and ?h = "(lists s)\<lparr>nxt := (nxt (lists s))(new := NULL), prv := (prv (lists s))(new := NULL)\<rparr>"
  have nin: "new \<notin> set ds" using ok nl by (auto simp: pci_ok_def)
  have "\<not> below_heap (new + 0)" using heap_header [OF K', of new "kind_of sizeof_PCIDevice" 0] kind_of_PCIDevice by simp
  then have nl: "new \<noteq> ?l" using ok by (auto simp: pci_ok_def)
  have foot: "ll_foot (lists s) ?l ds = insert ?l (set ds)"
    using ok by (simp add: ll_foot_def ll_nodes_def LL_nhead_def pci_ok_def)
  have "ll_list ?h ?l ds"
    using ok nin nl foot by (subst ll_list_cong [where h = "lists s"]) (auto simp: pci_ok_def)
  moreover have "LL_nhead ?h ?l new \<notin> ll_foot ?h ?l ds"
    using nin nl ok by (simp add: ll_foot_def ll_nodes_def LL_nhead_def pci_ok_def)
  ultimately have "ll_list (lists t) ?l (ds @ [new])" unfolding t U by (rule LL_enqueue_list)
  then have "pci_ok t (ds @ [new]) (insert ?x live) m"
    using ok K' m by (auto simp: pci_ok_def t U)
  moreover have "map (pcidev_of t) (ds @ [new]) = xs @ [x]" using xs nin by (auto simp: t U)
  ultimately have "devices_at t (xs @ [x]) m" unfolding devices_at_def by blast
  then show "\<exists>m\<le>n + 4. devices_at t (xs @ [x]) m" using m(2) by blast
qed

lemma func_loop_spec:
  fixes s :: "('d, 'a) pci_scheme"
  assumes cfg: "config_space dev cfg" and slt: "slt < 32"
  shows "devices_at s xs n \<Longrightarrow> n + 4 * length fs \<le> 2 ^ 28 \<Longrightarrow> \<forall>f\<in>set fs. f < 8 \<Longrightarrow>
    \<exists>t m. func_loop dev bus slt fs s = (1, t) \<and> m \<le> n + 4 * length fs \<and> devices_at t (xs @ found cfg bus slt fs) m"
proof (induction fs arbitrary: s xs n)
  case Nil
  then show ?case by (auto simp: found_def)
next
  case (Cons f fs)
  let ?hdr = "cfg_header cfg bus slt f"
  obtain d where d: "pci_read_config_header dev bus slt f s = (?hdr, s\<lparr>devst := d\<rparr>)"
    using pci_read_config_header_spec [OF cfg slt, of f bus s] Cons.prems(3) by auto
  have D: "devices_at (s\<lparr>devst := d\<rparr>) xs n" by (rule devices_at_devst [OF Cons.prems(1)])
  show ?case
  proof (cases "present cfg bus slt f")
    case False
    then have "func_loop dev bus slt (f # fs) s = (1, s\<lparr>devst := d\<rparr>)" "found cfg bus slt (f # fs) = []"
      using d by (simp_all add: present_def found_def)
    then show ?thesis using D by (auto intro!: exI [of _ n])
  next
    case True
    obtain new u where al: "kmalloc sizeof_PCIDevice (s\<lparr>devst := d\<rparr>) = (new, u)" by fastforce
    let ?x = "new_PCIDevice bus slt f ?hdr"
    define t1 where "t1 = u\<lparr>pcidev_of := (pcidev_of u)(new := ?x), lists := LL_enqueue (pci_dev_list u) new
        ((lists u)\<lparr>nxt := (nxt (lists u))(new := NULL), prv := (prv (lists u))(new := NULL)\<rparr>)\<rparr>"
    define t where "t = klog KLOG_LEVEL_INFO ''enumerated PCI device with class 0x%X on bus %d slot %d func %d''
      [ucast (ch_class ?hdr), ucast bus, ucast slt, ucast f] t1"
    have tl: "lists t = lists t1" "pcidev_of t = pcidev_of t1" "pci_dev_list t = pci_dev_list t1"
      "kinv t F live = kinv u F live" "cursor_at t n = cursor_at u n" for F live n
      unfolding t_def by (simp_all add: klog_def t1_def cursor_at_def) (subst kinv_cong [of _ u], simp_all)+
    note A = add_device [OF D _ al, of t ?x]
    have new: "new \<noteq> NULL" using A(1) Cons.prems(2) tl by (simp add: t1_def)
    obtain m where m: "m \<le> n + 4" "devices_at t (xs @ [?x]) m" using A(2) Cons.prems(2) tl by (auto simp: t1_def)
    have "func_loop dev bus slt (f # fs) s = func_loop dev bus slt fs t"
      using d True al new by (simp add: present_def t_def t1_def new_PCIDevice_def Let_def)
    moreover have "found cfg bus slt (f # fs) = ?x # found cfg bus slt fs" using True by (simp add: found_def)
    moreover from Cons.IH [OF m(2)] m(1) Cons.prems(2,3) obtain v j where "func_loop dev bus slt fs t = (1, v)" "j \<le> m + 4 * length fs"
      "devices_at v ((xs @ [?x]) @ found cfg bus slt fs) j" by auto
    ultimately show ?thesis using m(1) by (intro exI [of _ v] exI [of _ j]) simp
  qed
qed

lemma pci_enum_device_spec:
  fixes s :: "('d, 'a) pci_scheme"
  assumes "config_space dev cfg" "devices_at s xs n" "n + 16 \<le> 2 ^ 28" "slt < 32"
  shows "\<exists>m\<le>n + 16. devices_at (snd (pci_enum_device dev bus slt s)) (xs @ found cfg bus slt [0, 1, 2, 3]) m"
proof -
  obtain d where d: "pci_read_config_vendor dev bus slt 0 s = (ch_vendor_id (cfg_header cfg bus slt 0), s\<lparr>devst := d\<rparr>)"
    using pci_read_config_vendor_spec [OF assms(1,4), of 0 bus s] by auto
  have D: "devices_at (s\<lparr>devst := d\<rparr>) xs n" by (rule devices_at_devst [OF assms(2)])
  show ?thesis
  proof (cases "present cfg bus slt 0")
    case False
    then have "snd (pci_enum_device dev bus slt s) = s\<lparr>devst := d\<rparr>" "found cfg bus slt [0, 1, 2, 3] = []"
      using d by (simp_all add: pci_enum_device_def present_def found_def)
    then show ?thesis using D by (auto intro!: exI [of _ n])
  next
    case True
    then show ?thesis
      using func_loop_spec [OF assms(1,4) D, of "[0, 1, 2, 3]" bus] assms(3) d
      by (auto simp: pci_enum_device_def present_def)
  qed
qed

lemma slot_loop_spec:
  fixes s :: "('d, 'a) pci_scheme"
  assumes "config_space dev cfg"
  shows "devices_at s xs n \<Longrightarrow> n + 16 * length ss \<le> 2 ^ 28 \<Longrightarrow> \<forall>k\<in>set ss. k < 32 \<Longrightarrow>
    \<exists>m\<le>n + 16 * length ss. devices_at (slot_loop dev bus ss s) (xs @ concat (map (\<lambda>k. found cfg bus (of_nat k) [0, 1, 2, 3]) ss)) m"
proof (induction ss arbitrary: s xs n)
  case (Cons k ss)
  obtain m where m: "m \<le> n + 16" "devices_at (snd (pci_enum_device dev bus (of_nat k) s)) (xs @ found cfg bus (of_nat k) [0, 1, 2, 3]) m"
    using pci_enum_device_spec [OF assms Cons.prems(1), of "of_nat k" bus] Cons.prems(2,3)
    by (auto simp: word_less_nat_alt unat_of_nat)
  from Cons.IH [OF m(2)] m(1) Cons.prems(2,3) obtain j where "j \<le> m + 16 * length ss"
    "devices_at (slot_loop dev bus (k # ss) s) (xs @ concat (map (\<lambda>k. found cfg bus (of_nat k) [0, 1, 2, 3]) (k # ss))) j" by auto
  with m(1) show ?case by (intro exI [of _ j]) simp
qed auto

lemma bus_loop_spec:
  fixes s :: "('d, 'a) pci_scheme"
  assumes "config_space dev cfg"
  shows "devices_at s xs n \<Longrightarrow> n + 512 * length bs \<le> 2 ^ 28 \<Longrightarrow>
    \<exists>m\<le>n + 512 * length bs. devices_at (bus_loop dev bs s)
      (xs @ concat (map (\<lambda>b. concat (map (\<lambda>k. found cfg (of_nat b) (of_nat k) [0, 1, 2, 3]) [0..<32])) bs)) m"
proof (induction bs arbitrary: s xs n)
  case (Cons b bs)
  let ?t = "slot_loop dev (of_nat b) [0..<32] s"
  obtain m where m: "m \<le> n + 512" "devices_at ?t (xs @ concat (map (\<lambda>k. found cfg (of_nat b) (of_nat k) [0, 1, 2, 3]) [0..<32])) m"
    using slot_loop_spec [OF assms Cons.prems(1), of "[0..<32]" "of_nat b"] Cons.prems(2) by (auto simp del: upt_rec_numeral)
  from Cons.IH [OF m(2)] m(1) Cons.prems(2) obtain j where "j \<le> m + 512 * length bs"
    "devices_at (bus_loop dev (b # bs) s)
       (xs @ concat (map (\<lambda>b. concat (map (\<lambda>k. found cfg (of_nat b) (of_nat k) [0, 1, 2, 3]) [0..<32])) (b # bs))) j" by auto
  with m(1) show ?case by (intro exI [of _ j]) simp
qed auto

section \<open>Registration of a driver\<close>

definition matches :: "PCIDriver \<Rightarrow> PCIDevice \<Rightarrow> bool" where
  "matches driver p \<longleftrightarrow> id_class (pd_id p) = id_class (drv_id driver) \<and> id_sub_class (pd_id p) = id_sub_class (drv_id driver)"

fun probe_all :: "(addr \<Rightarrow> 's \<Rightarrow> (int \<times> 's) option) \<Rightarrow> addr list \<Rightarrow> 's \<Rightarrow> 's option" where
  "probe_all probe [] s = Some s"
| "probe_all probe (d # ds) s = Option.bind (probe d s) (\<lambda>(_, s). probe_all probe ds s)"

text \<open>The devices that \<open>ds\<close> lists, with contents \<open>c\<close>.\<close>

definition bus_at :: "addr list \<Rightarrow> (addr \<Rightarrow> PCIDevice) \<Rightarrow> ('d, 'a) pci_scheme \<Rightarrow> bool" where
  "bus_at ds c s \<longleftrightarrow> ll_list (lists s) (pci_dev_list s) ds \<and> (\<forall>d\<in>set ds. pcidev_of s d = c d)"

lemma probe_loop_step:
  assumes "bus_at (xs @ d # ys) c s"
  shows "LL_nhead (lists s) (pci_dev_list s) d \<noteq> pci_dev_list s"
    "nxt (lists s) (LL_nhead (lists s) (pci_dev_list s) d) = hd (ll_nodes (lists s) (pci_dev_list s) ys @ [pci_dev_list s])"
  using assms links_nxt_first [OF ll_list_links(2)] by (auto simp: bus_at_def ll_list_def)

text \<open>The loop calls \<open>probe\<close> for the matching devices in order. The invariant \<open>I\<close> may depend on the number of devices visited; it keeps the list as it is.\<close>

lemma probe_loop_spec:
  fixes s :: "('d, 'a) pci_scheme"
  assumes inv: "\<And>k s. I k s \<Longrightarrow> bus_at ds c s" and mono: "\<And>k s. I k s \<Longrightarrow> I (Suc k) s"
    and keep: "\<And>k d s r t. k < length ds \<Longrightarrow> d \<in> set ds \<Longrightarrow> I k s \<Longrightarrow> probe d s = Some (r, t) \<Longrightarrow> I (Suc k) t"
  shows "I (length xs) s \<Longrightarrow> ds = xs @ ys \<Longrightarrow>
    probe_loop probe driver (LL_ndata (lists s) (pci_dev_list s) (hd (ll_nodes (lists s) (pci_dev_list s) ys @ [pci_dev_list s]))) s
      = probe_all probe (filter (\<lambda>d. matches driver (c d)) ys) s"
proof (induction ys arbitrary: xs s)
  case Nil
  then show ?case by (subst probe_loop.simps) simp
next
  case (Cons d ys)
  have b: "bus_at (xs @ d # ys) c s" and cd: "pcidev_of s d = c d" and din: "d \<in> set ds"
    using inv [OF Cons.prems(1)] Cons.prems(2) by (auto simp: bus_at_def)
  show ?case
  proof (cases "matches driver (c d)")
    case False
    have "probe_loop probe driver d s =
        probe_loop probe driver (LL_ndata (lists s) (pci_dev_list s) (hd (ll_nodes (lists s) (pci_dev_list s) ys @ [pci_dev_list s]))) s"
      using False probe_loop_step [OF b] cd by (subst probe_loop.simps) (auto simp: matches_def)
    then show ?thesis using False Cons.IH [of "xs @ [d]" s] mono [OF Cons.prems(1)] Cons.prems(2) by simp
  next
    case True
    show ?thesis
    proof (cases "probe d s")
      case None
      then show ?thesis using True probe_loop_step [OF b] cd by (subst probe_loop.simps) (auto simp: matches_def)
    next
      case (Some rt)
      obtain r t where rt: "probe d s = Some (r, t)" using Some by (cases rt) auto
      have bt: "I (Suc (length xs)) t" using keep [OF _ din Cons.prems(1) rt] Cons.prems(2) by simp
      have bt': "bus_at (xs @ d # ys) c t" using inv [OF bt] Cons.prems(2) by simp
      have "probe_loop probe driver d s =
          probe_loop probe driver (LL_ndata (lists t) (pci_dev_list t) (hd (ll_nodes (lists t) (pci_dev_list t) ys @ [pci_dev_list t]))) t"
        using True probe_loop_step(1) [OF b] probe_loop_step(2) [OF bt'] cd rt by (subst probe_loop.simps) (auto simp: matches_def)
      then show ?thesis using True rt Cons.IH [of "xs @ [d]" t] bt Cons.prems(2) by simp
    qed
  qed
qed

lemma PCI_register_spec:
  fixes s :: "('d, 'a) pci_scheme"
  assumes "I 0 s" and inv: "\<And>k s. I k s \<Longrightarrow> bus_at ds c s" and mono: "\<And>k s. I k s \<Longrightarrow> I (Suc k) s"
    and keep: "\<And>k d s r t. k < length ds \<Longrightarrow> d \<in> set ds \<Longrightarrow> I k s \<Longrightarrow> probe d s = Some (r, t) \<Longrightarrow> I (Suc k) t"
  shows "PCI_register probe driver s = map_option (Pair 0) (probe_all probe (filter (\<lambda>d. matches driver (c d)) ds) s)"
proof -
  have "nxt (lists s) (pci_dev_list s) = hd (ll_nodes (lists s) (pci_dev_list s) ds @ [pci_dev_list s])"
    using inv [OF assms(1)] links_nxt_first by (auto simp: bus_at_def ll_list_def)
  then show ?thesis
    using probe_loop_spec [where I = I and xs = "[]" and ys = ds and driver = driver, OF inv mono keep] assms(1) by (simp add: PCI_register_def)
qed

lemma pci_devicesI:
  assumes "x \<in> set (found cfg (of_nat b) (of_nat k) [0, 1, 2, 3])" "b < 256" "k < 32"
  shows "x \<in> set (pci_devices cfg)"
proof -
  have "b \<in> set [0..<256]" "k \<in> set [0..<32]" using assms(2,3) by (simp_all only: set_upt atLeastLessThan_iff le0 simp_thms)
  then show ?thesis unfolding pci_devices_def set_concat set_map UN_simps image_image using assms(1) by (intro UN_I)
qed

section \<open>An example\<close>

text \<open>A bus with an IDE controller in slot 1 of bus 0; the device state is the last address written.\<close>

definition registers_example :: "u32 \<Rightarrow> u32" where
  "registers_example a = (if a = 0x80000800 then 0x70108086 else if a = 0x80000808 then 0x01018000
     else if a = 0x8000080C then 0 else 0xFFFFFFFF)"

definition bus_example :: "u8 \<Rightarrow> u8 \<Rightarrow> u8 \<Rightarrow> u8 \<Rightarrow> u32" where
  "bus_example bus slt func r = registers_example (register_address bus slt func r)"

definition pci_dev_example :: "u32 device" where
  "pci_dev_example = \<lparr>dev_in = (\<lambda>p w a. (registers_example a, a)), dev_out = (\<lambda>p w v a. v)\<rparr>"

lemma pci_dev_example_bus: "config_space pci_dev_example bus_example"
  by (simp add: config_space_def pci_dev_example_def bus_example_def)

definition pci_example :: "'d \<Rightarrow> 'd pci" where
  "pci_example d = ps2.extend ((kbase.extend \<lparr>irq_semaphore = 0, int_flag = True, handlers = handlers sched_example, klogs = [], devst = d\<rparr>
       (kbase.more (ps2_example [])))\<lparr>lists := PCI_init 0x7800 sched_lists\<rparr>)
     (pci.fields 0x7800 (\<lambda>_. new_PCIDevice 0 0 0 (header_of 0 0 0 0)))"

lemma pci_example_sel [simp]:
  "lists (pci_example d) = PCI_init 0x7800 sched_lists" "pci_dev_list (pci_example d) = 0x7800" "devst (pci_example d) = d"
  by (simp_all add: pci_example_def ps2.extend_def pci.fields_def kbase.extend_def)

lemma pci_example_devices: "devices_at (pci_example d) [] 0"
proof -
  have "kinv (pci_example d) (\<lambda>_. []) {} = kinv fs_example (\<lambda>_. []) {}"
    by (rule kinv_cong) (simp_all add: pci_example_def ps2.extend_def pci.fields_def kbase.extend_def ps2_example_def
        files.extend_def ps2.fields_def fs_example_def psys.extend_def files.fields_def sched_example_def kheap.extend_def
        psys.fields_def heap_example_def mm.extend_def kheap.fields_def vm_example_def mm_example_def)
  then have "kinv (pci_example d) (\<lambda>_. []) {}" using fs_example_kinv by simp
  moreover have "next_kernel_heap_vaddr (pci_example d) = next_kernel_heap_vaddr fs_example"
    by (simp add: pci_example_def ps2.extend_def pci.fields_def kbase.extend_def ps2_example_def
        files.extend_def ps2.fields_def fs_example_def psys.extend_def files.fields_def sched_example_def kheap.extend_def
        psys.fields_def heap_example_def mm.extend_def kheap.fields_def vm_example_def mm_example_def)
  then have "cursor_at (pci_example d) 0" using fs_example_cursor by (simp add: cursor_at_def)
  moreover have "ll_list (lists (pci_example d)) 0x7800 []" by (simp add: ll_list_Nil PCI_init_def)
  ultimately show ?thesis
    by (auto simp: devices_at_def pci_ok_def PCI_init_def below_heap_def)
qed

section \<open>Properties\<close>

text \<open>C15: enumeration of the PCI bus. With \<open>131072\<close> pages of heap addresses left, \<open>PCI_enum\<close> registers exactly the functions that
  answer, in the order of bus, slot and function number (the functions of a slot up to the first that does not answer, at most
  four), each with its address and its decoded configuration header. Registering a driver then calls its \<open>probe\<close> for
  exactly the registered devices of its class and subclass, in that order, as long as \<open>probe\<close> does not change the list.\<close>

theorem PCI_enum_correct:
  fixes s :: "('d, 'a) pci_scheme"
  assumes "config_space dev cfg" "devices_at s [] n" "n + 131072 \<le> 2 ^ 28"
  shows "\<exists>t ds. PCI_enum dev s = (0, t) \<and> LL_for_each (pci_dev_list t) (lists t) = Some ds \<and> map (pcidev_of t) ds = pci_devices cfg \<and>
    (\<forall>driver probe. (\<forall>d s r u. d \<in> set ds \<and> bus_at ds (pcidev_of t) s \<and> probe d s = Some (r, u) \<longrightarrow> bus_at ds (pcidev_of t) u) \<longrightarrow>
       PCI_register probe driver t = map_option (Pair 0) (probe_all probe (filter (\<lambda>d. matches driver (pcidev_of t d)) ds) t))"
proof -
  let ?t = "bus_loop dev [0..<256] s"
  obtain m where "devices_at ?t (pci_devices cfg) m"
    using bus_loop_spec [OF assms(1,2), of "[0..<256]"] assms(3) by (auto simp: pci_devices_def)
  then obtain ds live where ds: "pci_ok ?t ds live m" "map (pcidev_of ?t) ds = pci_devices cfg" by (auto simp: devices_at_def)
  then have "LL_for_each (pci_dev_list ?t) (lists ?t) = Some ds" "bus_at ds (pcidev_of ?t) ?t"
    by (auto simp: pci_ok_def bus_at_def intro: LL_for_each_list)
  with ds(2) PCI_register_spec [of "\<lambda>_. bus_at ds (pcidev_of ?t)" ?t ds "pcidev_of ?t"] show ?thesis
    by (intro exI [of _ ?t] exI [of _ ds]) (auto simp: PCI_enum_def)
qed

theorem PCI_enum_correct_witness:
  "\<exists>t ds d. PCI_enum pci_dev_example (pci_example 0) = (0, t) \<and> LL_for_each (pci_dev_list t) (lists t) = Some ds \<and> d \<in> set ds \<and>
     pd_slot (pcidev_of t d) = 1 \<and> id_class (pd_id (pcidev_of t d)) = 1 \<and> id_sub_class (pd_id (pcidev_of t d)) = 1"
proof -
  let ?x = "new_PCIDevice 0 1 0 (cfg_header bus_example 0 1 0)"
  have hdr: "cfg_header bus_example 0 1 0 = header_of 0x70108086 0xFFFFFFFF 0x01018000 0"
    by (simp add: cfg_header_def bus_example_def register_address_def registers_example_def)
  have "present bus_example 0 1 0" by (simp add: present_def hdr header_of_def)
  then have "?x \<in> set (found bus_example (of_nat 0) (of_nat 1) [0, 1, 2, 3])" by (simp add: found_def)
  then have x: "?x \<in> set (pci_devices bus_example)" by (rule pci_devicesI) simp_all
  obtain t ds where t: "PCI_enum pci_dev_example (pci_example 0) = (0, t)" "LL_for_each (pci_dev_list t) (lists t) = Some ds"
    "map (pcidev_of t) ds = pci_devices bus_example"
    using PCI_enum_correct [OF pci_dev_example_bus pci_example_devices [of 0]] by auto
  have "?x \<in> pcidev_of t ` set ds" unfolding set_map [symmetric] t(3) by (rule x)
  then obtain d where "d \<in> set ds" "pcidev_of t d = ?x" unfolding image_iff by metis
  then show ?thesis using t(1,2) by (intro exI [of _ t] exI [of _ ds] exI [of _ d]) (simp add: new_PCIDevice_def hdr header_of_def)
qed

end
