(* ===== verification/Ata.thy ===== *)
theory Ata
  imports Pci
begin

text \<open>
  The disk driver \<^verbatim>\<open>src/src/drivers/disk/ata.c\<close>: detection of a disk, the programming of 48-bit sector
  addresses, the queue of requests, the interrupt handler and the blocking read.

  \<open>struct ATADevice\<close> starts with its \<open>struct BlockDev\<close>; its wait queue lies at offset 88 and its list of requests at
  112. A request is a local variable of \<open>ata_read_block\<close>, and so is the buffer of \<open>ata_probe\<close>: their addresses are
  arguments. \<open>ata_read_block\<close> blocks in the middle: \<open>ata_read_block\<close> is the part up to the switch to the next process, with the
  frame and the state that process continues with, and \<open>ata_read_resume\<close> the rest of the call, when the reader runs
  again. The loops that poll the drive may run forever (\<open>None\<close>).
\<close>

section \<open>State\<close>

definition ATA_LEGACY_PRIMARY_BASE :: u32 where "ATA_LEGACY_PRIMARY_BASE = 0x1F0"
definition ATA_LEGACY_PRIMARY_CNTL :: u32 where "ATA_LEGACY_PRIMARY_CNTL = 0x3F6"
definition ATA_PRIMARY_IRQ :: u8 where "ATA_PRIMARY_IRQ = 0x20 + 14"
definition DATA_REG_OFF :: u32 where "DATA_REG_OFF = 0"
definition ERR_REG_OFF :: u32 where "ERR_REG_OFF = 1"
definition SECT_CNT_REG_OFF :: u32 where "SECT_CNT_REG_OFF = 2"
definition LBA_LOW_OFF :: u32 where "LBA_LOW_OFF = 3"
definition LBA_MID_OFF :: u32 where "LBA_MID_OFF = 4"
definition LBA_HIGH_OFF :: u32 where "LBA_HIGH_OFF = 5"
definition DRIVE_REG_OFF :: u32 where "DRIVE_REG_OFF = 6"
definition STATUS_REG_OFF :: u32 where "STATUS_REG_OFF = 7"
definition CMD_REG_OFF :: u32 where "CMD_REG_OFF = 7"
definition ATA_SELECT_MASTER :: u8 where "ATA_SELECT_MASTER = 0xE0"
definition ATA_SR_BSY :: u8 where "ATA_SR_BSY = 0x80"
definition ATA_SR_DRQ :: u8 where "ATA_SR_DRQ = 0x08"
definition ATA_SR_ERR :: u8 where "ATA_SR_ERR = 0x01"
definition ATA_CMD_READ_PIO_EXT :: u8 where "ATA_CMD_READ_PIO_EXT = 0x24"
definition ATA_CMD_IDENTIFY :: u8 where "ATA_CMD_IDENTIFY = 0xEC"
definition ATA_BLOCK_SIZE :: u64 where "ATA_BLOCK_SIZE = 512"

lemmas ata_regs = DATA_REG_OFF_def ERR_REG_OFF_def SECT_CNT_REG_OFF_def LBA_LOW_OFF_def LBA_MID_OFF_def LBA_HIGH_OFF_def
  DRIVE_REG_OFF_def STATUS_REG_OFF_def CMD_REG_OFF_def

record ATARequest =
  rq_lba :: u64
  rq_read :: u32

text \<open>The members beyond \<open>dev\<close> and the two lists; \<open>driv\<close> is never used.\<close>

record ATADevice =
  ata_base :: u32
  ata_cntl_base :: u32
  ata_master :: u32
  ata_irq :: u8
  ata_slave :: u8

definition sizeof_ATADevice :: u64 where "sizeof_ATADevice = 136"
definition ata_blocked :: "addr \<Rightarrow> addr" where "ata_blocked ata = ata + 88"
definition ata_requests :: "addr \<Rightarrow> addr" where "ata_requests ata = ata + 112"

text \<open>\<open>ata_name\<close> is the address of the string literal.\<close>

record 'd ata = "'d pci" +
  ata_of :: "addr \<Rightarrow> ATADevice"
  req_of :: "addr \<Rightarrow> ATARequest"
  ata_name :: addr

section \<open>The drive\<close>

text \<open>The port of a register: the argument of \<open>inb\<close> and \<open>outb\<close> is 16 bits wide.\<close>

definition ata_port :: "addr \<Rightarrow> u32 \<Rightarrow> ('d, 'a) ata_scheme \<Rightarrow> u16" where
  "ata_port ata off s = ucast (ata_base (ata_of s ata) + off)"

definition ata_cntl_port :: "addr \<Rightarrow> ('d, 'a) ata_scheme \<Rightarrow> u16" where
  "ata_cntl_port ata s = ucast (ata_cntl_base (ata_of s ata))"

definition ata_400ns_delay :: "'d device \<Rightarrow> addr \<Rightarrow> ('d, 'a) ata_scheme \<Rightarrow> ('d, 'a) ata_scheme" where
  "ata_400ns_delay dev driv s =
     (let (_, s) = inb dev (ata_port driv STATUS_REG_OFF s) s;
          (_, s) = inb dev (ata_port driv STATUS_REG_OFF s) s;
          (_, s) = inb dev (ata_port driv STATUS_REG_OFF s) s;
          (_, s) = inb dev (ata_port driv STATUS_REG_OFF s) s
      in s)"

partial_function (option) ata_wait_not_busy :: "'d device \<Rightarrow> addr \<Rightarrow> ('d, 'a) ata_scheme \<Rightarrow> ('d, 'a) ata_scheme option" where
  "ata_wait_not_busy dev driv s =
     (let (v, s) = inb dev (ata_cntl_port driv s) s
      in if v AND ATA_SR_BSY \<noteq> 0 then ata_wait_not_busy dev driv s else Some s)"

definition ata_check_err :: "'d device \<Rightarrow> addr \<Rightarrow> ('d, 'a) ata_scheme \<Rightarrow> bool \<times> ('d, 'a) ata_scheme" where
  "ata_check_err dev driv s = (let (v, s) = inb dev (ata_cntl_port driv s) s in (v AND ATA_SR_ERR \<noteq> 0, s))"

definition ata_check_data :: "'d device \<Rightarrow> addr \<Rightarrow> ('d, 'a) ata_scheme \<Rightarrow> bool \<times> ('d, 'a) ata_scheme" where
  "ata_check_data dev driv s = (let (v, s) = inb dev (ata_cntl_port driv s) s in (v AND ATA_SR_DRQ \<noteq> 0, s))"

partial_function (option) ata_wait_data_ready :: "'d device \<Rightarrow> addr \<Rightarrow> ('d, 'a) ata_scheme \<Rightarrow> ('d, 'a) ata_scheme option" where
  "ata_wait_data_ready dev driv s =
     (let (v, s) = inb dev (ata_cntl_port driv s) s
      in if v AND ATA_SR_DRQ = 0 then ata_wait_data_ready dev driv s else Some s)"

fun ata_read_loop :: "'d device \<Rightarrow> addr \<Rightarrow> nat \<Rightarrow> addr \<Rightarrow> ('d, 'a) ata_scheme \<Rightarrow> ('d, 'a) ata_scheme" where
  "ata_read_loop dev ata 0 buff s = s"
| "ata_read_loop dev ata (Suc n) buff s =
     (let (w, s) = inw dev (ata_port ata DATA_REG_OFF s) s
      in ata_read_loop dev ata n (buff + 2) (s\<lparr>bytes := store16 buff w (bytes s)\<rparr>))"

definition ata_read :: "'d device \<Rightarrow> addr \<Rightarrow> addr \<Rightarrow> ('d, 'a) ata_scheme \<Rightarrow> ('d, 'a) ata_scheme option" where
  "ata_read dev ata buff s = do {
     s \<leftarrow> ata_wait_data_ready dev ata s;
     Some (ata_read_loop dev ata (unat (ATA_BLOCK_SIZE div 2)) buff s) }"

definition ata_isr :: "'d device \<Rightarrow> u32 \<Rightarrow> u32 \<Rightarrow> addr \<Rightarrow> ('d, 'a) ata_scheme \<Rightarrow> ('d, 'a) ata_scheme" where
  "ata_isr dev irq err ata s =
     (let s = klog KLOG_LEVEL_DEBUG ''ata interrupt'' [] s;
          (_, s) = inb dev (ata_port ata STATUS_REG_OFF s) s;
          (e, s) = ata_check_err dev ata s;
          (bad, s) = (if e then (True, s) else let (d, s) = ata_check_data dev ata s in (\<not> d, s))
      in if bad
         then let (v, s) = inb dev (ata_port ata ERR_REG_OFF s) s
              in klog KLOG_LEVEL_WARN ''ata error detected: 0x%x'' [ucast v] s
         else PROC_unblock_head (ata_blocked ata) s)"

definition ata_write_lba :: "'d device \<Rightarrow> addr \<Rightarrow> u64 \<Rightarrow> u16 \<Rightarrow> ('d, 'a) ata_scheme \<Rightarrow> ('d, 'a) ata_scheme" where
  "ata_write_lba dev ata lba sectorcount s =
     (let s = outb dev (ata_port ata SECT_CNT_REG_OFF s) (ucast (drop_bit 8 sectorcount)) s;
          s = outb dev (ata_port ata LBA_LOW_OFF s) (ucast (drop_bit 24 lba)) s;
          s = outb dev (ata_port ata LBA_MID_OFF s) (ucast (drop_bit 32 lba)) s;
          s = outb dev (ata_port ata LBA_HIGH_OFF s) (ucast (drop_bit 40 lba)) s;
          s = outb dev (ata_port ata SECT_CNT_REG_OFF s) (ucast sectorcount) s;
          s = outb dev (ata_port ata LBA_LOW_OFF s) (ucast lba) s;
          s = outb dev (ata_port ata LBA_MID_OFF s) (ucast (drop_bit 8 lba)) s
      in outb dev (ata_port ata LBA_HIGH_OFF s) (ucast (drop_bit 16 lba)) s)"

section \<open>Reading a block\<close>

definition ata_read_block ::
  "'d device \<Rightarrow> (irq_handler \<Rightarrow> u32 \<Rightarrow> u32 \<Rightarrow> addr \<Rightarrow> ('d, 'a) ata_scheme \<Rightarrow> ('d, 'a) ata_scheme) \<Rightarrow> frame \<Rightarrow>
   addr \<Rightarrow> addr \<Rightarrow> u64 \<Rightarrow> ('d, 'a) ata_scheme \<Rightarrow> frame \<times> ('d, 'a) ata_scheme" where
  "ata_read_block dev drv ctx req ata blk_num s =
     (let s = s\<lparr>req_of := (req_of s)(req := \<lparr>rq_lba = blk_num, rq_read = 1\<rparr>)\<rparr>;
          s = IRQ_disable s;
          s = (if LL_empty (ata_requests ata) (lists s)
               then let s = ata_write_lba dev ata (rq_lba (req_of s req)) 1 s
                    in outb dev (ata_port ata CMD_REG_OFF s) ATA_CMD_READ_PIO_EXT s
               else s);
          s = s\<lparr>lists := LL_enqueue (ata_requests ata) req (lists s)\<rparr>
      in PROC_block_on dev drv (ata_blocked ata) True ctx s)"

definition ata_read_resume :: "'d device \<Rightarrow> addr \<Rightarrow> addr \<Rightarrow> ('d, 'a) ata_scheme \<Rightarrow> (int \<times> ('d, 'a) ata_scheme) option" where
  "ata_read_resume dev ata dst s =
     (let (d, s) = ata_check_data dev ata s
      in if \<not> d then Some (- 1, klog KLOG_LEVEL_WARN ''ata read failed'' [] s)
         else do {
           let s = s\<lparr>lists := snd (LL_dequeue (ata_requests ata) (lists s))\<rparr>;
           s \<leftarrow> ata_read dev ata dst s;
           let next = LL_head (ata_requests ata) (lists s);
           Some (0, if next \<noteq> NULL
                    then let s = ata_write_lba dev ata (rq_lba (req_of s next)) 1 s
                         in outb dev (ata_port ata CMD_REG_OFF s) ATA_CMD_READ_PIO_EXT s
                    else s) })"

section \<open>Detection\<close>

text \<open>\<open>hdr0\<close> is what the local variable \<open>hdr\<close> holds at the start, \<open>iden\<close> the address of the local buffer.\<close>

definition ata_probe_register ::
  "'d device \<Rightarrow> PCIConfigHeader_0 \<Rightarrow> addr \<Rightarrow> addr \<Rightarrow> ('d, 'a) ata_scheme \<Rightarrow> (int \<times> ('d, 'a) ata_scheme) option" where
  "ata_probe_register dev hdr iden ata s = do {
     let s = s\<lparr>bdev_of := (bdev_of s)(ata := (bdev_of s ata)
           \<lparr>total_len := ATA_BLOCK_SIZE * load64 (iden + 2 * 100) (bytes s), blk_size := ATA_BLOCK_SIZE,
            bd_type := MASS_STORAGE, read_block_fn := Ata_read_block, bd_name := ata_name s\<rparr>)\<rparr>;
     let s = s\<lparr>ata_of := (ata_of s)(ata := (ata_of s ata)
           \<lparr>ata_irq := ATA_PRIMARY_IRQ, ata_master := bar4 hdr, ata_slave := 0\<rparr>)\<rparr>;
     s \<leftarrow> IRQ_set_handler (int (unat (ata_irq (ata_of s ata)))) (Some Ata_isr) ata s;
     let s = IRQ_clear_mask dev (ata_irq (ata_of s ata)) s;
     let s = outb dev (ata_cntl_port ata s) 0 s;
     Some (0, snd (BLK_register ata s)) }"

definition ata_probe_identify ::
  "'d device \<Rightarrow> PCIConfigHeader_0 \<Rightarrow> addr \<Rightarrow> addr \<Rightarrow> ('d, 'a) ata_scheme \<Rightarrow> (int \<times> ('d, 'a) ata_scheme) option" where
  "ata_probe_identify dev hdr iden ata s = do {
     s \<leftarrow> ata_wait_not_busy dev ata s;
     let (e, s) = ata_check_err dev ata s;
     if e then map_option (Pair (- 1)) (kfree ata (klog KLOG_LEVEL_WARN ''ata device uses unsupported ATAPI interface'' [] s))
     else do {
       s \<leftarrow> ata_read dev ata iden s;
       if load16 (iden + 2 * 83) (bytes s) AND push_bit 10 1 = 0
       then map_option (Pair (- 1)) (kfree ata (klog KLOG_LEVEL_WARN ''ata uses unsupported 28-bit LBA'' [] s))
       else ata_probe_register dev hdr iden ata s } }"

definition ata_probe ::
  "'d device \<Rightarrow> PCIConfigHeader_0 \<Rightarrow> addr \<Rightarrow> addr \<Rightarrow> ('d, 'a) ata_scheme \<Rightarrow> (int \<times> ('d, 'a) ata_scheme) option" where
  "ata_probe dev hdr0 iden pd s =
     (let (ata, s) = kmalloc sizeof_ATADevice s
      in if ata = NULL then Some (- 1, s)
         else
           let s = s\<lparr>lists := LL_init (ata_requests ata) 0 (lists s)\<rparr>;
               s = PROC_queue_init (ata_blocked ata) s;
               (_, hdr, s) = PCI_read_config_header_0 dev pd hdr0 s;
               s = s\<lparr>ata_of := (ata_of s)(ata := (ata_of s ata)
                      \<lparr>ata_base := (if bar0 hdr = 0 \<or> bar0 hdr = 1 then ATA_LEGACY_PRIMARY_BASE else bar0 hdr)\<rparr>)\<rparr>;
               s = s\<lparr>ata_of := (ata_of s)(ata := (ata_of s ata)
                      \<lparr>ata_cntl_base := (if bar1 hdr = 0 \<or> bar1 hdr = 1 then ATA_LEGACY_PRIMARY_CNTL else bar1 hdr)\<rparr>)\<rparr>;
               s = outb dev (ata_port ata DRIVE_REG_OFF s) ATA_SELECT_MASTER s;
               s = ata_400ns_delay dev ata s;
               s = ata_write_lba dev ata 0 1 s;
               s = outb dev (ata_port ata CMD_REG_OFF s) ATA_CMD_IDENTIFY s;
               (v, s) = inb dev (ata_port ata STATUS_REG_OFF s) s
           in if v = 0 then map_option (Pair (- 1)) (kfree ata (klog KLOG_LEVEL_WARN ''ata device not found'' [] s))
              else ata_probe_identify dev hdr iden ata s)"

definition ata_pci_driver :: PCIDriver where
  "ata_pci_driver = \<lparr>drv_id = \<lparr>id_vendor = 0, id_device = 0, id_class = 1, id_sub_class = 1\<rparr>\<rparr>"

definition ata_init_module :: "'d device \<Rightarrow> PCIConfigHeader_0 \<Rightarrow> addr \<Rightarrow> ('d, 'a) ata_scheme \<Rightarrow> (int \<times> ('d, 'a) ata_scheme) option" where
  "ata_init_module dev hdr0 iden s = map_option (\<lambda>(_, s). (0, s)) (PCI_register (ata_probe dev hdr0 iden) ata_pci_driver s)"

section \<open>The promise of the drive\<close>

text \<open>A drive with 48-bit addressing: each of the count and address registers remembers the byte written before the last one, the
  command starts the transfer that they select together, and the words of a sector wait in a queue behind the data port. The number of
  a register is its offset from the base port.\<close>

record drive =
  d_now :: "u32 \<Rightarrow> u8"
  d_prev :: "u32 \<Rightarrow> u8"
  d_cmd :: "(u64 \<times> u16) option"
  d_fifo :: "u16 list"

definition d_lba :: "drive \<Rightarrow> u64" where
  "d_lba D = ucast (d_now D 3) OR push_bit 8 (ucast (d_now D 4)) OR push_bit 16 (ucast (d_now D 5)) OR
     push_bit 24 (ucast (d_prev D 3)) OR push_bit 32 (ucast (d_prev D 4)) OR push_bit 40 (ucast (d_prev D 5))"

definition d_count :: "drive \<Rightarrow> u16" where
  "d_count D = ucast (d_now D 2) OR push_bit 8 (ucast (d_prev D 2))"

definition drive_write :: "u32 \<Rightarrow> u8 \<Rightarrow> drive \<Rightarrow> drive" where
  "drive_write off v D =
     (if off = 7 then (if v = 0x24 then D\<lparr>d_cmd := Some (d_lba D, d_count D)\<rparr> else D)
      else D\<lparr>d_prev := (d_prev D)(off := d_now D off), d_now := (d_now D)(off := v)\<rparr>)"

definition ata_drive :: "'d device \<Rightarrow> ('d \<Rightarrow> drive) \<Rightarrow> u32 \<Rightarrow> u32 \<Rightarrow> bool" where
  "ata_drive dev dv base cntl \<longleftrightarrow>
     (\<forall>d v. \<forall>off\<in>{2, 3, 4, 5, 7}. dv (dev_out dev (ucast (base + off)) 8 (ucast v) d) = drive_write off v (dv d)) \<and>
     (\<forall>d. dv (snd (dev_in dev (ucast (base + 7)) 8 d)) = dv d) \<and>
     (\<forall>d. dv (snd (dev_in dev (ucast cntl) 8 d)) = dv d \<and>
        ((ucast (fst (dev_in dev (ucast cntl) 8 d)) :: u8) AND 8 \<noteq> 0 \<longleftrightarrow> d_fifo (dv d) \<noteq> []) \<and>
        (ucast (fst (dev_in dev (ucast cntl) 8 d)) :: u8) AND 1 = 0) \<and>
     (\<forall>d w ws. d_fifo (dv d) = w # ws \<longrightarrow>
        ucast (fst (dev_in dev (ucast base) 16 d)) = w \<and> dv (snd (dev_in dev (ucast base) 16 d)) = (dv d)\<lparr>d_fifo := ws\<rparr>)"

lemma ata_driveD:
  assumes "ata_drive dev dv base cntl"
  shows "off \<in> {2, 3, 4, 5, 7} \<Longrightarrow> dv (dev_out dev (ucast (base + off)) 8 (ucast v) d) = drive_write off v (dv d)"
    "dv (snd (dev_in dev (ucast (base + 7)) 8 d)) = dv d" "dv (snd (dev_in dev (ucast cntl) 8 d)) = dv d"
    "(ucast (fst (dev_in dev (ucast cntl) 8 d)) :: u8) AND 8 \<noteq> 0 \<longleftrightarrow> d_fifo (dv d) \<noteq> []"
    "(ucast (fst (dev_in dev (ucast cntl) 8 d)) :: u8) AND 1 = 0"
    "d_fifo (dv d) = w # ws \<Longrightarrow> ucast (fst (dev_in dev (ucast base) 16 d)) = w"
    "d_fifo (dv d) = w # ws \<Longrightarrow> dv (snd (dev_in dev (ucast base) 16 d)) = (dv d)\<lparr>d_fifo := ws\<rparr>"
  using assms unfolding ata_drive_def by blast+

lemma byte_bit:
  assumes "n < 64"
  shows "bit (push_bit k (ucast (ucast (drop_bit k l) :: u8)) :: u64) n \<longleftrightarrow> k \<le> n \<and> n < k + 8 \<and> bit (l :: u64) n"
  using assms by (auto simp: bit_simps)

lemma lba_bytes:
  "ucast (ucast (l :: u64) :: u8) OR push_bit 8 (ucast (ucast (drop_bit 8 l) :: u8)) OR push_bit 16 (ucast (ucast (drop_bit 16 l) :: u8)) OR
   push_bit 24 (ucast (ucast (drop_bit 24 l) :: u8)) OR push_bit 32 (ucast (ucast (drop_bit 32 l) :: u8)) OR
   push_bit 40 (ucast (ucast (drop_bit 40 l) :: u8)) = take_bit 48 l" (is "?l = _")
proof (rule bit_word_eqI)
  fix n assume "n < LENGTH(64)"
  then have n: "n < 64" by simp
  have "bit (ucast (ucast l :: u8) :: u64) n \<longleftrightarrow> n < 8 \<and> bit l n" using byte_bit [OF n, of 0 l] by simp
  then have "bit ?l n \<longleftrightarrow> n < 48 \<and> bit l n"
    unfolding bit_or_iff byte_bit [OF n] by (cases "bit l n") auto
  then show "bit ?l n \<longleftrightarrow> bit (take_bit 48 l) n" by (simp only: bit_take_bit_iff)
qed

section \<open>Programming the drive\<close>

text \<open>The ports of the device do not change; only the state of the hardware does.\<close>

lemma outb_drive:
  assumes "ata_drive dev dv (ata_base (ata_of s ata)) (ata_cntl_base (ata_of s ata))" "off \<in> {2, 3, 4, 5, 7}"
  shows "\<exists>d. outb dev (ata_port ata off s) v s = s\<lparr>devst := d\<rparr> \<and> dv d = drive_write off v (dv (devst s))"
  using ata_driveD(1) [OF assms] by (auto simp: outb_def ata_port_def)

definition drive_at :: "'d device \<Rightarrow> ('d \<Rightarrow> drive) \<Rightarrow> addr \<Rightarrow> ('d, 'a) ata_scheme \<Rightarrow> bool" where
  "drive_at dev dv ata s \<longleftrightarrow> ata_drive dev dv (ata_base (ata_of s ata)) (ata_cntl_base (ata_of s ata))"

lemma drive_at_cong: "ata_of t = ata_of s \<Longrightarrow> drive_at dev dv ata t = drive_at dev dv ata s"
  by (simp add: drive_at_def)

lemma ata_write_lba_drive:
  assumes "drive_at dev dv ata s"
  shows "\<exists>d. ata_write_lba dev ata lba cnt s = s\<lparr>devst := d\<rparr> \<and> d_lba (dv d) = take_bit 48 lba \<and> d_count (dv d) = cnt \<and>
    d_fifo (dv d) = d_fifo (dv (devst s)) \<and> d_cmd (dv d) = d_cmd (dv (devst s))"
proof -
  let ?b = "ata_base (ata_of s ata)"
  let ?w = "\<lambda>off v d. dev_out dev (ucast (?b + off)) 8 (ucast (v :: u8)) d"
  define d where "d = ?w 5 (ucast (drop_bit 16 lba)) (?w 4 (ucast (drop_bit 8 lba)) (?w 3 (ucast lba) (?w 2 (ucast cnt)
    (?w 5 (ucast (drop_bit 40 lba)) (?w 4 (ucast (drop_bit 32 lba)) (?w 3 (ucast (drop_bit 24 lba)) (?w 2 (ucast (drop_bit 8 cnt)) (devst s))))))))"
  have eq: "ata_write_lba dev ata lba cnt s = s\<lparr>devst := d\<rparr>"
    by (simp add: ata_write_lba_def outb_def ata_port_def ata_regs d_def Let_def)
  have W: "dv (?w off v d) = drive_write off v (dv d)" if "off \<in> {2, 3, 4, 5}" for off v d
    using ata_driveD(1) [OF assms [unfolded drive_at_def], of off v d] that by auto
  have D: "d_now (dv d) 3 = ucast lba" "d_now (dv d) 4 = ucast (drop_bit 8 lba)" "d_now (dv d) 5 = ucast (drop_bit 16 lba)"
    "d_prev (dv d) 3 = ucast (drop_bit 24 lba)" "d_prev (dv d) 4 = ucast (drop_bit 32 lba)" "d_prev (dv d) 5 = ucast (drop_bit 40 lba)"
    "d_now (dv d) 2 = ucast cnt" "d_prev (dv d) 2 = ucast (drop_bit 8 cnt)"
    "d_fifo (dv d) = d_fifo (dv (devst s))" "d_cmd (dv d) = d_cmd (dv (devst s))"
    by (simp_all add: d_def W drive_write_def)
  have "ucast (ucast cnt :: u8) OR push_bit 8 (ucast (ucast (drop_bit 8 cnt) :: u8)) = cnt"
    by (rule bit_word_eqI) (auto simp: bit_simps)
  then show ?thesis using eq D(9,10) by (intro exI [of _ d]) (simp add: d_lba_def d_count_def D lba_bytes)
qed

lemma start_read:
  assumes "drive_at dev dv ata s"
  shows "\<exists>d. (let s = ata_write_lba dev ata lba 1 s in outb dev (ata_port ata CMD_REG_OFF s) ATA_CMD_READ_PIO_EXT s) = s\<lparr>devst := d\<rparr> \<and>
    d_cmd (dv d) = Some (take_bit 48 lba, 1) \<and> d_fifo (dv d) = d_fifo (dv (devst s))"
proof -
  obtain d where d: "ata_write_lba dev ata lba 1 s = s\<lparr>devst := d\<rparr>" "d_lba (dv d) = take_bit 48 lba" "d_count (dv d) = 1"
    "d_fifo (dv d) = d_fifo (dv (devst s))"
    using ata_write_lba_drive [OF assms] by blast
  have "ata_drive dev dv (ata_base (ata_of (s\<lparr>devst := d\<rparr>) ata)) (ata_cntl_base (ata_of (s\<lparr>devst := d\<rparr>) ata))"
    using assms by (simp add: drive_at_def)
  from outb_drive [OF this, of 7 ATA_CMD_READ_PIO_EXT] d show ?thesis
    by (auto simp: CMD_REG_OFF_def ATA_CMD_READ_PIO_EXT_def drive_write_def)
qed

section \<open>Reading the data\<close>

fun store_words :: "addr \<Rightarrow> u16 list \<Rightarrow> bmem \<Rightarrow> bmem" where
  "store_words a [] m = m"
| "store_words a (w # ws) m = store_words (a + 2) ws (store16 a w m)"

lemma ata_read_loop_drive:
  assumes "drive_at dev dv ata s" "d_fifo (dv (devst s)) = ws @ vs"
  shows "\<exists>d. ata_read_loop dev ata (length ws) buff s = s\<lparr>bytes := store_words buff ws (bytes s), devst := d\<rparr> \<and>
    dv d = (dv (devst s))\<lparr>d_fifo := vs\<rparr>"
  using assms
proof (induction ws arbitrary: s buff)
  case Nil
  have "dv (devst s)\<lparr>d_fifo := vs\<rparr> = dv (devst s)" using Nil.prems(2) by (cases "dv (devst s)") simp
  then show ?case by (intro exI [of _ "devst s"]) simp
next
  case (Cons w ws)
  let ?b = "ata_base (ata_of s ata)"
  obtain r d where r: "dev_in dev (ucast ?b) 16 (devst s) = (r, d)" by fastforce
  have f: "d_fifo (dv (devst s)) = w # (ws @ vs)" using Cons.prems(2) by simp
  have w: "ucast r = w" "dv d = (dv (devst s))\<lparr>d_fifo := ws @ vs\<rparr>"
    using ata_driveD(6,7) [OF Cons.prems(1) [unfolded drive_at_def] f] r by simp_all
  let ?s = "s\<lparr>devst := d, bytes := store16 buff w (bytes s)\<rparr>"
  have "ata_read_loop dev ata (length (w # ws)) buff s = ata_read_loop dev ata (length ws) (buff + 2) ?s"
    using r w(1) by (simp add: inw_def ata_port_def DATA_REG_OFF_def)
  moreover have "drive_at dev dv ata ?s" using Cons.prems(1) by (simp add: drive_at_def)
  ultimately show ?case using Cons.IH [of ?s "buff + 2"] w(2) by auto
qed

lemma cntl_read:
  assumes "drive_at dev dv ata s"
  shows "\<exists>v d. inb dev (ata_cntl_port ata s) s = (v, s\<lparr>devst := d\<rparr>) \<and> dv d = dv (devst s) \<and>
    (v AND 8 \<noteq> 0 \<longleftrightarrow> d_fifo (dv (devst s)) \<noteq> []) \<and> v AND 1 = 0"
  using ata_driveD(3-5) [OF assms [unfolded drive_at_def], of "devst s"]
  by (auto simp: inb_def ata_cntl_port_def split: prod.split)

lemma ata_read_drive:
  assumes "drive_at dev dv ata s" "d_fifo (dv (devst s)) = ws" "length ws = 256"
  shows "\<exists>d. ata_read dev ata buff s = Some (s\<lparr>bytes := store_words buff ws (bytes s), devst := d\<rparr>) \<and>
    dv d = (dv (devst s))\<lparr>d_fifo := []\<rparr>"
proof -
  obtain v d where c: "inb dev (ata_cntl_port ata s) s = (v, s\<lparr>devst := d\<rparr>)" "dv d = dv (devst s)" "v AND 8 \<noteq> 0"
    using cntl_read [OF assms(1)] assms(2,3) by (metis list.size(3) zero_neq_numeral)
  then have w: "ata_wait_data_ready dev ata s = Some (s\<lparr>devst := d\<rparr>)"
    by (subst ata_wait_data_ready.simps) (simp add: ATA_SR_DRQ_def)
  have n: "unat (ATA_BLOCK_SIZE div 2) = length ws" by (simp add: ATA_BLOCK_SIZE_def assms(3))
  have "drive_at dev dv ata (s\<lparr>devst := d\<rparr>)" using assms(1) by (simp add: drive_at_def)
  from ata_read_loop_drive [OF this, of ws "[]" buff] c(2) assms(2) obtain d' where
    "ata_read_loop dev ata (length ws) buff (s\<lparr>devst := d\<rparr>) = s\<lparr>devst := d, bytes := store_words buff ws (bytes s), devst := d'\<rparr>"
    "dv d' = (dv (devst s))\<lparr>d_fifo := []\<rparr>" by auto
  then show ?thesis by (intro exI [of _ d']) (simp add: ata_read_def w n)
qed

text \<open>The words that were stored are the words found there.\<close>

lemma store_words_outside:
  "2 * length ws \<le> unat (x - a) \<Longrightarrow> store_words a ws m x = m x"
proof (induction ws arbitrary: a m)
  case (Cons w ws)
  have "x - (a + 2) = (x - a) - 2" by simp
  moreover have "(2 :: u64) \<le> x - a" using Cons.prems by (simp add: word_le_nat_alt)
  ultimately have "unat (x - (a + 2)) = unat (x - a) - 2" by (simp only: unat_sub) simp
  moreover have "x \<noteq> a" "x \<noteq> a + 1" using Cons.prems by auto
  ultimately show ?case using Cons.IH [of "a + 2"] Cons.prems by (simp add: store16_def)
qed simp

lemma load16_stored: "load16 a (store16 a w m) = w"
proof -
  have "a \<noteq> a + 1" by simp
  then show ?thesis unfolding load16_def store16_def by (auto intro!: bit_word_eqI simp: bit_simps)
qed

lemma load16_store_words:
  "i < length ws \<Longrightarrow> 2 * length ws < 2 ^ 63 \<Longrightarrow> load16 (a + 2 * of_nat i) (store_words a ws m) = ws ! i"
proof (induction ws arbitrary: a m i)
  case (Cons w ws)
  show ?case
  proof (cases i)
    case 0
    have "unat (- 2 :: u64) = 2 ^ 64 - 2" "unat (- 1 :: u64) = 2 ^ 64 - 1"
      by (simp_all add: unsigned_minus_1_eq_mask mask_eq_exp_minus_1)
    moreover have "a - (a + 2) = (- 2 :: u64)" "a + 1 - (a + 2) = (- 1 :: u64)" by simp_all
    ultimately have "store_words (a + 2) ws (store16 a w m) x = store16 a w m x" if "x \<in> {a, a + 1}" for x
      using that Cons.prems(2) by (intro store_words_outside) auto
    then have "load16 a (store_words (a + 2) ws (store16 a w m)) = load16 a (store16 a w m)" by (simp add: load16_def)
    then show ?thesis using 0 by (simp add: load16_stored)
  next
    case (Suc j)
    then show ?thesis using Cons.IH [of j "a + 2" "store16 a w m"] Cons.prems by (simp add: algebra_simps)
  qed
qed simp

section \<open>The queue of requests\<close>

text \<open>Pending reads: process, address of the request and sector. The requests are linked in the order of the processes in the wait
  queue; when the data of the first one is there, its process has been moved to the ready queue.\<close>

datatype phase = Idle | Reading | Ready

type_synonym pending = "addr \<times> addr \<times> u64"

fun drive_phase :: "(u64 \<Rightarrow> u16 list) \<Rightarrow> pending list \<Rightarrow> phase \<Rightarrow> drive \<Rightarrow> bool" where
  "drive_phase img [] ph D \<longleftrightarrow> ph = Idle \<and> d_fifo D = []"
| "drive_phase img ((p, r, b) # qs) ph D \<longleftrightarrow>
     ph = Reading \<and> d_cmd D = Some (take_bit 48 b, 1) \<and> d_fifo D = [] \<or> ph = Ready \<and> d_fifo D = img (take_bit 48 b)"

definition disk_inv ::
  "('d \<Rightarrow> drive) \<Rightarrow> (u64 \<Rightarrow> u16 list) \<Rightarrow> addr \<Rightarrow> ('d, 'a) ata_scheme \<Rightarrow> pending list \<Rightarrow> phase \<Rightarrow> addr list \<Rightarrow> bool" where
  "disk_inv dv img ata s qs ph rs \<longleftrightarrow>
     beside s (ata_requests ata) (map (fst \<circ> snd) qs) (ata_blocked ata) (map fst (if ph = Ready then tl qs else qs)) rs \<and>
     (\<forall>(p, r, b)\<in>set qs. r \<noteq> NULL \<and> rq_lba (req_of s r) = b) \<and> drive_phase img qs ph (dv (devst s))"

lemma beside_cong: "lists t = lists s \<Longrightarrow> ready_queue t = ready_queue s \<Longrightarrow> beside t k es q ws rs = beside s k es q ws rs"
  by (simp add: beside_def waiting_def)

text \<open>What the rest of the kernel sees: interrupts are enabled, and the device and the ready queue are the same ones.\<close>

definition steady :: "('d, 'a) ata_scheme \<Rightarrow> ('d, 'a) ata_scheme \<Rightarrow> bool" where
  "steady s t \<longleftrightarrow> ata_of t = ata_of s \<and> ready_queue t = ready_queue s \<and> irq_ok t \<and> irq_semaphore t = 0"

text \<open>Adding to the further list.\<close>

lemma beside_enqueue:
  assumes b: "beside s k es q ws rs"
    and fresh: "LL_nhead (lists s) k r \<notin> ll_foot (lists s) k es \<union> ll_foot (lists s) q ws \<union> ll_foot (lists s) (ready_queue s) rs"
    and t: "lists t = LL_enqueue k r (lists s)" "ready_queue t = ready_queue s"
  shows "beside t k (es @ [r]) q ws rs"
proof -
  have l: "ll_list (lists s) k es" "ll_list (lists s) q ws" "ll_list (lists s) (ready_queue s) rs"
    "ll_foot (lists s) q ws \<inter> ll_foot (lists s) (ready_queue s) rs = {}" "LL_nhead (lists s) q = LL_nhead (lists s) (ready_queue s)"
    "ll_foot (lists s) k es \<inter> ll_foot (lists s) q ws = {}" "ll_foot (lists s) k es \<inter> ll_foot (lists s) (ready_queue s) rs = {}"
    using b unfolding beside_def waiting_def by blast+
  have "ll_list (lists t) k (es @ [r])" unfolding t using fresh by (intro ll.enq_rep [OF l(1)]) blast
  moreover have "ll_list (lists t) q ws" unfolding t using fresh by (intro ll.enq_frame [OF l(1,2,6)]) blast
  moreover have "ll_list (lists t) (ready_queue s) rs" unfolding t using fresh by (intro ll.enq_frame [OF l(1,3,7)]) blast
  moreover have "ll_foot (lists s) k (es @ [r]) = insert (LL_nhead (lists s) k r) (ll_foot (lists s) k es)" by (rule ll.foot_snoc)
  ultimately show ?thesis using l(4-7) fresh unfolding beside_def waiting_def t(2) by (auto simp: t(1) LL_stable simp del: ll_foot_simps)
qed

lemma ata_isr_disk:
  fixes s :: "('d, 'a) ata_scheme"
  assumes D: "drive_at dev dv ata s" and inv: "disk_inv dv img ata s ((p, r, b) # qs) Reading rs"
    and d: "dv d = (dv (devst s))\<lparr>d_cmd := None, d_fifo := img (take_bit 48 b)\<rparr>" and img: "\<And>b. length (img b) = 256"
    and irq: "irq_ok s" "irq_semaphore s = 0"
  shows "disk_inv dv img ata (ata_isr dev irq err ata (s\<lparr>devst := d\<rparr>)) ((p, r, b) # qs) Ready (rs @ [p])"
    "steady s (ata_isr dev irq err ata (s\<lparr>devst := d\<rparr>))"
proof -
  let ?b = "ata_base (ata_of s ata)"
  define d1 where "d1 = snd (dev_in dev (ucast (?b + 7)) 8 d)"
  have d1: "inb dev (ata_port ata STATUS_REG_OFF (s\<lparr>devst := d\<rparr>)) (s\<lparr>devst := d\<rparr>) = (ucast (fst (dev_in dev (ucast (?b + 7)) 8 d)), s\<lparr>devst := d1\<rparr>)"
    by (simp add: inb_def ata_port_def STATUS_REG_OFF_def d1_def split: prod.split)
  have v1: "dv d1 = dv d" using ata_driveD(2) [OF D [unfolded drive_at_def]] by (simp add: d1_def)
  have at: "drive_at dev dv ata (s\<lparr>devst := x\<rparr>)" for x using D by (simp add: drive_at_def)
  obtain v d2 where 2: "inb dev (ata_cntl_port ata (s\<lparr>devst := d1\<rparr>)) (s\<lparr>devst := d1\<rparr>) = (v, s\<lparr>devst := d2\<rparr>)" "dv d2 = dv d" "v AND 1 = 0"
    using cntl_read [OF at [of d1]] v1 by auto
  have full: "d_fifo (dv d2) \<noteq> []" using 2(2) d img [of "take_bit 48 b"] by auto
  obtain w d3 where 3: "inb dev (ata_cntl_port ata (s\<lparr>devst := d2\<rparr>)) (s\<lparr>devst := d2\<rparr>) = (w, s\<lparr>devst := d3\<rparr>)" "dv d3 = dv d" "w AND 8 \<noteq> 0"
    using cntl_read [OF at [of d2]] 2(2) full by auto
  have isr: "ata_isr dev irq err ata (s\<lparr>devst := d\<rparr>) = PROC_unblock_head (ata_blocked ata) (s\<lparr>devst := d3\<rparr>)"
    using 2(1,3) 3(1,3) d1
    by (simp add: ata_isr_def ata_check_err_def ata_check_data_def ATA_SR_ERR_def ATA_SR_DRQ_def klog_def klog_levels Let_def)
  let ?k = "ata_requests ata" and ?q = "ata_blocked ata"
  have "beside (s\<lparr>devst := d3\<rparr>) ?k (map (fst \<circ> snd) ((p, r, b) # qs)) ?q (p # map fst qs) rs"
    using inv by (subst beside_cong [of _ s]) (simp_all add: disk_inv_def)
  from PROC_unblock_head_beside [OF this] irq obtain h where
    h: "PROC_unblock_head ?q (s\<lparr>devst := d3\<rparr>) = s\<lparr>devst := d3, lists := h\<rparr>"
      "beside (s\<lparr>devst := d3, lists := h\<rparr>) ?k (map (fst \<circ> snd) ((p, r, b) # qs)) ?q (map fst qs) (rs @ [p])"
    by (auto simp: irq_ok_def)
  then show "disk_inv dv img ata (ata_isr dev irq err ata (s\<lparr>devst := d\<rparr>)) ((p, r, b) # qs) Ready (rs @ [p])"
    "steady s (ata_isr dev irq err ata (s\<lparr>devst := d\<rparr>))"
    using inv isr 3(2) d irq by (auto simp: disk_inv_def steady_def irq_ok_def)
qed

text \<open>The resumed reader finds its sector.\<close>

lemma ata_read_resume_disk:
  fixes s :: "('d, 'a) ata_scheme"
  assumes D: "drive_at dev dv ata s" and inv: "disk_inv dv img ata s ((p, r, b) # qs) Ready rs"
    and img: "\<And>b. length (img b) = 256"
  shows "\<exists>t. ata_read_resume dev ata dst s = Some (0, t) \<and> bytes t = store_words dst (img (take_bit 48 b)) (bytes s) \<and>
    disk_inv dv img ata t qs (if qs = [] then Idle else Reading) rs"
proof -
  let ?k = "ata_requests ata" and ?q = "ata_blocked ata" and ?ws = "img (take_bit 48 b)"
  have at: "drive_at dev dv ata t" if "ata_of t = ata_of s" for t :: "('d, 'a) ata_scheme" using D that by (simp add: drive_at_def)
  have fifo: "d_fifo (dv (devst s)) = ?ws" and side: "beside s ?k (r # map (fst \<circ> snd) qs) ?q (map fst qs) rs"
    using inv by (auto simp: disk_inv_def)
  have ne: "?ws \<noteq> []" using img [of "take_bit 48 b"] by auto
  obtain v d where c: "inb dev (ata_cntl_port ata s) s = (v, s\<lparr>devst := d\<rparr>)" "dv d = dv (devst s)" "v AND 8 \<noteq> 0"
    using cntl_read [OF D] fifo ne by auto
  define h where "h = snd (LL_dequeue ?k (lists s))"
  let ?s1 = "s\<lparr>devst := d, lists := h\<rparr>"
  have lk: "ll_list (lists s) ?k (r # map (fst \<circ> snd) qs)" using side by (simp add: beside_def)
  have st: "ll_foot h = ll_foot (lists s)" "LL_nhead h = LL_nhead (lists s)" by (simp_all add: h_def)
  have h: "ll_list h ?k (map (fst \<circ> snd) qs)" using ll.deq_rep [OF lk] by (simp add: h_def)
  have side1: "beside ?s1 ?k (map (fst \<circ> snd) qs) ?q (map fst qs) rs"
    using side h ll.deq_frame [OF lk] unfolding beside_def waiting_def by (auto simp: st h_def [symmetric])
  have f1: "d_fifo (dv (devst ?s1)) = ?ws" using c(2) fifo by simp
  obtain d2 where rd: "ata_read dev ata dst ?s1 = Some (?s1\<lparr>bytes := store_words dst ?ws (bytes s), devst := d2\<rparr>)"
    "dv d2 = (dv (devst s))\<lparr>d_fifo := []\<rparr>"
    using ata_read_drive [OF at f1 img] c(2) by auto
  let ?s2 = "?s1\<lparr>bytes := store_words dst ?ws (bytes s), devst := d2\<rparr>"
  have side2: "beside ?s2 ?k (map (fst \<circ> snd) qs) ?q (map fst qs) rs" using side1 by (subst beside_cong [of _ ?s1]) simp_all
  have lba: "\<forall>(p, r, b)\<in>set qs. r \<noteq> NULL \<and> rq_lba (req_of s r) = b" using inv by (auto simp: disk_inv_def)
  have R: "ata_read_resume dev ata dst s = Some (0, if LL_head ?k h \<noteq> NULL
      then let s = ata_write_lba dev ata (rq_lba (req_of s (LL_head ?k h))) 1 ?s2 in outb dev (ata_port ata CMD_REG_OFF s) ATA_CMD_READ_PIO_EXT s
      else ?s2)"
    using c rd(1) by (simp add: ata_read_resume_def ata_check_data_def ATA_SR_DRQ_def h_def Let_def)
  show ?thesis
  proof (cases qs)
    case Nil
    then have "LL_head ?k h = NULL" using LL_head_list [OF h] by simp
    then show ?thesis using R side2 Nil rd(2) by (simp add: disk_inv_def)
  next
    case (Cons x xs)
    obtain p' r' b' where x: "x = (p', r', b')" by (cases x)
    have hd: "LL_head ?k h = r'" "r' \<noteq> NULL" "rq_lba (req_of s r') = b'" using LL_head_list [OF h] lba by (simp_all add: Cons x)
    obtain d3 where d3: "(let s = ata_write_lba dev ata b' 1 ?s2 in outb dev (ata_port ata CMD_REG_OFF s) ATA_CMD_READ_PIO_EXT s) = ?s2\<lparr>devst := d3\<rparr>"
      "d_cmd (dv d3) = Some (take_bit 48 b', 1)" "d_fifo (dv d3) = []"
      using start_read [OF at, of ?s2 b'] rd(2) by auto
    have "beside (?s2\<lparr>devst := d3\<rparr>) ?k (map (fst \<circ> snd) qs) ?q (map fst qs) rs" using side2 by (subst beside_cong [of _ ?s2]) simp_all
    moreover have "ata_read_resume dev ata dst s = Some (0, ?s2\<lparr>devst := d3\<rparr>)" using R hd d3(1) by (simp only: simp_thms if_True)
    ultimately show ?thesis using d3(2,3) lba Cons x by (auto simp: disk_inv_def)
  qed
qed

text \<open>A new read goes to the end of both queues; the drive is programmed when it is the only one.\<close>

lemma ata_read_block_disk:
  fixes s :: "('d, 'a) ata_scheme"
  assumes D: "drive_at dev dv ata s" and inv: "disk_inv dv img ata s qs ph rs" and run: "running s c rs"
    and irq: "irq_semaphore s = 0" and r: "r \<noteq> NULL"
    and fresh: "LL_nhead (lists s) (ata_requests ata) r \<notin> ll_foot (lists s) (ata_requests ata) (map (fst \<circ> snd) qs)
        \<union> ll_foot (lists s) (ata_blocked ata) (map fst qs) \<union> ll_foot (lists s) (ready_queue s) (c # rs)"
      "LL_nhead (lists s) (ata_blocked ata) c \<notin> ll_foot (lists s) (ata_requests ata) (map (fst \<circ> snd) qs)
        \<union> ll_foot (lists s) (ata_blocked ata) (map fst qs) \<union> ll_foot (lists s) (ready_queue s) rs"
    and t: "t = snd (ata_read_block dev drv ctx r ata b s)"
  shows "disk_inv dv img ata t (qs @ [(c, r, b)]) (if qs = [] then Reading else ph) (tl rs)"
    "steady s t" "curr_proc t = (if rs = [] then main_proc s else hd rs)"
proof -
  let ?k = "ata_requests ata" and ?q = "ata_blocked ata" and ?es = "map (fst \<circ> snd) qs" and ?ws = "map fst (if ph = Ready then tl qs else qs)"
  let ?rq = "(req_of s)(r := \<lparr>rq_lba = b, rq_read = 1\<rparr>)"
  define s1 where "s1 = IRQ_disable (s\<lparr>req_of := ?rq\<rparr>)"
  have side: "beside s ?k ?es ?q ?ws rs" using inv by (simp add: disk_inv_def)
  have lk: "ll_list (lists s) ?k ?es" using side by (simp add: beside_def)
  have em: "LL_empty ?k (lists s) \<longleftrightarrow> qs = []" using LL_empty_list [OF lk] by simp
  have s1: "lists s1 = lists s" "devst s1 = devst s" "ata_of s1 = ata_of s" "req_of s1 = ?rq" "handlers s1 = handlers s"
    "irq_semaphore s1 = 1" "\<not> int_flag s1" "ready_queue s1 = ready_queue s" "curr_proc s1 = curr_proc s"
    "sleep_curr s1 = sleep_curr s" "main_proc s1 = main_proc s"
    using irq by (simp_all add: s1_def IRQ_disable_def Let_def atomic_add_def atomic_get_def)
  obtain d where d: "(if LL_empty ?k (lists s1)
      then let s = ata_write_lba dev ata (rq_lba (req_of s1 r)) 1 s1 in outb dev (ata_port ata CMD_REG_OFF s) ATA_CMD_READ_PIO_EXT s
      else s1) = s1\<lparr>devst := d\<rparr>" "d_fifo (dv d) = d_fifo (dv (devst s))"
    "if qs = [] then d_cmd (dv d) = Some (take_bit 48 b, 1) else dv d = dv (devst s)"
  proof (cases "qs = []")
    case True
    have "drive_at dev dv ata s1" using D by (simp add: drive_at_def s1)
    from start_read [OF this, of b] that True em show ?thesis by (auto simp: s1)
  next
    case False
    then show ?thesis using that [of "devst s1"] em s1 by simp
  qed
  define s2 where "s2 = s1\<lparr>devst := d, lists := LL_enqueue ?k r (lists s)\<rparr>"
  have t2: "t = snd (PROC_block_on dev drv ?q True ctx s2)"
    unfolding t ata_read_block_def Let_def s1_def [symmetric] d(1) [unfolded Let_def] by (simp add: s2_def s1)
  have sub: "ll_foot (lists s) ?q ?ws \<subseteq> ll_foot (lists s) ?q (map fst qs)" by (cases qs) auto
  have side2: "beside s2 ?k (?es @ [r]) ?q ?ws rs"
    by (rule beside_enqueue [OF side]) (use fresh(1) sub in \<open>auto simp: s2_def s1\<close>)
  have R: "curr_proc s = c" "c \<noteq> NULL" "NULL \<notin> set rs" "\<not> sleep_curr s" "ll_list (lists s) (ready_queue s) rs" "cell_free s c rs" "syscalls_ready s"
    using run by (auto simp: running_def)
  have run2: "running s2 c rs"
    using R side2 by (auto simp: running_def cell_free_def syscalls_ready_def beside_def waiting_def irq_ok_def s2_def s1)
  have kind: "LL_nhead (lists s) ?q = LL_nhead (lists s) (ready_queue s)" using side by (simp add: beside_def waiting_def)
  have ne: "LL_nhead (lists s) ?q c \<noteq> LL_nhead (lists s) ?k r" using fresh(1) kind by auto
  have free2: "LL_nhead (lists s2) ?q c \<notin> ll_foot (lists s2) ?q ?ws \<union> ll_foot (lists s2) (ready_queue s2) rs \<union> ll_foot (lists s2) ?k (?es @ [r])"
    using fresh(2) sub ne sentinel_in_foot [of ?k "lists s" ?es] by (auto simp: s2_def s1 simp del: sentinel_in_foot)
  note B = PROC_block_on_beside [OF run2 side2 free2 t2]
  have w2: "waiting s2 ?q ?ws rs" using side2 by (simp add: beside_def)
  note W = PROC_block_on_waiting [OF run2 w2 _ t2]
  have more: "psys.more t = psys.more s2" "devst t = devst s2" using W(3,4) free2 by blast+
  have ext: "ata_of t = ata_of s2" "req_of t = req_of s2" using more(1) by (cases t; cases s2; simp)+
  have "irq_semaphore t = irq_semaphore (IRQ_enable s2)" using W(7) free2 by auto
  then have "irq_semaphore t = 0" by (simp add: IRQ_enable_def s2_def s1 atomic_get_def atomic_sub_def Let_def)
  moreover have "irq_ok t" "ready_queue t = ready_queue s2" using W(2,5) free2 by blast+
  ultimately show "steady s t" by (simp add: steady_def ext s2_def s1)
  show "curr_proc t = (if rs = [] then main_proc s else hd rs)" using W(8) free2 by (auto simp: s2_def s1)
  have rn: "r \<notin> set ?es" using fresh(1) by (auto simp: ll_foot_def)
  have req: "\<forall>(p, r', b')\<in>set (qs @ [(c, r, b)]). r' \<noteq> NULL \<and> rq_lba (req_of t r') = b'"
    using inv rn r by (force simp: disk_inv_def ext s2_def s1)
  have ph: "drive_phase img (qs @ [(c, r, b)]) (if qs = [] then Reading else ph) (dv (devst t))"
    using inv d(2,3) by (cases qs) (auto simp: disk_inv_def more s2_def)
  have "ph = Ready \<Longrightarrow> qs \<noteq> []" using inv by (cases qs) (auto simp: disk_inv_def)
  then have "map fst (if (if qs = [] then Reading else ph) = Ready then tl (qs @ [(c, r, b)]) else qs @ [(c, r, b)]) = ?ws @ [c]" by auto
  then show "disk_inv dv img ata t (qs @ [(c, r, b)]) (if qs = [] then Reading else ph) (tl rs)"
    using B(1) req ph unfolding disk_inv_def by (simp only: map_append list.map comp_apply fst_conv snd_conv)
qed

text \<open>Where a new request and the running process are linked, nothing else is.\<close>

definition unlinked :: "addr \<Rightarrow> ('d, 'a) ata_scheme \<Rightarrow> pending list \<Rightarrow> addr list \<Rightarrow> addr \<Rightarrow> addr \<Rightarrow> bool" where
  "unlinked ata s qs rs c r \<longleftrightarrow>
     (let busy = ll_foot (lists s) (ata_requests ata) (map (fst \<circ> snd) qs) \<union> ll_foot (lists s) (ata_blocked ata) (map fst qs)
                   \<union> ll_foot (lists s) (ready_queue s) rs
      in LL_nhead (lists s) (ata_requests ata) r \<notin> insert (LL_nhead (lists s) (ready_queue s) c) busy \<and>
         LL_nhead (lists s) (ata_blocked ata) c \<notin> busy \<and> r \<noteq> NULL)"

section \<open>An example\<close>

definition drive_example :: drive where
  "drive_example = \<lparr>d_now = \<lambda>_. 0, d_prev = \<lambda>_. 0, d_cmd = None, d_fifo = []\<rparr>"

definition disk_dev_example :: "drive device" where
  "disk_dev_example = \<lparr>
     dev_in = (\<lambda>p w D. if p = 0x1F0 then (case d_fifo D of [] \<Rightarrow> (0, D) | v # vs \<Rightarrow> (ucast v, D\<lparr>d_fifo := vs\<rparr>))
       else if p = 0x3F6 then (if d_fifo D = [] then 0 else 8, D) else (0, D)),
     dev_out = (\<lambda>p w v D. drive_write (ucast (p - 0x1F0)) (ucast v) D)\<rparr>"

definition disk_image_example :: "u64 \<Rightarrow> u16 list" where
  "disk_image_example b = replicate 256 (ucast b)"

definition ata_example :: "drive ata" where
  "ata_example = pci.extend ((pci_example drive_example)\<lparr>lists := LL_init 0x8070 0 (LL_init 0x8058 0 sched_lists)\<rparr>)
     (ata.fields (\<lambda>_. \<lparr>ata_base = 0x1F0, ata_cntl_base = 0x3F6, ata_master = 0, ata_irq = 0x2E, ata_slave = 0\<rparr>)
        (\<lambda>_. \<lparr>rq_lba = 0, rq_read = 0\<rparr>) 0x5100)"

lemma ata_example_sel [simp]:
  "lists ata_example = LL_init 0x8070 0 (LL_init 0x8058 0 sched_lists)" "ata_base (ata_of ata_example a) = 0x1F0"
  "ata_cntl_base (ata_of ata_example a) = 0x3F6" "devst ata_example = drive_example" "ready_queue ata_example = 0x900"
  "curr_proc ata_example = 0x1000" "sleep_curr ata_example = False" "irq_semaphore ata_example = 0" "int_flag ata_example = True"
  "handlers ata_example = handlers sched_example"
  by (simp_all add: ata_example_def pci.extend_def ata.fields_def pci_example_def ps2.extend_def pci.fields_def kbase.extend_def ps2_example_def
      files.extend_def ps2.fields_def fs_example_def psys.extend_def files.fields_def sched_example_def kheap.extend_def psys.fields_def)

lemma disk_dev_example_drive: "drive_at disk_dev_example (\<lambda>D. D) 0x8000 ata_example"
proof -
  have "ata_drive disk_dev_example (\<lambda>D. D) 0x1F0 0x3F6"
    unfolding ata_drive_def by (auto simp: disk_dev_example_def)
  then show ?thesis by (simp add: drive_at_def)
qed

lemma ata_example_disk:
  "disk_inv (\<lambda>D. D) disk_image_example 0x8000 ata_example [] Idle [0x2000, 0x3000]" "running ata_example 0x1000 [0x2000, 0x3000]"
  "unlinked 0x8000 ata_example [] [0x2000, 0x3000] 0x1000 0x9800"
proof -
  show "disk_inv (\<lambda>D. D) disk_image_example 0x8000 ata_example [] Idle [0x2000, 0x3000]"
    by (simp add: disk_inv_def beside_def waiting_def ata_requests_def ata_blocked_def drive_example_def ll_list_def LL_nhead_def LL_init_def
        sched_lists_def fun_eq_iff)
  show "running ata_example 0x1000 [0x2000, 0x3000]"
    using sched_example_ready(1)
    by (simp add: running_def cell_free_def irq_ok_def syscalls_ready_def ll_list_def LL_nhead_def LL_init_def sched_lists_def)
  show "unlinked 0x8000 ata_example [] [0x2000, 0x3000] 0x1000 0x9800"
    by (simp add: unlinked_def ata_requests_def ata_blocked_def LL_nhead_def LL_init_def sched_lists_def)
qed

section \<open>Properties\<close>

text \<open>C14: reads are served in order, and every reader gets its own sector. With a drive that behaves as \<open>ata_drive\<close> says and any number of
  reads pending: (1) a further read puts its request and its process at the ends of the two queues, and programs the
  drive for one sector at the 48-bit address it wants when no other read is pending; (2) when the drive has the data of the first
  pending read, its interrupt moves exactly the process of that read to the ready queue; (3) that process, resumed, stores the 256
  words of the sector it asked for in its buffer and returns 0, and the drive is programmed for the next pending read.
  Each step leaves the queues and the drive in the same relation, so the steps can follow each other in every order the code permits.\<close>

theorem disk_reads_in_order:
  fixes s :: "('d, 'a) ata_scheme"
  assumes "drive_at dev dv ata s" "disk_inv dv img ata s qs ph rs" "\<forall>b. length (img b) = 256" "irq_ok s" "irq_semaphore s = 0"
  shows "(\<forall>c r b drv ctx t. running s c rs \<and> unlinked ata s qs rs c r \<and> t = snd (ata_read_block dev drv ctx r ata b s) \<longrightarrow>
      disk_inv dv img ata t (qs @ [(c, r, b)]) (if qs = [] then Reading else ph) (tl rs) \<and> steady s t) \<and>
    (\<forall>p r b qs' d irq err. qs = (p, r, b) # qs' \<and> ph = Reading \<and> dv d = (dv (devst s))\<lparr>d_cmd := None, d_fifo := img (take_bit 48 b)\<rparr> \<longrightarrow>
      disk_inv dv img ata (ata_isr dev irq err ata (s\<lparr>devst := d\<rparr>)) qs Ready (rs @ [p]) \<and>
      steady s (ata_isr dev irq err ata (s\<lparr>devst := d\<rparr>))) \<and>
    (\<forall>p r b qs' dst. qs = (p, r, b) # qs' \<and> ph = Ready \<longrightarrow>
      (\<exists>t. ata_read_resume dev ata dst s = Some (0, t) \<and> (\<forall>i<256. load16 (dst + 2 * of_nat i) (bytes t) = img (take_bit 48 b) ! i) \<and>
         disk_inv dv img ata t qs' (if qs' = [] then Idle else Reading) rs))"
proof (intro conjI allI impI; (elim conjE)?)
  fix c r b drv ctx t
  assume a: "running s c rs" "unlinked ata s qs rs c r" "t = snd (ata_read_block dev drv ctx r ata b s)"
  have u: "r \<noteq> NULL" "LL_nhead (lists s) (ata_requests ata) r \<notin> ll_foot (lists s) (ata_requests ata) (map (fst \<circ> snd) qs)
        \<union> ll_foot (lists s) (ata_blocked ata) (map fst qs) \<union> ll_foot (lists s) (ready_queue s) (c # rs)"
      "LL_nhead (lists s) (ata_blocked ata) c \<notin> ll_foot (lists s) (ata_requests ata) (map (fst \<circ> snd) qs)
        \<union> ll_foot (lists s) (ata_blocked ata) (map fst qs) \<union> ll_foot (lists s) (ready_queue s) rs"
    using a(2) by (auto simp: unlinked_def Let_def)
  note B = ata_read_block_disk [OF assms(1,2) a(1) assms(5) u a(3)]
  show "disk_inv dv img ata t (qs @ [(c, r, b)]) (if qs = [] then Reading else ph) (tl rs)" "steady s t"
    using B by blast+
next
  fix p r b qs' d irq err
  assume a: "qs = (p, r, b) # qs'" "ph = Reading" "dv d = (dv (devst s))\<lparr>d_cmd := None, d_fifo := img (take_bit 48 b)\<rparr>"
  show "disk_inv dv img ata (ata_isr dev irq err ata (s\<lparr>devst := d\<rparr>)) qs Ready (rs @ [p])"
    "steady s (ata_isr dev irq err ata (s\<lparr>devst := d\<rparr>))"
    using ata_isr_disk [OF assms(1) assms(2) [unfolded a(1,2)] a(3)] assms(3-5) unfolding a(1) by auto
next
  fix p r b qs' dst
  assume a: "qs = (p, r, b) # qs'" "ph = Ready"
  have img: "length (img b) = 256" for b using assms(3) by blast
  obtain t where t: "ata_read_resume dev ata dst s = Some (0, t)" "bytes t = store_words dst (img (take_bit 48 b)) (bytes s)"
    "disk_inv dv img ata t qs' (if qs' = [] then Idle else Reading) rs"
    using ata_read_resume_disk [OF assms(1) assms(2) [unfolded a] img] by blast
  have "load16 (dst + 2 * of_nat i) (bytes t) = img (take_bit 48 b) ! i" if "i < 256" for i
    using that img [of "take_bit 48 b"] by (simp add: t(2) load16_store_words)
  with t show "\<exists>t. ata_read_resume dev ata dst s = Some (0, t) \<and> (\<forall>i<256. load16 (dst + 2 * of_nat i) (bytes t) = img (take_bit 48 b) ! i) \<and>
      disk_inv dv img ata t qs' (if qs' = [] then Idle else Reading) rs" by blast
qed

theorem disk_reads_in_order_witness:
  "\<exists>t d u v. t = snd (ata_read_block disk_dev_example (\<lambda>_ _ _ _ s. s) [] 0x9800 0x8000 5 ata_example) \<and>
     u = ata_isr disk_dev_example 0x2E 0 0x8000 (t\<lparr>devst := d\<rparr>) \<and> LL_for_each 0x900 (lists u) = Some [0x3000, 0x1000] \<and>
     ata_read_resume disk_dev_example 0x8000 0x9000 u = Some (0, v) \<and> load16 0x9000 (bytes v) = 5"
proof -
  let ?dv = "\<lambda>D :: drive. D" and ?img = disk_image_example and ?dev = disk_dev_example
  have img: "\<forall>b. length (?img b) = 256" by (simp add: disk_image_example_def)
  have ok: "irq_ok ata_example" by (simp add: irq_ok_def)
  define t where "t = snd (ata_read_block ?dev (\<lambda>_ _ _ _ s. s) [] 0x9800 0x8000 5 ata_example)"
  have t: "disk_inv ?dv ?img 0x8000 t [(0x1000, 0x9800, 5)] Reading [0x3000]" "steady ata_example t"
    using disk_reads_in_order [OF disk_dev_example_drive ata_example_disk(1) img ok, THEN conjunct1, rule_format, OF _ conjI, OF _ ata_example_disk(2), OF _ conjI,
        OF _ ata_example_disk(3) t_def] by simp_all
  have at: "drive_at ?dev ?dv 0x8000 x" if "ata_of x = ata_of ata_example" for x :: "drive ata"
    using disk_dev_example_drive that by (simp add: drive_at_def)
  have st: "ata_of t = ata_of ata_example" "irq_ok t" "irq_semaphore t = 0" "ready_queue t = 0x900" using t(2) by (simp_all add: steady_def)
  define d where "d = (devst t)\<lparr>d_cmd := None, d_fifo := ?img (take_bit 48 5)\<rparr>"
  define u where "u = ata_isr ?dev 0x2E 0 0x8000 (t\<lparr>devst := d\<rparr>)"
  have u: "disk_inv ?dv ?img 0x8000 u [(0x1000, 0x9800, 5)] Ready [0x3000, 0x1000]" "steady t u"
    using disk_reads_in_order [OF at [OF st(1)] t(1) img st(2,3), THEN conjunct2, THEN conjunct1, rule_format, of "0x1000" "0x9800" 5 "[]" d "0x2E" 0]
    by (simp_all add: u_def d_def)
  have su: "ata_of u = ata_of ata_example" "irq_ok u" "irq_semaphore u = 0" "ready_queue u = 0x900" using u(2) st by (simp_all add: steady_def)
  have "ll_list (lists u) 0x900 [0x3000, 0x1000]" using u(1) su(4) by (simp add: disk_inv_def beside_def waiting_def)
  then have rq: "LL_for_each 0x900 (lists u) = Some [0x3000, 0x1000]" by (rule LL_for_each_list)
  obtain v where v: "ata_read_resume ?dev 0x8000 0x9000 u = Some (0, v)" "\<forall>i<256. load16 (0x9000 + 2 * of_nat i) (bytes v) = ?img (take_bit 48 5) ! i"
    using disk_reads_in_order [OF at [OF su(1)] u(1) img su(2,3), THEN conjunct2, THEN conjunct2, rule_format, of "0x1000" "0x9800" 5 "[]" "0x9000"] by auto
  have "(take_bit 48 5 :: u64) = 5" by (simp add: take_bit_eq_mod)
  then have "load16 0x9000 (bytes v) = 5" using v(2) [rule_format, of 0] by (simp add: disk_image_example_def)
  then show ?thesis using rq v(1) by (intro exI [of _ t] exI [of _ d] exI [of _ u] exI [of _ v]) (simp add: t_def u_def)
qed



end
