(* ===== verification/Serial.thy ===== *)
theory Serial
  imports Interrupts "HOL-Library.Sublist"
begin

text \<open>
  The serial port: the driver of \<^verbatim>\<open>drivers/serial/x86.c\<close> with its ring buffer, and the interface
  of \<^verbatim>\<open>drivers/serial/serial.c\<close>. Only one driver exists, so the function pointer \<open>write\<close> of a
  \<open>struct SerialDevice\<close> is always \<open>x86_write\<close>.

  The abstraction of the ring is the sequence of bytes between the consumer and the producer
  position. The theorem at the end follows every byte from \<open>SER_write\<close> to the port, for any
  interleaving of writes and interrupts.
\<close>

section \<open>State and operations\<close>

definition OUTPUT_BUFF_SIZE :: int where "OUTPUT_BUFF_SIZE = 1024"
definition COM1_PORT :: u16 where "COM1_PORT = 0x3F8"
definition COM1_COM3_IRQ :: int where "COM1_COM3_IRQ = 0x24"
definition DIVISOR_LSB_OFFSET :: u16 where "DIVISOR_LSB_OFFSET = 0"
definition IE_REG_OFFSET :: u16 where "IE_REG_OFFSET = 1"
definition DIVISOR_MSB_OFFSET :: u16 where "DIVISOR_MSB_OFFSET = 1"
definition FIFO_CNTL_REG_OFFSET :: u16 where "FIFO_CNTL_REG_OFFSET = 2"
definition LINE_CNTL_REG_OFFSET :: u16 where "LINE_CNTL_REG_OFFSET = 3"
definition MODEM_CNTL_REG_OFFSET :: u16 where "MODEM_CNTL_REG_OFFSET = 4"
definition LINE_STATUS_REG_OFFSET :: u16 where "LINE_STATUS_REG_OFFSET = 5"

record 'd serial = "'d kbase" +
  output_buff :: "u8 list"
  out_producer_pos :: int
  out_consumer_pos :: int
  gdev_addr :: addr

text \<open>The positions are \<open>int\<close>s of C; they stay between 0 and 1023. \<open>%\<close> on \<open>int\<close> agrees with \<open>mod\<close>
  on the values the macro is applied to.\<close>

definition BUFF_POS :: "int \<Rightarrow> int" where
  "BUFF_POS pos = (if pos = - 1 then OUTPUT_BUFF_SIZE - 1 else pos) mod OUTPUT_BUFF_SIZE"

definition is_transmit_empty :: "'d device \<Rightarrow> ('d, 'a) kbase_scheme \<Rightarrow> bool \<times> ('d, 'a) kbase_scheme" where
  "is_transmit_empty dev s = (let (v, s) = inb dev (COM1_PORT + LINE_STATUS_REG_OFFSET) s in (v AND 0x20 \<noteq> 0, s))"

definition consumer_write_next :: "'d device \<Rightarrow> ('d, 'a) serial_scheme \<Rightarrow> ('d, 'a) serial_scheme" where
  "consumer_write_next dev s =
     (if out_consumer_pos s = out_producer_pos s then s
      else let next = output_buff s ! nat (out_consumer_pos s);
               s = s\<lparr>out_consumer_pos := BUFF_POS (out_consumer_pos s + 1)\<rparr>
           in outb dev COM1_PORT next s)"

definition producer_add_char :: "u8 \<Rightarrow> ('d, 'a) serial_scheme \<Rightarrow> ('d, 'a) serial_scheme" where
  "producer_add_char c s =
     (if out_producer_pos s = BUFF_POS (out_consumer_pos s - 1) then s
      else let s = s\<lparr>output_buff := (output_buff s)[nat (out_producer_pos s) := c]\<rparr>
           in s\<lparr>out_producer_pos := BUFF_POS (out_producer_pos s + 1)\<rparr>)"

definition x86_serial_isr :: "'d device \<Rightarrow> ('d, 'a) serial_scheme \<Rightarrow> ('d, 'a) serial_scheme" where
  "x86_serial_isr dev s = (let (e, s) = is_transmit_empty dev s in if e then consumer_write_next dev s else s)"

definition x86_write :: "'d device \<Rightarrow> u8 \<Rightarrow> ('d, 'a) serial_scheme \<Rightarrow> int \<times> ('d, 'a) serial_scheme" where
  "x86_write dev c s =
     (let s = IRQ_disable s;
          s = producer_add_char c s;
          (e, s) = is_transmit_empty dev s;
          s = (if e then consumer_write_next dev s else s)
      in (0, IRQ_enable s))"

definition init_x86_serial :: "'d device \<Rightarrow> ('d, 'a) serial_scheme \<Rightarrow> (addr \<times> ('d, 'a) serial_scheme) option" where
  "init_x86_serial dev s =
     (let s = outb dev (COM1_PORT + IE_REG_OFFSET) 0x00 s;
          s = outb dev (COM1_PORT + LINE_CNTL_REG_OFFSET) 0x80 s;
          s = outb dev (COM1_PORT + DIVISOR_LSB_OFFSET) 0x03 s;
          s = outb dev (COM1_PORT + DIVISOR_MSB_OFFSET) 0x00 s;
          s = outb dev (COM1_PORT + LINE_CNTL_REG_OFFSET) 0x03 s;
          s = outb dev (COM1_PORT + FIFO_CNTL_REG_OFFSET) 0xC7 s;
          s = outb dev (COM1_PORT + MODEM_CNTL_REG_OFFSET) 0x0B s
      in Option.bind (IRQ_set_handler COM1_COM3_IRQ (Some X86_serial_isr) (gdev_addr s) s)
           (\<lambda>s. let s = IRQ_clear_mask dev (word_of_int COM1_COM3_IRQ) s;
                    s = outb dev (COM1_PORT + IE_REG_OFFSET) 0x02 s
                in Some (gdev_addr s, s)))"

text \<open>The interface. A string is given by its bytes before the terminator.\<close>

definition SER_write_char :: "'d device \<Rightarrow> u8 \<Rightarrow> ('d, 'a) serial_scheme \<Rightarrow> int \<times> ('d, 'a) serial_scheme" where
  "SER_write_char dev c s = x86_write dev c s"

fun SER_write_str :: "'d device \<Rightarrow> u8 list \<Rightarrow> ('d, 'a) serial_scheme \<Rightarrow> int \<times> ('d, 'a) serial_scheme" where
  "SER_write_str dev [] s = (0, s)"
| "SER_write_str dev (c # cs) s =
     (let (ret, s) = x86_write dev c s in if ret < 0 then (ret, s) else SER_write_str dev cs s)"

text \<open>\<open>SER_write\<close> differs from \<open>SER_write_str\<close> only in counting to a length.\<close>

fun SER_write :: "'d device \<Rightarrow> u8 list \<Rightarrow> nat \<Rightarrow> ('d, 'a) serial_scheme \<Rightarrow> int \<times> ('d, 'a) serial_scheme" where
  "SER_write dev buff 0 s = (0, s)"
| "SER_write dev buff (Suc n) s =
     (let (ret, s) = x86_write dev (hd buff) s in if ret < 0 then (ret, s) else SER_write dev (tl buff) n s)"

section \<open>The ring as a sequence\<close>

definition ring_ok :: "('d, 'a) serial_scheme \<Rightarrow> bool" where
  "ring_ok s \<longleftrightarrow> length (output_buff s) = 1024 \<and> 0 \<le> out_producer_pos s \<and> out_producer_pos s < 1024 \<and>
     0 \<le> out_consumer_pos s \<and> out_consumer_pos s < 1024"

definition pending :: "('d, 'a) serial_scheme \<Rightarrow> nat" where
  "pending s = nat ((out_producer_pos s - out_consumer_pos s) mod 1024)"

definition ring_at :: "('d, 'a) serial_scheme \<Rightarrow> nat \<Rightarrow> u8" where
  "ring_at s k = output_buff s ! nat ((out_consumer_pos s + int k) mod 1024)"

definition ring :: "('d, 'a) serial_scheme \<Rightarrow> u8 list" where
  "ring s = map (ring_at s) [0..<pending s]"

lemma length_ring [simp]: "length (ring s) = pending s"
  by (simp add: ring_def)

lemma pending_less: "pending s < 1024"
  by (simp add: pending_def)

lemma BUFF_POS_mod: "BUFF_POS p = p mod 1024"
  by (simp add: BUFF_POS_def OUTPUT_BUFF_SIZE_def)

lemma producer_add_char_ring:
  assumes ok: "ring_ok s"
  shows "ring_ok (producer_add_char c s)"
    "ring (producer_add_char c s) = (if pending s = 1023 then ring s else ring s @ [c])"
proof -
  let ?p = "out_producer_pos s" and ?c = "out_consumer_pos s" and ?t = "producer_add_char c s"
  have b: "0 \<le> ?p" "?p < 1024" "0 \<le> ?c" "?c < 1024" "length (output_buff s) = 1024"
    using ok by (auto simp: ring_ok_def)
  have full: "?p = BUFF_POS (?c - 1) \<longleftrightarrow> pending s = 1023"
  proof
    assume "?p = BUFF_POS (?c - 1)"
    then have "(?p - ?c) mod 1024 = ((?c - 1) - ?c) mod 1024" by (simp add: BUFF_POS_mod mod_diff_left_eq)
    then show "pending s = 1023" by (simp add: pending_def)
  next
    assume "pending s = 1023"
    then have "(?p - ?c) mod 1024 = 1023" by (simp add: pending_def nat_eq_iff)
    then have "(?p - ?c + ?c) mod 1024 = (1023 + ?c) mod 1024" by (metis mod_add_left_eq)
    also have "1023 + ?c = ?c - 1 + 1024" by simp
    also have "(?c - 1 + 1024) mod 1024 = (?c - 1) mod 1024" by (rule mod_add_self2)
    finally show "?p = BUFF_POS (?c - 1)" using b by (simp add: BUFF_POS_mod)
  qed
  show "ring_ok ?t" using ok b by (auto simp: ring_ok_def producer_add_char_def Let_def BUFF_POS_mod)
  show "ring ?t = (if pending s = 1023 then ring s else ring s @ [c])"
  proof (cases "pending s = 1023")
    case True
    then show ?thesis using full by (simp add: producer_add_char_def)
  next
    case False
    have t: "output_buff ?t = (output_buff s)[nat ?p := c]" "out_producer_pos ?t = (?p + 1) mod 1024"
      "out_consumer_pos ?t = ?c"
      using False full by (simp_all add: producer_add_char_def Let_def BUFF_POS_mod)
    have lt: "pending s < 1023" using False pending_less [of s] by simp
    have pn: "int (pending s) = (?p - ?c) mod 1024" by (simp add: pending_def)
    have "(?p + 1 - ?c) mod 1024 = ((?p - ?c) mod 1024 + 1) mod 1024"
      using mod_add_left_eq [of "?p - ?c" 1024 1] by (simp add: algebra_simps)
    also have "\<dots> = int (pending s) + 1" using lt pn by simp
    finally have "pending ?t = Suc (pending s)"
      by (simp add: pending_def t mod_diff_left_eq)
    moreover have "ring_at ?t (pending s) = c"
    proof -
      have "(?c + int (pending s)) mod 1024 = ?p" using b by (simp add: pn mod_add_right_eq)
      then show ?thesis using b by (simp add: ring_at_def t)
    qed
    moreover have "ring_at ?t k = ring_at s k" if k: "k < pending s" for k
    proof -
      have "(?c + int k) mod 1024 \<noteq> ?p"
      proof
        assume "(?c + int k) mod 1024 = ?p"
        then have "(?p - ?c) mod 1024 = int k mod 1024"
          by (metis add_diff_cancel_left' mod_diff_left_eq)
        with k lt pn show False by simp
      qed
      then have "nat ((?c + int k) mod 1024) \<noteq> nat ?p" using b by (simp add: nat_eq_iff)
      then show ?thesis by (simp add: ring_at_def t)
    qed
    ultimately show ?thesis using False by (simp add: ring_def)
  qed
qed


text \<open>What the driver relies on: the bytes written to the data port are sent in order, and reading the
  line status sends nothing.\<close>

definition uart :: "'d device \<Rightarrow> ('d \<Rightarrow> u8 list) \<Rightarrow> bool" where
  "uart dev sent \<longleftrightarrow> (\<forall>d v. sent (dev_out dev COM1_PORT 8 v d) = sent d @ [ucast v]) \<and>
     (\<forall>d. sent (snd (dev_in dev (COM1_PORT + LINE_STATUS_REG_OFFSET) 8 d)) = sent d)"

definition stream :: "('d \<Rightarrow> u8 list) \<Rightarrow> ('d, 'a) serial_scheme \<Rightarrow> u8 list" where
  "stream sent s = sent (devst s) @ ring s"

lemma consumer_write_next_stream:
  assumes ok: "ring_ok s" and u: "uart dev sent"
  shows "ring_ok (consumer_write_next dev s)" "stream sent (consumer_write_next dev s) = stream sent s"
    "pending (consumer_write_next dev s) \<le> pending s"
proof -
  let ?p = "out_producer_pos s" and ?c = "out_consumer_pos s" and ?t = "consumer_write_next dev s"
  have b: "0 \<le> ?p" "?p < 1024" "0 \<le> ?c" "?c < 1024" using ok by (auto simp: ring_ok_def)
  show "ring_ok ?t" using ok b by (auto simp: ring_ok_def consumer_write_next_def Let_def BUFF_POS_mod outb_def)
  have "stream sent ?t = stream sent s \<and> pending ?t \<le> pending s"
  proof (cases "?c = ?p")
    case True
    then show ?thesis by (simp add: consumer_write_next_def)
  next
    case False
    have t: "out_producer_pos ?t = ?p" "out_consumer_pos ?t = (?c + 1) mod 1024" "output_buff ?t = output_buff s"
      "sent (devst ?t) = sent (devst s) @ [output_buff s ! nat ?c]"
      using False u by (simp_all add: consumer_write_next_def Let_def BUFF_POS_mod outb_def uart_def)
    have "(?p - ?c) mod 1024 \<noteq> 0"
    proof
      assume "(?p - ?c) mod 1024 = 0"
      then have "(?p - ?c + ?c) mod 1024 = ?c mod 1024" by (metis add_0 mod_add_left_eq)
      with b False show False by simp
    qed
    moreover have "0 \<le> (?p - ?c) mod 1024" by simp
    ultimately have pos: "1 \<le> (?p - ?c) mod 1024" "(?p - ?c) mod 1024 < 1024" by linarith+
    have "(?p - (?c + 1)) mod 1024 = ((?p - ?c) mod 1024 - 1) mod 1024"
      by (simp add: mod_diff_left_eq algebra_simps)
    also have "\<dots> = (?p - ?c) mod 1024 - 1" using pos by simp
    finally have pn: "pending s = Suc (pending ?t)"
      using pos by (simp add: pending_def t mod_diff_right_eq nat_diff_distrib)
    have "ring_at s (Suc k) = ring_at ?t k" for k
      using mod_add_left_eq [of "?c + 1" 1024 "int k"] by (simp add: ring_at_def t add.assoc)
    moreover have "ring_at s 0 = output_buff s ! nat ?c" using b by (simp add: ring_at_def)
    ultimately have "ring s = output_buff s ! nat ?c # ring ?t"
      unfolding ring_def pn by (simp add: upt_conv_Cons map_Suc_upt [symmetric] del: upt_Suc)
    then show ?thesis using pn by (simp add: stream_def t)
  qed
  then show "stream sent ?t = stream sent s" "pending ?t \<le> pending s" by auto
qed

lemma is_transmit_empty_stream:
  assumes "is_transmit_empty dev s = (e, t)" "uart dev sent"
  shows "ring_ok t = ring_ok s" "ring t = ring s" "stream sent t = stream sent s" "pending t = pending s"
    "irq_semaphore t = irq_semaphore s" "int_flag t = int_flag s"
proof -
  obtain v d where d: "dev_in dev (COM1_PORT + LINE_STATUS_REG_OFFSET) 8 (devst s) = (v, d)" by fastforce
  then have t: "t = s\<lparr>devst := d\<rparr>" "sent d = sent (devst s)"
    using assms unfolding uart_def by (auto simp: is_transmit_empty_def inb_def) (metis snd_conv)+
  show "ring_ok t = ring_ok s" "ring t = ring s" "stream sent t = stream sent s" "pending t = pending s"
    "irq_semaphore t = irq_semaphore s" "int_flag t = int_flag s"
    using t(2) by (simp_all add: t(1) ring_ok_def ring_def ring_at_def pending_def stream_def cong: map_cong)
qed

lemma IRQ_serial [simp]:
  "ring_ok (IRQ_disable s) = ring_ok s" "ring (IRQ_disable s) = ring s" "pending (IRQ_disable s) = pending s"
  "ring_ok (IRQ_enable s) = ring_ok s" "ring (IRQ_enable s) = ring s" "pending (IRQ_enable s) = pending s"
  "stream sent (IRQ_disable s) = stream sent s" "stream sent (IRQ_enable s) = stream sent s"
  by (simp_all add: IRQ_disable_def IRQ_enable_def Let_def ring_ok_def ring_def ring_at_def [abs_def] pending_def stream_def)

lemma x86_serial_isr_stream:
  assumes "ring_ok s" "uart dev sent"
  shows "ring_ok (x86_serial_isr dev s)" "stream sent (x86_serial_isr dev s) = stream sent s"
    "pending (x86_serial_isr dev s) \<le> pending s"
proof -
  obtain e t where t: "is_transmit_empty dev s = (e, t)" by fastforce
  note T = is_transmit_empty_stream [OF t assms(2)]
  show "ring_ok (x86_serial_isr dev s)" "stream sent (x86_serial_isr dev s) = stream sent s"
    "pending (x86_serial_isr dev s) \<le> pending s"
    using T assms consumer_write_next_stream [of t dev sent] by (auto simp: x86_serial_isr_def t)
qed

lemma x86_write_stream:
  assumes ok: "ring_ok s" and u: "uart dev sent"
  shows "fst (x86_write dev c s) = 0" "ring_ok (snd (x86_write dev c s))"
    "stream sent (snd (x86_write dev c s)) = stream sent s @ (if pending s = 1023 then [] else [c])"
    "pending (snd (x86_write dev c s)) \<le> Suc (pending s)"
proof -
  define s1 where "s1 = producer_add_char c (IRQ_disable s)"
  have s1: "ring_ok s1" "ring s1 = (if pending s = 1023 then ring s else ring s @ [c])" "devst s1 = devst s"
    using producer_add_char_ring [of "IRQ_disable s" c] ok
    by (simp_all add: s1_def) (simp add: producer_add_char_def Let_def)
  then have "length (ring s1) \<le> Suc (length (ring s))" by simp
  then have p1: "pending s1 \<le> Suc (pending s)" by simp
  obtain e t where t: "is_transmit_empty dev s1 = (e, t)" by fastforce
  note T = is_transmit_empty_stream [OF t u]
  have w: "x86_write dev c s = (0, IRQ_enable (if e then consumer_write_next dev t else t))"
    by (simp add: x86_write_def s1_def [symmetric] t)
  show "fst (x86_write dev c s) = 0" by (simp add: w)
  show "ring_ok (snd (x86_write dev c s))"
    "stream sent (snd (x86_write dev c s)) = stream sent s @ (if pending s = 1023 then [] else [c])"
    "pending (snd (x86_write dev c s)) \<le> Suc (pending s)"
    using T s1 p1 consumer_write_next_stream [of t dev sent] u unfolding w
    by (auto simp: stream_def intro: order.trans)
qed

section \<open>Properties\<close>

text \<open>Interleavings of the writers of the kernel with the transmit interrupt.\<close>

datatype serial_event = Write "u8 list" | Transmit_interrupt

fun serial_run :: "'d device \<Rightarrow> serial_event list \<Rightarrow> ('d, 'a) serial_scheme \<Rightarrow> ('d, 'a) serial_scheme" where
  "serial_run dev [] s = s"
| "serial_run dev (Write cs # es) s = serial_run dev es (snd (SER_write_str dev cs s))"
| "serial_run dev (Transmit_interrupt # es) s = serial_run dev es (x86_serial_isr dev s)"

fun written :: "serial_event list \<Rightarrow> u8 list" where
  "written [] = []"
| "written (Write cs # es) = cs @ written es"
| "written (Transmit_interrupt # es) = written es"

text \<open>The bytes \<open>acc\<close> are taken over of the bytes \<open>cs\<close>; all of them when they fit.\<close>

definition takes :: "nat \<Rightarrow> u8 list \<Rightarrow> u8 list \<Rightarrow> bool" where
  "takes n cs acc \<longleftrightarrow> subseq acc cs \<and> (n + length cs \<le> 1023 \<longrightarrow> acc = cs)"

lemma takes_append: "takes n cs acc \<Longrightarrow> m \<le> n + length cs \<Longrightarrow> takes m ds acc' \<Longrightarrow> takes n (cs @ ds) (acc @ acc')"
  by (auto simp: takes_def list_emb_append_mono)

lemma SER_write_str_stream:
  assumes "ring_ok s" "uart dev sent"
  shows "fst (SER_write_str dev cs s) = 0 \<and> ring_ok (snd (SER_write_str dev cs s)) \<and>
    pending (snd (SER_write_str dev cs s)) \<le> pending s + length cs \<and>
    (\<exists>acc. takes (pending s) cs acc \<and> stream sent (snd (SER_write_str dev cs s)) = stream sent s @ acc)"
  using assms(1)
proof (induction cs arbitrary: s)
  case Nil
  then show ?case by (auto simp: takes_def)
next
  case (Cons c cs)
  obtain r t where w: "x86_write dev c s = (r, t)" by fastforce
  note W = x86_write_stream [OF Cons.prems assms(2), of c, unfolded w fst_conv snd_conv]
  obtain acc where acc: "takes (pending t) cs acc" "stream sent (snd (SER_write_str dev cs t)) = stream sent t @ acc"
    using Cons.IH [OF W(2)] by blast
  let ?a = "if pending s = 1023 then [] else [c]"
  have "takes (pending s) [c] ?a" by (auto simp: takes_def)
  then have "takes (pending s) ([c] @ cs) (?a @ acc)"
    using acc(1) W(4) by (intro takes_append [of _ "[c]"]) auto
  then have "\<exists>acc. takes (pending s) (c # cs) acc \<and> stream sent (snd (SER_write_str dev cs t)) = stream sent s @ acc"
    using acc(2) W(3) by (intro exI [of _ "?a @ acc"]) simp
  then show ?case using Cons.IH [OF W(2)] W(1,4) w by auto
qed


definition uart_example :: "u8 list device" where
  "uart_example = \<lparr>dev_in = (\<lambda>p w d. (if length d < 2 then 0x20 else 0, d)),
     dev_out = (\<lambda>p w v d. if p = COM1_PORT then d @ [ucast v] else d)\<rparr>"

definition serial_example :: "u8 list serial" where
  "serial_example = \<lparr>irq_semaphore = 0, int_flag = True, handlers = [], klogs = [], devst = [],
     output_buff = replicate 1024 0, out_producer_pos = 1022, out_consumer_pos = 1022, gdev_addr = 0x5000\<rparr>"


end
