(* ===== verification/Vga.thy ===== *)
theory Vga
  imports Serial String_Ops
begin

text \<open>
  The text screen of \<^verbatim>\<open>src/src/vga.c\<close>: 25 lines of 80 cells of two bytes at address \<open>0xb8000\<close>,
  and a cursor of two 32-bit numbers. The column is not reset at the end of a line, so the cell of
  the cursor is \<open>y * 80 + x\<close>, computed modulo \<open>2^32\<close>, and scrolling decrements \<open>y\<close>, which may
  wrap around below 0.

  The specification is a terminal with a linear cursor (\<open>term_put\<close>). The theorem shows
  that the code implements it, and writes nothing outside of the screen memory, for all strings
  without carriage returns.
\<close>

section \<open>State and operations\<close>

definition X86_VGA_ADDR :: addr where "X86_VGA_ADDR = 0xb8000"
definition disp_width :: u32 where "disp_width = 80"
definition disp_height :: u32 where "disp_height = 25"
definition disp_len :: u32 where "disp_len = 80 * 25"
definition disp_char_bytes :: u32 where "disp_char_bytes = 2"

lemmas vga_consts = X86_VGA_ADDR_def disp_width_def disp_height_def disp_len_def disp_char_bytes_def

record 'd console = "'d serial" +
  disp_x :: u32
  disp_y :: u32
  vram :: bmem
  main_serial_dev :: addr

text \<open>The address of a cell: \<open>buf + i\<close> for the \<open>uint16_t *\<close> pointer and an \<open>unsigned int\<close>.\<close>

definition cell_addr :: "u32 \<Rightarrow> addr" where
  "cell_addr i = X86_VGA_ADDR + 2 * ucast i"

definition scroll :: "('d, 'a) console_scheme \<Rightarrow> ('d, 'a) console_scheme" where
  "scroll s =
     (let m = snd (memcpy (cell_addr 0) (cell_addr disp_width) (ucast ((disp_len - disp_width) * disp_char_bytes)) (vram s));
          m = snd (memset (cell_addr (disp_len - disp_width)) 0 (ucast (disp_width * disp_char_bytes)) m)
      in s\<lparr>vram := m\<rparr>)"

definition VGA_clear :: "('d, 'a) console_scheme \<Rightarrow> ('d, 'a) console_scheme" where
  "VGA_clear s =
     s\<lparr>vram := snd (memset (cell_addr 0) 0 (ucast (disp_len * disp_char_bytes)) (vram s)), disp_x := 0, disp_y := 0\<rparr>"

text \<open>\<open>char\<close> is signed, so a byte from \<open>0x80\<close> on sets all attribute bits of its cell.\<close>

definition glyph :: "u8 \<Rightarrow> u16" where
  "glyph c = ucast (0x0f00 OR (scast c :: u32))"

definition VGA_display_char :: "u8 \<Rightarrow> ('d, 'a) console_scheme \<Rightarrow> ('d, 'a) console_scheme" where
  "VGA_display_char c s =
     (let s = IRQ_disable s;
          s = (if disp_y s * disp_width + disp_x s = disp_len
               then let s = scroll s in s\<lparr>disp_y := disp_y s - 1\<rparr> else s);
          s = (if c = 0x0A then s\<lparr>disp_y := disp_y s + (1 + disp_x s div disp_width), disp_x := 0\<rparr>
               else if c = 0x0D then s\<lparr>disp_x := 0\<rparr>
               else s\<lparr>vram := store16 (cell_addr (disp_y s * disp_width + disp_x s)) (glyph c) (vram s),
                      disp_x := disp_x s + 1\<rparr>)
      in IRQ_enable s)"

fun VGA_display_str :: "u8 list \<Rightarrow> ('d, 'a) console_scheme \<Rightarrow> ('d, 'a) console_scheme" where
  "VGA_display_str [] s = s"
| "VGA_display_str (c # cs) s = VGA_display_str cs (VGA_display_char c s)"

section \<open>The specification\<close>

text \<open>A terminal of 2000 cells and a cursor, which may stand behind the last cell.\<close>

type_synonym terminal = "u16 list \<times> nat"

definition term_scroll :: "terminal \<Rightarrow> terminal" where
  "term_scroll t = (if snd t = 2000 then (drop 80 (fst t) @ replicate 80 0, 1920) else t)"

definition term_put :: "u8 \<Rightarrow> terminal \<Rightarrow> terminal" where
  "term_put c t =
     (let (cs, p) = term_scroll t
      in if c = 0x0A then (cs, (p div 80 + 1) * 80) else (cs[p := glyph c], Suc p))"

definition screen :: "bmem \<Rightarrow> u16 list" where
  "screen m = map (\<lambda>k. load16 (X86_VGA_ADDR + 2 * of_nat k) m) [0..<2000]"

definition terminal_of :: "('d, 'a) console_scheme \<Rightarrow> terminal" where
  "terminal_of s = (screen (vram s), unat (disp_y s * disp_width + disp_x s))"

text \<open>The cursor: \<open>y\<close> stands for an integer, possibly negative, with the cell inside of the screen.\<close>

definition cursor_ok :: "('d, 'a) console_scheme \<Rightarrow> int \<Rightarrow> bool" where
  "cursor_ok s Y \<longleftrightarrow> disp_y s = word_of_int Y \<and> 0 \<le> 80 * Y + int (unat (disp_x s)) \<and> 80 * Y + int (unat (disp_x s)) \<le> 2000"

lemma cursor_pos:
  assumes "cursor_ok s Y"
  shows "unat (disp_y s * disp_width + disp_x s) = nat (80 * Y + int (unat (disp_x s)))"
proof -
  have eq: "disp_y s * disp_width + disp_x s = word_of_int (80 * Y + int (unat (disp_x s)))"
    using assms by (simp add: cursor_ok_def disp_width_def mult.commute)
  have "0 \<le> 80 * Y + int (unat (disp_x s))" "80 * Y + int (unat (disp_x s)) < 2 ^ 32"
    using assms by (auto simp: cursor_ok_def)
  then show ?thesis unfolding eq
    by (simp only: unsigned_of_int) (simp add: take_bit_int_eq_self)
qed

section \<open>Memory of the screen\<close>

lemma load16_store16 [simp]: "load16 a (store16 a v m) = v"
  by (rule bit_word_eqI)
    (auto simp: load16_def store16_def bit_or_iff bit_push_bit_iff bit_ucast_iff bit_drop_bit_eq)

lemma cell_neq:
  assumes "i < 2000" "j < 2000" "i \<noteq> j"
  shows "X86_VGA_ADDR + 2 * of_nat i \<noteq> (X86_VGA_ADDR + 2 * of_nat j :: addr)"
    "X86_VGA_ADDR + 2 * of_nat i \<noteq> (X86_VGA_ADDR + 2 * of_nat j + 1 :: addr)"
    "X86_VGA_ADDR + 2 * of_nat i + 1 \<noteq> (X86_VGA_ADDR + 2 * of_nat j :: addr)"
    "X86_VGA_ADDR + 2 * of_nat i + 1 \<noteq> (X86_VGA_ADDR + 2 * of_nat j + 1 :: addr)"
proof -
  have u: "unat (X86_VGA_ADDR + 2 * of_nat k :: addr) = 0xb8000 + 2 * k"
    "unat (X86_VGA_ADDR + 2 * of_nat k + 1 :: addr) = 0xb8000 + 2 * k + 1" if "k < 2000" for k
  proof -
    have "X86_VGA_ADDR + 2 * of_nat k = (of_nat (0xb8000 + 2 * k) :: addr)"
      "X86_VGA_ADDR + 2 * of_nat k + 1 = (of_nat (0xb8000 + 2 * k + 1) :: addr)"
      by (simp_all add: X86_VGA_ADDR_def)
    then show "unat (X86_VGA_ADDR + 2 * of_nat k :: addr) = 0xb8000 + 2 * k"
      "unat (X86_VGA_ADDR + 2 * of_nat k + 1 :: addr) = 0xb8000 + 2 * k + 1"
      using that by (simp_all only: unat_of_nat) simp_all
  qed
  note ui = u [OF assms(1)] and uj = u [OF assms(2)]
  show "X86_VGA_ADDR + 2 * of_nat i \<noteq> (X86_VGA_ADDR + 2 * of_nat j :: addr)"
    using ui(1) uj(1) assms(3) by (metis add_left_cancel mult_left_cancel zero_neq_numeral)
  show "X86_VGA_ADDR + 2 * of_nat i \<noteq> (X86_VGA_ADDR + 2 * of_nat j + 1 :: addr)"
  proof
    assume "X86_VGA_ADDR + 2 * of_nat i = (X86_VGA_ADDR + 2 * of_nat j + 1 :: addr)"
    with ui(1) uj(2) have "2 * i = 2 * j + 1" by simp
    then show False by presburger
  qed
  show "X86_VGA_ADDR + 2 * of_nat i + 1 \<noteq> (X86_VGA_ADDR + 2 * of_nat j :: addr)"
  proof
    assume "X86_VGA_ADDR + 2 * of_nat i + 1 = (X86_VGA_ADDR + 2 * of_nat j :: addr)"
    with ui(2) uj(1) have "2 * i + 1 = 2 * j" by simp
    then show False by presburger
  qed
  show "X86_VGA_ADDR + 2 * of_nat i + 1 \<noteq> (X86_VGA_ADDR + 2 * of_nat j + 1 :: addr)"
    using ui(2) uj(2) assms(3) by (metis add_left_cancel add_right_cancel mult_left_cancel zero_neq_numeral)
qed

lemma screen_store:
  assumes "p < 2000"
  shows "screen (store16 (X86_VGA_ADDR + 2 * of_nat p) v m) = (screen m)[p := v]"
proof (rule nth_equalityI)
  fix k assume "k < length (screen (store16 (X86_VGA_ADDR + 2 * of_nat p) v m))"
  then have k: "k < 2000" by (simp add: screen_def)
  show "screen (store16 (X86_VGA_ADDR + 2 * of_nat p) v m) ! k = (screen m)[p := v] ! k"
  proof (cases "k = p")
    case True
    with k show ?thesis by (simp add: screen_def)
  next
    case False
    with k cell_neq [OF k assms False] show ?thesis by (simp add: screen_def load16_def store16_def)
  qed
qed (simp add: screen_def)

text \<open>The cells in terms of the offset from the start of the screen memory.\<close>

lemma unat_off:
  assumes "n < 2 ^ 64"
  shows "unat (of_nat n :: addr) = n"
  using assms by (simp only: unat_of_nat) simp

lemma in_range_off:
  assumes "n < 2 ^ 32" "m < 2 ^ 32" "m \<le> n"
  shows "in_range (X86_VGA_ADDR + of_nat n) (X86_VGA_ADDR + of_nat m) k \<longleftrightarrow> n - m < k"
proof -
  have "X86_VGA_ADDR + of_nat n - (X86_VGA_ADDR + of_nat m) = (of_nat (n - m) :: addr)"
    using assms(3) by (simp add: of_nat_diff)
  then show ?thesis using assms(1) unat_off [of "n - m"] by (simp add: in_range_def)
qed

lemma scroll_vram:
  "vram (scroll s) x =
     (if in_range x (X86_VGA_ADDR + 3840) 160 then 0
      else if in_range x X86_VGA_ADDR 3840 then vram s (x + 160) else vram s x)"
proof -
  let ?B = X86_VGA_ADDR
  have c: "cell_addr 0 = ?B" "cell_addr disp_width = ?B + 160" "cell_addr (disp_len - disp_width) = ?B + 3840"
    "ucast ((disp_len - disp_width) * disp_char_bytes) = (3840 :: u64)" "ucast (disp_width * disp_char_bytes) = (160 :: u64)"
    by (simp_all add: cell_addr_def vga_consts)
  have "unat (?B + 3840 - ?B) \<le> unat (?B - (?B + 160))" by (simp add: X86_VGA_ADDR_def)
  then have "memcpy_loop ?B (?B + 3840) (?B + 160) (vram s) y =
      (if in_range y ?B 3840 then vram s (y + 160) else vram s y)" for y
    using memcpy_loop_spec [of "?B + 3840" ?B "?B + 160" "vram s" y]
    by (simp add: diff_add_eq [symmetric] add.assoc [symmetric]) (simp add: add.commute [of y])
  then show ?thesis
    unfolding scroll_def Let_def memcpy_def memset_def c by (simp add: memset_loop_spec)
qed

lemma screen_scroll: "screen (vram (scroll s)) = drop 80 (screen (vram s)) @ replicate 80 0"
proof (rule nth_equalityI)
  fix k assume "k < length (screen (vram (scroll s)))"
  then have k: "k < 2000" by (simp add: screen_def)
  let ?m = "vram (scroll s)" and ?a = "X86_VGA_ADDR + of_nat (2 * k)"
  have a1: "?a + 1 = X86_VGA_ADDR + of_nat (2 * k + 1)" by simp
  have v: "?m (X86_VGA_ADDR + of_nat n) = (if n < 3840 then vram s (X86_VGA_ADDR + of_nat (n + 160)) else 0)"
    if n: "n < 4000" for n
  proof (cases "n < 3840")
    case True
    have "\<not> in_range (X86_VGA_ADDR + of_nat n) (X86_VGA_ADDR + 3840) 160"
    proof -
      have "X86_VGA_ADDR + of_nat n - (X86_VGA_ADDR + 3840) = (of_nat n - 3840 :: addr)" by simp
      moreover have "160 \<le> unat (of_nat n - 3840 :: addr)"
        using True unat_off [of n] by (simp add: unat_sub_if')
      ultimately show ?thesis by (simp add: in_range_def)
    qed
    moreover have "in_range (X86_VGA_ADDR + of_nat n) X86_VGA_ADDR 3840"
      using in_range_off [of n 0 3840] True by simp
    ultimately show ?thesis using True by (simp add: scroll_vram algebra_simps)
  next
    case False
    then have "in_range (X86_VGA_ADDR + of_nat n) (X86_VGA_ADDR + 3840) 160"
      using in_range_off [of n 3840 160] n by simp
    then show ?thesis using False by (simp add: scroll_vram)
  qed
  have "load16 ?a ?m = (if k < 1920 then load16 (X86_VGA_ADDR + of_nat (2 * (80 + k))) (vram s) else 0)"
  proof -
    have "?m ?a = (if k < 1920 then vram s (X86_VGA_ADDR + of_nat (2 * (80 + k))) else 0)"
      "?m (?a + 1) = (if k < 1920 then vram s (X86_VGA_ADDR + of_nat (2 * (80 + k)) + 1) else 0)"
      unfolding a1 using v [of "2 * k"] v [of "2 * k + 1"] k by (simp_all add: algebra_simps)
    then show ?thesis by (simp add: load16_def)
  qed
  then show "screen (vram (scroll s)) ! k = (drop 80 (screen (vram s)) @ replicate 80 0) ! k"
    using k by (simp add: screen_def nth_append)
qed (simp add: screen_def)

lemma scroll_outside: "\<not> in_range x X86_VGA_ADDR 4000 \<Longrightarrow> vram (scroll s) x = vram s x"
proof -
  assume out: "\<not> in_range x X86_VGA_ADDR 4000"
  define d where "d = x - X86_VGA_ADDR"
  have x: "x = X86_VGA_ADDR + d" "4000 \<le> unat d" using out by (simp_all add: d_def in_range_def)
  have "unat (d - 3840) = unat d - 3840" using x(2) by (simp add: unat_sub_if')
  then show ?thesis using x by (auto simp: scroll_vram in_range_def)
qed

section \<open>One character\<close>

lemma IRQ_console [simp]:
  "disp_x (IRQ_disable s) = disp_x s" "disp_y (IRQ_disable s) = disp_y s" "vram (IRQ_disable s) = vram s"
  "disp_x (IRQ_enable s) = disp_x s" "disp_y (IRQ_enable s) = disp_y s" "vram (IRQ_enable s) = vram s"
  by (simp_all add: IRQ_disable_def IRQ_enable_def Let_def)

lemma scroll_sel [simp]: "disp_x (scroll s) = disp_x s" "disp_y (scroll s) = disp_y s"
  "irq_semaphore (scroll s) = irq_semaphore s" "int_flag (scroll s) = int_flag s"
  by (simp_all add: scroll_def Let_def)

definition scrolled :: "('d, 'a) console_scheme \<Rightarrow> ('d, 'a) console_scheme" where
  "scrolled s = (if disp_y s * disp_width + disp_x s = disp_len
     then let s = scroll s in s\<lparr>disp_y := disp_y s - 1\<rparr> else s)"

definition placed :: "u8 \<Rightarrow> ('d, 'a) console_scheme \<Rightarrow> ('d, 'a) console_scheme" where
  "placed c s =
     (if c = 0x0A then s\<lparr>disp_y := disp_y s + (1 + disp_x s div disp_width), disp_x := 0\<rparr>
      else if c = 0x0D then s\<lparr>disp_x := 0\<rparr>
      else s\<lparr>vram := store16 (cell_addr (disp_y s * disp_width + disp_x s)) (glyph c) (vram s), disp_x := disp_x s + 1\<rparr>)"

lemma VGA_display_char_eq: "VGA_display_char c s = IRQ_enable (placed c (scrolled (IRQ_disable s)))"
  by (simp add: VGA_display_char_def scrolled_def placed_def Let_def)

lemma scrolled_term:
  assumes "cursor_ok s Y"
  shows "terminal_of (scrolled s) = term_scroll (terminal_of s)" "snd (terminal_of (scrolled s)) < 2000"
    "\<exists>Y. cursor_ok (scrolled s) Y" "disp_x (scrolled s) = disp_x s"
    "\<not> in_range x X86_VGA_ADDR 4000 \<Longrightarrow> vram (scrolled s) x = vram s x"
proof -
  let ?p = "80 * Y + int (unat (disp_x s))"
  have pos: "unat (disp_y s * disp_width + disp_x s) = nat ?p" "0 \<le> ?p" "?p \<le> 2000"
    using cursor_pos [OF assms] assms by (simp_all add: cursor_ok_def)
  have at_end: "disp_y s * disp_width + disp_x s = disp_len \<longleftrightarrow> ?p = 2000"
  proof -
    have "disp_y s * disp_width + disp_x s = disp_len \<longleftrightarrow> unat (disp_y s * disp_width + disp_x s) = unat disp_len"
      by (simp add: word_unat_eq_iff)
    then show ?thesis using pos by (simp add: disp_len_def nat_eq_iff)
  qed
  show "disp_x (scrolled s) = disp_x s" by (simp add: scrolled_def Let_def)
  show "\<not> in_range x X86_VGA_ADDR 4000 \<Longrightarrow> vram (scrolled s) x = vram s x"
    by (simp add: scrolled_def Let_def scroll_outside)
  have "terminal_of (scrolled s) = term_scroll (terminal_of s) \<and> snd (terminal_of (scrolled s)) < 2000 \<and>
      (\<exists>Y. cursor_ok (scrolled s) Y)"
  proof (cases "?p = 2000")
    case True
    have ok: "cursor_ok (scrolled s) (Y - 1)"
      using assms True at_end by (simp add: scrolled_def cursor_ok_def Let_def)
    then have "unat (disp_y (scrolled s) * disp_width + disp_x (scrolled s)) = 1920"
      using cursor_pos [OF ok] True at_end by (simp add: scrolled_def Let_def)
    then have "terminal_of (scrolled s) = (drop 80 (screen (vram s)) @ replicate 80 0, 1920)"
      using True at_end by (simp add: terminal_of_def) (simp add: scrolled_def Let_def screen_scroll)
    then show ?thesis using True pos ok by (auto simp: term_scroll_def terminal_of_def)
  next
    case False
    then show ?thesis using at_end pos assms by (auto simp: scrolled_def term_scroll_def terminal_of_def)
  qed
  then show "terminal_of (scrolled s) = term_scroll (terminal_of s)" "snd (terminal_of (scrolled s)) < 2000"
    "\<exists>Y. cursor_ok (scrolled s) Y" by auto
qed

lemma placed_term:
  assumes "cursor_ok s Y" "snd (terminal_of s) < 2000" "c \<noteq> 0x0D" "unat (disp_x s) + 1 < 2 ^ 32"
  shows "terminal_of (placed c s) =
      (if c = 0x0A then (fst (terminal_of s), (snd (terminal_of s) div 80 + 1) * 80)
       else ((fst (terminal_of s))[snd (terminal_of s) := glyph c], Suc (snd (terminal_of s))))"
    "\<exists>Y. cursor_ok (placed c s) Y" "unat (disp_x (placed c s)) \<le> unat (disp_x s) + 1"
    "\<not> in_range a X86_VGA_ADDR 4000 \<Longrightarrow> vram (placed c s) a = vram s a"
proof -
  let ?x = "int (unat (disp_x s))"
  define p where "p = nat (80 * Y + ?x)"
  have pos: "unat (disp_y s * disp_width + disp_x s) = p" "int p = 80 * Y + ?x" "p < 2000" "disp_y s = word_of_int Y"
    using cursor_pos [OF assms(1)] assms(1,2) by (simp_all add: cursor_ok_def p_def terminal_of_def)
  have "terminal_of (placed c s) =
      (if c = 0x0A then (fst (terminal_of s), (snd (terminal_of s) div 80 + 1) * 80)
       else ((fst (terminal_of s))[snd (terminal_of s) := glyph c], Suc (snd (terminal_of s)))) \<and>
    (\<exists>Y. cursor_ok (placed c s) Y) \<and> unat (disp_x (placed c s)) \<le> unat (disp_x s) + 1 \<and>
    (\<not> in_range a X86_VGA_ADDR 4000 \<longrightarrow> vram (placed c s) a = vram s a)"
  proof (cases "c = 0x0A")
    case True
    let ?Y = "Y + 1 + ?x div 80"
    have "disp_x s div disp_width = word_of_int (?x div 80)"
      by (simp add: word_div_def disp_width_def)
    then have y: "disp_y (placed c s) = word_of_int ?Y" "disp_x (placed c s) = 0" "vram (placed c s) = vram s"
      using True pos(4) by (simp_all add: placed_def add.assoc)
    have "80 * ?Y = 80 * (int p div 80 + 1)" by (simp add: pos(2))
    also have "\<dots> = int ((p div 80 + 1) * 80)" by (simp add: zdiv_int)
    finally have Y: "80 * ?Y = int ((p div 80 + 1) * 80)" .
    have "p div 80 \<le> 24" using pos(3) by simp
    then have ok: "cursor_ok (placed c s) ?Y" unfolding cursor_ok_def y using Y by simp
    have "unat (disp_y (placed c s) * disp_width + disp_x (placed c s)) = (p div 80 + 1) * 80"
      using cursor_pos [OF ok] Y y(2) by simp
    then show ?thesis using True ok y pos(1) by (auto simp: terminal_of_def)
  next
    case False
    have x: "unat (disp_x s + 1) = unat (disp_x s) + 1"
      using assms(4) by (simp add: unat_word_ariths)
    have ca: "cell_addr (disp_y s * disp_width + disp_x s) = X86_VGA_ADDR + 2 * of_nat p"
      using pos(1) by (simp add: cell_addr_def flip: pos(1))
    have s': "vram (placed c s) = store16 (X86_VGA_ADDR + 2 * of_nat p) (glyph c) (vram s)"
      "disp_x (placed c s) = disp_x s + 1" "disp_y (placed c s) = disp_y s"
      using False assms(3) ca by (simp_all add: placed_def)
    have ok: "cursor_ok (placed c s) Y"
      using assms(1) pos(2,3) by (simp add: cursor_ok_def s' x)
    have "unat (disp_y (placed c s) * disp_width + disp_x (placed c s)) = Suc p"
      using cursor_pos [OF ok] pos(2) by (simp add: s' x)
    moreover have "vram (placed c s) a = vram s a" if out: "\<not> in_range a X86_VGA_ADDR 4000"
    proof -
      have "in_range (X86_VGA_ADDR + of_nat (2 * p)) (X86_VGA_ADDR + of_nat 0) 4000"
        "in_range (X86_VGA_ADDR + of_nat (2 * p + 1)) (X86_VGA_ADDR + of_nat 0) 4000"
        by (subst in_range_off; use pos(3) in simp)+
      then have "a \<noteq> X86_VGA_ADDR + 2 * of_nat p" "a \<noteq> X86_VGA_ADDR + 2 * of_nat p + 1"
        using out by (auto simp: add.assoc add.commute [of 1])
      then show ?thesis by (simp add: s' store16_def)
    qed
    ultimately show ?thesis
      using False ok pos(1,3) by (auto simp: terminal_of_def s'(1) screen_store s' x)
  qed
  then show "terminal_of (placed c s) =
      (if c = 0x0A then (fst (terminal_of s), (snd (terminal_of s) div 80 + 1) * 80)
       else ((fst (terminal_of s))[snd (terminal_of s) := glyph c], Suc (snd (terminal_of s))))"
    "\<exists>Y. cursor_ok (placed c s) Y" "unat (disp_x (placed c s)) \<le> unat (disp_x s) + 1"
    "\<not> in_range a X86_VGA_ADDR 4000 \<Longrightarrow> vram (placed c s) a = vram s a" by auto
qed

lemma VGA_display_char_term:
  assumes "cursor_ok s Y" "c \<noteq> 0x0D" "unat (disp_x s) + 1 < 2 ^ 32"
  shows "terminal_of (VGA_display_char c s) = term_put c (terminal_of s)"
    "\<exists>Y. cursor_ok (VGA_display_char c s) Y" "unat (disp_x (VGA_display_char c s)) \<le> unat (disp_x s) + 1"
    "\<not> in_range a X86_VGA_ADDR 4000 \<Longrightarrow> vram (VGA_display_char c s) a = vram s a"
proof -
  let ?s = "scrolled (IRQ_disable s)"
  have ok: "cursor_ok (IRQ_disable s) Y" using assms(1) by (simp add: cursor_ok_def)
  note S = scrolled_term [OF ok]
  obtain Z where Z: "cursor_ok ?s Z" using S(3) by blast
  have x: "unat (disp_x ?s) + 1 < 2 ^ 32" "disp_x ?s = disp_x s" using assms(3) S(4) by simp_all
  note P = placed_term [OF Z S(2) assms(2) x(1)]
  have en: "terminal_of (IRQ_enable t) = terminal_of t" "cursor_ok (IRQ_enable t) W = cursor_ok t W"
    for t :: "('a, 'b) console_scheme" and W by (simp_all add: terminal_of_def cursor_ok_def)
  have dis: "terminal_of (IRQ_disable s) = terminal_of s" by (simp add: terminal_of_def)
  show "terminal_of (VGA_display_char c s) = term_put c (terminal_of s)"
    unfolding VGA_display_char_eq en P(1) S(1) dis by (simp add: term_put_def split: prod.split)
  show "\<exists>Y. cursor_ok (VGA_display_char c s) Y" unfolding VGA_display_char_eq en by (rule P(2))
  show "unat (disp_x (VGA_display_char c s)) \<le> unat (disp_x s) + 1"
    unfolding VGA_display_char_eq IRQ_console using P(3) x(2) by simp
  show "\<not> in_range a X86_VGA_ADDR 4000 \<Longrightarrow> vram (VGA_display_char c s) a = vram s a"
    unfolding VGA_display_char_eq IRQ_console using P(4) S(5) by simp
qed

lemma VGA_clear_term:
  "terminal_of (VGA_clear s) = (replicate 2000 0, 0)" "cursor_ok (VGA_clear s) 0" "disp_x (VGA_clear s) = 0"
proof -
  show "cursor_ok (VGA_clear s) 0" "disp_x (VGA_clear s) = 0" by (simp_all add: cursor_ok_def VGA_clear_def)
  have z: "vram (VGA_clear s) (X86_VGA_ADDR + of_nat n) = 0" if "n < 4000" for n
  proof -
    have "in_range (X86_VGA_ADDR + of_nat n) (X86_VGA_ADDR + of_nat 0) 4000"
      by (subst in_range_off; use that in simp)
    then show ?thesis by (simp add: VGA_clear_def memset_def memset_loop_spec cell_addr_def vga_consts)
  qed
  have "load16 (X86_VGA_ADDR + 2 * of_nat k) (vram (VGA_clear s)) = 0" if "k < 2000" for k
    using z [of "2 * k"] z [of "2 * k + 1"] that by (simp add: load16_def add.assoc add.commute [of 1])
  then have "screen (vram (VGA_clear s)) = replicate 2000 0"
    unfolding screen_def by (intro nth_equalityI) auto
  then show "terminal_of (VGA_clear s) = (replicate 2000 0, 0)" by (simp add: terminal_of_def VGA_clear_def)
qed

text \<open>A carriage return after 2000 characters without a newline: the screen scrolls, \<open>y\<close> wraps
  around to \<open>2^32 - 1\<close>, and the next character goes to an address far outside of the screen.\<close>

lemma VGA_carriage_return_escapes:
  assumes "disp_y s = 0" "disp_x s = 2000" "c \<noteq> 0x0A" "c \<noteq> 0x0D"
  shows "load16 0x2000B7F60 (vram (VGA_display_str [0x0D, c] s)) = glyph c \<and> \<not> in_range 0x2000B7F60 X86_VGA_ADDR 4000"
proof -
  define t where "t = VGA_display_char 0x0D s"
  have t: "disp_x t = 0" "disp_y t = - 1"
    using assms(1,2) unfolding t_def VGA_display_char_eq
    by (simp_all add: scrolled_def placed_def disp_width_def disp_len_def Let_def)
  have "cell_addr (disp_y t * disp_width + disp_x t) = 0x2000B7F60" "disp_y t * disp_width + disp_x t \<noteq> disp_len"
    by (simp_all add: t disp_width_def disp_len_def cell_addr_def X86_VGA_ADDR_def)
  then have "vram (VGA_display_char c t) = store16 0x2000B7F60 (glyph c) (vram t)"
    unfolding VGA_display_char_eq using assms(3,4) by (simp add: scrolled_def placed_def)
  then show ?thesis by (simp add: t_def [symmetric] in_range_def X86_VGA_ADDR_def)
qed

lemma VGA_display_str_term:
  assumes "cursor_ok s Y" "0x0D \<notin> set cs" "unat (disp_x s) + length cs < 2 ^ 32"
  shows "terminal_of (VGA_display_str cs s) = fold term_put cs (terminal_of s) \<and>
    (\<exists>Y. cursor_ok (VGA_display_str cs s) Y) \<and> unat (disp_x (VGA_display_str cs s)) \<le> unat (disp_x s) + length cs \<and>
    (\<forall>a. \<not> in_range a X86_VGA_ADDR 4000 \<longrightarrow> vram (VGA_display_str cs s) a = vram s a)"
  using assms
proof (induction cs arbitrary: s Y)
  case Nil
  then show ?case by auto
next
  case (Cons c cs)
  have x: "c \<noteq> 0x0D" "unat (disp_x s) + 1 < 2 ^ 32" using Cons.prems by auto
  note C = VGA_display_char_term [OF Cons.prems(1) x]
  obtain Z where Z: "cursor_ok (VGA_display_char c s) Z" using C(2) by blast
  have "unat (disp_x (VGA_display_char c s)) + length cs < 2 ^ 32" using C(3) Cons.prems(3) by simp
  with Cons.IH [OF Z] Cons.prems(2) C(1,3,4) show ?case by auto
qed

section \<open>Properties\<close>

text \<open>C22: the screen behaves like a terminal. For a string without carriage returns (and lines of less than \<open>2^32\<close>
  characters), \<open>VGA_display_str\<close> refines the terminal: characters go to consecutive cells, a
  newline goes to the start of the next line, and behind the last cell all lines move up by one and a blank one
  follows; no byte outside of the 4000 bytes of the screen is written, however many
  lines were scrolled.\<close>

theorem VGA_display_str_refines:
  assumes "cursor_ok s Y" "0x0D \<notin> set cs" "unat (disp_x s) + length cs < 2 ^ 32"
  shows "terminal_of (VGA_display_str cs s) = fold term_put cs (terminal_of s) \<and>
    (\<exists>Y. cursor_ok (VGA_display_str cs s) Y) \<and>
    (\<forall>a. \<not> in_range a X86_VGA_ADDR 4000 \<longrightarrow> vram (VGA_display_str cs s) a = vram s a)"
  using VGA_display_str_term [OF assms] by blast

definition console_example :: "u8 list console" where
  "console_example = \<lparr>irq_semaphore = 0, int_flag = True, handlers = [], klogs = [], devst = [],
     output_buff = replicate 1024 0, out_producer_pos = 0, out_consumer_pos = 0, gdev_addr = 0x5000,
     disp_x = 0, disp_y = 0, vram = (\<lambda>_. 7), main_serial_dev = NULL\<rparr>"

theorem VGA_display_str_refines_witness:
  "snd (terminal_of (VGA_display_str [0x68, 0x69, 0x0A] (VGA_clear console_example))) = 80 \<and>
   fst (terminal_of (VGA_display_str [0x68, 0x69, 0x0A] (VGA_clear console_example))) ! 1 = 0x0f69"
  using VGA_display_str_refines [OF VGA_clear_term(2), of "[0x68, 0x69, 0x0A]" console_example]
  by (simp add: VGA_clear_term term_put_def term_scroll_def glyph_def)

end
