(* ===== verification/Printk.thy ===== *)
theory Printk
  imports Vga
begin

text \<open>
  Formatted output: \<^verbatim>\<open>src/src/printk.c\<close>, and the log prefix of \<^verbatim>\<open>src/src/klog.h\<close>.

  The arguments of \<open>printk\<close> are a list of values of the types \<open>va_arg\<close> asks for; asking for another
  type, or for more than there are, is undefined (\<open>None\<close>), and so is a format that ends inside of a
  directive, since the loop then runs past the end of the format.

  Numbers are converted in a buffer of 64 characters on the stack, from its end. The terminator is
  written to index 64, one behind the end; the model lets the buffer extend that far.
\<close>

section \<open>Characters and strings\<close>

definition display_char :: "'d device \<Rightarrow> u8 \<Rightarrow> ('d, 'a) console_scheme \<Rightarrow> ('d, 'a) console_scheme" where
  "display_char dev c s =
     (let s = VGA_display_char c s in if main_serial_dev s \<noteq> NULL then snd (SER_write_char dev c s) else s)"

definition display_str :: "'d device \<Rightarrow> u8 list \<Rightarrow> ('d, 'a) console_scheme \<Rightarrow> ('d, 'a) console_scheme" where
  "display_str dev cs s =
     (let s = VGA_display_str cs s in if main_serial_dev s \<noteq> NULL then snd (SER_write_str dev cs s) else s)"

definition chars :: "string \<Rightarrow> u8 list" where
  "chars cs = map of_char cs"

section \<open>Numbers\<close>

text \<open>The loops of the two macros; the buffer is a function of the index.\<close>

function dec_loop :: "nat \<Rightarrow> int \<Rightarrow> (int \<Rightarrow> u8) \<Rightarrow> int \<times> (int \<Rightarrow> u8)" where
  "dec_loop d cur b =
     (if d = 0 then (cur, b) else dec_loop (d div 10) (cur - 1) (b(cur := of_nat (d mod 10) + 48)))"
  by pat_completeness auto
termination by (relation "measure fst") auto

function hex_loop :: "u8 \<Rightarrow> nat \<Rightarrow> int \<Rightarrow> (int \<Rightarrow> u8) \<Rightarrow> int \<times> (int \<Rightarrow> u8)" where
  "hex_loop bc d cur b =
     (if d = 0 then (cur, b)
      else let digit = d mod 16
           in hex_loop bc (d div 16) (cur - 1)
                (b(cur := if digit < 10 then of_nat digit + 48 else of_nat (digit - 10) + bc)))"
  by pat_completeness auto
termination by (relation "measure (\<lambda>(_, d, _). d)") auto

declare dec_loop.simps [simp del] hex_loop.simps [simp del]

text \<open>The string from an index of the buffer up to the terminator at 64. What the buffer holds before
  the macros write to it is never read.\<close>

definition buf_string :: "int \<times> (int \<Rightarrow> u8) \<Rightarrow> u8 list" where
  "buf_string r = takeWhile (\<lambda>c. c \<noteq> 0) (map (snd r) [fst r + 1..64])"

definition DISP_UNSIGNED_VAL_DEC :: "'d device \<Rightarrow> nat \<Rightarrow> ('d, 'a) console_scheme \<Rightarrow> ('d, 'a) console_scheme" where
  "DISP_UNSIGNED_VAL_DEC dev d s =
     (if d = 0 then display_char dev 48 s else display_str dev (buf_string (dec_loop d 63 (\<lambda>_. 0))) s)"

definition DISP_UNSIGNED_VAL_HEX :: "'d device \<Rightarrow> nat \<Rightarrow> u8 \<Rightarrow> ('d, 'a) console_scheme \<Rightarrow> ('d, 'a) console_scheme" where
  "DISP_UNSIGNED_VAL_HEX dev d bc s =
     (if d = 0 then display_char dev 48 s else display_str dev (buf_string (hex_loop bc d 63 (\<lambda>_. 0))) s)"

definition print_uint64_t :: "'d device \<Rightarrow> u64 \<Rightarrow> ('d, 'a) console_scheme \<Rightarrow> ('d, 'a) console_scheme" where
  "print_uint64_t dev d = DISP_UNSIGNED_VAL_DEC dev (unat d)"

definition print_uint64_t_hex :: "'d device \<Rightarrow> u64 \<Rightarrow> u8 \<Rightarrow> ('d, 'a) console_scheme \<Rightarrow> ('d, 'a) console_scheme" where
  "print_uint64_t_hex dev d = DISP_UNSIGNED_VAL_HEX dev (unat d)"

definition print_uint :: "'d device \<Rightarrow> u32 \<Rightarrow> ('d, 'a) console_scheme \<Rightarrow> ('d, 'a) console_scheme" where
  "print_uint dev d = DISP_UNSIGNED_VAL_DEC dev (unat d)"

definition print_uint_hex :: "'d device \<Rightarrow> u32 \<Rightarrow> u8 \<Rightarrow> ('d, 'a) console_scheme \<Rightarrow> ('d, 'a) console_scheme" where
  "print_uint_hex dev d = DISP_UNSIGNED_VAL_HEX dev (unat d)"

definition print_ushort :: "'d device \<Rightarrow> u16 \<Rightarrow> ('d, 'a) console_scheme \<Rightarrow> ('d, 'a) console_scheme" where
  "print_ushort dev d = DISP_UNSIGNED_VAL_DEC dev (unat d)"

definition print_ushort_hex :: "'d device \<Rightarrow> u16 \<Rightarrow> u8 \<Rightarrow> ('d, 'a) console_scheme \<Rightarrow> ('d, 'a) console_scheme" where
  "print_ushort_hex dev d = DISP_UNSIGNED_VAL_HEX dev (unat d)"

text \<open>\<open>unsigned long\<close> and \<open>long\<close> are 64 bits wide. The negation of the smallest number wraps around
  to itself, and its conversion to the unsigned type is the absolute value.\<close>

definition print_ulong :: "'d device \<Rightarrow> u64 \<Rightarrow> ('d, 'a) console_scheme \<Rightarrow> ('d, 'a) console_scheme" where
  "print_ulong dev d = DISP_UNSIGNED_VAL_DEC dev (unat d)"

definition print_ulong_hex :: "'d device \<Rightarrow> u64 \<Rightarrow> u8 \<Rightarrow> ('d, 'a) console_scheme \<Rightarrow> ('d, 'a) console_scheme" where
  "print_ulong_hex dev d = DISP_UNSIGNED_VAL_HEX dev (unat d)"

definition print_int64_t :: "'d device \<Rightarrow> u64 \<Rightarrow> ('d, 'a) console_scheme \<Rightarrow> ('d, 'a) console_scheme" where
  "print_int64_t dev d s =
     (if sint d < 0 then print_uint64_t dev (- d) (display_char dev 45 s) else print_uint64_t dev d s)"

definition print_long :: "'d device \<Rightarrow> u64 \<Rightarrow> ('d, 'a) console_scheme \<Rightarrow> ('d, 'a) console_scheme" where
  "print_long dev d s =
     (if sint d < 0 then print_ulong dev (- d) (display_char dev 45 s) else print_ulong dev d s)"

definition print_int :: "'d device \<Rightarrow> u32 \<Rightarrow> ('d, 'a) console_scheme \<Rightarrow> ('d, 'a) console_scheme" where
  "print_int dev d s =
     (if sint d < 0 then print_uint dev (- d) (display_char dev 45 s) else print_uint dev d s)"

definition print_short :: "'d device \<Rightarrow> u16 \<Rightarrow> ('d, 'a) console_scheme \<Rightarrow> ('d, 'a) console_scheme" where
  "print_short dev d s =
     (if sint d < 0 then print_ushort dev (- d) (display_char dev 45 s) else print_ushort dev d s)"

section \<open>printk\<close>

datatype va = Int_arg u32 | Long_arg u64 | Ptr_arg addr | Str_arg "u8 list"

text \<open>The macro: \<open>pu\<close>, \<open>pd\<close> and \<open>px\<close> print the argument unsigned, signed and in hexadecimal.\<close>

definition HANDLE_FORMAT_SPECIFIER ::
  "('w \<Rightarrow> 's \<Rightarrow> 's) \<Rightarrow> ('w \<Rightarrow> 's \<Rightarrow> 's) \<Rightarrow> ('w \<Rightarrow> u8 \<Rightarrow> 's \<Rightarrow> 's) \<Rightarrow> 'w \<Rightarrow> char \<Rightarrow> 's \<Rightarrow> 's" where
  "HANDLE_FORMAT_SPECIFIER pu pd px a spec s =
     (if spec = CHR ''u'' then pu a s
      else if spec = CHR ''d'' then pd a s
      else if spec = CHR ''x'' then px a 97 s
      else if spec = CHR ''X'' then px a 65 s
      else s)"

fun printk_loop :: "'d device \<Rightarrow> string \<Rightarrow> va list \<Rightarrow> ('d, 'a) console_scheme \<Rightarrow> ('d, 'a) console_scheme option" where
  "printk_loop dev [] args s = Some s"
| "printk_loop dev (c # cs) args s =
     (if c \<noteq> CHR ''%'' then printk_loop dev cs args (display_char dev (of_char c) s)
      else case cs of
        [] \<Rightarrow> None
      | f # fs \<Rightarrow>
          if f = CHR ''s'' then
            (case args of Str_arg str # as \<Rightarrow> printk_loop dev fs as (display_str dev str s) | _ \<Rightarrow> None)
          else if f = CHR ''c'' then
            (case args of Int_arg i # as \<Rightarrow> printk_loop dev fs as (display_char dev (ucast i) s) | _ \<Rightarrow> None)
          else if f = CHR ''p'' then
            (case args of Ptr_arg p # as \<Rightarrow>
               printk_loop dev fs as (print_uint64_t_hex dev p 97 (display_str dev (chars ''0x'') s)) | _ \<Rightarrow> None)
          else if f = CHR ''l'' then
            (case args of Long_arg l # as \<Rightarrow>
               (case fs of [] \<Rightarrow> None
                | g # gs \<Rightarrow> printk_loop dev gs as
                    (HANDLE_FORMAT_SPECIFIER (print_ulong dev) (print_long dev) (print_ulong_hex dev) l g s)) | _ \<Rightarrow> None)
          else if f = CHR ''h'' then
            (case args of Int_arg i # as \<Rightarrow>
               (case fs of [] \<Rightarrow> None
                | g # gs \<Rightarrow> printk_loop dev gs as
                    (HANDLE_FORMAT_SPECIFIER (print_ushort dev) (print_short dev) (print_ushort_hex dev) (ucast i) g s)) | _ \<Rightarrow> None)
          else if f = CHR ''q'' then
            (case args of Long_arg l # as \<Rightarrow>
               (case fs of [] \<Rightarrow> None
                | g # gs \<Rightarrow> printk_loop dev gs as
                    (HANDLE_FORMAT_SPECIFIER (print_uint64_t dev) (print_int64_t dev) (print_uint64_t_hex dev) l g s)) | _ \<Rightarrow> None)
          else if f \<in> {CHR ''d'', CHR ''u'', CHR ''x'', CHR ''X''} then
            (case args of Int_arg i # as \<Rightarrow>
               printk_loop dev fs as
                 (HANDLE_FORMAT_SPECIFIER (print_uint dev) (print_int dev) (print_uint_hex dev) i f s) | _ \<Rightarrow> None)
          else if f = CHR ''%'' then printk_loop dev fs args (display_char dev (of_char CHR ''%'') s)
          else printk_loop dev fs args s)"

definition printk :: "'d device \<Rightarrow> string \<Rightarrow> va list \<Rightarrow> ('d, 'a) console_scheme \<Rightarrow> (int \<times> ('d, 'a) console_scheme) option" where
  "printk dev fmt args s = map_option (\<lambda>s. (0, s)) (printk_loop dev fmt args s)"

text \<open>The log as it is printed. For another level the string would be uninitialised.\<close>

definition log_level :: "'d device \<Rightarrow> nat \<Rightarrow> ('d, 'a) console_scheme \<Rightarrow> ('d, 'a) console_scheme option" where
  "log_level dev l s =
     Option.bind (if l = KLOG_LEVEL_DEBUG then Some ''dbg'' else if l = KLOG_LEVEL_INFO then Some ''info''
                  else if l = 5 then Some ''notc'' else if l = KLOG_LEVEL_WARN then Some ''warn''
                  else if l = KLOG_LEVEL_ERR then Some ''err'' else if l = KLOG_LEVEL_CRIT then Some ''crit''
                  else if l = KLOG_LEVEL_EMERG then Some ''emrg'' else None)
       (\<lambda>str. printk_loop dev ''log[%s]: '' [Str_arg (chars str)] s)"

definition klog_print :: "'d device \<Rightarrow> nat \<Rightarrow> string \<Rightarrow> va list \<Rightarrow> ('d, 'a) console_scheme \<Rightarrow> ('d, 'a) console_scheme option" where
  "klog_print dev l fmt args s =
     (if l > KLOG_MIN_LOG_LEVEL
      then Option.bind (log_level dev l s) (\<lambda>s. Option.bind (printk_loop dev fmt args s) (\<lambda>s. printk_loop dev [CHR 0x0A] [] s))
      else Some s)"

definition panic :: "'d device \<Rightarrow> ('d, 'a) console_scheme \<Rightarrow> ('d, 'a) console_scheme option" where
  "panic dev s = klog_print dev KLOG_LEVEL_EMERG ''KERNEL PANIC'' [] s"

section \<open>Digits\<close>

text \<open>The representation of a positive number in base 10 or 16, most significant digit first.\<close>

definition hex_digit :: "u8 \<Rightarrow> nat \<Rightarrow> u8" where
  "hex_digit bc k = (if k < 10 then of_nat k + 48 else of_nat (k - 10) + bc)"

fun digits :: "nat \<Rightarrow> (nat \<Rightarrow> u8) \<Rightarrow> nat \<Rightarrow> u8 list" where
  "digits base dg d = (if d = 0 \<or> base < 2 then [] else digits base dg (d div base) @ [dg (d mod base)])"

declare digits.simps [simp del]

lemma digits_0 [simp]: "digits base dg 0 = []"
  by (simp add: digits.simps)

lemma digits_step: "0 < d \<Longrightarrow> 2 \<le> base \<Longrightarrow> digits base dg d = digits base dg (d div base) @ [dg (d mod base)]"
  by (simp add: digits.simps [of base dg d])

lemma digits_length:
  assumes "2 \<le> base" "d < base ^ n"
  shows "length (digits base dg d) \<le> n"
  using assms(2)
proof (induction n arbitrary: d)
  case 0
  then show ?case by simp
next
  case (Suc n)
  have "d div base < base ^ n" using Suc.prems assms(1) by (simp add: less_mult_imp_div_less mult.commute)
  with Suc.IH show ?case using assms(1) by (cases "d = 0") (auto simp: digits_step)
qed

lemma digits_value:
  assumes "2 \<le> base" "\<And>k. k < base \<Longrightarrow> val (dg k) = k"
  shows "foldl (\<lambda>v c. base * v + val c) 0 (digits base dg d) = d"
proof (induction d rule: less_induct)
  case (less d)
  show ?case
  proof (cases "d = 0")
    case False
    then have "d div base < d" using assms(1) by simp
    with less False assms show ?thesis by (simp add: digits_step)
  qed simp
qed

lemma digits_set: "2 \<le> base \<Longrightarrow> c \<in> set (digits base dg d) \<Longrightarrow> \<exists>k<base. c = dg k"
proof (induction d rule: less_induct)
  case (less d)
  show ?case
  proof (cases "d = 0")
    case False
    then have lt: "d div base < d" "d mod base < base" using less.prems(1) by simp_all
    have "c \<in> set (digits base dg (d div base)) \<or> c = dg (d mod base)"
      using less.prems False by (auto simp: digits_step)
    with less.IH [OF lt(1) less.prems(1)] lt(2) show ?thesis by blast
  qed (use less.prems in simp)
qed

lemma digits_head:
  assumes "2 \<le> base" "0 < d"
  shows "\<exists>k. 0 < k \<and> k < base \<and> digits base dg d \<noteq> [] \<and> hd (digits base dg d) = dg k"
  using assms(2)
proof (induction d rule: less_induct)
  case (less d)
  show ?case
  proof (cases "d < base")
    case True
    then show ?thesis using less.prems assms(1) by (auto simp: digits_step intro!: exI [of _ d])
  next
    case False
    then have "0 < d div base" "d div base < d" using assms(1) less.prems by (simp_all add: div_greater_zero_iff)
    from less.IH [OF this(2,1)] show ?thesis using less.prems assms(1) by (auto simp: digits_step)
  qed
qed

text \<open>The loops write the digits to the buffer.\<close>

lemma dec_loop_digits:
  assumes "dec_loop d cur b = (c, b')"
  shows "map b' [c + 1..cur] = digits 10 (\<lambda>k. of_nat k + 48) d \<and> c \<le> cur \<and> (\<forall>i>cur. b' i = b i)"
  using assms
proof (induction d cur b rule: dec_loop.induct)
  case (1 d cur b)
  show ?case
  proof (cases "d = 0")
    case True
    then show ?thesis using "1.prems" by (simp add: dec_loop.simps)
  next
    case False
    have "dec_loop (d div 10) (cur - 1) (b(cur := of_nat (d mod 10) + 48)) = (c, b')"
      using "1.prems" False by (simp add: dec_loop.simps [of d])
    from "1.IH" [OF False this] have IH: "map b' [c + 1..cur - 1] = digits 10 (\<lambda>k. of_nat k + 48) (d div 10)"
      "c \<le> cur - 1" "\<forall>i>cur - 1. b' i = (b(cur := of_nat (d mod 10) + 48)) i" by auto
    have "[c + 1..cur] = [c + 1..cur - 1] @ [cur]" using IH(2) by (intro upto_rec2) simp
    with IH False show ?thesis by (simp add: digits_step)
  qed
qed

lemma hex_loop_digits:
  assumes "hex_loop bc d cur b = (c, b')"
  shows "map b' [c + 1..cur] = digits 16 (hex_digit bc) d \<and> c \<le> cur \<and> (\<forall>i>cur. b' i = b i)"
  using assms
proof (induction bc d cur b rule: hex_loop.induct)
  case (1 bc d cur b)
  show ?case
  proof (cases "d = 0")
    case True
    then show ?thesis using "1.prems" by (simp add: hex_loop.simps)
  next
    case False
    have "hex_loop bc (d div 16) (cur - 1)
        (b(cur := if d mod 16 < 10 then of_nat (d mod 16) + 48 else of_nat (d mod 16 - 10) + bc)) = (c, b')"
      using "1.prems" False by (simp add: hex_loop.simps [of bc d] Let_def)
    from "1.IH" [OF False refl this] have IH: "map b' [c + 1..cur - 1] = digits 16 (hex_digit bc) (d div 16)"
      "c \<le> cur - 1" "\<forall>i>cur - 1. b' i = (b(cur := hex_digit bc (d mod 16))) i"
      unfolding hex_digit_def [of bc "d mod 16"] by blast+
    have "[c + 1..cur] = [c + 1..cur - 1] @ [cur]" using IH(2) by (intro upto_rec2) simp
    with IH False show ?thesis by (simp add: digits_step)
  qed
qed

lemma unat_u8: "n < 256 \<Longrightarrow> unat (of_nat n :: u8) = n"
  by (simp only: unat_of_nat) simp

lemma unat_dec_digit: "k < 10 \<Longrightarrow> unat (of_nat k + 48 :: u8) = k + 48"
  using unat_u8 [of "k + 48"] by simp

lemma unat_hex_digit:
  assumes "k < 16" "bc = 97 \<or> bc = 65"
  shows "unat (hex_digit bc k) = (if k < 10 then k + 48 else k - 10 + unat bc)"
proof (cases "k < 10")
  case True
  then show ?thesis by (simp add: hex_digit_def unat_dec_digit)
next
  case False
  have "hex_digit bc k = of_nat (k - 10 + unat bc)" using False by (simp add: hex_digit_def)
  moreover have "k - 10 + unat bc < 256" using assms by auto
  ultimately show ?thesis using False by (simp only: unat_u8 if_False)
qed

lemma buf_string_digits:
  assumes "map b' [c + 1..63] = ds" "c \<le> 63" "b' 64 = 0" "0 \<notin> set ds"
  shows "buf_string (c, b') = ds"
proof -
  have "[c + 1..64] = [c + 1..63] @ [64]" using upto_rec2 [of "c + 1" 64] assms(2) by simp
  then have "map b' [c + 1..64] = ds @ [0]" using assms(1,3) by simp
  moreover have "takeWhile (\<lambda>x. x \<noteq> 0) (ds @ [0]) = ds"
    using assms(4) by (subst takeWhile_append2) auto
  ultimately show ?thesis by (simp add: buf_string_def)
qed

definition dec_text :: "nat \<Rightarrow> u8 list" where
  "dec_text d = (if d = 0 then [48] else digits 10 (\<lambda>k. of_nat k + 48) d)"

definition hex_text :: "u8 \<Rightarrow> nat \<Rightarrow> u8 list" where
  "hex_text bc d = (if d = 0 then [48] else digits 16 (hex_digit bc) d)"

definition int_text :: "int \<Rightarrow> u8 list" where
  "int_text i = (if i < 0 then 45 # dec_text (nat (- i)) else dec_text (nat i))"

lemma dec_buffer: "buf_string (dec_loop d 63 (\<lambda>_. 0)) = digits 10 (\<lambda>k. of_nat k + 48) d"
proof -
  obtain c b' where r: "dec_loop d 63 (\<lambda>_. 0) = (c, b')" by fastforce
  have "of_nat k + 48 \<noteq> (0::u8)" if "k < 10" for k using unat_dec_digit [OF that] by auto
  then have "0 \<notin> set (digits 10 (\<lambda>k. of_nat k + 48 :: u8) d)"
    using digits_set [of 10 0 "\<lambda>k. of_nat k + 48" d] by fastforce
  with dec_loop_digits [OF r] show ?thesis unfolding r by (intro buf_string_digits) auto
qed

lemma hex_buffer:
  assumes "bc = 97 \<or> bc = 65"
  shows "buf_string (hex_loop bc d 63 (\<lambda>_. 0)) = digits 16 (hex_digit bc) d"
proof -
  obtain c b' where r: "hex_loop bc d 63 (\<lambda>_. 0) = (c, b')" by fastforce
  have "hex_digit bc k \<noteq> 0" if "k < 16" for k
    using unat_hex_digit [OF that assms] assms by (auto split: if_splits)
  then have "0 \<notin> set (digits 16 (hex_digit bc) d)"
    using digits_set [of 16 0 "hex_digit bc" d] by fastforce
  with hex_loop_digits [OF r] show ?thesis unfolding r by (intro buf_string_digits) auto
qed

section \<open>Texts on the screen and the serial line\<close>

text \<open>An operation prints a text: the terminal takes its characters, nothing else on the
  screen memory changes, and the serial line, when there is one, takes those that fit its buffer.\<close>

definition logs :: "'d device \<Rightarrow> ('d, 'a) console_scheme \<Rightarrow> ('d, 'a) console_scheme \<Rightarrow> u8 list \<Rightarrow> bool" where
  "logs dev s t cs \<longleftrightarrow> main_serial_dev t = main_serial_dev s \<and>
     (\<forall>sent. ring_ok s \<longrightarrow> uart dev sent \<longrightarrow> ring_ok t \<and> pending t \<le> pending s + length cs \<and>
        (\<exists>acc. stream sent t = stream sent s @ acc \<and>
           (if main_serial_dev s = NULL then acc = [] else takes (pending s) cs acc)))"

definition shows_text :: "('d, 'a) console_scheme \<Rightarrow> ('d, 'a) console_scheme \<Rightarrow> u8 list \<Rightarrow> bool" where
  "shows_text s t cs \<longleftrightarrow> terminal_of t = fold term_put cs (terminal_of s) \<and> (\<exists>Y. cursor_ok t Y) \<and>
     unat (disp_x t) \<le> unat (disp_x s) + length cs \<and>
     (\<forall>a. \<not> in_range a X86_VGA_ADDR 4000 \<longrightarrow> vram t a = vram s a)"

definition prints :: "'d device \<Rightarrow> (('d, 'a) console_scheme \<Rightarrow> ('d, 'a) console_scheme) \<Rightarrow> u8 list \<Rightarrow> bool" where
  "prints dev f cs \<longleftrightarrow> 0x0D \<notin> set cs \<and>
     (\<forall>s. (\<exists>Y. cursor_ok s Y) \<longrightarrow> unat (disp_x s) + length cs < 2 ^ 32 \<longrightarrow>
        shows_text s (f s) cs \<and> logs dev s (f s) cs)"

lemma logs_trans:
  assumes "logs dev s t cs" "logs dev t u ds"
  shows "logs dev s u (cs @ ds)"
  unfolding logs_def
proof (intro conjI allI impI)
  show "main_serial_dev u = main_serial_dev s" using assms by (simp add: logs_def)
  fix sent assume ok: "ring_ok s" and u: "uart dev sent"
  let ?c = "\<lambda>n cs acc. if main_serial_dev s = NULL then acc = [] else takes n cs acc"
  obtain a where a: "stream sent t = stream sent s @ a" "?c (pending s) cs a" "ring_ok t" "pending t \<le> pending s + length cs"
    "main_serial_dev t = main_serial_dev s" using assms(1) ok u unfolding logs_def by blast
  obtain b where b: "stream sent u = stream sent t @ b" "?c (pending t) ds b" "ring_ok u" "pending u \<le> pending t + length ds"
    using assms(2) a(3,5) u unfolding logs_def by metis
  have "?c (pending s) (cs @ ds) (a @ b)"
    using a(2,4) b(2) takes_append [of "pending s" cs a "pending t" ds b] by (simp split: if_splits)
  then show "\<exists>acc. stream sent u = stream sent s @ acc \<and> ?c (pending s) (cs @ ds) acc"
    using a(1) b(1) by (intro exI [of _ "a @ b"]) simp
  show "ring_ok u" "pending u \<le> pending s + length (cs @ ds)" using a(4) b(3,4) by simp_all
qed

lemma shows_text_trans: "shows_text s t cs \<Longrightarrow> shows_text t u ds \<Longrightarrow> shows_text s u (cs @ ds)"
  by (auto simp: shows_text_def)

lemma prints_compose:
  assumes "prints dev f cs" "prints dev g ds"
  shows "prints dev (\<lambda>s. g (f s)) (cs @ ds)"
  unfolding prints_def
proof (intro conjI allI impI)
  show "0x0D \<notin> set (cs @ ds)" using assms by (simp add: prints_def)
  fix s :: "('a, 'b) console_scheme"
  assume s: "\<exists>Y. cursor_ok s Y" "unat (disp_x s) + length (cs @ ds) < 2 ^ 32"
  then have f: "shows_text s (f s) cs" "logs dev s (f s) cs" using assms(1) by (simp_all add: prints_def)
  then have "(\<exists>Y. cursor_ok (f s) Y)" "unat (disp_x (f s)) + length ds < 2 ^ 32"
    using s(2) by (auto simp: shows_text_def)
  then have "shows_text (f s) (g (f s)) ds" "logs dev (f s) (g (f s)) ds" using assms(2) by (simp_all add: prints_def)
  with f show "shows_text s (g (f s)) (cs @ ds)" "logs dev s (g (f s)) (cs @ ds)"
    by (auto intro: shows_text_trans logs_trans)
qed

lemma prints_id: "prints dev (\<lambda>s. s) []"
  by (auto simp: prints_def shows_text_def logs_def takes_def)

text \<open>The screen does not touch the state of the serial driver, and the other way round.\<close>

lemma ring_cong:
  assumes "output_buff t = output_buff s" "out_producer_pos t = out_producer_pos s" "out_consumer_pos t = out_consumer_pos s"
    "devst t = devst s"
  shows "ring_ok t = ring_ok s" "pending t = pending s" "stream sent t = stream sent s"
  using assms by (simp_all add: ring_ok_def ring_def ring_at_def [abs_def] pending_def stream_def)

lemma VGA_display_char_sel:
  "output_buff (VGA_display_char c s) = output_buff s" "out_producer_pos (VGA_display_char c s) = out_producer_pos s"
  "out_consumer_pos (VGA_display_char c s) = out_consumer_pos s" "devst (VGA_display_char c s) = devst s"
  "main_serial_dev (VGA_display_char c s) = main_serial_dev s"
  unfolding VGA_display_char_eq
  by (simp_all add: scrolled_def placed_def scroll_def IRQ_disable_def IRQ_enable_def Let_def)

lemmas VGA_display_char_serial = ring_cong [OF VGA_display_char_sel(1-4)] VGA_display_char_sel(5)

lemma x86_write_console:
  "disp_x (snd (x86_write dev c s)) = disp_x s \<and> disp_y (snd (x86_write dev c s)) = disp_y s \<and>
   vram (snd (x86_write dev c s)) = vram s \<and> main_serial_dev (snd (x86_write dev c s)) = main_serial_dev s"
proof -
  let ?eq = "\<lambda>t. disp_x t = disp_x s \<and> disp_y t = disp_y s \<and> vram t = vram s \<and> main_serial_dev t = main_serial_dev s"
  define s1 where "s1 = producer_add_char c (IRQ_disable s)"
  obtain e t where t: "is_transmit_empty dev s1 = (e, t)" by fastforce
  have "?eq s1" by (simp add: s1_def producer_add_char_def IRQ_disable_def Let_def)
  then have "?eq t" using t by (auto simp: is_transmit_empty_def inb_def split: prod.splits)
  then have "?eq (if e then consumer_write_next dev t else t)" by (simp add: consumer_write_next_def outb_def Let_def)
  then have "?eq (IRQ_enable (if e then consumer_write_next dev t else t))" by (simp add: IRQ_enable_def Let_def)
  then show ?thesis by (simp add: x86_write_def s1_def [symmetric] t)
qed

lemma shows_text_serial:
  "terminal_of (snd (x86_write dev c s)) = terminal_of s" "cursor_ok (snd (x86_write dev c s)) Y = cursor_ok s Y"
  by (simp_all add: terminal_of_def cursor_ok_def x86_write_console)

lemma display_char_prints:
  assumes "c \<noteq> 0x0D"
  shows "prints dev (display_char dev c) [c]"
  unfolding prints_def
proof (intro conjI allI impI)
  show "0x0D \<notin> set [c]" using assms by simp
  fix s :: "('a, 'b) console_scheme"
  assume s: "\<exists>Y. cursor_ok s Y" "unat (disp_x s) + length [c] < 2 ^ 32"
  then obtain Y where Y: "cursor_ok s Y" "unat (disp_x s) + 1 < 2 ^ 32" by auto
  let ?t = "VGA_display_char c s"
  have d: "display_char dev c s = (if main_serial_dev s = NULL then ?t else snd (x86_write dev c ?t))"
    by (simp add: display_char_def SER_write_char_def VGA_display_char_serial Let_def)
  note V = VGA_display_char_term [OF Y(1) assms Y(2)]
  show "shows_text s (display_char dev c s) [c]"
    using V by (simp add: d shows_text_def shows_text_serial x86_write_console)
  show "logs dev s (display_char dev c s) [c]"
    unfolding logs_def
  proof (intro conjI allI impI)
    show "main_serial_dev (display_char dev c s) = main_serial_dev s"
      by (simp add: d VGA_display_char_serial x86_write_console)
    fix sent assume "ring_ok s" and u: "uart dev sent"
    then have t: "ring_ok ?t" by (simp add: VGA_display_char_serial)
    note W = x86_write_stream [OF t u, of c, unfolded VGA_display_char_serial]
    show "ring_ok (display_char dev c s)" "pending (display_char dev c s) \<le> pending s + length [c]"
      using t W by (simp_all add: d VGA_display_char_serial)
    show "\<exists>acc. stream sent (display_char dev c s) = stream sent s @ acc \<and>
        (if main_serial_dev s = NULL then acc = [] else takes (pending s) [c] acc)"
      using W(3) by (auto simp: d VGA_display_char_serial takes_def)
  qed
qed

lemma VGA_display_str_sel:
  "output_buff (VGA_display_str cs s) = output_buff s" "out_producer_pos (VGA_display_str cs s) = out_producer_pos s"
  "out_consumer_pos (VGA_display_str cs s) = out_consumer_pos s" "devst (VGA_display_str cs s) = devst s"
  "main_serial_dev (VGA_display_str cs s) = main_serial_dev s"
  by (induction cs arbitrary: s) (simp_all add: VGA_display_char_sel)

lemmas VGA_display_str_serial = ring_cong [OF VGA_display_str_sel(1-4)] VGA_display_str_sel(5)

lemma SER_write_str_console:
  "disp_x (snd (SER_write_str dev cs s)) = disp_x s \<and> disp_y (snd (SER_write_str dev cs s)) = disp_y s \<and>
   vram (snd (SER_write_str dev cs s)) = vram s \<and> main_serial_dev (snd (SER_write_str dev cs s)) = main_serial_dev s"
proof (induction cs arbitrary: s)
  case (Cons c cs)
  obtain r t where "x86_write dev c s = (r, t)" by fastforce
  then show ?case using Cons.IH [of t] x86_write_console [of dev c s] by simp
qed simp

lemma display_str_prints:
  assumes "0x0D \<notin> set cs"
  shows "prints dev (display_str dev cs) cs"
  unfolding prints_def
proof (intro conjI allI impI)
  show "0x0D \<notin> set cs" by (rule assms)
  fix s :: "('a, 'b) console_scheme"
  assume "\<exists>Y. cursor_ok s Y" and x: "unat (disp_x s) + length cs < 2 ^ 32"
  then obtain Y where Y: "cursor_ok s Y" by blast
  let ?t = "VGA_display_str cs s"
  have d: "display_str dev cs s = (if main_serial_dev s = NULL then ?t else snd (SER_write_str dev cs ?t))"
    by (simp add: display_str_def VGA_display_str_serial Let_def)
  note V = VGA_display_str_term [OF Y assms x]
  show "shows_text s (display_str dev cs s) cs"
    using V by (simp add: d shows_text_def terminal_of_def cursor_ok_def SER_write_str_console)
  show "logs dev s (display_str dev cs s) cs"
    unfolding logs_def
  proof (intro conjI allI impI)
    show "main_serial_dev (display_str dev cs s) = main_serial_dev s"
      by (simp add: d VGA_display_str_serial SER_write_str_console)
    fix sent assume "ring_ok s" and u: "uart dev sent"
    then have t: "ring_ok ?t" by (simp add: VGA_display_str_serial)
    note W = SER_write_str_stream [OF t u, of cs, unfolded VGA_display_str_serial]
    show "ring_ok (display_str dev cs s)" "pending (display_str dev cs s) \<le> pending s + length cs"
      using t W by (simp_all add: d VGA_display_str_serial)
    show "\<exists>acc. stream sent (display_str dev cs s) = stream sent s @ acc \<and>
        (if main_serial_dev s = NULL then acc = [] else takes (pending s) cs acc)"
      using W by (auto simp: d VGA_display_str_serial)
  qed
qed

lemma no_return:
  assumes "bc = 97 \<or> bc = 65"
  shows "0x0D \<notin> set (dec_text d)" "0x0D \<notin> set (hex_text bc d)"
proof -
  have "of_nat k + 48 \<noteq> (0x0D :: u8)" if k: "k < 10" for k
  proof
    assume "of_nat k + 48 = (0x0D :: u8)"
    with unat_dec_digit [OF k] have "k + 48 = unat (0x0D :: u8)" by metis
    then show False by simp
  qed
  then have "0x0D \<notin> set (digits 10 (\<lambda>k. of_nat k + 48 :: u8) d)"
    using digits_set [of 10 "0x0D" "\<lambda>k. of_nat k + 48" d] by auto
  then show "0x0D \<notin> set (dec_text d)" by (simp add: dec_text_def)
  have "hex_digit bc k \<noteq> 0x0D" if "k < 16" for k using unat_hex_digit [OF that assms] assms by (auto split: if_splits)
  then have "0x0D \<notin> set (digits 16 (hex_digit bc) d)" using digits_set [of 16 "0x0D" "hex_digit bc" d] by auto
  then show "0x0D \<notin> set (hex_text bc d)" by (simp add: hex_text_def)
qed

lemma DEC_prints: "prints dev (DISP_UNSIGNED_VAL_DEC dev d) (dec_text d)"
proof (cases "d = 0")
  case True
  then show ?thesis using display_char_prints [of 48] by (simp add: DISP_UNSIGNED_VAL_DEC_def [abs_def] dec_text_def)
next
  case False
  then show ?thesis using display_str_prints [OF no_return(1) [of 97 d]]
    by (simp add: DISP_UNSIGNED_VAL_DEC_def [abs_def] dec_buffer) (simp add: dec_text_def)
qed

lemma HEX_prints:
  assumes "bc = 97 \<or> bc = 65"
  shows "prints dev (\<lambda>s. DISP_UNSIGNED_VAL_HEX dev d bc s) (hex_text bc d)"
proof (cases "d = 0")
  case True
  then show ?thesis using display_char_prints [of 48] by (simp add: DISP_UNSIGNED_VAL_HEX_def [abs_def] hex_text_def)
next
  case False
  then show ?thesis using display_str_prints [OF no_return(2) [OF assms, of d]] hex_buffer [OF assms, of d]
    by (simp add: DISP_UNSIGNED_VAL_HEX_def [abs_def] hex_text_def)
qed

text \<open>A signed number of any width: the negated word is the absolute value.\<close>

lemma unat_minus_negative:
  fixes w :: "'w::len word"
  assumes "sint w < 0"
  shows "unat (- w) = nat (- sint w)"
proof -
  have w: "- w = word_of_int (- sint w)" by simp
  have "- (2 ^ (LENGTH('w) - 1)) \<le> sint w" using sint_greater_eq [of w] by simp
  moreover have "(2::int) ^ (LENGTH('w) - 1) < 2 ^ LENGTH('w)" by (intro power_strict_increasing) simp_all
  ultimately have "- sint w < 2 ^ LENGTH('w)" "0 \<le> - sint w" using assms by linarith+
  then show ?thesis unfolding w by (simp only: unsigned_of_int) (simp add: take_bit_int_eq_self)
qed

lemma unat_nonnegative:
  fixes w :: "'w::len word"
  assumes "0 \<le> sint w"
  shows "unat w = nat (sint w)"
proof -
  have "(2::int) ^ (LENGTH('w) - 1) < 2 ^ LENGTH('w)" by (intro power_strict_increasing) simp_all
  then have "sint w < 2 ^ LENGTH('w)" using sint_lt [of w] by linarith
  then have "unat (word_of_int (sint w) :: 'w word) = nat (sint w)"
    using assms by (simp only: unsigned_of_int) (simp add: take_bit_int_eq_self)
  then show ?thesis by simp
qed

lemma signed_prints:
  fixes w :: "'w::len word"
  shows "prints dev (\<lambda>s. if sint w < 0 then DISP_UNSIGNED_VAL_DEC dev (unat (- w)) (display_char dev 45 s)
     else DISP_UNSIGNED_VAL_DEC dev (unat w) s) (int_text (sint w))"
proof (cases "sint w < 0")
  case True
  have "prints dev (\<lambda>s. DISP_UNSIGNED_VAL_DEC dev (unat (- w)) (display_char dev 45 s)) ([45] @ dec_text (unat (- w)))"
    by (intro prints_compose display_char_prints DEC_prints) simp
  then show ?thesis using True by (simp add: int_text_def unat_minus_negative)
next
  case False
  then show ?thesis using DEC_prints [of dev "unat w"] by (simp add: int_text_def unat_nonnegative [of w])
qed

section \<open>Directives\<close>

datatype conv = Conv_d | Conv_u | Conv_x | Conv_X

datatype width = W_int | W_short | W_long | W_int64

text \<open>A format with its arguments, as a list of pieces. The value of a number has 64 bits, of which
  a narrower directive takes the low ones.\<close>

datatype directive = Lit char | Percent | Dir_s "u8 list" | Dir_c u32 | Dir_p addr | Num width conv u64

fun conv_char :: "conv \<Rightarrow> char" where
  "conv_char Conv_d = CHR ''d''" | "conv_char Conv_u = CHR ''u''"
| "conv_char Conv_x = CHR ''x''" | "conv_char Conv_X = CHR ''X''"

fun fmt_of :: "directive \<Rightarrow> string" where
  "fmt_of (Lit c) = [c]"
| "fmt_of Percent = ''%%''"
| "fmt_of (Dir_s str) = ''%s''"
| "fmt_of (Dir_c i) = ''%c''"
| "fmt_of (Dir_p p) = ''%p''"
| "fmt_of (Num W_int k v) = [CHR ''%'', conv_char k]"
| "fmt_of (Num W_short k v) = [CHR ''%'', CHR ''h'', conv_char k]"
| "fmt_of (Num W_long k v) = [CHR ''%'', CHR ''l'', conv_char k]"
| "fmt_of (Num W_int64 k v) = [CHR ''%'', CHR ''q'', conv_char k]"

fun args_of :: "directive \<Rightarrow> va list" where
  "args_of (Lit c) = []"
| "args_of Percent = []"
| "args_of (Dir_s str) = [Str_arg str]"
| "args_of (Dir_c i) = [Int_arg i]"
| "args_of (Dir_p p) = [Ptr_arg p]"
| "args_of (Num W_int k v) = [Int_arg (ucast v)]"
| "args_of (Num W_short k v) = [Int_arg (ucast v)]"
| "args_of (Num W_long k v) = [Long_arg v]"
| "args_of (Num W_int64 k v) = [Long_arg v]"

fun num_text :: "conv \<Rightarrow> 'w::len word \<Rightarrow> u8 list" where
  "num_text Conv_d w = int_text (sint w)"
| "num_text Conv_u w = dec_text (unat w)"
| "num_text Conv_x w = hex_text 97 (unat w)"
| "num_text Conv_X w = hex_text 65 (unat w)"

fun text_of :: "directive \<Rightarrow> u8 list" where
  "text_of (Lit c) = [of_char c]"
| "text_of Percent = [of_char CHR ''%'']"
| "text_of (Dir_s str) = str"
| "text_of (Dir_c i) = [ucast i]"
| "text_of (Dir_p p) = chars ''0x'' @ hex_text 97 (unat p)"
| "text_of (Num W_int k v) = num_text k (ucast v :: u32)"
| "text_of (Num W_short k v) = num_text k (ucast v :: u16)"
| "text_of (Num W_long k v) = num_text k v"
| "text_of (Num W_int64 k v) = num_text k v"

definition literal_ok :: "directive \<Rightarrow> bool" where
  "literal_ok d \<longleftrightarrow> d \<noteq> Lit CHR ''%''"

lemma HANDLE_FORMAT_SPECIFIER_prints:
  assumes "prints dev (pu w) (dec_text (unat w))" "prints dev (pd w) (int_text (sint w))"
    "prints dev (px w 97) (hex_text 97 (unat w))" "prints dev (px w 65) (hex_text 65 (unat w))"
  shows "prints dev (HANDLE_FORMAT_SPECIFIER pu pd px w (conv_char k)) (num_text k w)"
proof -
  have "HANDLE_FORMAT_SPECIFIER pu pd px w (conv_char k) =
      (case k of Conv_d \<Rightarrow> pd w | Conv_u \<Rightarrow> pu w | Conv_x \<Rightarrow> px w 97 | Conv_X \<Rightarrow> px w 65)"
    by (cases k) (simp_all add: HANDLE_FORMAT_SPECIFIER_def fun_eq_iff)
  then show ?thesis using assms by (cases k) simp_all
qed

lemma hex_prints: "prints dev (DISP_UNSIGNED_VAL_HEX dev d 97) (hex_text 97 d)" "prints dev (DISP_UNSIGNED_VAL_HEX dev d 65) (hex_text 65 d)"
  by (rule HEX_prints; simp)+

lemma signed_eq:
  "print_int dev w32 = (\<lambda>s. if sint w32 < 0 then DISP_UNSIGNED_VAL_DEC dev (unat (- w32)) (display_char dev 45 s)
     else DISP_UNSIGNED_VAL_DEC dev (unat w32) s)"
  "print_short dev w16 = (\<lambda>s. if sint w16 < 0 then DISP_UNSIGNED_VAL_DEC dev (unat (- w16)) (display_char dev 45 s)
     else DISP_UNSIGNED_VAL_DEC dev (unat w16) s)"
  "print_long dev w64 = (\<lambda>s. if sint w64 < 0 then DISP_UNSIGNED_VAL_DEC dev (unat (- w64)) (display_char dev 45 s)
     else DISP_UNSIGNED_VAL_DEC dev (unat w64) s)"
  "print_int64_t dev w64 = (\<lambda>s. if sint w64 < 0 then DISP_UNSIGNED_VAL_DEC dev (unat (- w64)) (display_char dev 45 s)
     else DISP_UNSIGNED_VAL_DEC dev (unat w64) s)"
  by (rule ext; simp only: print_int_def print_short_def print_long_def print_int64_t_def print_uint_def print_ushort_def
      print_ulong_def print_uint64_t_def)+

lemma print_number_prints:
  "prints dev (HANDLE_FORMAT_SPECIFIER (print_uint dev) (print_int dev) (print_uint_hex dev) w32 (conv_char k)) (num_text k w32)"
  "prints dev (HANDLE_FORMAT_SPECIFIER (print_ushort dev) (print_short dev) (print_ushort_hex dev) w16 (conv_char k)) (num_text k w16)"
  "prints dev (HANDLE_FORMAT_SPECIFIER (print_ulong dev) (print_long dev) (print_ulong_hex dev) w64 (conv_char k)) (num_text k w64)"
  "prints dev (HANDLE_FORMAT_SPECIFIER (print_uint64_t dev) (print_int64_t dev) (print_uint64_t_hex dev) w64 (conv_char k)) (num_text k w64)"
  by (rule HANDLE_FORMAT_SPECIFIER_prints; simp only: signed_eq signed_prints print_uint_def print_uint_hex_def print_ushort_def
      print_ushort_hex_def print_ulong_def print_ulong_hex_def print_uint64_t_def print_uint64_t_hex_def DEC_prints hex_prints)+

lemma ucast_short: "ucast (ucast (v :: u64) :: u32) = (ucast v :: u16)"
  by (rule bit_word_eqI) (auto simp: bit_ucast_iff)

text \<open>One directive is one operation of the loop.\<close>

lemma printk_loop_directive:
  fixes dev :: "'d device"
  assumes "literal_ok d" "0x0D \<notin> set (text_of d)"
  obtains f where "prints dev (f :: ('d, 'a) console_scheme \<Rightarrow> ('d, 'a) console_scheme) (text_of d)"
    "\<And>cs as s. printk_loop dev (fmt_of d @ cs) (args_of d @ as) s = printk_loop dev cs as (f s)"
proof (cases d)
  case (Lit c)
  then show thesis using that [of "display_char dev (of_char c)"] assms display_char_prints [of "of_char c" dev]
    by (simp add: literal_ok_def)
next
  case Percent
  then show thesis using that [of "display_char dev (of_char CHR ''%'')"] display_char_prints [of "of_char CHR ''%''" dev] by simp
next
  case (Dir_s str)
  then show thesis using that [of "display_str dev str"] assms display_str_prints [of str dev] by simp
next
  case (Dir_c i)
  then show thesis using that [of "display_char dev (ucast i)"] assms display_char_prints [of "ucast i" dev] by simp
next
  case (Dir_p p)
  have "prints dev (\<lambda>s. print_uint64_t_hex dev p 97 (display_str dev (chars ''0x'') s)) (chars ''0x'' @ hex_text 97 (unat p))"
    by (intro prints_compose display_str_prints) (simp_all add: chars_def print_uint64_t_hex_def HEX_prints)
  then show thesis using that [of "\<lambda>s. print_uint64_t_hex dev p 97 (display_str dev (chars ''0x'') s)"] Dir_p by simp
next
  case (Num wd k v)
  have k: "conv_char k \<in> {CHR ''d'', CHR ''u'', CHR ''x'', CHR ''X''}" by (cases k) simp_all
  show thesis
  proof (cases wd)
    case W_int
    show thesis
      by (rule that [of "HANDLE_FORMAT_SPECIFIER (print_uint dev) (print_int dev) (print_uint_hex dev) (ucast v) (conv_char k)"])
        (use Num W_int k print_number_prints(1) [of dev "ucast v" k] in auto)
  next
    case W_short
    show thesis
      by (rule that [of "HANDLE_FORMAT_SPECIFIER (print_ushort dev) (print_short dev) (print_ushort_hex dev) (ucast v) (conv_char k)"])
        (use Num W_short print_number_prints(2) [of dev "ucast v" k] in \<open>auto simp: ucast_short\<close>)
  next
    case W_long
    show thesis
      by (rule that [of "HANDLE_FORMAT_SPECIFIER (print_ulong dev) (print_long dev) (print_ulong_hex dev) v (conv_char k)"])
        (use Num W_long print_number_prints(3) [of dev v k] in auto)
  next
    case W_int64
    show thesis
      by (rule that [of "HANDLE_FORMAT_SPECIFIER (print_uint64_t dev) (print_int64_t dev) (print_uint64_t_hex dev) v (conv_char k)"])
        (use Num W_int64 print_number_prints(4) [of dev v k] in auto)
  qed
qed

lemma printk_loop_directives:
  assumes "\<forall>d\<in>set ds. literal_ok d" "0x0D \<notin> set (concat (map text_of ds))"
    "\<exists>Y. cursor_ok s Y" "unat (disp_x s) + length (concat (map text_of ds)) < 2 ^ 32"
  shows "\<exists>t. printk_loop dev (concat (map fmt_of ds)) (concat (map args_of ds)) s = Some t \<and>
    shows_text s t (concat (map text_of ds)) \<and> logs dev s t (concat (map text_of ds))"
  using assms
proof (induction ds arbitrary: s)
  case Nil
  then show ?case using prints_id [of dev, unfolded prints_def] by auto
next
  case (Cons d ds)
  have d: "literal_ok d" "0x0D \<notin> set (text_of d)" using Cons.prems by simp_all
  show ?case
  proof (rule printk_loop_directive [OF d, where dev = dev and 'a = 'b])
    fix f :: "('a, 'b) console_scheme \<Rightarrow> ('a, 'b) console_scheme"
    assume f: "prints dev f (text_of d)"
      "\<And>cs as s. printk_loop dev (fmt_of d @ cs) (args_of d @ as) s = printk_loop dev cs as (f s)"
    have F: "shows_text s (f s) (text_of d)" "logs dev s (f s) (text_of d)"
      using f(1) Cons.prems by (simp_all add: prints_def)
    then have "\<exists>Y. cursor_ok (f s) Y" "unat (disp_x (f s)) + length (concat (map text_of ds)) < 2 ^ 32"
      using Cons.prems(4) by (auto simp: shows_text_def)
    with Cons.IH [of "f s"] Cons.prems(1,2) obtain t where
      t: "printk_loop dev (concat (map fmt_of ds)) (concat (map args_of ds)) (f s) = Some t"
        "shows_text (f s) t (concat (map text_of ds))" "logs dev (f s) t (concat (map text_of ds))" by auto
    with f(2) F show ?thesis by (auto intro: shows_text_trans logs_trans)
  qed
qed

section \<open>Properties\<close>

text \<open>The value of a text of digits.\<close>

definition read_dec :: "u8 list \<Rightarrow> nat" where
  "read_dec = foldl (\<lambda>v c. 10 * v + (unat c - 48)) 0"

definition read_hex :: "u8 \<Rightarrow> u8 list \<Rightarrow> nat" where
  "read_hex bc = foldl (\<lambda>v c. 16 * v + (if unat c < 58 then unat c - 48 else unat c - unat bc + 10)) 0"

lemma read_dec_digits: "read_dec (digits 10 (\<lambda>k. of_nat k + 48) d) = d"
  unfolding read_dec_def by (rule digits_value) (simp_all add: unat_dec_digit)

lemma read_hex_digits:
  assumes "bc = 97 \<or> bc = 65"
  shows "read_hex bc (digits 16 (hex_digit bc) d) = d"
  unfolding read_hex_def
proof (rule digits_value [where val = "\<lambda>c. if unat c < 58 then unat c - 48 else unat c - unat bc + 10"])
  fix k :: nat assume k: "k < 16"
  have "57 < unat bc" using assms by auto
  then show "(if unat (hex_digit bc k) < 58 then unat (hex_digit bc k) - 48 else unat (hex_digit bc k) - unat bc + 10) = k"
    using unat_hex_digit [OF k assms] k by (auto split: if_splits)
qed simp




lemma snd_fold_term_put:
  "0x0A \<notin> set cs \<Longrightarrow> snd t + length cs \<le> 2000 \<Longrightarrow> snd (fold term_put cs t) = snd t + length cs"
  by (induction cs arbitrary: t) (auto simp: term_put_def term_scroll_def split: prod.split)

definition printk_example :: "u8 list console" where
  "printk_example = VGA_clear (console_example\<lparr>main_serial_dev := 0x5000\<rparr>)"


end
