(* ===== verification/Hw_Init.thy ===== *)
theory Hw_Init
  imports Printk
begin

text \<open>
  The start of the processor: \<^verbatim>\<open>src/src/arch/x86_64/hw_init.c\<close> builds the task state segment and the table of
  segment descriptors, loads both, and starts interrupts and the serial port.

  The structures are records of bit fields of their declared widths. \<open>gdt_bits\<close> is the layout of a \<open>struct GDTEntry\<close>
  in memory: 16 bytes, the bit fields from the least significant bit on. What the processor makes of these bits is
  specified apart from it, by the functions \<open>desc_base\<close> and so on, after the manual of the processor. The addresses of
  the static objects and of the stacks of \<^verbatim>\<open>stack.asm\<close> are the choice of the linker, a parameter.
\<close>

section \<open>State\<close>

definition GDT_LENGTH :: nat where "GDT_LENGTH = 3"
definition GDT_USER_CODE_TYPE_EXECUTE_ONLY :: u8 where "GDT_USER_CODE_TYPE_EXECUTE_ONLY = 0x8"
definition GDT_SYS_TYPE_TSS :: u8 where "GDT_SYS_TYPE_TSS = 0x9"

record TSS =
  tss_rsvd1 :: u32
  tss_rsp :: "addr list"
  tss_rsvd2 :: u64
  ist :: "addr list"
  tss_rsvd3 :: u64
  tss_rsvd4 :: u16
  io_map_base :: u16

record TSSDescriptor =
  base_32_63 :: u32
  td_rsvd2 :: u8
  td_zero :: "5 word"
  td_rsvd3 :: "3 word"
  td_rsvd4 :: u16

record GDTEntry =
  limit_0_15 :: u16
  base_0_15 :: u16
  base_16_23 :: u8
  g_type :: "4 word"
  user_segment :: "1 word"
  dpl :: "2 word"
  present :: "1 word"
  limit_16_19 :: "4 word"
  avl :: "1 word"
  l_bit :: "1 word"
  d_bit :: "1 word"
  g_bit :: "1 word"
  base_24_31 :: u8
  sys_tss :: TSSDescriptor

text \<open>What \<open>memset\<close> with 0 makes of the structures.\<close>

definition zero_TSS :: TSS where
  "zero_TSS = \<lparr>tss_rsvd1 = 0, tss_rsp = replicate 3 NULL, tss_rsvd2 = 0, ist = replicate 7 NULL, tss_rsvd3 = 0,
     tss_rsvd4 = 0, io_map_base = 0\<rparr>"

definition zero_GDTEntry :: GDTEntry where
  "zero_GDTEntry = \<lparr>limit_0_15 = 0, base_0_15 = 0, base_16_23 = 0, g_type = 0, user_segment = 0, dpl = 0, present = 0,
     limit_16_19 = 0, avl = 0, l_bit = 0, d_bit = 0, g_bit = 0, base_24_31 = 0,
     sys_tss = \<lparr>base_32_63 = 0, td_rsvd2 = 0, td_zero = 0, td_rsvd3 = 0, td_rsvd4 = 0\<rparr>\<rparr>"

definition sizeof_TSS :: nat where "sizeof_TSS = 104"
definition sizeof_GDTEntry :: nat where "sizeof_GDTEntry = 16"

record symbols =
  sym_tss :: addr
  sym_GDT :: addr
  stack_tops :: "addr list"

text \<open>\<open>gdtr\<close> and \<open>tr\<close> are the registers of the processor that \<open>lgdt\<close> and \<open>ltr\<close> load.\<close>

record 'd hw = "'d console" +
  tss :: TSS
  GDT :: "GDTEntry list"
  GDTR :: "u16 \<times> addr"
  gdtr :: "u16 \<times> addr"
  tr :: u16

section \<open>Operations\<close>

text \<open>The first argument is the index in \<open>GDT\<close> of the entry that \<open>gdt\<close> points to.\<close>

definition gdt_user_init :: "nat \<Rightarrow> u32 \<Rightarrow> u32 \<Rightarrow> u8 \<Rightarrow> ('d, 'a) hw_scheme \<Rightarrow> ('d, 'a) hw_scheme" where
  "gdt_user_init gdt base limit type s =
     s\<lparr>GDT := (GDT s)[gdt := zero_GDTEntry
        \<lparr>user_segment := 1, g_type := ucast type, present := 1, l_bit := 1,
         limit_0_15 := ucast limit, limit_16_19 := ucast (0xF AND drop_bit 16 limit),
         base_0_15 := ucast base, base_16_23 := ucast (drop_bit 16 base), base_24_31 := ucast (drop_bit 24 base)\<rparr>]\<rparr>"

definition gdt_sys_init :: "nat \<Rightarrow> u64 \<Rightarrow> u32 \<Rightarrow> u8 \<Rightarrow> ('d, 'a) hw_scheme \<Rightarrow> ('d, 'a) hw_scheme" where
  "gdt_sys_init gdt base limit type s =
     (let s = gdt_user_init gdt (ucast base) limit type s;
          s = s\<lparr>GDT := (GDT s)[gdt := (GDT s ! gdt)\<lparr>user_segment := 0\<rparr>]\<rparr>
      in s\<lparr>GDT := (GDT s)[2 := (GDT s ! 2)
             \<lparr>sys_tss := (sys_tss (GDT s ! 2))\<lparr>base_32_63 := ucast (drop_bit 32 base)\<rparr>\<rparr>]\<rparr>)"

definition init_gdt :: "symbols \<Rightarrow> ('d, 'a) hw_scheme \<Rightarrow> ('d, 'a) hw_scheme" where
  "init_gdt syms s =
     (let s = s\<lparr>GDTR := (of_nat (sizeof_GDTEntry * GDT_LENGTH) - 1, sym_GDT syms)\<rparr>;
          s = s\<lparr>GDT := replicate GDT_LENGTH zero_GDTEntry\<rparr>;
          s = s\<lparr>tss := zero_TSS\<rparr>;
          s = s\<lparr>tss := (tss s)\<lparr>ist := (ist (tss s))[0 := stack_tops syms ! 0, 1 := stack_tops syms ! 1,
                  2 := stack_tops syms ! 2, 3 := stack_tops syms ! 3]\<rparr>\<rparr>;
          s = gdt_user_init 1 0 0 GDT_USER_CODE_TYPE_EXECUTE_ONLY s;
          s = gdt_sys_init 2 (sym_tss syms) (of_nat sizeof_TSS) GDT_SYS_TYPE_TSS s;
          s = s\<lparr>gdtr := GDTR s\<rparr>
      in s\<lparr>tr := of_nat (2 * sizeof_GDTEntry)\<rparr>)"

definition HW_init ::
  "'d device \<Rightarrow> (('d, 'a) hw_scheme \<Rightarrow> ('d, 'a) hw_scheme) \<Rightarrow> symbols \<Rightarrow> ('d, 'a) hw_scheme \<Rightarrow> ('d, 'a) hw_scheme option" where
  "HW_init dev IDT_init syms s =
     Option.bind (IRQ_x86_64_init dev IDT_init (init_gdt syms s)) (\<lambda>s.
       Option.bind (init_x86_serial dev s) (\<lambda>(sd, s). Some (s\<lparr>main_serial_dev := sd\<rparr>)))"

section \<open>Descriptors as the processor reads them\<close>

definition gdt_bits :: "GDTEntry \<Rightarrow> 128 word" where
  "gdt_bits e = ucast (limit_0_15 e) OR push_bit 16 (ucast (base_0_15 e)) OR push_bit 32 (ucast (base_16_23 e)) OR
     push_bit 40 (ucast (g_type e)) OR push_bit 44 (ucast (user_segment e)) OR push_bit 45 (ucast (dpl e)) OR
     push_bit 47 (ucast (present e)) OR push_bit 48 (ucast (limit_16_19 e)) OR push_bit 52 (ucast (avl e)) OR
     push_bit 53 (ucast (l_bit e)) OR push_bit 54 (ucast (d_bit e)) OR push_bit 55 (ucast (g_bit e)) OR
     push_bit 56 (ucast (base_24_31 e)) OR push_bit 64 (ucast (base_32_63 (sys_tss e))) OR
     push_bit 96 (ucast (td_rsvd2 (sys_tss e))) OR push_bit 104 (ucast (td_zero (sys_tss e))) OR
     push_bit 109 (ucast (td_rsvd3 (sys_tss e))) OR push_bit 112 (ucast (td_rsvd4 (sys_tss e)))"

text \<open>The eight-byte word at a multiple of eight in the table, and the sixteen bytes of a system descriptor.\<close>

definition gdt_word :: "GDTEntry list \<Rightarrow> nat \<Rightarrow> u64" where
  "gdt_word g k = (if even k then ucast (gdt_bits (g ! (k div 2))) else ucast (drop_bit 64 (gdt_bits (g ! (k div 2)))))"

definition selected :: "GDTEntry list \<Rightarrow> u16 \<Rightarrow> 128 word" where
  "selected g sel = (let k = unat (drop_bit 3 sel) in ucast (gdt_word g k) OR push_bit 64 (ucast (gdt_word g (k + 1))))"

text \<open>The fields of a descriptor. The base of a code or data segment has 32 bits, the base of a system segment 64.\<close>

definition desc_base :: "128 word \<Rightarrow> u64" where
  "desc_base d = ucast (take_bit 24 (drop_bit 16 d)) OR push_bit 24 (ucast (take_bit 40 (drop_bit 56 d)))"

definition desc_limit :: "128 word \<Rightarrow> u32" where
  "desc_limit d = ucast (take_bit 16 d) OR push_bit 16 (ucast (take_bit 4 (drop_bit 48 d)))"

definition desc_type :: "128 word \<Rightarrow> u8" where
  "desc_type d = ucast (take_bit 5 (drop_bit 40 d))"

definition desc_dpl :: "128 word \<Rightarrow> u8" where
  "desc_dpl d = ucast (take_bit 2 (drop_bit 45 d))"

definition desc_present :: "128 word \<Rightarrow> bool" where "desc_present d = bit d 47"
definition desc_long :: "128 word \<Rightarrow> bool" where "desc_long d = bit d 53"
definition desc_granular :: "128 word \<Rightarrow> bool" where "desc_granular d = bit d 55"


lemma field_bit:
  "bit (push_bit k (ucast (w :: 'a::len word)) :: 128 word) n \<longleftrightarrow> k \<le> n \<and> n < k + LENGTH('a) \<and> n < 128 \<and> bit w (n - k)"
  by (auto simp: bit_simps dest: bit_imp_le_length)

lemma field_bit_0: "bit (ucast (w :: 'a::len word) :: 128 word) n \<longleftrightarrow> n < LENGTH('a) \<and> n < 128 \<and> bit w n"
  using field_bit [of 0 w n] by simp

lemma gdt_bits_bit:
  "bit (gdt_bits e) n \<longleftrightarrow>
     (if n < 16 then bit (limit_0_15 e) n else if n < 32 then bit (base_0_15 e) (n - 16)
      else if n < 40 then bit (base_16_23 e) (n - 32) else if n < 44 then bit (g_type e) (n - 40)
      else if n < 45 then bit (user_segment e) (n - 44) else if n < 47 then bit (dpl e) (n - 45)
      else if n < 48 then bit (present e) (n - 47) else if n < 52 then bit (limit_16_19 e) (n - 48)
      else if n < 53 then bit (avl e) (n - 52) else if n < 54 then bit (l_bit e) (n - 53)
      else if n < 55 then bit (d_bit e) (n - 54) else if n < 56 then bit (g_bit e) (n - 55)
      else if n < 64 then bit (base_24_31 e) (n - 56) else if n < 96 then bit (base_32_63 (sys_tss e)) (n - 64)
      else if n < 104 then bit (td_rsvd2 (sys_tss e)) (n - 96) else if n < 109 then bit (td_zero (sys_tss e)) (n - 104)
      else if n < 112 then bit (td_rsvd3 (sys_tss e)) (n - 109) else n < 128 \<and> bit (td_rsvd4 (sys_tss e)) (n - 112))"
  unfolding gdt_bits_def bit_or_iff field_bit field_bit_0 by simp

lemma selected_even:
  assumes "unat (drop_bit 3 sel) = 2 * i"
  shows "selected g sel = gdt_bits (g ! i)"
proof (rule bit_word_eqI)
  fix n assume "n < LENGTH(128)"
  then show "bit (selected g sel) n = bit (gdt_bits (g ! i)) n"
    by (auto simp: selected_def gdt_word_def assms bit_simps)
qed

text \<open>The fields of an entry that \<open>gdt_sys_init\<close> wrote, for any base and any limit of 20 bits.\<close>

definition seg_entry :: "u64 \<Rightarrow> u32 \<Rightarrow> u8 \<Rightarrow> 1 word \<Rightarrow> GDTEntry" where
  "seg_entry base limit type u = zero_GDTEntry
     \<lparr>user_segment := u, g_type := ucast type, present := 1, l_bit := 1, limit_0_15 := ucast limit,
      limit_16_19 := ucast (0xF AND drop_bit 16 limit), base_0_15 := ucast base, base_16_23 := ucast (drop_bit 16 base),
      base_24_31 := ucast (drop_bit 24 base),
      sys_tss := \<lparr>base_32_63 = ucast (drop_bit 32 base), td_rsvd2 = 0, td_zero = 0, td_rsvd3 = 0, td_rsvd4 = 0\<rparr>\<rparr>"

lemma seg_entry_base: "desc_base (gdt_bits (seg_entry base limit type u)) = base"
proof (rule bit_word_eqI)
  fix n assume "n < LENGTH(64)"
  then have "n < 64" by simp
  then show "bit (desc_base (gdt_bits (seg_entry base limit type u))) n = bit base n"
    by (auto simp: desc_base_def bit_simps gdt_bits_bit seg_entry_def zero_GDTEntry_def)
qed

lemma low_nibble: "(0xF AND w :: u32) = take_bit 4 w"
  by (simp add: take_bit_eq_mask and.commute mask_eq_exp_minus_1)

lemma seg_entry_limit: "desc_limit (gdt_bits (seg_entry base limit type u)) = take_bit 20 limit"
proof (rule bit_word_eqI)
  fix n assume "n < LENGTH(32)"
  then have "n < 32" by simp
  then show "bit (desc_limit (gdt_bits (seg_entry base limit type u))) n = bit (take_bit 20 limit) n"
    by (auto simp: desc_limit_def bit_simps gdt_bits_bit seg_entry_def zero_GDTEntry_def low_nibble)
qed

lemma seg_entry_type:
  "desc_type (gdt_bits (seg_entry base limit type u)) = take_bit 4 type OR push_bit 4 (ucast u)"
proof (rule bit_word_eqI)
  fix n assume "n < LENGTH(8)"
  then have "n < 8" by simp
  then show "bit (desc_type (gdt_bits (seg_entry base limit type u))) n = bit (take_bit 4 type OR push_bit 4 (ucast u)) n"
    by (auto simp: desc_type_def bit_simps gdt_bits_bit seg_entry_def zero_GDTEntry_def dest: bit_imp_le_length)
qed

lemma seg_entry_flags:
  "desc_dpl (gdt_bits (seg_entry base limit type u)) = 0" "desc_present (gdt_bits (seg_entry base limit type u))"
  "desc_long (gdt_bits (seg_entry base limit type u))" "\<not> desc_granular (gdt_bits (seg_entry base limit type u))"
proof -
  show "desc_dpl (gdt_bits (seg_entry base limit type u)) = 0"
    by (rule bit_word_eqI) (auto simp: desc_dpl_def bit_simps gdt_bits_bit seg_entry_def zero_GDTEntry_def)
qed (simp_all add: desc_present_def desc_long_def desc_granular_def gdt_bits_bit seg_entry_def zero_GDTEntry_def)

lemmas seg_entry_desc = seg_entry_base seg_entry_limit seg_entry_type seg_entry_flags

text \<open>The entries that the two functions write.\<close>

lemma gdt_user_init_entry:
  assumes "gdt < length (GDT s)"
  shows "gdt_user_init gdt base limit type s = s\<lparr>GDT := (GDT s)[gdt := seg_entry (ucast base) limit type 1]\<rparr>"
proof -
  have [simp]: "drop_bit 32 (ucast base :: u64) = 0" by (rule bit_word_eqI) (auto simp: bit_simps dest: bit_imp_le_length)
  have "ucast (drop_bit k (ucast base :: u64)) = (ucast (drop_bit k base) :: u8)" for k
    by (rule bit_word_eqI) (auto simp: bit_simps dest: bit_imp_le_length)
  moreover have "ucast (ucast base :: u64) = (ucast base :: u16)" by (rule bit_word_eqI) (auto simp: bit_simps dest: bit_imp_le_length)
  ultimately show ?thesis by (simp add: gdt_user_init_def seg_entry_def zero_GDTEntry_def)
qed

lemma gdt_sys_init_entry:
  assumes "2 < length (GDT s)"
  shows "gdt_sys_init 2 base limit type s = s\<lparr>GDT := (GDT s)[2 := seg_entry base limit type 0]\<rparr>"
proof -
  have "ucast (drop_bit k (ucast base :: u32)) = (ucast (drop_bit k base) :: u8)" if "k \<le> 24" for k
    using that by (intro bit_word_eqI) (auto simp: bit_simps)
  moreover have "ucast (ucast base :: u32) = (ucast base :: u16)" by (rule bit_word_eqI) (auto simp: bit_simps)
  ultimately show ?thesis
    using assms by (simp add: gdt_sys_init_def gdt_user_init_def seg_entry_def zero_GDTEntry_def Let_def)
qed

section \<open>What HW_init establishes\<close>

text \<open>Programming the interrupt controllers and the serial port changes only the hardware and the log.\<close>

lemma port_frame [simp]:
  "kbase.more (outb dev p v s) = kbase.more s" "handlers (outb dev p v s) = handlers s"
  "irq_semaphore (outb dev p v s) = irq_semaphore s" "int_flag (outb dev p v s) = int_flag s"
  "kbase.more (snd (inb dev p s)) = kbase.more s" "handlers (snd (inb dev p s)) = handlers s"
  "irq_semaphore (snd (inb dev p s)) = irq_semaphore s" "int_flag (snd (inb dev p s)) = int_flag s"
  by (simp_all add: outb_def inb_def case_prod_beta)

lemma IRQ_mask_frame [simp]:
  "kbase.more (IRQ_set_mask dev i s) = kbase.more s" "handlers (IRQ_set_mask dev i s) = handlers s"
  "kbase.more (IRQ_clear_mask dev i s) = kbase.more s" "handlers (IRQ_clear_mask dev i s) = handlers s"
  "irq_semaphore (IRQ_clear_mask dev i s) = irq_semaphore s" "int_flag (IRQ_clear_mask dev i s) = int_flag s"
  by (simp_all add: IRQ_set_mask_def IRQ_clear_mask_def Let_def case_prod_beta)

lemma mask_lines_frame [simp]:
  "kbase.more (mask_lines dev is s) = kbase.more s \<and> handlers (mask_lines dev is s) = handlers s"
  by (induction "is" arbitrary: s) simp_all

lemma PIC_init_frame [simp]: "kbase.more (PIC_init dev s) = kbase.more s" "handlers (PIC_init dev s) = handlers s"
  by (simp_all add: PIC_init_def Let_def case_prod_beta)

text \<open>What the generated \<open>IDT_init\<close> does to the state modelled here: nothing but to the hardware.\<close>

definition idt_only :: "(('d, 'a) kbase_scheme \<Rightarrow> ('d, 'a) kbase_scheme) \<Rightarrow> bool" where
  "idt_only IDT_init \<longleftrightarrow> (\<forall>s. kbase.more (IDT_init s) = kbase.more s \<and> handlers (IDT_init s) = handlers s)"

lemma IRQ_x86_64_init_spec:
  assumes "idt_only IDT_init"
  shows "\<exists>t. IRQ_x86_64_init dev IDT_init s = Some t \<and> kbase.more t = kbase.more s \<and> irq_semaphore t = 0 \<and> int_flag t \<and>
    handlers t = (replicate 256 \<lparr>handler = None, arg = NULL\<rparr>)[123 := \<lparr>handler = Some IRQ_syscall_handler, arg = NULL\<rparr>]"
  using assms by (simp add: IRQ_x86_64_init_def IRQ_set_handler_def SYSCALL_TRAP_NUMBER_def idt_only_def Let_def)

lemma hw_more:
  fixes s t :: "('d, 'a) hw_scheme"
  assumes "kbase.more t = kbase.more s"
  shows "GDT t = GDT s" "tss t = tss s" "gdtr t = gdtr s" "tr t = tr s" "gdev_addr t = gdev_addr s" "GDTR t = GDTR s"
    "main_serial_dev t = main_serial_dev s" "disp_x t = disp_x s" "disp_y t = disp_y s" "vram t = vram s"
    "out_producer_pos t = out_producer_pos s" "out_consumer_pos t = out_consumer_pos s" "output_buff t = output_buff s"
  using assms by (cases s; cases t; simp)+

lemma init_x86_serial_spec:
  assumes "36 < length (handlers s)"
  shows "\<exists>t. init_x86_serial dev s = Some (gdev_addr s, t) \<and> kbase.more t = kbase.more s \<and>
    irq_semaphore t = irq_semaphore s \<and> int_flag t = int_flag s \<and>
    handlers t = (handlers s)[36 := \<lparr>handler = Some X86_serial_isr, arg = gdev_addr s\<rparr>]"
proof -
  have g: "gdev_addr (outb dev p v s) = gdev_addr s" "gdev_addr (IRQ_clear_mask dev i s) = gdev_addr s" for p v i and s :: "('a, 'b) serial_scheme"
    by (simp_all add: outb_def inb_def IRQ_clear_mask_def klog_def Let_def case_prod_beta)
  show ?thesis
    using assms by (simp add: init_x86_serial_def IRQ_set_handler_def COM1_COM3_IRQ_def Let_def g)
qed

lemma init_gdt_spec:
  assumes "length (stack_tops syms) = 4"
  shows "let t = init_gdt syms s in gdtr t = (47, sym_GDT syms) \<and> tr t = 0x20 \<and> ist (tss t) = stack_tops syms @ [0, 0, 0] \<and>
    GDT t = [zero_GDTEntry, seg_entry 0 0 8 1, seg_entry (sym_tss syms) 104 9 0] \<and> gdev_addr t = gdev_addr s"
proof -
  obtain a b c d where "stack_tops syms = [a, b, c, d]"
    using assms by (auto simp: length_Suc_conv numeral_eq_Suc)
  then show ?thesis
    by (simp add: init_gdt_def gdt_user_init_entry gdt_sys_init_entry [unfolded numeral_2_eq_2] Let_def GDT_LENGTH_def sizeof_GDTEntry_def sizeof_TSS_def
        zero_TSS_def GDT_USER_CODE_TYPE_EXECUTE_ONLY_def GDT_SYS_TYPE_TSS_def numeral_eq_Suc)
qed

lemma HW_init_state:
  assumes "length (stack_tops syms) = 4" "idt_only IDT_init"
  shows "\<exists>t. HW_init dev IDT_init syms s = Some t \<and> gdtr t = (47, sym_GDT syms) \<and> tr t = 0x20 \<and>
    ist (tss t) = stack_tops syms @ [0, 0, 0] \<and> GDT t = [zero_GDTEntry, seg_entry 0 0 8 1, seg_entry (sym_tss syms) 104 9 0] \<and>
    int_flag t \<and> irq_semaphore t = 0 \<and> main_serial_dev t = gdev_addr s \<and>
    handlers t = (replicate 256 \<lparr>handler = None, arg = NULL\<rparr>)
      [123 := \<lparr>handler = Some IRQ_syscall_handler, arg = NULL\<rparr>, 36 := \<lparr>handler = Some X86_serial_isr, arg = gdev_addr s\<rparr>]"
proof -
  let ?u = "init_gdt syms s"
  note g = init_gdt_spec [OF assms(1), of s, unfolded Let_def]
  obtain v where v: "IRQ_x86_64_init dev IDT_init ?u = Some v" "kbase.more v = kbase.more ?u" "irq_semaphore v = 0" "int_flag v"
    "handlers v = (replicate 256 \<lparr>handler = None, arg = NULL\<rparr>)[123 := \<lparr>handler = Some IRQ_syscall_handler, arg = NULL\<rparr>]"
    using IRQ_x86_64_init_spec [OF assms(2)] by blast
  obtain w where w: "init_x86_serial dev v = Some (gdev_addr v, w)" "kbase.more w = kbase.more v" "irq_semaphore w = 0" "int_flag w"
    "handlers w = (handlers v)[36 := \<lparr>handler = Some X86_serial_isr, arg = gdev_addr v\<rparr>]"
    using init_x86_serial_spec [of v dev] v(3-5) by auto
  have "HW_init dev IDT_init syms s = Some (w\<lparr>main_serial_dev := gdev_addr v\<rparr>)" by (simp add: HW_init_def v(1) w(1))
  moreover have "GDT w = GDT ?u" "gdtr w = gdtr ?u" "tr w = tr ?u" "tss w = tss ?u" "gdev_addr v = gdev_addr ?u"
    using hw_more [OF w(2)] hw_more [OF v(2)] by simp_all
  ultimately show ?thesis using g w(3,4) by (simp add: w(5) v(5))
qed

text \<open>C18: \<open>HW_init\<close> always succeeds, and leaves the processor with a table of descriptors of 48 bytes in which the
  processor finds, under the selector \<open>0x10\<close> that the interrupt gates use, a present 64-bit code segment of privilege 0, and under
  the loaded task register a present, available 64-bit task state segment whose base is the address of \<open>tss\<close>, all 64 bits
  of it, and whose limit is the size of \<open>tss\<close>; the first four interrupt stacks are those of \<^verbatim>\<open>stack.asm\<close>. Interrupts are
  on, the system call and serial port handlers are installed, and the log goes to the serial port.\<close>

theorem HW_init_correct:
  assumes "length (stack_tops syms) = 4" "idt_only IDT_init"
  shows "\<exists>t. HW_init dev IDT_init syms s = Some t \<and> gdtr t = (47, sym_GDT syms) \<and>
    (let code = selected (GDT t) 0x10 in desc_present code \<and> desc_long code \<and> desc_dpl code = 0 \<and> desc_type code = 0x18) \<and>
    (let seg = selected (GDT t) (tr t) in desc_present seg \<and> desc_type seg = 9 \<and> desc_base seg = sym_tss syms \<and>
       desc_limit seg = of_nat sizeof_TSS \<and> \<not> desc_granular seg) \<and>
    unat (tr t) + 15 \<le> unat (fst (gdtr t)) \<and> take 4 (ist (tss t)) = stack_tops syms \<and>
    int_flag t \<and> irq_semaphore t = 0 \<and> handler (handlers t ! SYSCALL_TRAP_NUMBER) = Some IRQ_syscall_handler \<and>
    handler (handlers t ! nat COM1_COM3_IRQ) = Some X86_serial_isr \<and> main_serial_dev t = gdev_addr s"
  using HW_init_state [OF assms, of dev s] assms(1)
  by (auto simp: Let_def selected_even [where i = 1] selected_even [where i = 2] seg_entry_desc SYSCALL_TRAP_NUMBER_def
      COM1_COM3_IRQ_def sizeof_TSS_def)

definition symbols_example :: symbols where
  "symbols_example = \<lparr>sym_tss = 0xFFFF800012345678, sym_GDT = 0x109000, stack_tops = [0x10A000, 0x10B000, 0x10C000, 0x10D000]\<rparr>"

definition hw_example :: "u8 list hw" where
  "hw_example = console.extend console_example (hw.fields zero_TSS [] (0, 0) (0, 0) 0)"

theorem HW_init_correct_witness:
  "\<exists>t. HW_init uart_example (\<lambda>s. s) symbols_example hw_example = Some t \<and>
    desc_base (selected (GDT t) (tr t)) = 0xFFFF800012345678 \<and> take 4 (ist (tss t)) = [0x10A000, 0x10B000, 0x10C000, 0x10D000] \<and>
    main_serial_dev t = 0x5000"
proof -
  have "length (stack_tops symbols_example) = 4" "idt_only (\<lambda>s :: u8 list hw. s)"
    "gdev_addr hw_example = 0x5000" "sym_tss symbols_example = 0xFFFF800012345678"
    by (simp_all add: symbols_example_def idt_only_def hw_example_def console.defs hw.defs console_example_def)
  with HW_init_correct [of symbols_example "\<lambda>s :: u8 list hw. s" uart_example hw_example] show ?thesis
    by (auto simp: Let_def symbols_example_def)
qed

end
