(* ===== verification/Kernel_State.thy ===== *)
theory Kernel_State
  imports Ata Hw_Init
begin

text \<open>
  The whole kernel. Processes, files and drivers share one chain of records; the screen, the serial port and the descriptor
  tables form another, since nothing below \<open>printk\<close> knows of processes. \<open>kernel\<close> joins the two: it extends the first chain by a
  component of the second, and \<open>on_con\<close> runs an operation of the second chain on that component, with the interrupt state, the
  handlers, the log and the hardware of the kernel, which the two share.
\<close>

record 'd kernel = "'d ata" +
  con :: "unit hw_ext console_ext serial_ext"

text \<open>\<open>con\<close> holds what a record \<open>hw\<close> has beyond the record \<open>kbase\<close>.\<close>

definition to_con :: "('d, 'a) kernel_scheme \<Rightarrow> 'd hw" where
  "to_con s = kbase.extend (kbase.truncate s) (con s)"

definition of_con :: "'d hw \<Rightarrow> ('d, 'a) kernel_scheme \<Rightarrow> ('d, 'a) kernel_scheme" where
  "of_con c s = s\<lparr>irq_semaphore := irq_semaphore c, int_flag := int_flag c, handlers := handlers c, klogs := klogs c,
     devst := devst c, con := kbase.more c\<rparr>"

definition on_con :: "('d hw \<Rightarrow> 'd hw option) \<Rightarrow> ('d, 'a) kernel_scheme \<Rightarrow> ('d, 'a) kernel_scheme option" where
  "on_con f s = map_option (\<lambda>c. of_con c s) (f (to_con s))"

lemma to_con_of_con [simp]: "to_con (of_con c s) = c"
  by (cases c) (simp add: to_con_def of_con_def kbase.defs)

lemma of_con_of_con [simp]: "of_con c (of_con d s) = of_con c s"
  by (simp add: of_con_def kbase.defs)

text \<open>Operations on the console compose inside of the component.\<close>

lemma on_con_bind: "Option.bind (on_con f s) (on_con g) = on_con (\<lambda>c. Option.bind (f c) g) s"
  by (cases "f (to_con s)") (simp_all add: on_con_def map_option_case)

lemma of_con_frame [simp]:
  "lists (of_con c s) = lists s" "bytes (of_con c s) = bytes s" "bdev_of (of_con c s) = bdev_of s" "part_of (of_con c s) = part_of s"
  "klogs (of_con c s) = klogs c" "devst (of_con c s) = devst c"
  "f_blocks (of_con c s) = f_blocks s" "ready_queue (of_con c s) = ready_queue s"
  by (simp_all add: of_con_def)

section \<open>Printing\<close>

text \<open>The bytes of the string at an address; \<open>None\<close> when it never ends.\<close>

definition string_at :: "bmem \<Rightarrow> addr \<Rightarrow> u8 list option" where
  "string_at m a = map_option (\<lambda>n. map (\<lambda>i. m (a + of_nat i)) [0..<unat n]) (strlen m a)"

definition kprintk :: "'d device \<Rightarrow> string \<Rightarrow> va list \<Rightarrow> ('d, 'a) kernel_scheme \<Rightarrow> ('d, 'a) kernel_scheme option" where
  "kprintk dev fmt args = on_con (\<lambda>c. map_option snd (printk dev fmt args c))"

lemma string_at_cstr:
  assumes "cstr m a bs" "length bs < 2 ^ 64"
  shows "string_at m a = Some bs"
proof -
  have "map (\<lambda>i. m (a + of_nat i)) [0..<length bs] = bs" using assms(1)
  proof (induction bs arbitrary: a)
    case (Cons b bs)
    have "map (\<lambda>i. m (a + of_nat i)) [0..<length (b # bs)] = m a # map (\<lambda>i. m (a + 1 + of_nat i)) [0..<length bs]"
      by (simp add: upt_conv_Cons map_Suc_upt [symmetric] del: upt_Suc) (simp add: algebra_simps)
    then show ?case using Cons by simp
  qed simp
  then show ?thesis using assms by (simp add: string_at_def strlen_cstr unat_of_nat take_bit_nat_eq_self)
qed

section \<open>An example\<close>

definition kernel_example :: "drive kernel" where
  "kernel_example = ata.extend ata_example (kernel.fields (kbase.more hw_example))"

lemmas example_defs = kernel_example_def ata.extend_def kernel.fields_def ata_example_def pci.extend_def ata.fields_def pci_example_def
  ps2.extend_def pci.fields_def kbase.extend_def ps2_example_def files.extend_def ps2.fields_def fs_example_def psys.extend_def
  files.fields_def sched_example_def kheap.extend_def psys.fields_def heap_example_def mm.extend_def kheap.fields_def vm_example_def
  mm_example_def

lemma kernel_example_heap: "kinv kernel_example (\<lambda>_. []) {}" "cursor_at kernel_example 0"
proof -
  have "kinv kernel_example (\<lambda>_. []) {} = kinv fs_example (\<lambda>_. []) {}"
    by (rule kinv_cong) (simp_all add: example_defs)
  then show "kinv kernel_example (\<lambda>_. []) {}" using fs_example_kinv by simp
  have "next_kernel_heap_vaddr kernel_example = next_kernel_heap_vaddr fs_example" by (simp add: example_defs)
  then show "cursor_at kernel_example 0" using fs_example_cursor by (simp add: cursor_at_def)
qed

end
