(* ===== verification/Fat.thy ===== *)
theory Fat
  imports Kernel_State "HOL-Library.Signed_Division"
begin

text \<open>
  The FAT32 file system of \<^verbatim>\<open>src/src/fs/fat.c\<close>: the boot sector is checked and decoded, and the allocation table is loaded into the
  heap. The functions that follow a chain of clusters and read a directory exist but are not called yet.

  The members of type \<open>int\<close> are words of 32 bits, compared and divided as signed numbers; products wrap around, as they do on
  the processor. The structure \<open>fat\<close> of the boot sector is a local variable: its address is an argument, and its members are
  read from the bytes there. \<open>rd\<close> is the \<open>read_block\<close> of the physical device.
\<close>

section \<open>State\<close>

record FAT =
  fat_part :: addr
  sects_per_clust :: u32
  rsvd_sects :: u32
  root_clust :: u32
  num_fats :: u32
  tot_sects :: u32
  sects_per_fat :: u32
  sect_size :: u32
  num_fat_entires :: u32
  fat_table :: addr
  clust_buff :: addr

record FATDir =
  dir_fat :: addr
  start_clust :: u32

definition sizeof_FAT :: u64 where "sizeof_FAT = 56"
definition sizeof_FATDir :: u64 where "sizeof_FATDir = 16"

record 'd fatfs = "'d kernel" +
  fat_of :: "addr \<Rightarrow> FAT"
  dir_of :: "addr \<Rightarrow> FATDir"

text \<open>The members of a packed \<open>struct FAT32\<close> at an address; the first ones are those of its \<open>bpb\<close>.\<close>

definition bpb_sectors_per_cluster :: "bmem \<Rightarrow> addr \<Rightarrow> u8" where
  "bpb_sectors_per_cluster m fat = m (fat + 13)"

definition bpb_reserved_sectors :: "bmem \<Rightarrow> addr \<Rightarrow> u16" where
  "bpb_reserved_sectors m fat = load16 (fat + 14) m"

definition bpb_num_fats :: "bmem \<Rightarrow> addr \<Rightarrow> u8" where
  "bpb_num_fats m fat = m (fat + 16)"

definition bpb_tot_sectors :: "bmem \<Rightarrow> addr \<Rightarrow> u16" where
  "bpb_tot_sectors m fat = load16 (fat + 19) m"

definition bpb_sectors_per_fat :: "bmem \<Rightarrow> addr \<Rightarrow> u16" where
  "bpb_sectors_per_fat m fat = load16 (fat + 22) m"

definition bpb_large_sector_count :: "bmem \<Rightarrow> addr \<Rightarrow> u32" where
  "bpb_large_sector_count m fat = load32 (fat + 32) m"

definition fat32_sectors_per_fat :: "bmem \<Rightarrow> addr \<Rightarrow> u32" where
  "fat32_sectors_per_fat m fat = load32 (fat + 36) m"

definition fat32_root_cluster_number :: "bmem \<Rightarrow> addr \<Rightarrow> u32" where
  "fat32_root_cluster_number m fat = load32 (fat + 44) m"

definition fat32_signature :: "bmem \<Rightarrow> addr \<Rightarrow> u8" where
  "fat32_signature m fat = m (fat + 66)"

text \<open>Signed division of an \<open>int\<close> by 4.\<close>

definition int_div4 :: "u32 \<Rightarrow> u32" where
  "int_div4 x = word_of_int (sint x sdiv 4)"

section \<open>Clusters\<close>

fun next_cluster_loop :: "bmem \<Rightarrow> addr \<Rightarrow> u32 \<Rightarrow> nat list \<Rightarrow> u32" where
  "next_cluster_loop m table clust [] = 0"
| "next_cluster_loop m table clust (i # is) =
     (if load32 (table + 4 * of_nat i) m = clust then load32 (table + 4 * of_nat (i + 1)) m
      else next_cluster_loop m table clust is)"

definition fat32_next_cluster :: "addr \<Rightarrow> u32 \<Rightarrow> ('d, 'a) fatfs_scheme \<Rightarrow> u32" where
  "fat32_next_cluster fat clust s =
     next_cluster_loop (bytes s) (fat_table (fat_of s fat)) clust [0..<nat (sint (num_fat_entires (fat_of s fat)))]"

type_synonym ('d, 'a) reader =
  "addr \<Rightarrow> u64 \<Rightarrow> addr \<Rightarrow> ('d, 'a) fatfs_scheme \<Rightarrow> (int \<times> ('d, 'a) fatfs_scheme) option"

fun read_clust_loop :: "('d, 'a) reader \<Rightarrow> addr \<Rightarrow> int list \<Rightarrow> ('d, 'a) fatfs_scheme \<Rightarrow> ('d, 'a) fatfs_scheme option" where
  "read_clust_loop rd fat [] s = Some s"
| "read_clust_loop rd fat (i # is) s = do {
     (_, s) \<leftarrow> read_block rd (fat_part (fat_of s fat)) (word_of_int i)
                (clust_buff (fat_of s fat) + scast (word_of_int i * sect_size (fat_of s fat))) s;
     read_clust_loop rd fat is s }"

definition fat32_start_sect :: "FAT \<Rightarrow> u32 \<Rightarrow> u32" where
  "fat32_start_sect f clust = rsvd_sects f + num_fats f * sects_per_fat f + (clust - 2) * sects_per_clust f"

definition fat32_read_clust :: "('d, 'a) reader \<Rightarrow> addr \<Rightarrow> u32 \<Rightarrow> ('d, 'a) fatfs_scheme \<Rightarrow> (int \<times> ('d, 'a) fatfs_scheme) option" where
  "fat32_read_clust rd fat clust s =
     map_option (Pair 0)
       (read_clust_loop rd fat [sint (fat32_start_sect (fat_of s fat) clust)..sint (sects_per_clust (fat_of s fat)) - 1] s)"

definition fat32_parse_dir ::
  "'d device \<Rightarrow> ('d, 'a) reader \<Rightarrow> addr \<Rightarrow> addr \<Rightarrow> u32 \<Rightarrow> ('d, 'a) fatfs_scheme \<Rightarrow> (int \<times> ('d, 'a) fatfs_scheme) option" where
  "fat32_parse_dir dev rd fat new dir_clust s =
     (let (dir, s) = kmalloc sizeof_FATDir s
      in if dir = NULL then Some (- 1, s)
         else do {
           let s = s\<lparr>dir_of := (dir_of s)(dir := (dir_of s dir)\<lparr>start_clust := dir_clust\<rparr>)\<rparr>;
           (_, s) \<leftarrow> fat32_read_clust rd fat dir_clust s;
           let buff = clust_buff (fat_of s fat);
           let s = s\<lparr>bytes := (bytes s)(buff + 1 + 8 := 0)\<rparr>;
           str \<leftarrow> string_at (bytes s) (buff + 1);
           s \<leftarrow> kprintk dev ''%s'' [Str_arg str] s;
           Some (0, s) })"

section \<open>Registration\<close>

fun load_table_loop :: "('d, 'a) reader \<Rightarrow> addr \<Rightarrow> addr \<Rightarrow> nat list \<Rightarrow> ('d, 'a) fatfs_scheme \<Rightarrow> ('d, 'a) fatfs_scheme option" where
  "load_table_loop rd part tbl [] s = Some s"
| "load_table_loop rd part tbl (i # is) s = do {
     (_, s) \<leftarrow> read_block rd part (scast (of_nat i + (1 + rsvd_sects (fat_of s tbl))))
                (fat_table (fat_of s tbl) + 4 * scast (of_nat i * int_div4 (sect_size (fat_of s tbl)))) s;
     load_table_loop rd part tbl is s }"

text \<open>The members of \<open>tbl\<close> that the boot sector and the device give.\<close>

definition fill_FAT :: "bmem \<Rightarrow> addr \<Rightarrow> u64 \<Rightarrow> FAT \<Rightarrow> FAT" where
  "fill_FAT m fat blk f =
     (let f = f\<lparr>rsvd_sects := ucast (bpb_reserved_sectors m fat), num_fats := ucast (bpb_num_fats m fat),
                sects_per_clust := ucast (bpb_sectors_per_cluster m fat),
                tot_sects := (if bpb_tot_sectors m fat \<noteq> 0 then ucast (bpb_tot_sectors m fat) else bpb_large_sector_count m fat),
                sects_per_fat := (if bpb_sectors_per_fat m fat \<noteq> 0 then ucast (bpb_sectors_per_fat m fat)
                                  else fat32_sectors_per_fat m fat),
                root_clust := fat32_root_cluster_number m fat, sect_size := ucast blk\<rparr>
      in f\<lparr>num_fat_entires := int_div4 (num_fats f * sects_per_fat f * sect_size f)\<rparr>)"

text \<open>The table and the buffer of a cluster are allocated, and the sectors of the table are read.\<close>

definition load_fat :: "('d, 'a) reader \<Rightarrow> addr \<Rightarrow> addr \<Rightarrow> ('d, 'a) fatfs_scheme \<Rightarrow> (int \<times> ('d, 'a) fatfs_scheme) option" where
  "load_fat rd part tbl s = do {
     let f = fat_of s tbl;
     let (a, s) = kmalloc (scast (num_fats f * sects_per_fat f * sect_size f)) s;
     let s = s\<lparr>fat_of := (fat_of s)(tbl := (fat_of s tbl)\<lparr>fat_table := a\<rparr>)\<rparr>;
     if a = NULL then Some (- 1, s)
     else do {
       let (b, s) = kmalloc (scast (sects_per_clust f * sect_size f)) s;
       let s = s\<lparr>fat_of := (fat_of s)(tbl := (fat_of s tbl)\<lparr>clust_buff := b\<rparr>)\<rparr>;
       if b = NULL then Some (- 1, s)
       else do {
         s \<leftarrow> load_table_loop rd part tbl [0..<nat (sint (num_fats f * sects_per_fat f))] s;
         let (root_inode, s) = kmalloc sizeof_INode s;
         Some (if root_inode = NULL then (- 1, s) else (0, s)) } } }"

text \<open>The part of \<open>FS_register_fat32\<close> after the test of the signature.\<close>

definition register_rest :: "('d, 'a) reader \<Rightarrow> addr \<Rightarrow> addr \<Rightarrow> ('d, 'a) fatfs_scheme \<Rightarrow> (int \<times> ('d, 'a) fatfs_scheme) option" where
  "register_rest rd fat part s =
     (let (tbl, s) = kmalloc sizeof_FAT s
      in if tbl = NULL then Some (- 1, s)
         else load_fat rd part tbl
           (s\<lparr>fat_of := (fat_of s)(tbl := fill_FAT (bytes s) fat (blk_size (bdev_of s part)) (fat_of s tbl))\<rparr>))"

definition FS_register_fat32 :: "('d, 'a) reader \<Rightarrow> addr \<Rightarrow> addr \<Rightarrow> ('d, 'a) fatfs_scheme \<Rightarrow> (int \<times> ('d, 'a) fatfs_scheme) option" where
  "FS_register_fat32 rd fat part s = do {
     let s = klog KLOG_LEVEL_WARN ''FAT 32!'' [] s;
     (r, s) \<leftarrow> read_block rd part 0 fat s;
     if r < 0 then Some (- 1, klog KLOG_LEVEL_WARN ''failed to read from FAT 32 filesystem'' [] s)
     else if fat32_signature (bytes s) fat \<noteq> 0x28 \<and> fat32_signature (bytes s) fat \<noteq> 0x29
     then Some (- 1, klog KLOG_LEVEL_WARN ''FAT 32 filesystem on part %s invalid'' [bd_name (bdev_of s part)] s)
     else register_rest rd fat part s }"

section \<open>Sectors\<close>

definition store_bytes :: "addr \<Rightarrow> u8 list \<Rightarrow> bmem \<Rightarrow> bmem" where
  "store_bytes a bs m = (\<lambda>x. if unat (x - a) < length bs then bs ! unat (x - a) else m x)"

lemma store_bytes_Nil [simp]: "store_bytes a [] m = m"
  by (simp add: store_bytes_def)

lemma store_bytes_append:
  assumes "length xs + length ys < 2 ^ 64"
  shows "store_bytes (a + of_nat (length xs)) ys (store_bytes a xs m) = store_bytes a (xs @ ys) m"
proof
  fix x
  let ?k = "unat (x - a)"
  have u: "unat (of_nat (length xs) :: addr) = length xs" using assms by (simp add: unat_of_nat take_bit_nat_eq_self)
  have d: "x - (a + of_nat (length xs)) = (x - a) - of_nat (length xs)" by simp
  show "store_bytes (a + of_nat (length xs)) ys (store_bytes a xs m) x = store_bytes a (xs @ ys) m x"
  proof (cases "length xs \<le> ?k")
    case True
    then have "unat (x - (a + of_nat (length xs))) = ?k - length xs" unfolding d by (simp add: unat_sub u word_le_nat_alt)
    then show ?thesis using True by (auto simp: store_bytes_def nth_append)
  next
    case False
    have "unat ((x - a) - of_nat (length xs)) = ?k + 2 ^ 64 - length xs"
      using False u by (simp add: unat_sub_if' not_le)
    then have "\<not> unat (x - (a + of_nat (length xs))) < length ys" unfolding d using assms by simp
    then show ?thesis using False by (simp add: store_bytes_def nth_append)
  qed
qed

lemma store_bytes_at:
  assumes "k < length bs" "length bs < 2 ^ 64"
  shows "store_bytes a bs m (a + of_nat k) = bs ! k"
  using assms by (simp add: store_bytes_def unat_of_nat take_bit_nat_eq_self)

text \<open>What a disk promises: reading a sector stores its 512 bytes at the destination, and nothing else happens but to the
  hardware.\<close>

definition sector_device :: "('d, 'a) reader \<Rightarrow> addr \<Rightarrow> (u64 \<Rightarrow> u8 list) \<Rightarrow> bool" where
  "sector_device rd d disk \<longleftrightarrow> (\<forall>b. length (disk b) = 512) \<and>
     (\<forall>b dst s. \<exists>x. rd d b dst s = Some (0, s\<lparr>bytes := store_bytes dst (disk b) (bytes s), devst := x\<rparr>))"

text \<open>A partition of such a disk.\<close>

definition partition_on :: "('d, 'a) reader \<Rightarrow> (u64 \<Rightarrow> u8 list) \<Rightarrow> addr \<Rightarrow> ('d, 'a) fatfs_scheme \<Rightarrow> bool" where
  "partition_on rd disk part s \<longleftrightarrow> sector_device rd (phys_dev (part_of s part)) disk \<and>
     read_block_fn (bdev_of s part) = Part_read_block \<and> read_block_fn (bdev_of s (phys_dev (part_of s part))) = Ata_read_block"

lemma partition_on_cong:
  "part_of t = part_of s \<Longrightarrow> bdev_of t = bdev_of s \<Longrightarrow> partition_on rd disk part t = partition_on rd disk part s"
  by (simp add: partition_on_def)

lemma partition_read:
  assumes "partition_on rd disk part s"
  shows "\<exists>x. read_block rd part b dst s =
    Some (0, s\<lparr>bytes := store_bytes dst (disk (b + sect_start (part_of s part))) (bytes s), devst := x\<rparr>)"
proof -
  let ?d = "phys_dev (part_of s part)"
  have "read_block rd part b dst s = read_block rd ?d (b + sect_start (part_of s part)) dst s"
    using assms by (subst read_block.simps) (simp add: partition_on_def)
  also have "\<dots> = rd ?d (b + sect_start (part_of s part)) dst s"
    using assms by (subst read_block.simps) (simp add: partition_on_def)
  finally show ?thesis using assms by (simp add: partition_on_def sector_device_def)
qed

lemma load_table_loop_Nil: "load_table_loop rd part tbl [] = Some"
  by (rule ext) simp

lemma load_table_loop_append:
  "load_table_loop rd part tbl (xs @ ys) s = Option.bind (load_table_loop rd part tbl xs s) (load_table_loop rd part tbl ys)"
  by (induction xs arbitrary: s) (auto simp: case_prod_beta intro: Option.bind_cong)

text \<open>The bytes of \<open>n\<close> consecutive sectors of a partition.\<close>

definition sectors :: "(u64 \<Rightarrow> u8 list) \<Rightarrow> u64 \<Rightarrow> nat \<Rightarrow> nat \<Rightarrow> u8 list" where
  "sectors disk start first n = concat (map (\<lambda>k. disk (of_nat k + start)) [first..<first + n])"

lemma sectors_0 [simp]: "sectors disk start first 0 = []"
  by (simp add: sectors_def)

lemma sectors_Suc: "sectors disk start first (Suc n) = sectors disk start first n @ disk (of_nat (first + n) + start)"
  by (simp add: sectors_def)

lemma length_sectors: "(\<And>b. length (disk b) = 512) \<Longrightarrow> length (sectors disk start first n) = 512 * n"
  by (induction n) (simp_all add: sectors_Suc)

lemma scast_of_nat: "k < 2 ^ 31 \<Longrightarrow> scast (of_nat k :: u32) = (of_nat k :: u64)"
proof -
  assume k: "k < 2 ^ 31"
  then have "unat (of_nat k :: u32) = k" by (simp add: unat_of_nat take_bit_nat_eq_self)
  then have "sint (of_nat k :: u32) = int k" using k by (subst sint_u32) simp_all
  then show ?thesis by (metis of_int_of_nat_eq of_int_sint)
qed

text \<open>The loop stores consecutive sectors one behind the other.\<close>

lemma load_table_loop_sectors:
  fixes s :: "('d, 'a) fatfs_scheme"
  assumes P: "partition_on rd disk part s" and f: "fat_of s tbl = f" "sect_size f = 512"
    and R: "unat (rsvd_sects f) + n < 2 ^ 31 - 1" "n * 512 < 2 ^ 31"
  shows "\<exists>x. load_table_loop rd part tbl [0..<n] s =
    Some (s\<lparr>bytes := store_bytes (fat_table f) (sectors disk (sect_start (part_of s part)) (Suc (unat (rsvd_sects f))) n) (bytes s),
            devst := x\<rparr>)"
  using R
proof (induction n)
  case 0
  show ?case by (intro exI [of _ "devst s"]) simp
next
  case (Suc n)
  let ?cs = "sectors disk (sect_start (part_of s part)) (Suc (unat (rsvd_sects f)))"
  let ?k = "Suc (unat (rsvd_sects f) + n)"
  obtain x where x: "load_table_loop rd part tbl [0..<n] s = Some (s\<lparr>bytes := store_bytes (fat_table f) (?cs n) (bytes s), devst := x\<rparr>)"
    (is "_ = Some ?t") using Suc by auto
  have dl: "length (disk b) = 512" for b using P by (auto simp: partition_on_def sector_device_def)
  have cl: "length (?cs k) = 512 * k" for k by (rule length_sectors) (rule dl)
  have P': "partition_on rd disk part ?t" using P by (simp add: partition_on_def)
  have b: "scast (of_nat n + (1 + rsvd_sects f)) = (of_nat ?k :: u64)"
  proof -
    have "of_nat n + (1 + rsvd_sects f) = (of_nat ?k :: u32)" by simp
    then show ?thesis using Suc.prems by (simp only: scast_of_nat)
  qed
  have a: "4 * scast (of_nat n * int_div4 (sect_size f)) = (of_nat (length (?cs n)) :: u64)"
  proof -
    have "of_nat n * int_div4 (sect_size f) = (of_nat (n * 128) :: u32)" by (simp add: int_div4_def f(2))
    then have "scast (of_nat n * int_div4 (sect_size f)) = (of_nat (n * 128) :: u64)"
      using Suc.prems by (simp only:) (rule scast_of_nat, simp)
    then show ?thesis by (simp only: cl) simp
  qed
  obtain y where y: "read_block rd part (of_nat ?k) (fat_table f + of_nat (length (?cs n))) ?t =
    Some (0, ?t\<lparr>bytes := store_bytes (fat_table f + of_nat (length (?cs n))) (disk (of_nat ?k + sect_start (part_of s part))) (bytes ?t), devst := y\<rparr>)"
    using partition_read [OF P', of "of_nat ?k" "fat_table f + of_nat (length (?cs n))"] by auto
  have "length (?cs n) + length (disk (of_nat ?k + sect_start (part_of s part))) < 2 ^ 64" using Suc.prems by (simp add: cl dl)
  note app = store_bytes_append [OF this, of "fat_table f" "bytes s"]
  have "load_table_loop rd part tbl [0..<Suc n] s =
      Option.bind (read_block rd part (of_nat ?k) (fat_table f + of_nat (length (?cs n))) ?t) (\<lambda>(_, s). Some s)"
    unfolding upt_Suc_append [OF le0] load_table_loop_append x using f(1) by (simp only: a [symmetric] b [symmetric]) (simp add: load_table_loop_Nil)
  also have "\<dots> = Some (s\<lparr>bytes := store_bytes (fat_table f) (?cs (Suc n)) (bytes s), devst := y\<rparr>)"
    unfolding y by (simp add: sectors_Suc app [symmetric] del: of_nat_add of_nat_Suc)
  finally show ?case by blast
qed

section \<open>Loading a file system\<close>

lemma fat_more:
  fixes s t :: "('d, 'a) fatfs_scheme"
  assumes "kheap.more t = kheap.more s"
  shows "bytes t = bytes s" "bdev_of t = bdev_of s" "part_of t = part_of s" "fat_of t = fat_of s" "lists t = lists s"
  using assms by (cases s; cases t; simp)+

lemma fat_upd [simp]:
  fixes s :: "('d, 'a) fatfs_scheme"
  shows "kinv (s\<lparr>fat_of := f\<rparr>) F live = kinv s F live" "kinv (s\<lparr>bytes := m, devst := x\<rparr>) F live = kinv s F live"
    "kinv (klog l fm as s) F live = kinv s F live"
    "cursor_at (s\<lparr>fat_of := f\<rparr>) n = cursor_at s n" "cursor_at (s\<lparr>bytes := m, devst := x\<rparr>) n = cursor_at s n"
    "cursor_at (klog l fm as s) n = cursor_at s n"
  by ((rule kinv_cong; simp add: klog_def)+, simp_all add: cursor_at_def klog_def)

text \<open>Numbers of two and four bytes in a sector.\<close>

definition le16 :: "u8 list \<Rightarrow> nat \<Rightarrow> nat" where
  "le16 bs k = unat (bs ! k) + 256 * unat (bs ! (k + 1))"

definition le32 :: "u8 list \<Rightarrow> nat \<Rightarrow> nat" where
  "le32 bs k = le16 bs k + 65536 * le16 bs (k + 2)"

lemma unat_load16: "unat (load16 a m) = unat (m a) + 256 * unat (m (a + 1))"
proof -
  have "load16 a m = ucast (m a) + push_bit 8 (ucast (m (a + 1)))"
    unfolding load16_def by (rule disjunctive_add [symmetric]) (auto simp: bit_simps dest: bit_imp_le_length)
  also have "\<dots> = of_nat (unat (m a) + 256 * unat (m (a + 1)))" by (simp add: push_bit_eq_mult)
  finally show ?thesis
    using unsigned_less [of "m a", where 'a = nat] unsigned_less [of "m (a + 1)", where 'a = nat]
    by (simp only: unat_of_nat) (simp add: take_bit_nat_eq_self)
qed

lemma unat_load32: "unat (load32 a m) = unat (load16 a m) + 65536 * unat (load16 (a + 2) m)"
proof -
  have "load32 a m = ucast (load16 a m) + push_bit 16 (ucast (load16 (a + 2) m))"
    unfolding load32_def by (rule disjunctive_add [symmetric]) (auto simp: bit_simps dest: bit_imp_le_length)
  also have "\<dots> = of_nat (unat (load16 a m) + 65536 * unat (load16 (a + 2) m))" by (simp add: push_bit_eq_mult)
  finally show ?thesis
    using unsigned_less [of "load16 a m", where 'a = nat] unsigned_less [of "load16 (a + 2) m", where 'a = nat]
    by (simp only: unat_of_nat) (simp add: take_bit_nat_eq_self)
qed

lemma load_sector:
  assumes "length bs = 512"
  shows "k < 512 \<Longrightarrow> store_bytes a bs m (a + of_nat k) = bs ! k"
    "k + 1 < 512 \<Longrightarrow> unat (load16 (a + of_nat k) (store_bytes a bs m)) = le16 bs k"
    "k + 3 < 512 \<Longrightarrow> unat (load32 (a + of_nat k) (store_bytes a bs m)) = le32 bs k"
proof -
  have at: "store_bytes a bs m (a + of_nat k) = bs ! k" if "k < 512" for k
    using store_bytes_at [of k bs] assms that by simp
  have l16: "unat (load16 (a + of_nat k) (store_bytes a bs m)) = le16 bs k" if "k + 1 < 512" for k
    using at [of k] at [of "k + 1"] that by (simp add: unat_load16 le16_def add.assoc add.commute [of 1])
  show "k < 512 \<Longrightarrow> store_bytes a bs m (a + of_nat k) = bs ! k" by (rule at)
  show "k + 1 < 512 \<Longrightarrow> unat (load16 (a + of_nat k) (store_bytes a bs m)) = le16 bs k" by (rule l16)
  show "unat (load32 (a + of_nat k) (store_bytes a bs m)) = le32 bs k" if "k + 3 < 512"
    using l16 [of k] l16 [of "k + 2"] that by (simp add: unat_load32 le32_def add.assoc add.commute [of 2])
qed

text \<open>The geometry that a boot sector declares.\<close>

definition fat_sectors :: "u8 list \<Rightarrow> nat" where
  "fat_sectors boot = (if le16 boot 22 \<noteq> 0 then le16 boot 22 else le32 boot 36)"

definition geometry :: "u8 list \<Rightarrow> FAT \<Rightarrow> bool" where
  "geometry boot f \<longleftrightarrow> unat (sects_per_clust f) = unat (boot ! 13) \<and> unat (rsvd_sects f) = le16 boot 14 \<and>
     unat (num_fats f) = unat (boot ! 16) \<and> unat (tot_sects f) = (if le16 boot 19 \<noteq> 0 then le16 boot 19 else le32 boot 32) \<and>
     unat (sects_per_fat f) = fat_sectors boot \<and> unat (root_clust f) = le32 boot 44 \<and> sect_size f = 512"

lemma fill_FAT_geometry:
  assumes "length boot = 512"
  shows "geometry boot (fill_FAT (store_bytes fat boot m) fat 512 f)"
proof -
  have up: "unat (ucast (w :: u8) :: u32) = unat w" "unat (ucast (v :: u16) :: u32) = unat v" for w v
    using unsigned_less [of w, where 'a = nat] unsigned_less [of v, where 'a = nat]
    by (simp_all add: unsigned_ucast_eq take_bit_nat_eq_self)
  have nz: "w \<noteq> 0 \<longleftrightarrow> unat w \<noteq> 0" for w :: u16 by (simp add: unsigned_eq_0_iff)
  note L = load_sector [OF assms, of _ fat m]
  note b = L(1) [of 13] L(1) [of 16] and h = L(2) [of 14] L(2) [of 19] L(2) [of 22] and w = L(3) [of 32] L(3) [of 36] L(3) [of 44]
  show ?thesis
    using b h w by (simp add: geometry_def fill_FAT_def Let_def up nz fat_sectors_def bpb_sectors_per_cluster_def bpb_reserved_sectors_def
        bpb_num_fats_def bpb_tot_sectors_def bpb_sectors_per_fat_def bpb_large_sector_count_def fat32_sectors_per_fat_def
        fat32_root_cluster_number_def)
qed

lemma scast_mult:
  assumes "unat a * unat b < 2 ^ 31"
  shows "unat ((a :: u32) * b) = unat a * unat b" "unat (scast (a * b) :: u64) = unat a * unat b"
proof -
  show u: "unat (a * b) = unat a * unat b" using assms by (simp add: unat_word_ariths)
  have "scast (of_nat (unat a * unat b) :: u32) = (of_nat (unat a * unat b) :: u64)" by (rule scast_of_nat [OF assms])
  moreover have "of_nat (unat a * unat b) = a * b" by simp
  ultimately have "(scast (a * b) :: u64) = of_nat (unat a * unat b)" by metis
  then show "unat (scast (a * b) :: u64) = unat a * unat b" using assms by (simp only: unat_of_nat) (simp add: take_bit_nat_eq_self)
qed

lemma pages_for_le: "unat sz \<le> k * 4096 \<Longrightarrow> pages_for sz \<le> k"
  unfolding pages_for_def by (rule less_Suc_eq_le [THEN iffD1]) (simp add: div_less_iff_less_mult)

lemma klog_files [simp]:
  fixes s :: "('d, 'a) fatfs_scheme"
  shows "bytes (klog l fm as s) = bytes s" "part_of (klog l fm as s) = part_of s" "bdev_of (klog l fm as s) = bdev_of s"
    "fat_of (klog l fm as s) = fat_of s"
  by (simp_all add: klog_def)

text \<open>The sizes that are computed from a geometry.\<close>

lemma fat_sizes:
  assumes "geometry boot f" and N: "N = unat (boot ! 16) * fat_sectors boot" "N * 512 < 2 ^ 31"
  shows "unat (scast (num_fats f * sects_per_fat f * sect_size f) :: u64) = N * 512"
    "(scast (num_fats f * sects_per_fat f * sect_size f) :: u64) = of_nat (N * 512)"
    "unat (scast (sects_per_clust f * sect_size f) :: u64) = unat (boot ! 13) * 512" "nat (sint (num_fats f * sects_per_fat f)) = N"
    "unat (rsvd_sects f) = le16 boot 14" "le16 boot 14 < 65536" "sect_size f = 512"
proof -
  note G = assms(1) [unfolded geometry_def]
  have ne: "unat (num_fats f) * unat (sects_per_fat f) = N" using G N(1) by simp
  have N1: "unat (num_fats f * sects_per_fat f) = N" using scast_mult(1) [of "num_fats f" "sects_per_fat f"] N(2) unfolding ne by simp
  show N2: "unat (scast (num_fats f * sects_per_fat f * sect_size f) :: u64) = N * 512"
    using scast_mult(2) [of "num_fats f * sects_per_fat f" "sect_size f"] N(2) G unfolding N1 by simp
  show "(scast (num_fats f * sects_per_fat f * sect_size f) :: u64) = of_nat (N * 512)"
    by (subst word_unat_eq_iff, subst N2) (use N(2) in \<open>simp add: unat_of_nat take_bit_nat_eq_self del: of_nat_mult\<close>)
  show "unat (scast (sects_per_clust f * sect_size f) :: u64) = unat (boot ! 13) * 512"
    using scast_mult(2) [of "sects_per_clust f" "sect_size f"] G unsigned_less [of "boot ! 13", where 'a = nat] by simp
  show "nat (sint (num_fats f * sects_per_fat f)) = N" using N1 N(2) by (subst sint_u32) simp_all
  show "unat (rsvd_sects f) = le16 boot 14" "le16 boot 14 < 65536" "sect_size f = 512"
    using G unsigned_less [of "boot ! 14", where 'a = nat] unsigned_less [of "boot ! (14 + 1)", where 'a = nat] by (simp_all add: le16_def)
qed

lemma load_fat_loads:
  fixes s :: "('d, 'a) fatfs_scheme"
  assumes K: "kinv s F live" and c: "cursor_at s n" "n + 2 ^ 19 + 64 \<le> 2 ^ 28"
    and P: "partition_on rd disk part s" and g: "geometry boot (fat_of s tbl)"
    and nz: "0 < boot ! 13" "N = unat (boot ! 16) * fat_sectors boot" "0 < N" "N * 512 < 2 ^ 31"
  shows "\<exists>t F' L. load_fat rd part tbl s = Some (0, t) \<and> geometry boot (fat_of t tbl) \<and>
    bytes t = store_bytes (fat_table (fat_of t tbl)) (sectors disk (sect_start (part_of s part)) (Suc (le16 boot 14)) N) (bytes s) \<and>
    kinv t F' (live \<union> L) \<and> L \<inter> live = {} \<and> (fat_table (fat_of t tbl) - HEADER_SIZE, kind_of (of_nat (N * 512))) \<in> L"
proof -
  define f where "f = fat_of s tbl"
  note Z = fat_sizes [OF g nz(2,4), folded f_def]
  let ?z = "scast (num_fats f * sects_per_fat f * sect_size f) :: u64" and ?y = "scast (sects_per_clust f * sect_size f) :: u64"
  have u13: "0 < unat (boot ! 13)" "unat (boot ! 13) < 256" using nz(1) unsigned_less [of "boot ! 13", where 'a = nat] by (simp_all add: word_less_nat_alt)
  have pg: "pages_for ?z \<le> 2 ^ 19" "pages_for ?y \<le> 32" using Z(1,3) nz(4) u13 by (auto intro!: pages_for_le)
  obtain a s3 where m2: "kmalloc ?z s = (a, s3)" by fastforce
  have n2: "n + 4 + pages_for ?z \<le> 2 ^ 28" "0 < unat ?z" "unat ?z < 2 ^ 40" using c(2) pg Z(1) nz by simp_all
  note A2 = kmalloc_room [OF K c(1) n2 m2] and M2 = fat_more [OF kmalloc_room(2) [OF K c(1) n2 m2]]
  obtain F2 j2 where K3: "kinv s3 F2 (insert (a - HEADER_SIZE, kind_of ?z) live)" and j2: "j2 \<le> n + 4 + pages_for ?z" "cursor_at s3 j2" using A2(4,5) by auto
  define s4 where "s4 = s3\<lparr>fat_of := (fat_of s3)(tbl := f\<lparr>fat_table := a\<rparr>)\<rparr>"
  obtain b s5 where m3: "kmalloc ?y s4 = (b, s5)" by fastforce
  have K4: "kinv s4 F2 (insert (a - HEADER_SIZE, kind_of ?z) live)" and c4: "cursor_at s4 j2" using K3 j2(2) by (simp_all add: s4_def)
  have n4: "j2 + 4 + pages_for ?y \<le> 2 ^ 28" "0 < unat ?y" "unat ?y < 2 ^ 40" using j2(1) c(2) pg Z(3) u13 by simp_all
  note A3 = kmalloc_room [OF K4 c4 n4 m3] and M3 = fat_more [OF kmalloc_room(2) [OF K4 c4 n4 m3]]
  let ?L3 = "insert (b - HEADER_SIZE, kind_of ?y) (insert (a - HEADER_SIZE, kind_of ?z) live)"
  obtain F3 j3 where K5: "kinv s5 F3 ?L3" and j3: "j3 \<le> j2 + 4 + pages_for ?y" "cursor_at s5 j3" using A3(4,5) by auto
  let ?f = "f\<lparr>fat_table := a, clust_buff := b\<rparr>"
  define s6 where "s6 = s5\<lparr>fat_of := (fat_of s5)(tbl := ?f)\<rparr>"
  have same: "part_of s6 = part_of s" "bdev_of s6 = bdev_of s" "bytes s6 = bytes s" "fat_of s6 tbl = ?f" by (simp_all add: s6_def s4_def M2 M3)
  have P6: "partition_on rd disk part s6" using P by (rule partition_on_cong [THEN iffD2, rotated 2]) (simp_all add: same)
  have R: "unat (rsvd_sects ?f) + N < 2 ^ 31 - 1" "sect_size ?f = 512" using Z(5-7) nz(4) by simp_all
  from load_table_loop_sectors [OF P6 same(4) R(2,1) nz(4)] obtain x where
    ld: "load_table_loop rd part tbl [0..<N] s6 =
      Some (s6\<lparr>bytes := store_bytes a (sectors disk (sect_start (part_of s part)) (Suc (le16 boot 14)) N) (bytes s), devst := x\<rparr>)" (is "_ = Some ?s7")
    using Z(5) by (auto simp: same)
  obtain r t where m4: "kmalloc sizeof_INode ?s7 = (r, t)" by fastforce
  have K7: "kinv ?s7 F3 ?L3" and c7: "cursor_at ?s7 j3" using K5 j3(2) by (simp_all add: s6_def)
  have n7: "j3 + 4 + pages_for sizeof_INode \<le> 2 ^ 28" "0 < unat sizeof_INode" "unat sizeof_INode < 2 ^ 40"
    using j2(1) j3(1) c(2) pg by (simp_all add: pages_for_def sizeof_INode_def)
  note A4 = kmalloc_room [OF K7 c7 n7 m4] and M4 = fat_more [OF kmalloc_room(2) [OF K7 c7 n7 m4]]
  obtain F4 where K8: "kinv t F4 (insert (r - HEADER_SIZE, kind_of sizeof_INode) ?L3)" using A4(4) by blast
  have e: "s3\<lparr>fat_of := (fat_of s3)(tbl := (fat_of s3 tbl)\<lparr>fat_table := a\<rparr>)\<rparr> = s4" "s5\<lparr>fat_of := (fat_of s5)(tbl := (fat_of s5 tbl)\<lparr>clust_buff := b\<rparr>)\<rparr> = s6"
    by (simp_all add: s4_def s6_def f_def M2 M3)
  have "load_fat rd part tbl s = Some (0, t)"
    unfolding load_fat_def Let_def f_def [symmetric] m2 case_prod_conv e m3 Z(4) ld bind.bind_lunit m4 using A2(1) A3(1) A4(1) by simp
  moreover have "fat_of t tbl = ?f" "bytes t = bytes ?s7" using M4 same(4) by simp_all
  moreover have "geometry boot ?f" using g by (simp add: geometry_def f_def)
  ultimately show ?thesis
    using K8 A2(3) A3(3) A4(3) Z(2)
    by (intro exI [of _ t] exI [of _ F4] exI [of _ "{(r - HEADER_SIZE, kind_of sizeof_INode), (b - HEADER_SIZE, kind_of ?y), (a - HEADER_SIZE, kind_of ?z)}"])
      (simp add: insert_commute)
qed

lemma register_rest_loads:
  fixes s :: "('d, 'a) fatfs_scheme"
  assumes K: "kinv s F live" and c: "cursor_at s n" "n + 2 ^ 20 \<le> 2 ^ 28"
    and P: "partition_on rd disk part s" "blk_size (bdev_of s part) = 512"
    and g: "\<And>f0. geometry boot (fill_FAT (bytes s) fat 512 f0)"
    and nz: "0 < boot ! 13" "N = unat (boot ! 16) * fat_sectors boot" "0 < N" "N * 512 < 2 ^ 31"
  shows "\<exists>t tbl F' L. register_rest rd fat part s = Some (0, t) \<and> geometry boot (fat_of t tbl) \<and>
    bytes t = store_bytes (fat_table (fat_of t tbl)) (sectors disk (sect_start (part_of s part)) (Suc (le16 boot 14)) N) (bytes s) \<and>
    kinv t F' (live \<union> L) \<and> L \<inter> live = {} \<and> (tbl - HEADER_SIZE, kind_of sizeof_FAT) \<in> L \<and>
    (fat_table (fat_of t tbl) - HEADER_SIZE, kind_of (of_nat (N * 512))) \<in> L"
proof -
  obtain tbl s1 where m1: "kmalloc sizeof_FAT s = (tbl, s1)" by fastforce
  have n1: "n + 4 + pages_for sizeof_FAT \<le> 2 ^ 28" "0 < unat sizeof_FAT" "unat sizeof_FAT < 2 ^ 40" using c(2) by (simp_all add: pages_for_def sizeof_FAT_def)
  note A = kmalloc_room [OF K c(1) n1 m1]
  note M = fat_more [OF A(2)]
  let ?x = "(tbl - HEADER_SIZE, kind_of sizeof_FAT)"
  let ?s2 = "s1\<lparr>fat_of := (fat_of s1)(tbl := fill_FAT (bytes s) fat 512 (fat_of s1 tbl))\<rparr>"
  have pg: "pages_for sizeof_FAT = 1" by (simp add: pages_for_def sizeof_FAT_def)
  obtain F1 where F1: "kinv ?s2 F1 (insert ?x live)" using A(4) by auto
  obtain j where j: "j \<le> 5 + n" "cursor_at ?s2 j" using A(5) unfolding pg by auto
  have h: "j + 2 ^ 19 + 64 \<le> 2 ^ 28" "partition_on rd disk part ?s2" "geometry boot (fat_of ?s2 tbl)"
    using j(1) c(2) P(1) g by (simp_all add: partition_on_def M)
  obtain t F' L where t: "load_fat rd part tbl ?s2 = Some (0, t)" "geometry boot (fat_of t tbl)"
    "bytes t = store_bytes (fat_table (fat_of t tbl)) (sectors disk (sect_start (part_of s part)) (Suc (le16 boot 14)) N) (bytes s)"
    "kinv t F' (insert ?x live \<union> L)" "L \<inter> insert ?x live = {}" "(fat_table (fat_of t tbl) - HEADER_SIZE, kind_of (of_nat (N * 512))) \<in> L"
    using load_fat_loads [OF F1 j(2) h nz] by (auto simp: M)
  have "register_rest rd fat part s = Some (0, t)" using A(1) t(1) P(2) by (simp add: register_rest_def m1 M)
  moreover have "kinv t F' (live \<union> insert ?x L)" "insert ?x L \<inter> live = {}" using t(4,5) A(3) by (simp_all add: insert_commute)
  ultimately show ?thesis using t(2,3,6) by blast
qed

lemma FS_register_fat32_spec:
  fixes s :: "('d, 'a) fatfs_scheme"
  assumes K: "kinv s F live" and c: "cursor_at s n" "n + 2 ^ 20 \<le> 2 ^ 28"
    and P: "partition_on rd disk part s" "blk_size (bdev_of s part) = 512"
    and boot: "boot = disk (sect_start (part_of s part))" "boot ! 66 = 0x28 \<or> boot ! 66 = 0x29"
    and nz: "0 < boot ! 13" "N = unat (boot ! 16) * fat_sectors boot" "0 < N" "N * 512 < 2 ^ 31"
  shows "\<exists>t tbl F' L. FS_register_fat32 rd fat part s = Some (0, t) \<and> geometry boot (fat_of t tbl) \<and>
    (\<forall>k<N * 512. bytes t (fat_table (fat_of t tbl) + of_nat k) =
       sectors disk (sect_start (part_of s part)) (Suc (le16 boot 14)) N ! k) \<and>
    kinv t F' (live \<union> L) \<and> L \<inter> live = {} \<and> (tbl - HEADER_SIZE, kind_of sizeof_FAT) \<in> L \<and>
    (fat_table (fat_of t tbl) - HEADER_SIZE, kind_of (of_nat (N * 512))) \<in> L"
proof -
  let ?st = "sect_start (part_of s part)"
  let ?s0 = "klog KLOG_LEVEL_WARN ''FAT 32!'' [] s"
  have P0: "partition_on rd disk part ?s0" using P(1) by (simp add: partition_on_def)
  obtain x where x: "read_block rd part 0 fat ?s0 = Some (0, ?s0\<lparr>bytes := store_bytes fat boot (bytes s), devst := x\<rparr>)"
    (is "_ = Some (0, ?s1)") using partition_read [OF P0, of 0 fat] boot(1) by auto
  have dl: "length (disk b) = 512" for b using P(1) by (simp add: partition_on_def sector_device_def)
  have sig: "fat32_signature (bytes ?s1) fat = boot ! 66"
    using load_sector(1) [of boot 66 fat "bytes s"] boot(1) dl by (simp add: fat32_signature_def)
  have reg: "FS_register_fat32 rd fat part s = register_rest rd fat part ?s1"
    using boot(2) sig by (auto simp: FS_register_fat32_def x)
  have "geometry boot (fill_FAT (bytes ?s1) fat 512 f0)" for f0
    using fill_FAT_geometry [of boot fat "bytes s" f0] boot(1) dl by simp
  moreover have "kinv ?s1 F live" "cursor_at ?s1 n" "partition_on rd disk part ?s1" "blk_size (bdev_of ?s1 part) = 512"
    using K c(1) P by (simp_all add: partition_on_def)
  ultimately obtain t tbl F' L where r: "register_rest rd fat part ?s1 = Some (0, t)" "geometry boot (fat_of t tbl)"
    "bytes t = store_bytes (fat_table (fat_of t tbl)) (sectors disk ?st (Suc (le16 boot 14)) N) (bytes ?s1)" "kinv t F' (live \<union> L)" "L \<inter> live = {}"
    "(tbl - HEADER_SIZE, kind_of sizeof_FAT) \<in> L" "(fat_table (fat_of t tbl) - HEADER_SIZE, kind_of (of_nat (N * 512))) \<in> L"
    using register_rest_loads [of ?s1 F live n rd disk part boot fat N] c(2) nz by auto
  have len: "length (sectors disk ?st (Suc (le16 boot 14)) N) = 512 * N" by (rule length_sectors) (rule dl)
  have "bytes t (fat_table (fat_of t tbl) + of_nat k) = sectors disk ?st (Suc (le16 boot 14)) N ! k" if "k < N * 512" for k
    unfolding r(3) using that nz(4) by (intro store_bytes_at) (simp_all add: len)
  then show ?thesis using reg r by auto
qed


section \<open>Following and reading clusters\<close>

lemma next_cluster_loop_first:
  assumes "p \<in> set is" "sorted_wrt (<) is" "load32 (table + 4 * of_nat p) m = c" "\<And>i. i \<in> set is \<Longrightarrow> i < p \<Longrightarrow> load32 (table + 4 * of_nat i) m \<noteq> c"
  shows "next_cluster_loop m table c is = load32 (table + 4 * of_nat (p + 1)) m"
  using assms
proof (induction "is")
  case (Cons i "is")
  then show ?case by (cases "i = p") (auto simp del: of_nat_add of_nat_Suc)
qed simp

lemma next_cluster_loop_none:
  "(\<And>i. i \<in> set is \<Longrightarrow> load32 (table + 4 * of_nat i) m \<noteq> c) \<Longrightarrow> next_cluster_loop m table c is = 0"
  by (induction "is") auto

text \<open>The entry of a cluster in the table: the cluster that follows it in its chain.\<close>

definition fat_entry :: "addr \<Rightarrow> nat \<Rightarrow> ('d, 'a) fatfs_scheme \<Rightarrow> u32" where
  "fat_entry fat c s = load32 (fat_table (fat_of s fat) + 4 * of_nat c) (bytes s)"

text \<open>C20: \<open>fat32_next_cluster\<close> looks for the cluster among the contents of the entries and returns the entry behind the one that holds it. In a
  table in which no two entries name the cluster it is equivalent to the lookup of the cluster's own entry for every cluster that
  follows its predecessor on the disk; for the first cluster of a chain, which no entry names, it returns 0, so a chain ends at once; and
  for a cluster that continues a chain elsewhere on the disk it returns the entry that follows the predecessor's.\<close>

theorem fat32_next_cluster_equiv:
  assumes n: "n = nat (sint (num_fat_entires (fat_of s fat)))"
    and one: "\<forall>i<n. \<forall>j<n. fat_entry fat i s = c \<and> fat_entry fat j s = c \<longrightarrow> i = j"
  shows "(0 < c \<and> unat c \<le> n \<and> fat_entry fat (unat c - 1) s = c \<longrightarrow> fat32_next_cluster fat c s = fat_entry fat (unat c) s) \<and>
    ((\<forall>i<n. fat_entry fat i s \<noteq> c) \<longrightarrow> fat32_next_cluster fat c s = 0) \<and>
    (\<forall>p<n. fat_entry fat p s = c \<longrightarrow> fat32_next_cluster fat c s = fat_entry fat (p + 1) s)"
proof -
  have A: "fat32_next_cluster fat c s = fat_entry fat (p + 1) s" if p: "p < n" "fat_entry fat p s = c" for p
    unfolding fat32_next_cluster_def n [symmetric] fat_entry_def
  proof (rule next_cluster_loop_first)
    show "load32 (fat_table (fat_of s fat) + 4 * of_nat i) (bytes s) \<noteq> c" if "i \<in> set [0..<n]" "i < p" for i
      using one [rule_format, of i p] p that by (auto simp: fat_entry_def)
  qed (use p in \<open>auto simp: fat_entry_def sorted_wrt_upt\<close>)
  have "fat32_next_cluster fat c s = 0" if "\<forall>i<n. fat_entry fat i s \<noteq> c"
    unfolding fat32_next_cluster_def n [symmetric] using that by (intro next_cluster_loop_none) (auto simp: fat_entry_def)
  moreover have "fat32_next_cluster fat c s = fat_entry fat (unat c) s" if "0 < c" "unat c \<le> n" "fat_entry fat (unat c - 1) s = c"
  proof -
    have "0 < unat c" using that(1) by (simp add: word_less_nat_alt)
    then show ?thesis using A [of "unat c - 1"] that by simp
  qed
  ultimately show ?thesis using A by blast
qed

text \<open>\<open>fat32_read_clust\<close> counts sectors of the partition but stops at the number of sectors in a cluster. All clusters lie behind the
  reserved sectors and the tables, so on every disk where these are not fewer than the sectors of a cluster no sector is ever read, although
  the result is 0.\<close>

theorem fat32_read_clust_reads_nothing:
  assumes "f = fat_of s fat" "unat (sects_per_clust f) < 2 ^ 31" "2 \<le> unat clust"
    and "x = unat (rsvd_sects f) + unat (num_fats f) * unat (sects_per_fat f) + (unat clust - 2) * unat (sects_per_clust f)"
    and "x < 2 ^ 31" "unat (sects_per_clust f) \<le> x"
  shows "fat32_read_clust rd fat clust s = Some (0, s)"
proof -
  have "clust - 2 = of_nat (unat clust - 2)" using assms(3) by (simp add: of_nat_diff)
  then have "fat32_start_sect f clust = of_nat x" by (simp add: fat32_start_sect_def assms(4))
  then have "unat (fat32_start_sect f clust) = x" using assms(5) by (simp add: unat_of_nat take_bit_nat_eq_self)
  then have "sint (fat32_start_sect f clust) = int x" using assms(5) by (subst sint_u32) simp_all
  moreover have "sint (sects_per_clust f) = int (unat (sects_per_clust f))" by (rule sint_u32 [OF assms(2)])
  ultimately have "\<not> sint (fat32_start_sect f clust) \<le> sint (sects_per_clust f) - 1" using assms(6) by linarith
  then show ?thesis using assms(1) by (simp add: fat32_read_clust_def)
qed

section \<open>An example\<close>

definition boot_sector_example :: "u8 list" where
  "boot_sector_example = (replicate 512 0)[13 := 8, 14 := 32, 16 := 2, 36 := 1, 66 := 0x29]"

definition fat_disk_example :: "u64 \<Rightarrow> u8 list" where
  "fat_disk_example b = (if b = 0x800 then boot_sector_example else replicate 512 (ucast b))"

definition fat_example :: "drive fatfs" where
  "fat_example = kernel.extend (kernel_example
     \<lparr>bdev_of := (\<lambda>_. \<lparr>read_block_fn = Ata_read_block, blk_size = 512, total_len = 0, bd_name = 0, bd_type = MASS_STORAGE, fs_type = 0\<rparr>)
        (0x6000 := \<lparr>read_block_fn = Part_read_block, blk_size = 512, total_len = 0, bd_name = 0, bd_type = PARTITION, fs_type = 0x0C\<rparr>),
      part_of := (\<lambda>_. \<lparr>phys_dev = 0x5800, sect_start = 0x800\<rparr>)\<rparr>)
     (fatfs.fields (\<lambda>_. \<lparr>fat_part = 0, sects_per_clust = 0, rsvd_sects = 0, root_clust = 0, num_fats = 0, tot_sects = 0, sects_per_fat = 0,
        sect_size = 512, num_fat_entires = 4, fat_table = 0x7000, clust_buff = 0\<rparr>) (\<lambda>_. \<lparr>dir_fat = 0, start_clust = 0\<rparr>))"

definition rd_example :: "(drive, unit) reader" where
  "rd_example d b dst s = Some (0, s\<lparr>bytes := store_bytes dst (fat_disk_example b) (bytes s)\<rparr>)"

lemma fat_example_sel:
  "part_of fat_example p = \<lparr>phys_dev = 0x5800, sect_start = 0x800\<rparr>" "blk_size (bdev_of fat_example 0x6000) = 512"
  "read_block_fn (bdev_of fat_example 0x6000) = Part_read_block" "read_block_fn (bdev_of fat_example 0x5800) = Ata_read_block"
  "fat_table (fat_of fat_example f) = 0x7000" "num_fat_entires (fat_of fat_example f) = 4"
  by (simp_all add: fat_example_def kernel.extend_def fatfs.fields_def)

lemma fat_example_heap: "kinv fat_example (\<lambda>_. []) {}" "cursor_at fat_example 0"
proof -
  have "kinv fat_example (\<lambda>_. []) {} = kinv kernel_example (\<lambda>_. []) {}"
    by (rule kinv_cong) (simp_all add: fat_example_def kernel.extend_def fatfs.fields_def)
  then show "kinv fat_example (\<lambda>_. []) {}" using kernel_example_heap(1) by simp
  show "cursor_at fat_example 0"
    using kernel_example_heap(2) by (simp add: cursor_at_def fat_example_def kernel.extend_def fatfs.fields_def)
qed

lemma fat_example_device: "partition_on rd_example fat_disk_example 0x6000 fat_example"
proof -
  have "rd_example 0x5800 b dst s = Some (0, s\<lparr>bytes := store_bytes dst (fat_disk_example b) (bytes s), devst := devst s\<rparr>)" for b dst s
    by (simp add: rd_example_def)
  moreover have "length (fat_disk_example b) = 512" for b by (simp add: fat_disk_example_def boot_sector_example_def)
  ultimately have "sector_device rd_example 0x5800 fat_disk_example" unfolding sector_device_def by blast
  then show ?thesis by (simp add: partition_on_def fat_example_sel)
qed


definition fragmented_example :: "drive fatfs" where
  "fragmented_example = fat_example\<lparr>bytes := (\<lambda>_. 0)(0x7000 := 1, 0x7004 := 2, 0x7008 := 9, 0x700C := 8)\<rparr>"

lemma fragmented_example_entries:
  "fat_entry 0 0 fragmented_example = 1" "fat_entry 0 (Suc 0) fragmented_example = 2" "fat_entry 0 2 fragmented_example = 9"
  "fat_entry 0 3 fragmented_example = 8" "num_fat_entires (fat_of fragmented_example 0) = 4"
  by (simp_all add: fat_entry_def fragmented_example_def load32_def load16_def fat_example_sel)

theorem fat32_next_cluster_equiv_witness:
  "fat32_next_cluster 0 2 fragmented_example = 9 \<and> fat32_next_cluster 0 9 fragmented_example = 8 \<and>
   fat32_next_cluster 0 5 fragmented_example = 0"
proof -
  have all: "i < 4 \<Longrightarrow> i = 0 \<or> i = 1 \<or> i = 2 \<or> i = 3" for i :: nat by auto
  have n: "4 = nat (sint (num_fat_entires (fat_of fragmented_example 0)))" by (simp add: fragmented_example_entries)
  have one: "\<forall>i<4. \<forall>j<4. fat_entry 0 i fragmented_example = c \<and> fat_entry 0 j fragmented_example = c \<longrightarrow> i = j" for c
    by (auto dest!: all simp: fragmented_example_entries)
  have no: "\<forall>i<4. fat_entry 0 i fragmented_example \<noteq> 5" using all by (fastforce simp: fragmented_example_entries)
  note T = fat32_next_cluster_equiv [OF n]
  have "fat32_next_cluster 0 2 fragmented_example = 9" using T [where c = 2, OF one] by (simp add: fragmented_example_entries)
  moreover have "fat32_next_cluster 0 9 fragmented_example = 8" using T [where c = 9, OF one] by (auto simp: fragmented_example_entries dest: spec [of _ 2])
  moreover have "fat32_next_cluster 0 5 fragmented_example = 0" using T [where c = 5, OF one] no by blast
  ultimately show ?thesis by blast
qed

theorem fat32_read_clust_reads_nothing_witness:
  "fat32_read_clust rd_example 0 3 (fat_example\<lparr>fat_of := \<lambda>_. (fat_of fat_example 0)
     \<lparr>sects_per_clust := 8, rsvd_sects := 32, num_fats := 2, sects_per_fat := 4\<rparr>\<rparr>) =
   Some (0, fat_example\<lparr>fat_of := \<lambda>_. (fat_of fat_example 0)\<lparr>sects_per_clust := 8, rsvd_sects := 32, num_fats := 2, sects_per_fat := 4\<rparr>\<rparr>)"
  by (rule fat32_read_clust_reads_nothing [OF refl _ _ refl]) simp_all

end
