(* ===== verification/Segments.thy ===== *)
theory Segments
  imports Virtual_Memory Sort_Utils
begin

text \<open>
  How the memory manager starts (\<open>MMU_init\<close> and its helpers in \<^verbatim>\<open>src/src/mmu.c\<close>): the sections of the
  kernel become a list of excluded segments, the RAM areas of the memory map a list of free
  segments, and the excluded ones are cut out of the free ones.

  Both lists live in arrays of \<open>struct SegmentList\<close> linked by \<open>next\<close> pointers, here the index of the
  entry. The loops over the links are partial functions: \<open>None\<close> is a loop that does not end, an
  access through \<open>NULL\<close>, outside of an array, or to an array that was never written.

  The theorems relate the arrays to lists of segments and these to sets of addresses: what is
  excluded, that cutting out one contiguous kernel image leaves exactly the other pages, and that
  \<open>MMU_init\<close> then establishes the invariant the other theories start from. A free segment inside an
  excluded one makes the loop run forever.
\<close>

section \<open>The memory map\<close>

record PhysicalMMap =
  total_ram :: u64
  num_mmap :: u32
  ram_sects :: "MMapEntry list"
  num_kernel_sects :: u32
  kernel_sects :: "KernelSection list"

definition MAX_MMAP_ENTRIES :: nat where "MAX_MMAP_ENTRIES = 32"
definition MAX_KERNEL_SECTIONS :: nat where "MAX_KERNEL_SECTIONS = 32"
definition MAX_FREE_SEGMENTS :: nat where "MAX_FREE_SEGMENTS = 32"
definition MAX_EXCLUDE_SEGMENTS :: nat where "MAX_EXCLUDE_SEGMENTS = 128"

section \<open>Operations\<close>

text \<open>The first loop of both functions: areas are copied to the array from index \<open>i\<close> and linked.\<close>

fun copy_segments :: "(addr \<times> u64) list \<Rightarrow> nat \<Rightarrow> nat option \<Rightarrow> SegmentList list \<Rightarrow> SegmentList list" where
  "copy_segments [] i prev a = a"
| "copy_segments ((b, l) # xs) i prev a =
     (let a = a[i := \<lparr>sl_next = None, sl_s = \<lparr>s_base = b, s_end = b + l, s_len = l\<rparr>\<rparr>];
          a = (case prev of None \<Rightarrow> a | Some p \<Rightarrow> a[p := (a ! p)\<lparr>sl_next := Some i\<rparr>])
      in copy_segments xs (Suc i) (Some i) a)"

definition round_segment :: "Segment \<Rightarrow> Segment" where
  "round_segment g =
     (let new_base = s_base g - s_base g mod PAGE_SIZE;
          len = s_len g + (s_base g - new_base);
          len = (if len mod PAGE_SIZE \<noteq> 0 then len + PAGE_SIZE - (len + PAGE_SIZE) mod PAGE_SIZE else len)
      in \<lparr>s_base = new_base, s_end = new_base + len, s_len = len\<rparr>)"

partial_function (option) round_excluded :: "nat option \<Rightarrow> SegmentList list \<Rightarrow> SegmentList list option" where
  "round_excluded cur a = (case cur of
     None \<Rightarrow> Some a
   | Some i \<Rightarrow> let a = a[i := (a ! i)\<lparr>sl_s := round_segment (sl_s (a ! i))\<rparr>]
               in round_excluded (sl_next (a ! i)) a)"

text \<open>Extending \<open>prev\<close> over \<open>cur\<close>.\<close>

definition extend_segment :: "Segment \<Rightarrow> Segment \<Rightarrow> Segment" where
  "extend_segment p c =
     (let len = max (s_len p) ((s_base c + s_len c) - s_base p)
      in p\<lparr>s_len := len, s_end := s_base p + len\<rparr>)"

partial_function (option) merge_excluded ::
  "nat \<Rightarrow> nat option \<Rightarrow> SegmentList list \<Rightarrow> SegmentList list option" where
  "merge_excluded prev cur a = (case cur of
     None \<Rightarrow> Some a
   | Some c \<Rightarrow>
       if s_base (sl_s (a ! prev)) + s_len (sl_s (a ! prev)) < s_base (sl_s (a ! c))
       then merge_excluded c (sl_next (a ! c)) a
       else let a = a[prev := \<lparr>sl_next = sl_next (a ! c), sl_s = extend_segment (sl_s (a ! prev)) (sl_s (a ! c))\<rparr>]
            in merge_excluded prev (sl_next (a ! prev)) a)"

text \<open>\<open>excluded\<close> is the array of the caller. With no section at all its first entry, never written,
  would be read.\<close>

definition mmu_compute_excluded :: "PhysicalMMap \<Rightarrow> SegmentList list \<Rightarrow> (nat \<times> SegmentList list) option" where
  "mmu_compute_excluded mp excluded =
     (let n = unat (num_kernel_sects mp)
      in if n = 0 \<or> length (kernel_sects mp) < n \<or> length excluded < n then None
         else let a = copy_segments (map (\<lambda>k. (ks_base k, ks_length k)) (take n (kernel_sects mp))) 0 None excluded
              in Option.bind (round_excluded (Some 0) a)
                   (\<lambda>a. map_option (\<lambda>a. (0, a)) (merge_excluded 0 (sl_next (a ! 0)) a)))"

definition shrink_segment :: "Segment \<Rightarrow> Segment" where
  "shrink_segment g =
     (let new_base = s_base g;
          new_base = (if new_base mod PAGE_SIZE \<noteq> 0 then new_base + PAGE_SIZE - (new_base + PAGE_SIZE) mod PAGE_SIZE
                      else new_base);
          len = s_end g - new_base;
          len = len - len mod PAGE_SIZE
      in \<lparr>s_base = new_base, s_end = new_base + len, s_len = len\<rparr>)"

text \<open>The state of these loops is the array and the head of its list.\<close>

partial_function (option) shrink_free ::
  "nat option \<Rightarrow> nat option \<Rightarrow> nat option \<times> SegmentList list \<Rightarrow> (nat option \<times> SegmentList list) option" where
  "shrink_free prev cur st = (case cur of
     None \<Rightarrow> Some st
   | Some i \<Rightarrow>
       let (head, a) = st;
           a = a[i := (a ! i)\<lparr>sl_s := shrink_segment (sl_s (a ! i))\<rparr>];
           st = (if s_len (sl_s (a ! i)) = 0
                 then (case prev of
                         Some p \<Rightarrow> (head, a[p := (a ! p)\<lparr>sl_next := sl_next (a ! i)\<rparr>])
                       | None \<Rightarrow> (sl_next (a ! i), a))
                 else (head, a))
       in shrink_free (Some i) (sl_next (snd st ! i)) st)"

text \<open>Cutting the excluded segments (array \<open>ex\<close>) out of the free ones; \<open>i\<close> is the next unused entry.\<close>

partial_function (option) exclude_loop ::
  "SegmentList list \<Rightarrow> nat \<Rightarrow> nat option \<Rightarrow> nat option \<Rightarrow> nat option \<Rightarrow> nat option \<times> SegmentList list \<Rightarrow>
     (nat option \<times> SegmentList list) option" where
  "exclude_loop ex i prev fcurr ecurr st = (case (fcurr, ecurr) of
     (Some f, Some e) \<Rightarrow>
       (let (head, a) = st; F = sl_s (a ! f); E = sl_s (ex ! e)
        in if s_base F < s_base E \<and> s_end F > s_base E then
             let a = a[f := (a ! f)\<lparr>sl_s := F\<lparr>s_len := s_base E - s_base F\<rparr>\<rparr>]
             in if s_end F > s_end E then
                  if length a \<le> i then None
                  else let a = a[i := \<lparr>sl_next = sl_next (a ! f),
                                        sl_s = (sl_s (a ! i))\<lparr>s_base := s_end E, s_len := s_end F - s_end E\<rparr>\<rparr>];
                           a = a[f := (a ! f)\<lparr>sl_next := Some i\<rparr>]
                       in exclude_loop ex (Suc i) (Some f) (Some i) (sl_next (ex ! e)) (head, a)
                else exclude_loop ex i (Some f) (sl_next (a ! f)) ecurr (head, a)
           else if s_base F \<ge> s_base E \<and> s_base F < s_end E then
             if s_end F < s_end E then
               exclude_loop ex i prev fcurr ecurr
                 (case prev of
                    Some p \<Rightarrow> (head, a[p := (a ! p)\<lparr>sl_next := sl_next (a ! f)\<rparr>])
                  | None \<Rightarrow> (sl_next (a ! f), a))
             else
               exclude_loop ex i prev fcurr (sl_next (ex ! e))
                 (head, a[f := (a ! f)\<lparr>sl_s := F\<lparr>s_len := s_end F - s_end E, s_base := s_end E\<rparr>\<rparr>])
           else exclude_loop ex i (Some f) (sl_next (a ! f)) ecurr (head, a))
   | _ \<Rightarrow> Some st)"

text \<open>The page at address 0 is not used.\<close>

definition skip_page_0 :: "nat option \<times> SegmentList list \<Rightarrow> (nat option \<times> SegmentList list) option" where
  "skip_page_0 st = (case st of
     (None, a) \<Rightarrow> None
   | (Some h, a) \<Rightarrow> Some (
       let g = sl_s (a ! h)
       in if s_base g = NULL then
            if s_len g = PAGE_SIZE then (sl_next (a ! h), a)
            else (Some h, a[h := (a ! h)\<lparr>sl_s := g\<lparr>s_base := s_base g + PAGE_SIZE, s_len := s_len g - PAGE_SIZE\<rparr>\<rparr>])
          else (Some h, a)))"

definition mmu_compute_free_segments ::
  "PhysicalMMap \<Rightarrow> nat \<Rightarrow> SegmentList list \<Rightarrow> ('d, 'b) mm_scheme \<Rightarrow> ('d, 'b) mm_scheme option" where
  "mmu_compute_free_segments mp ex_head ex s =
     (let n = unat (num_mmap mp)
      in if length (ram_sects mp) < n \<or> length (free_segments s) < n then None
         else let a = copy_segments (map (\<lambda>m. (me_base m, me_length m)) (take n (ram_sects mp))) 0 None (free_segments s)
              in Option.bind (shrink_free None (Some 0) (Some 0, a))
                   (\<lambda>st. Option.bind (exclude_loop ex n None (fst st) (Some ex_head) st)
                     (\<lambda>st. map_option (\<lambda>(h, a). s\<lparr>free_segment_head := h, free_segments := a\<rparr>) (skip_page_0 st))))"

definition zero_SegmentList :: SegmentList where
  "zero_SegmentList = \<lparr>sl_next = None, sl_s = \<lparr>s_base = 0, s_end = 0, s_len = 0\<rparr>\<rparr>"

text \<open>\<open>excluded\<close> is the uninitialised array on the stack. The result is the return value and the new state.\<close>

definition MMU_init ::
  "PhysicalMMap \<Rightarrow> SegmentList list \<Rightarrow> ('d, 'b) mm_scheme \<Rightarrow> (int \<times> ('d, 'b) mm_scheme) option" where
  "MMU_init mp excluded s =
     (let s = s\<lparr>free_segments := replicate MAX_FREE_SEGMENTS zero_SegmentList, free_segment_head := None,
               free_page_head := NULL, free_page_tail := NULL, page_table := NULL,
               next_kernel_heap_vaddr := 0, next_kernel_thread_stack_vaddr := 0\<rparr>
      in if unat (num_kernel_sects mp) > MAX_EXCLUDE_SEGMENTS
         then Some (- 1, klog KLOG_LEVEL_EMERG ''too many kernel segments for MMU'' [] s)
         else Option.bind (mmu_compute_excluded mp excluded)
           (\<lambda>(ex_head, ex). Option.bind (mmu_compute_free_segments mp ex_head ex s)
             (\<lambda>s. let s = s\<lparr>next_kernel_heap_vaddr := MMAP_KERNEL_HEAP_START,
                           next_kernel_thread_stack_vaddr := MMAP_KERNEL_STACKS_END - 8\<rparr>;
                      (p, s) = MMU_alloc_frame s;
                      s = s\<lparr>page_table := p\<rparr>
                  in if p = NULL then Some (- 1, s)
                     else map_option (\<lambda>s. (0, PT_change p (PT_page_table_init p s))) (PT_init s))))"

section \<open>Arrays as lists of segments\<close>

definition segs :: "SegmentList list \<Rightarrow> nat list \<Rightarrow> Segment list" where
  "segs a is = map (\<lambda>i. sl_s (a ! i)) is"

lemma segs_simps [simp]: "segs a [] = []" "segs a (i # is) = sl_s (a ! i) # segs a is" "length (segs a is) = length is"
  by (simp_all add: segs_def)

lemma seg_chain_agree:
  "seg_chain a p is \<Longrightarrow> length b = length a \<Longrightarrow> (\<And>i. i \<in> set is \<Longrightarrow> sl_next (b ! i) = sl_next (a ! i)) \<Longrightarrow> seg_chain b p is"
  by (induction "is" arbitrary: p) auto

lemma segs_agree: "(\<And>i. i \<in> set is \<Longrightarrow> b ! i = a ! i) \<Longrightarrow> segs b is = segs a is"
  by (simp add: segs_def)

definition mk_segment :: "addr \<times> u64 \<Rightarrow> Segment" where
  "mk_segment x = \<lparr>s_base = fst x, s_end = fst x + snd x, s_len = snd x\<rparr>"

lemma copy_segments_spec:
  assumes "i + length xs \<le> length a" "\<forall>p. prev = Some p \<longrightarrow> p < i" "r = copy_segments xs i prev a"
  shows "length r = length a \<and> seg_chain r (if xs = [] then None else Some i) [i..<i + length xs] \<and>
    segs r [i..<i + length xs] = map mk_segment xs \<and>
    (\<forall>j. j < i \<or> i + length xs \<le> j \<longrightarrow> r ! j = (if prev = Some j \<and> xs \<noteq> [] then (a ! j)\<lparr>sl_next := Some i\<rparr> else a ! j))"
  using assms
proof (induction xs arbitrary: i prev a)
  case Nil
  then show ?case by simp
next
  case (Cons x xs)
  obtain b l where x: "x = (b, l)" by fastforce
  define a1 where "a1 = a[i := \<lparr>sl_next = None, sl_s = \<lparr>s_base = b, s_end = b + l, s_len = l\<rparr>\<rparr>]"
  define a2 where "a2 = (case prev of None \<Rightarrow> a1 | Some p \<Rightarrow> a1[p := (a1 ! p)\<lparr>sl_next := Some i\<rparr>])"
  have r: "r = copy_segments xs (Suc i) (Some i) a2"
    unfolding Cons.prems(3) x a2_def a1_def by (simp add: Let_def)
  have i: "i < length a" "\<forall>p. prev = Some p \<longrightarrow> p < i" using Cons.prems by auto
  have a2: "length a2 = length a" "a2 ! i = \<lparr>sl_next = None, sl_s = mk_segment x\<rparr>"
    "\<And>j. j \<noteq> i \<Longrightarrow> a2 ! j = (if prev = Some j then (a ! j)\<lparr>sl_next := Some i\<rparr> else a ! j)"
    using i by (auto simp: a2_def a1_def x mk_segment_def nth_list_update split: option.split)
  have IH: "length r = length a2" "seg_chain r (if xs = [] then None else Some (Suc i)) [Suc i..<Suc i + length xs]"
    "segs r [Suc i..<Suc i + length xs] = map mk_segment xs"
    "\<And>j. j < Suc i \<or> Suc i + length xs \<le> j \<Longrightarrow>
      r ! j = (if Some i = Some j \<and> xs \<noteq> [] then (a2 ! j)\<lparr>sl_next := Some (Suc i)\<rparr> else a2 ! j)"
    using Cons.IH [OF _ _ r] Cons.prems(1) a2(1) by (simp_all del: upt_Suc) auto
  have up: "[i..<Suc (i + length xs)] = i # [Suc i..<Suc (i + length xs)]"
    by (rule upt_conv_Cons) simp
  have ri: "r ! i = \<lparr>sl_next = (if xs = [] then None else Some (Suc i)), sl_s = mk_segment x\<rparr>"
    using IH(4) [of i] a2(2) by simp
  have "r ! j = (if prev = Some j then (a ! j)\<lparr>sl_next := Some i\<rparr> else a ! j)" if "j < i \<or> Suc i + length xs \<le> j" for j
    using IH(4) [of j] a2(3) [of j] that by auto
  then show ?case using IH(1,2,3) i(1) a2(1) ri by (simp add: up del: upt_Suc)
qed

lemma round_excluded_spec:
  assumes "seg_chain a p is" "distinct is"
  shows "\<exists>b. round_excluded p a = Some b \<and> seg_chain b p is \<and> segs b is = map round_segment (segs a is) \<and>
    length b = length a \<and> (\<forall>j. j \<notin> set is \<longrightarrow> b ! j = a ! j)"
  using assms
proof (induction "is" arbitrary: p a)
  case Nil
  then show ?case by (simp add: round_excluded.simps)
next
  case (Cons i "is")
  define a1 where "a1 = a[i := (a ! i)\<lparr>sl_s := round_segment (sl_s (a ! i))\<rparr>]"
  have i: "p = Some i" "i < length a" "i \<notin> set is" "seg_chain a (sl_next (a ! i)) is" "distinct is"
    using Cons.prems by auto
  have step: "round_excluded p a = round_excluded (sl_next (a1 ! i)) a1"
    using i(1,2) round_excluded.simps [of p a] by (simp add: a1_def Let_def)
  have "seg_chain a1 (sl_next (a1 ! i)) is"
    using i by (simp add: a1_def seg_chain_upd)
  then obtain b where b: "round_excluded (sl_next (a1 ! i)) a1 = Some b" "seg_chain b (sl_next (a1 ! i)) is"
    "segs b is = map round_segment (segs a1 is)" "length b = length a1" "\<forall>j. j \<notin> set is \<longrightarrow> b ! j = a1 ! j"
    using Cons.IH i(5) by blast
  have "segs a1 is = segs a is" using i(3) by (intro segs_agree) (metis a1_def nth_list_update_neq)
  then show ?case
    using b i step by (intro exI [of _ b]) (auto simp: a1_def)
qed

fun merge_list :: "Segment list \<Rightarrow> Segment list" where
  "merge_list (g # h # gs) =
     (if s_base g + s_len g < s_base h then g # merge_list (h # gs) else merge_list (extend_segment g h # gs))"
| "merge_list gs = gs"

lemma merge_excluded_spec:
  assumes "seg_chain a (Some p) (p # is)" "distinct (p # is)"
  shows "\<exists>b js. merge_excluded p (sl_next (a ! p)) a = Some b \<and> seg_chain b (Some p) (p # js) \<and> distinct (p # js) \<and>
    set js \<subseteq> set is \<and> segs b (p # js) = merge_list (segs a (p # is)) \<and> length b = length a \<and>
    (\<forall>j. j \<notin> set (p # is) \<longrightarrow> b ! j = a ! j)"
  using assms
proof (induction "is" arbitrary: p a)
  case Nil
  then show ?case by (intro exI [of _ a] exI [of _ "[]"]) (simp add: merge_excluded.simps)
next
  case (Cons c "is")
  have c: "sl_next (a ! p) = Some c" "p < length a" "c < length a" "seg_chain a (sl_next (a ! c)) is"
    "p \<noteq> c" "p \<notin> set is" "c \<notin> set is" "distinct is" using Cons.prems by auto
  note M = merge_excluded.simps [of p "sl_next (a ! p)" a]
  show ?case
  proof (cases "s_base (sl_s (a ! p)) + s_len (sl_s (a ! p)) < s_base (sl_s (a ! c))")
    case True
    have "seg_chain a (Some c) (c # is)" using c by simp
    then obtain b js where b: "merge_excluded c (sl_next (a ! c)) a = Some b" "seg_chain b (Some c) (c # js)"
      "distinct (c # js)" "set js \<subseteq> set is" "segs b (c # js) = merge_list (segs a (c # is))" "length b = length a"
      "\<forall>j. j \<notin> set (c # is) \<longrightarrow> b ! j = a ! j" using Cons.IH [of a c] c by auto
    have "b ! p = a ! p" using b(7) c by simp
    with b c True M show ?thesis by (intro exI [of _ b] exI [of _ "c # js"]) auto
  next
    case False
    define a1 where "a1 = a[p := \<lparr>sl_next = sl_next (a ! c), sl_s = extend_segment (sl_s (a ! p)) (sl_s (a ! c))\<rparr>]"
    have a1: "a1 ! p = \<lparr>sl_next = sl_next (a ! c), sl_s = extend_segment (sl_s (a ! p)) (sl_s (a ! c))\<rparr>"
      "length a1 = length a" "\<And>j. j \<noteq> p \<Longrightarrow> a1 ! j = a ! j" using c by (auto simp: a1_def)
    have "seg_chain a1 (sl_next (a ! c)) is" using c by (simp add: a1_def seg_chain_upd)
    then have "seg_chain a1 (Some p) (p # is)" using c a1 by simp
    then obtain b js where b: "merge_excluded p (sl_next (a1 ! p)) a1 = Some b" "seg_chain b (Some p) (p # js)"
      "distinct (p # js)" "set js \<subseteq> set is" "segs b (p # js) = merge_list (segs a1 (p # is))" "length b = length a1"
      "\<forall>j. j \<notin> set (p # is) \<longrightarrow> b ! j = a1 ! j" using Cons.IH [of a1 p] c by auto
    have "segs a1 is = segs a is" using c(6) a1(3) by (intro segs_agree) metis
    with b c a1 False M show ?thesis
      by (intro exI [of _ b] exI [of _ js]) (auto simp: Let_def a1_def [symmetric])
  qed
qed

section \<open>Segments as ranges of addresses\<close>

definition lo :: "Segment \<Rightarrow> nat" where "lo g = unat (s_base g)"
definition hi :: "Segment \<Rightarrow> nat" where "hi g = unat (s_base g) + unat (s_len g)"
definition addrs :: "Segment \<Rightarrow> nat set" where "addrs g = {lo g..<hi g}"

definition page_down :: "nat \<Rightarrow> nat" where "page_down n = n div 4096 * 4096"
definition page_up :: "nat \<Rightarrow> nat" where "page_up n = (n + 4095) div 4096 * 4096"

text \<open>The end of a segment is stored and lies in the address space.\<close>

definition ended :: "Segment \<Rightarrow> bool" where
  "ended g \<longleftrightarrow> s_end g = s_base g + s_len g \<and> hi g < 2 ^ 64"

lemma ended_end: "ended g \<Longrightarrow> unat (s_end g) = hi g"
  by (simp add: ended_def hi_def unat_word_ariths)

lemma lo_le_hi: "lo g \<le> hi g"
  by (simp add: lo_def hi_def)

lemma page_up_eq: "page_up n = (if n mod 4096 = 0 then n else n div 4096 * 4096 + 4096)"
proof -
  define q r where "q = n div 4096" and "r = n mod 4096"
  have n: "n = q * 4096 + r" "r < 4096" by (simp_all add: q_def r_def)
  have "(q * 4096 + r + 4095) div 4096 = (if r = 0 then q else q + 1)"
    using n(2) by (auto intro!: div_nat_eqI)
  moreover have "(q * 4096 + r) mod 4096 = r" "(q * 4096 + r) div 4096 = q" using n(2) by simp_all
  ultimately show ?thesis unfolding page_up_def n(1) by (simp del: mod_mult_self3 mod_mult_self4)
qed

lemma page_bounds: "page_down n \<le> n" "n \<le> page_up n" "page_up n < n + 4096" "n < page_down n + 4096"
  by (simp_all add: page_down_def page_up_def dividend_less_times_div)

lemma unat_mod_page: "unat (w mod PAGE_SIZE) = unat w mod 4096"
  by (simp add: PAGE_SIZE_def unat_mod)

lemma unat_round_down: "unat (w - w mod PAGE_SIZE) = page_down (unat w)"
proof -
  have "unat w mod 4096 \<le> unat w" by simp
  then have "unat (w - w mod PAGE_SIZE) = unat w - unat w mod 4096"
    by (metis unat_mod_page unat_sub word_le_nat_alt)
  then show ?thesis by (simp add: page_down_def minus_mod_eq_div_mult)
qed

lemma unat_round_up:
  assumes "unat w + 4096 < 2 ^ 64"
  shows "unat (if w mod PAGE_SIZE \<noteq> 0 then w + PAGE_SIZE - (w + PAGE_SIZE) mod PAGE_SIZE else w) = page_up (unat w)"
proof (cases "w mod PAGE_SIZE = 0")
  case True
  then have "unat w mod 4096 = 0" using unat_mod_page [of w] by simp
  with True show ?thesis by (simp add: page_up_eq)
next
  case False
  then have nz: "unat w mod 4096 \<noteq> 0"
    using unat_mod_page [of w] by (metis unsigned_0 word_unat_eq_iff)
  have "unat (w + PAGE_SIZE) = unat w + 4096"
    using assms by (simp add: unat_word_ariths PAGE_SIZE_def)
  with False nz show ?thesis by (simp add: unat_round_down page_up_eq) (simp add: page_down_def div_add_self2)
qed

lemma round_segment_range:
  assumes "hi g + 4096 < 2 ^ 64"
  shows "lo (round_segment g) = page_down (lo g)" "hi (round_segment g) = page_up (hi g)" "ended (round_segment g)"
proof -
  let ?b = "s_base g" and ?nb = "s_base g - s_base g mod PAGE_SIZE"
  define q r where "q = unat ?b div 4096" and "r = unat ?b mod 4096"
  have b: "unat ?b = q * 4096 + r" "r < 4096" by (simp_all add: q_def r_def)
  have nb: "unat ?nb = q * 4096" by (simp add: unat_round_down page_down_def q_def)
  have "unat (?b - ?nb) = r" by (simp add: unat_mod_page r_def)
  then have l: "unat (s_len g + (?b - ?nb)) = unat (s_len g) + r"
    using assms b by (simp add: unat_word_ariths hi_def)
  define l where "l = unat (s_len g) + r"
  have up: "q * 4096 + page_up l = page_up (q * 4096 + l)" by (simp add: page_up_def add.assoc)
  have len: "unat (s_len (round_segment g)) = page_up l" "s_base (round_segment g) = ?nb"
    using unat_round_up [of "s_len g + (?b - ?nb)"] assms b l
    by (simp_all add: round_segment_def Let_def l_def hi_def)
  show "lo (round_segment g) = page_down (lo g)"
    by (simp add: lo_def len nb page_down_def q_def)
  show hi: "hi (round_segment g) = page_up (hi g)"
    using b up by (simp add: hi_def len nb l_def algebra_simps)
  have "page_up (hi g) < 2 ^ 64" using assms page_bounds(3) [of "hi g"] by simp
  then show "ended (round_segment g)"
    using hi by (simp add: ended_def) (simp add: round_segment_def Let_def)
qed

lemma shrink_segment_range:
  assumes "ended g" "page_up (lo g) + 4096 \<le> hi g"
  shows "lo (shrink_segment g) = page_up (lo g)" "hi (shrink_segment g) = page_down (hi g)" "ended (shrink_segment g)"
proof -
  define nb where "nb = (if s_base g mod PAGE_SIZE \<noteq> 0
    then s_base g + PAGE_SIZE - (s_base g + PAGE_SIZE) mod PAGE_SIZE else s_base g)"
  have h: "hi g < 2 ^ 64" "unat (s_end g) = hi g" using assms(1) ended_end by (auto simp: ended_def)
  have "lo g + 4096 < 2 ^ 64" using h assms(2) page_bounds(2) [of "lo g"] by simp
  then have nb: "unat nb = page_up (lo g)" unfolding nb_def lo_def by (rule unat_round_up)
  define len where "len = s_end g - nb"
  have ul: "unat len = hi g - page_up (lo g)" using assms(2) h nb by (simp add: len_def unat_sub_if')
  have sh: "shrink_segment g = \<lparr>s_base = nb, s_end = nb + (len - len mod PAGE_SIZE), s_len = len - len mod PAGE_SIZE\<rparr>"
    unfolding shrink_segment_def nb_def len_def by (simp add: Let_def)
  have "page_up (lo g) = page_up (lo g) div 4096 * 4096" by (simp add: page_up_def)
  then obtain q where q: "page_up (lo g) = q * 4096" by metis
  have down: "q * 4096 + page_down (hi g - q * 4096) = page_down (hi g)"
  proof -
    have "hi g = q * 4096 + (hi g - q * 4096)" using assms(2) q by simp
    then have "hi g div 4096 = q + (hi g - q * 4096) div 4096" by (metis add.commute div_mult_self3 zero_neq_numeral)
    then show ?thesis by (simp add: page_down_def algebra_simps)
  qed
  show "lo (shrink_segment g) = page_up (lo g)" by (simp add: sh lo_def nb)
  show hi: "hi (shrink_segment g) = page_down (hi g)"
    using down q by (simp add: sh hi_def nb unat_round_down ul)
  have "page_down (hi g) < 2 ^ 64" using h(1) page_bounds(1) [of "hi g"] by linarith
  then show "ended (shrink_segment g)" using hi by (simp add: ended_def) (simp add: sh)
qed

lemma extend_segment_range:
  assumes "ended g" "ended h" "lo g \<le> lo h" "lo h \<le> hi g"
  shows "lo (extend_segment g h) = lo g" "hi (extend_segment g h) = max (hi g) (hi h)" "ended (extend_segment g h)"
    "addrs (extend_segment g h) = addrs g \<union> addrs h"
proof -
  have "unat (s_base h + s_len h) = hi h" using assms(2) ended_end [of h] by (simp add: ended_def)
  then have "unat ((s_base h + s_len h) - s_base g) = hi h - lo g"
    using assms(3) lo_le_hi [of h] by (simp add: unat_sub_if' lo_def hi_def)
  then have l: "unat (max (s_len g) ((s_base h + s_len h) - s_base g)) = max (unat (s_len g)) (hi h - lo g)"
    by (simp add: max_def word_le_nat_alt)
  show lo: "lo (extend_segment g h) = lo g" by (simp add: extend_segment_def lo_def Let_def)
  show hi: "hi (extend_segment g h) = max (hi g) (hi h)"
    using l assms(3) lo_le_hi [of h] by (auto simp: extend_segment_def Let_def hi_def lo_def max_def)
  have "max (hi g) (hi h) < 2 ^ 64" using assms(1,2) by (simp add: ended_def)
  then show "ended (extend_segment g h)"
    using hi by (simp add: ended_def) (simp add: extend_segment_def Let_def)
  show "addrs (extend_segment g h) = addrs g \<union> addrs h"
    using assms(3,4) by (auto simp: addrs_def lo hi)
qed

text \<open>Ascending segments with gaps between them, at page boundaries.\<close>

definition separated :: "Segment list \<Rightarrow> bool" where
  "separated gs \<longleftrightarrow> sorted_wrt (\<lambda>g h. hi g < lo h) gs"

definition paged :: "Segment \<Rightarrow> bool" where
  "paged g \<longleftrightarrow> ended g \<and> lo g mod 4096 = 0 \<and> hi g mod 4096 = 0"

definition all_addrs :: "Segment list \<Rightarrow> nat set" where
  "all_addrs gs = (\<Union>g\<in>set gs. addrs g)"

lemma all_addrs_simps [simp]: "all_addrs [] = {}" "all_addrs (g # gs) = addrs g \<union> all_addrs gs"
  by (simp_all add: all_addrs_def)

lemma paged_round: "hi g + 4096 < 2 ^ 64 \<Longrightarrow> paged (round_segment g)"
  using round_segment_range [of g] by (simp add: paged_def page_down_def page_up_def)

lemma paged_extend:
  assumes "paged g" "paged h" "lo g \<le> lo h" "lo h \<le> hi g"
  shows "paged (extend_segment g h)"
  using extend_segment_range [of g h] assms by (auto simp: paged_def max_def)

lemma merge_list_correct:
  assumes "sorted (map lo gs)" "\<forall>g\<in>set gs. paged g"
  shows "all_addrs (merge_list gs) = all_addrs gs \<and> separated (merge_list gs) \<and>
    (\<forall>g\<in>set (merge_list gs). paged g \<and> lo (hd gs) \<le> lo g)"
  using assms
proof (induction gs rule: merge_list.induct)
  case (1 g h gs)
  have e: "paged g" "paged h" "\<forall>k\<in>set gs. paged k" "lo g \<le> lo h" "sorted (map lo (h # gs))"
    "\<forall>k\<in>set gs. lo g \<le> lo k \<and> lo h \<le> lo k" using 1(3,4) by auto
  have cmp: "s_base g + s_len g < s_base h \<longleftrightarrow> hi g < lo h"
    using e(1) ended_end [of g] by (simp add: paged_def ended_def word_less_nat_alt lo_def)
  show ?case
  proof (cases "s_base g + s_len g < s_base h")
    case True
    then have "all_addrs (merge_list (h # gs)) = all_addrs (h # gs)" "separated (merge_list (h # gs))"
      "\<forall>k\<in>set (merge_list (h # gs)). paged k \<and> lo h \<le> lo k"
      using 1(1) e by auto
    with True cmp e(1,4) show ?thesis by (auto simp: separated_def)
  next
    case False
    then have le: "lo h \<le> hi g" by (simp add: cmp)
    have e': "lo (extend_segment g h) = lo g" "addrs (extend_segment g h) = addrs g \<union> addrs h"
      using extend_segment_range [of g h] e le by (auto simp: paged_def)
    have "sorted (map lo (extend_segment g h # gs))" "\<forall>k\<in>set (extend_segment g h # gs). paged k"
      using e e' paged_extend [OF e(1,2,4) le] by auto
    with 1(2) False have "all_addrs (merge_list (extend_segment g h # gs)) = all_addrs (extend_segment g h # gs)"
      "separated (merge_list (extend_segment g h # gs))"
      "\<forall>k\<in>set (merge_list (extend_segment g h # gs)). paged k \<and> lo (extend_segment g h) \<le> lo k" by auto
    with False e' show ?thesis by auto
  qed
qed (auto simp: separated_def)

text \<open>The excluded segments as a list.\<close>

definition sections :: "PhysicalMMap \<Rightarrow> (addr \<times> u64) list" where
  "sections mp = map (\<lambda>k. (ks_base k, ks_length k)) (take (unat (num_kernel_sects mp)) (kernel_sects mp))"

definition excluded_segments :: "PhysicalMMap \<Rightarrow> Segment list" where
  "excluded_segments mp = merge_list (map (\<lambda>x. round_segment (mk_segment x)) (sections mp))"

lemma mmu_compute_excluded_list:
  assumes "0 < unat (num_kernel_sects mp)" "unat (num_kernel_sects mp) \<le> length (kernel_sects mp)"
    "unat (num_kernel_sects mp) \<le> length excl"
  shows "\<exists>ex is. mmu_compute_excluded mp excl = Some (0, ex) \<and> seg_chain ex (Some 0) is \<and> distinct is \<and>
    segs ex is = excluded_segments mp"
proof -
  let ?n = "unat (num_kernel_sects mp)" and ?xs = "sections mp"
  define a where "a = copy_segments ?xs 0 None excl"
  have n: "length ?xs = ?n" using assms(2) by (simp add: sections_def)
  have "0 + length ?xs \<le> length excl" "\<forall>p. None = Some p \<longrightarrow> p < (0 :: nat)" using assms(3) n by auto
  moreover have "?xs \<noteq> []" using assms(1) n by (metis length_0_conv not_less_zero)
  ultimately have a: "seg_chain a (Some 0) [0..<?n]" "segs a [0..<?n] = map mk_segment ?xs"
    using copy_segments_spec [OF _ _ a_def] n by auto
  obtain b where b: "round_excluded (Some 0) a = Some b" "seg_chain b (Some 0) [0..<?n]"
    "segs b [0..<?n] = map (\<lambda>x. round_segment (mk_segment x)) ?xs"
    using round_excluded_spec [OF a(1)] a(2) by auto
  have up: "[0..<?n] = 0 # [1..<?n]" using assms(1) by (simp add: upt_conv_Cons)
  obtain c js where c: "merge_excluded 0 (sl_next (b ! 0)) b = Some c" "seg_chain c (Some 0) (0 # js)" "distinct (0 # js)"
    "segs c (0 # js) = merge_list (segs b (0 # [1..<?n]))"
    using merge_excluded_spec [of b 0 "[1..<?n]"] b(2) up by auto
  have "mmu_compute_excluded mp excl = Some (0, c)"
    using assms b(1) c(1) unfolding mmu_compute_excluded_def
    by (simp add: Let_def a_def sections_def)
  moreover have "segs c (0 # js) = excluded_segments mp"
    using c(4) b(3) by (simp only: up [symmetric] excluded_segments_def)
  ultimately show ?thesis using c(2,3) by blast
qed

text \<open>The range of addresses a section makes unavailable.\<close>

definition section_range :: "addr \<times> u64 \<Rightarrow> nat set" where
  "section_range x = {page_down (unat (fst x))..<page_up (unat (fst x) + unat (snd x))}"

definition sections_ok :: "PhysicalMMap \<Rightarrow> bool" where
  "sections_ok mp \<longleftrightarrow> 0 < unat (num_kernel_sects mp) \<and> unat (num_kernel_sects mp) \<le> length (kernel_sects mp) \<and>
     sorted (map (\<lambda>x. unat (fst x)) (sections mp)) \<and>
     (\<forall>x\<in>set (sections mp). unat (fst x) + unat (snd x) + 4096 < 2 ^ 64)"

lemma excluded_segments_correct:
  assumes "sections_ok mp"
  shows "all_addrs (excluded_segments mp) = (\<Union>x\<in>set (sections mp). section_range x)"
    "separated (excluded_segments mp)" "\<forall>g\<in>set (excluded_segments mp). paged g"
proof -
  let ?r = "\<lambda>x. round_segment (mk_segment x)" and ?xs = "sections mp"
  have r: "lo (?r x) = page_down (unat (fst x))" "hi (?r x) = page_up (unat (fst x) + unat (snd x))" "paged (?r x)"
    if "x \<in> set ?xs" for x
    using round_segment_range [of "mk_segment x"] paged_round [of "mk_segment x"] assms that
    by (auto simp: mk_segment_def hi_def lo_def sections_ok_def)
  have mono: "page_down m \<le> page_down n" if "m \<le> n" for m n
    using that by (simp add: page_down_def div_le_mono)
  have "map lo (map ?r ?xs) = map page_down (map (\<lambda>x. unat (fst x)) ?xs)" by (auto simp: r)
  then have "sorted (map lo (map ?r ?xs))"
    using assms mono by (auto simp: sections_ok_def sorted_map intro: sorted_wrt_mono_rel [rotated])
  then have m: "all_addrs (excluded_segments mp) = all_addrs (map ?r ?xs)" "separated (excluded_segments mp)"
    "\<forall>g\<in>set (excluded_segments mp). paged g"
    using merge_list_correct [of "map ?r ?xs"] r(3) by (auto simp: excluded_segments_def)
  moreover have "all_addrs (map ?r ?xs) = (\<Union>x\<in>set ?xs. section_range x)"
    by (auto simp: all_addrs_def addrs_def r section_range_def)
  ultimately show "all_addrs (excluded_segments mp) = (\<Union>x\<in>set ?xs. section_range x)"
    "separated (excluded_segments mp)" "\<forall>g\<in>set (excluded_segments mp). paged g" by simp_all
qed

section \<open>Cutting out one segment\<close>

lemma shrink_free_spec:
  assumes "seg_chain a p is" "distinct is" "\<forall>g\<in>set (segs a is). s_len (shrink_segment g) \<noteq> 0"
  shows "\<exists>b. shrink_free prev p (head, a) = Some (head, b) \<and> seg_chain b p is \<and>
    segs b is = map shrink_segment (segs a is) \<and> length b = length a \<and> (\<forall>j. j \<notin> set is \<longrightarrow> b ! j = a ! j)"
  using assms
proof (induction "is" arbitrary: p a prev)
  case Nil
  then show ?case by (simp add: shrink_free.simps)
next
  case (Cons i "is")
  define a1 where "a1 = a[i := (a ! i)\<lparr>sl_s := shrink_segment (sl_s (a ! i))\<rparr>]"
  have i: "p = Some i" "i < length a" "i \<notin> set is" "seg_chain a (sl_next (a ! i)) is" "distinct is"
    using Cons.prems by auto
  have step: "shrink_free prev p (head, a) = shrink_free (Some i) (sl_next (a1 ! i)) (head, a1)"
    using i(1,2) Cons.prems(3) shrink_free.simps [of prev p "(head, a)"] by (simp add: a1_def Let_def)
  have same: "segs a1 is = segs a is" using i(3) by (intro segs_agree) (metis a1_def nth_list_update_neq)
  have "seg_chain a1 (sl_next (a1 ! i)) is" using i by (simp add: a1_def seg_chain_upd)
  moreover have "\<forall>g\<in>set (segs a1 is). s_len (shrink_segment g) \<noteq> 0" using same Cons.prems(3) by simp
  ultimately obtain b where b: "shrink_free (Some i) (sl_next (a1 ! i)) (head, a1) = Some (head, b)"
    "seg_chain b (sl_next (a1 ! i)) is" "segs b is = map shrink_segment (segs a1 is)" "length b = length a1"
    "\<forall>j. j \<notin> set is \<longrightarrow> b ! j = a1 ! j"
    using Cons.IH i(5) by blast
  then show ?case using i step same by (intro exI [of _ b]) (auto simp: a1_def)
qed

text \<open>The list of free segments after cutting out \<open>E\<close>; \<open>z\<close> is the end the unused entry happens to hold.\<close>

fun cut_out :: "Segment \<Rightarrow> addr \<Rightarrow> Segment list \<Rightarrow> Segment list" where
  "cut_out E z [] = []"
| "cut_out E z (F # gs) =
     (if s_base F < s_base E \<and> s_end F > s_base E then
        if s_end F > s_end E
        then F\<lparr>s_len := s_base E - s_base F\<rparr> # \<lparr>s_base = s_end E, s_end = z, s_len = s_end F - s_end E\<rparr> # gs
        else F\<lparr>s_len := s_base E - s_base F\<rparr> # cut_out E z gs
      else if s_base F \<ge> s_base E \<and> s_base F < s_end E then
        F\<lparr>s_len := s_end F - s_end E, s_base := s_end E\<rparr> # gs
      else F # cut_out E z gs)"

text \<open>\<open>F\<close> starts in \<open>E\<close> and ends before it.\<close>

definition inside :: "Segment \<Rightarrow> Segment \<Rightarrow> bool" where
  "inside E F \<longleftrightarrow> s_base F \<ge> s_base E \<and> s_base F < s_end E \<and> s_end F < s_end E"

lemma exclude_loop_end [simp]: "exclude_loop ex i prev p None st = Some st" "exclude_loop ex i prev None q st = Some st"
  by (auto simp: exclude_loop.simps split: option.split)

lemma exclude_loop_spec:
  assumes "seg_chain a p is" "distinct is" "i \<notin> set is" "i < length a" "sl_next (ex ! e) = None"
    and "\<forall>F\<in>set (segs a is). \<not> inside (sl_s (ex ! e)) F"
  shows "\<exists>b js. exclude_loop ex i prev p (Some e) (head, a) = Some (head, b) \<and> seg_chain b p js \<and> distinct js \<and>
    set js \<subseteq> insert i (set is) \<and> segs b js = cut_out (sl_s (ex ! e)) (s_end (sl_s (a ! i))) (segs a is) \<and>
    length b = length a \<and> (\<forall>j. j \<notin> insert i (set is) \<longrightarrow> b ! j = a ! j)"
  using assms
proof (induction "is" arbitrary: p a prev)
  case Nil
  then show ?case by (intro exI [of _ a] exI [of _ "[]"]) simp
next
  case (Cons f "is")
  let ?E = "sl_s (ex ! e)" and ?F = "sl_s (a ! f)"
  have f: "p = Some f" "f < length a" "f \<notin> set is" "seg_chain a (sl_next (a ! f)) is" "distinct is" "f \<noteq> i" "i \<notin> set is"
    "i < length a" "\<not> inside ?E ?F" "\<forall>F\<in>set (segs a is). \<not> inside ?E F"
    using Cons.prems by auto
  note X = exclude_loop.simps [of ex i prev p "Some e" "(head, a)"]
  have go: "\<exists>b js. exclude_loop ex i (Some f) (sl_next (a ! f)) (Some e) (head, a[f := n]) = Some (head, b) \<and>
      seg_chain b p js \<and> distinct js \<and> set js \<subseteq> insert i (set (f # is)) \<and>
      segs b js = sl_s n # cut_out ?E (s_end (sl_s (a ! i))) (segs a is) \<and> length b = length a \<and>
      (\<forall>j. j \<notin> insert i (set (f # is)) \<longrightarrow> b ! j = a ! j)" if n: "sl_next n = sl_next (a ! f)" for n
  proof -
    have same: "segs (a[f := n]) is = segs a is" using f(3) by (intro segs_agree) (metis nth_list_update_neq)
    have "seg_chain (a[f := n]) (sl_next (a ! f)) is" using f by (simp add: seg_chain_upd)
    from Cons.IH [OF this f(5,7), where prev = "Some f"] f(6,8,10) Cons.prems(5) same obtain b js where b:
      "exclude_loop ex i (Some f) (sl_next (a ! f)) (Some e) (head, a[f := n]) = Some (head, b)"
      "seg_chain b (sl_next (a ! f)) js" "distinct js" "set js \<subseteq> insert i (set is)"
      "segs b js = cut_out ?E (s_end (sl_s (a ! i))) (segs a is)" "length b = length a"
      "\<forall>j. j \<notin> insert i (set is) \<longrightarrow> b ! j = a[f := n] ! j" by auto
    then have "b ! f = n" "f \<notin> set js" using f by auto
    with b f n show ?thesis by (intro exI [of _ b] exI [of _ "f # js"]) auto
  qed
  consider (split) "s_base ?F < s_base ?E \<and> s_end ?F > s_base ?E" "s_end ?F > s_end ?E"
    | (front) "s_base ?F < s_base ?E \<and> s_end ?F > s_base ?E" "\<not> s_end ?F > s_end ?E"
    | (rear) "\<not> (s_base ?F < s_base ?E \<and> s_end ?F > s_base ?E)" "s_base ?F \<ge> s_base ?E \<and> s_base ?F < s_end ?E"
    | (apart) "\<not> (s_base ?F < s_base ?E \<and> s_end ?F > s_base ?E)" "\<not> (s_base ?F \<ge> s_base ?E \<and> s_base ?F < s_end ?E)"
    by blast
  then show ?case
  proof cases
    case split
    define n where "n = (a ! f)\<lparr>sl_s := ?F\<lparr>s_len := s_base ?E - s_base ?F\<rparr>, sl_next := Some i\<rparr>"
    define m where "m = \<lparr>sl_next = sl_next (a ! f), sl_s = (sl_s (a ! i))\<lparr>s_base := s_end ?E, s_len := s_end ?F - s_end ?E\<rparr>\<rparr>"
    define b where "b = a[i := m, f := n]"
    have bf: "b ! f = n" "b ! i = m" "length b = length a" "\<And>j. j \<noteq> i \<Longrightarrow> j \<noteq> f \<Longrightarrow> b ! j = a ! j"
      using f by (auto simp: b_def)
    have "a[f := (a ! f)\<lparr>sl_s := ?F\<lparr>s_len := s_base ?E - s_base ?F\<rparr>\<rparr>, i := m, f := n] = b"
      using f(6) by (simp add: b_def list_update_swap)
    then have "exclude_loop ex i prev p (Some e) (head, a) = Some (head, b)"
      using X split f Cons.prems(5) by (simp add: Let_def n_def m_def)
    moreover have "seg_chain b p (f # i # is)"
      using f bf seg_chain_upd [of i "is" a m] seg_chain_upd [of f "is" "a[i := m]" n] by (simp add: b_def n_def m_def)
    moreover have "segs b is = segs a is" using f bf(4) by (intro segs_agree) metis
    ultimately show ?thesis
      using split f bf by (intro exI [of _ b] exI [of _ "f # i # is"]) (auto simp: n_def m_def)
  next
    case front
    with X f go [of "(a ! f)\<lparr>sl_s := ?F\<lparr>s_len := s_base ?E - s_base ?F\<rparr>\<rparr>"] show ?thesis
      by (auto simp: Let_def)
  next
    case rear
    define n where "n = (a ! f)\<lparr>sl_s := ?F\<lparr>s_len := s_end ?F - s_end ?E, s_base := s_end ?E\<rparr>\<rparr>"
    have "\<not> s_end ?F < s_end ?E" using f(9) rear(2) by (auto simp: inside_def)
    then have "exclude_loop ex i prev p (Some e) (head, a) = Some (head, a[f := n])"
      using X rear f Cons.prems(5) by (simp add: Let_def n_def)
    moreover have "segs (a[f := n]) is = segs a is" using f(3) by (intro segs_agree) (metis nth_list_update_neq)
    ultimately show ?thesis
      using rear f by (intro exI [of _ "a[f := n]"] exI [of _ "f # is"]) (auto simp: n_def seg_chain_upd)
  next
    case apart
    with X f go [of "a ! f"] show ?thesis by (auto simp: Let_def)
  qed
qed

text \<open>A non-empty run of pages.\<close>

definition area :: "Segment \<Rightarrow> bool" where
  "area g \<longleftrightarrow> lo g mod 4096 = 0 \<and> hi g mod 4096 = 0 \<and> lo g < hi g \<and> hi g < 2 ^ 64"

definition ascending :: "Segment list \<Rightarrow> bool" where
  "ascending gs \<longleftrightarrow> sorted_wrt (\<lambda>g h. hi g \<le> lo h) gs"

lemma front_range:
  assumes "lo F < lo E"
  shows "lo (F\<lparr>s_len := s_base E - s_base F\<rparr>) = lo F" "hi (F\<lparr>s_len := s_base E - s_base F\<rparr>) = lo E"
  using assms by (simp_all add: lo_def hi_def unat_sub_if')

lemma rear_range:
  assumes "s_base H = s_end E" "s_len H = s_end F - s_end E" "ended E" "ended F" "hi E \<le> hi F"
  shows "lo H = hi E" "hi H = hi F"
proof -
  have u: "unat (s_end E) = hi E" "unat (s_end F) = hi F" using assms(3,4) by (simp_all add: ended_end)
  then have "unat (s_len H) = hi F - hi E" using assms(2,5) by (simp add: unat_sub_if')
  with u assms(1,5) show "lo H = hi E" "hi H = hi F" by (simp_all add: lo_def [of H] hi_def [of H])
qed

lemma cut_out_correct:
  assumes "paged E" "ascending gs" "\<forall>F\<in>set gs. area F \<and> ended F \<and> \<not> (lo E \<le> lo F \<and> hi F \<le> hi E)"
  shows "all_addrs (cut_out E z gs) = all_addrs gs - addrs E \<and> ascending (cut_out E z gs) \<and>
    (\<forall>F\<in>set (cut_out E z gs). area F \<and> (\<forall>n. (\<forall>G\<in>set gs. n \<le> lo G) \<longrightarrow> n \<le> lo F))"
  using assms(2,3)
proof (induction gs)
  case Nil
  then show ?case by (simp add: ascending_def)
next
  case (Cons F gs)
  have F: "area F" "ended F" "\<not> (lo E \<le> lo F \<and> hi F \<le> hi E)" "\<forall>G\<in>set gs. hi F \<le> lo G \<and> area G" "ascending gs"
    "\<forall>F\<in>set gs. area F \<and> ended F \<and> \<not> (lo E \<le> lo F \<and> hi F \<le> hi E)"
    using Cons.prems by (auto simp: ascending_def)
  have eE: "ended E" "lo E mod 4096 = 0" "hi E mod 4096 = 0" using assms(1) by (auto simp: paged_def)
  have u: "unat (s_base F) = lo F" "unat (s_end F) = hi F" "unat (s_base E) = lo E" "unat (s_end E) = hi E"
    using F(2) eE(1) ended_end by (auto simp: lo_def)
  have c: "s_base F < s_base E \<longleftrightarrow> lo F < lo E" "s_end F > s_base E \<longleftrightarrow> lo E < hi F" "s_end F > s_end E \<longleftrightarrow> hi E < hi F"
    "s_base F \<ge> s_base E \<longleftrightarrow> lo E \<le> lo F" "s_base F < s_end E \<longleftrightarrow> lo F < hi E"
    by (simp_all add: word_less_nat_alt word_le_nat_alt u)
  have IH: "all_addrs (cut_out E z gs) = all_addrs gs - addrs E" "ascending (cut_out E z gs)"
    "\<forall>G\<in>set (cut_out E z gs). area G \<and> hi F \<le> lo G"
    using Cons.IH F(4,5,6) by auto
  have rest: "all_addrs gs - addrs E = all_addrs gs" if "hi E \<le> hi F"
    using F(4) that by (fastforce simp: all_addrs_def addrs_def)
  let ?G = "F\<lparr>s_len := s_base E - s_base F\<rparr>"
  have G: "lo ?G = lo F" "hi ?G = lo E" if "lo F < lo E"
    using that by (rule front_range)+
  have lE: "lo E \<le> hi E" "lo F < hi F" "hi F < 2 ^ 64" "lo F mod 4096 = 0" "hi F mod 4096 = 0"
    using F(1) lo_le_hi by (auto simp: area_def)
  consider (split) "lo F < lo E" "lo E < hi F" "hi E < hi F" | (front) "lo F < lo E" "lo E < hi F" "\<not> hi E < hi F"
    | (rear) "lo E \<le> lo F" "lo F < hi E" | (apart) "\<not> (lo F < lo E \<and> lo E < hi F)" "\<not> (lo E \<le> lo F \<and> lo F < hi E)"
    by linarith
  then show ?case
  proof cases
    case split
    let ?H = "\<lparr>s_base = s_end E, s_end = z, s_len = s_end F - s_end E\<rparr>"
    have H: "lo ?H = hi E" "hi ?H = hi F" using split F(2) eE(1) by (auto intro!: rear_range)
    have eq: "cut_out E z (F # gs) = ?G # ?H # gs" using split by (simp add: c)
    have "addrs ?G \<union> addrs ?H = addrs F - addrs E" using split G H lE by (auto simp: addrs_def)
    moreover have "area ?G" "area ?H" using split G H lE eE by (auto simp: area_def)
    ultimately show ?thesis
      unfolding eq using split G H rest F(4,5) lE
      by (auto simp: ascending_def Un_Diff intro: order.trans less_imp_le)
  next
    case front
    have eq: "cut_out E z (F # gs) = ?G # cut_out E z gs" using front by (simp add: c)
    have "addrs ?G = addrs F - addrs E" using front G lE by (auto simp: addrs_def)
    moreover have "area ?G" using front G lE eE by (auto simp: area_def)
    ultimately show ?thesis
      unfolding eq using front G IH lE Cons.IH [OF F(5,6)] by (auto simp: ascending_def Un_Diff)
  next
    case rear
    let ?H = "F\<lparr>s_len := s_end F - s_end E, s_base := s_end E\<rparr>"
    have lt: "hi E < hi F" using rear F(3) by simp
    have H: "lo ?H = hi E" "hi ?H = hi F" using lt F(2) eE(1) by (auto intro!: rear_range)
    have eq: "cut_out E z (F # gs) = ?H # gs" using rear by (simp add: c)
    have "addrs ?H = addrs F - addrs E" using rear H lE by (auto simp: addrs_def)
    moreover have "area ?H" using lt H lE eE by (auto simp: area_def)
    ultimately show ?thesis
      unfolding eq using rear lt H rest F(4,5) by (auto simp: ascending_def Un_Diff)
  next
    case apart
    have eq: "cut_out E z (F # gs) = F # cut_out E z gs" using apart by (auto simp: c)
    have "addrs F = addrs F - addrs E" using apart by (auto simp: addrs_def)
    then show ?thesis
      unfolding eq using IH F(1) Cons.IH [OF F(5,6)] by (auto simp: ascending_def Un_Diff)
  qed
qed

end
