(* ===== verification/Memory_Init.thy ===== *)
theory Memory_Init
  imports Segments
begin

text \<open>
  What \<open>MMU_init\<close> establishes. The lists of segments of \<open>Segments\<close> become the sequence of free
  frames of \<open>Frames\<close>; together with the first page table this is the invariant of the page
  tables and of the virtual memory. The last part shows the case in which the boot hangs.
\<close>

section \<open>Frames of areas\<close>

lemma area_seg_pages:
  assumes "area g"
  shows "unat ` set (seg_pages g) = {x \<in> addrs g. x mod 4096 = 0}" "distinct (map unat (seg_pages g))" "seg_ok g"
proof -
  obtain q where q: "lo g = q * 4096" using assms by (metis area_def mod_eq_0_iff_dvd dvd_def mult.commute)
  obtain r where r: "hi g = r * 4096" using assms by (metis area_def mod_eq_0_iff_dvd dvd_def mult.commute)
  have lt: "q < r" "r * 4096 < 2 ^ 64" using assms q r by (auto simp: area_def)
  then have len: "unat (s_len g) = (r - q) * 4096" using q r by (simp add: lo_def hi_def diff_mult_distrib)
  have "s_base g = of_nat (lo g)" by (simp add: lo_def)
  then have sb: "s_base g = of_nat (q * 4096)" by (simp only: q)
  have el: "unat (s_base g + of_nat k * PAGE_SIZE) = (q + k) * 4096" if k: "k < r - q" for k
  proof -
    have eq: "s_base g + of_nat k * PAGE_SIZE = of_nat ((q + k) * 4096)"
      by (simp add: sb PAGE_SIZE_def algebra_simps)
    have "(q + k) * 4096 < r * 4096" using k by simp
    then have "(q + k) * 4096 < 2 ^ LENGTH(64)" using lt(2) by simp
    then show ?thesis unfolding eq by (simp only: unat_of_nat mod_less)
  qed
  have m: "map unat (seg_pages g) = map (\<lambda>k. (q + k) * 4096) [0..<r - q]"
    unfolding seg_pages_def len map_map by (auto simp: el)
  show "distinct (map unat (seg_pages g))" unfolding m by (simp add: distinct_map inj_on_def)
  have "unat ` set (seg_pages g) = (\<lambda>k. (q + k) * 4096) ` {0..<r - q}"
    using arg_cong [OF m, of set] by simp
  also have "\<dots> = {x \<in> addrs g. x mod 4096 = 0}"
  proof (intro equalityI subsetI)
    fix x assume x: "x \<in> {x \<in> addrs g. x mod 4096 = 0}"
    then have "4096 dvd x" by (simp add: mod_eq_0_iff_dvd)
    then obtain j where j: "x = j * 4096" by (metis dvd_def mult.commute)
    then have "x = (q + (j - q)) * 4096" "j - q < r - q" using x by (auto simp: addrs_def q r)
    then show "x \<in> (\<lambda>k. (q + k) * 4096) ` {0..<r - q}" by auto
  qed (auto simp: addrs_def q r)
  finally show "unat ` set (seg_pages g) = {x \<in> addrs g. x mod 4096 = 0}" .
  show "seg_ok g" using len lt by (simp add: seg_ok_def word_less_nat_alt)
qed

definition pages_of :: "Segment list \<Rightarrow> addr list" where
  "pages_of gs = concat (map seg_pages gs)"

lemma pages_of_areas:
  assumes "\<forall>g\<in>set gs. area g" "ascending gs"
  shows "unat ` set (pages_of gs) = {x \<in> all_addrs gs. x mod 4096 = 0}" "distinct (map unat (pages_of gs))"
proof -
  show "unat ` set (pages_of gs) = {x \<in> all_addrs gs. x mod 4096 = 0}"
    using area_seg_pages(1) assms(1) unfolding pages_of_def all_addrs_def by (auto simp: image_UN)
  show "distinct (map unat (pages_of gs))"
    using assms
  proof (induction gs)
    case Nil
    then show ?case by (simp add: pages_of_def)
  next
    case (Cons g gs)
    have "addrs g \<inter> all_addrs gs = {}"
      using Cons.prems by (fastforce simp: ascending_def all_addrs_def addrs_def)
    moreover have "unat ` set (pages_of gs) \<subseteq> all_addrs gs" "unat ` set (seg_pages g) \<subseteq> addrs g"
      using area_seg_pages(1) Cons.prems(1) unfolding pages_of_def all_addrs_def by (auto simp: image_UN)
    ultimately show ?case
      using Cons area_seg_pages(2) [of g] by (auto simp: pages_of_def ascending_def)
  qed
qed

lemma free_frames_areas:
  assumes "seg_chain (free_segments s) (free_segment_head s) is" "distinct is" "free_page_head s = NULL"
    and gs: "segs (free_segments s) is = gs" "\<forall>g\<in>set gs. area g \<and> 0 < lo g" "ascending gs"
  shows "free_frames s (pages_of gs)"
proof -
  have P: "unat ` set (pages_of gs) = {x \<in> all_addrs gs. x mod 4096 = 0}" "distinct (map unat (pages_of gs))"
    using pages_of_areas gs(2,3) by auto
  have "usable_frame f" if f: "f \<in> set (pages_of gs)" for f
  proof -
    have "unat f \<in> all_addrs gs" "unat f mod 4096 = 0" using P(1) f by auto
    then show ?thesis using gs(2) by (auto simp: usable_frame_def page_aligned_def all_addrs_def addrs_def)
  qed
  moreover have "pages_of gs = concat (map (\<lambda>i. seg_pages (sl_s (free_segments s ! i))) is)"
    using gs(1) by (auto simp: pages_of_def segs_def comp_def)
  moreover have "\<forall>i\<in>set is. seg_ok (sl_s (free_segments s ! i))"
    using gs(1,2) area_seg_pages(3) by (auto simp: segs_def)
  ultimately show ?thesis
    using assms(1-3) P(2) unfolding free_frames_def
    by (intro exI [of _ "is"] exI [of _ "[]"]) (auto simp: distinct_map)
qed

section \<open>The page at address 0\<close>

fun drop_page_0 :: "Segment list \<Rightarrow> Segment list" where
  "drop_page_0 [] = []"
| "drop_page_0 (g # gs) =
     (if s_base g = NULL then if s_len g = PAGE_SIZE then gs
        else g\<lparr>s_base := s_base g + PAGE_SIZE, s_len := s_len g - PAGE_SIZE\<rparr> # gs
      else g # gs)"

lemma skip_page_0_spec:
  assumes "seg_chain a p is" "distinct is" "is \<noteq> []"
  shows "\<exists>q b js. skip_page_0 (p, a) = Some (q, b) \<and> seg_chain b q js \<and> distinct js \<and> segs b js = drop_page_0 (segs a is)"
proof -
  obtain h ks where "is": "is = h # ks" using assms(3) by (cases "is") auto
  let ?g = "sl_s (a ! h)"
  let ?n = "(a ! h)\<lparr>sl_s := ?g\<lparr>s_base := s_base ?g + PAGE_SIZE, s_len := s_len ?g - PAGE_SIZE\<rparr>\<rparr>"
  have h: "p = Some h" "h < length a" "h \<notin> set ks" "seg_chain a (sl_next (a ! h)) ks" "distinct ks"
    using assms(1,2) "is" by auto
  have "segs (a[h := ?n]) ks = segs a ks" using h(3) by (intro segs_agree) (metis nth_list_update_neq)
  then show ?thesis
    using h "is" seg_chain_upd [OF h(3), of a ?n]
    by (cases "s_base ?g = NULL"; cases "s_len ?g = PAGE_SIZE")
      (auto simp: skip_page_0_def Let_def intro: exI [of _ ks] exI [of _ "h # ks"])
qed

lemma drop_page_0_correct:
  assumes "\<forall>g\<in>set gs. area g" "ascending gs"
  shows "all_addrs (drop_page_0 gs) = all_addrs gs - {0..<4096}" "ascending (drop_page_0 gs)"
    "\<forall>g\<in>set (drop_page_0 gs). area g \<and> 0 < lo g"
proof -
  have "all_addrs (drop_page_0 gs) = all_addrs gs - {0..<4096} \<and> ascending (drop_page_0 gs) \<and>
    (\<forall>g\<in>set (drop_page_0 gs). area g \<and> 0 < lo g)"
  proof (cases gs)
    case Nil
    then show ?thesis by (simp add: ascending_def)
  next
    case (Cons g hs)
    have g: "lo g mod 4096 = 0" "hi g mod 4096 = 0" "lo g < hi g" "hi g < 2 ^ 64" "\<forall>h\<in>set hs. area h \<and> hi g \<le> lo h"
      "ascending hs"
      using assms Cons by (auto simp: area_def ascending_def)
    have h4: "4096 \<le> hi g" using g(2,3) by (cases "hi g < 4096") auto
    have rest: "all_addrs hs - {0..<4096} = all_addrs hs" "\<forall>h\<in>set hs. 0 < lo h"
      using g(5) h4 by (fastforce simp: all_addrs_def addrs_def)+
    let ?h = "g\<lparr>s_base := s_base g + PAGE_SIZE, s_len := s_len g - PAGE_SIZE\<rparr>"
    consider (no) "s_base g \<noteq> NULL" | (all) "s_base g = NULL" "s_len g = PAGE_SIZE"
      | (some) "s_base g = NULL" "s_len g \<noteq> PAGE_SIZE" by blast
    then show ?thesis
    proof cases
      case no
      then have "0 < lo g" by (simp add: lo_def word_greater_zero_iff unat_gt_0)
      then have "4096 \<le> lo g" using g(1) by (cases "lo g < 4096") auto
      then have "addrs g - {0..<4096} = addrs g" by (auto simp: addrs_def)
      with no Cons rest assms \<open>0 < lo g\<close> show ?thesis by (auto simp: Un_Diff)
    next
      case all
      then have "lo g = 0" "hi g = 4096" by (simp_all add: lo_def hi_def PAGE_SIZE_def)
      with all Cons rest assms g show ?thesis by (auto simp: addrs_def ascending_def)
    next
      case some
      have lg: "lo g = 0" "unat (s_len g) = hi g" using some by (simp_all add: lo_def hi_def)
      have "unat (s_len g) \<noteq> 4096" using some(2) by (auto simp: PAGE_SIZE_def word_unat_eq_iff)
      then have gt: "4096 < hi g" using h4 lg by simp
      have "lo ?h = 4096" "hi ?h = hi g"
        using some lg h4 by (simp_all add: lo_def hi_def PAGE_SIZE_def unat_sub_if')
      with some Cons rest assms g gt lg show ?thesis by (auto simp: addrs_def ascending_def area_def)
    qed
  qed
  then show "all_addrs (drop_page_0 gs) = all_addrs gs - {0..<4096}" "ascending (drop_page_0 gs)"
    "\<forall>g\<in>set (drop_page_0 gs). area g \<and> 0 < lo g" by auto
qed

section \<open>The free segments\<close>

definition ram :: "PhysicalMMap \<Rightarrow> (addr \<times> u64) list" where
  "ram mp = map (\<lambda>m. (me_base m, me_length m)) (take (unat (num_mmap mp)) (ram_sects mp))"

text \<open>The whole pages of an area of RAM.\<close>

definition ram_range :: "addr \<times> u64 \<Rightarrow> nat set" where
  "ram_range x = {page_up (unat (fst x))..<page_down (unat (fst x) + unat (snd x))}"

text \<open>A memory map as \<open>MMU_init\<close> expects it: ascending areas, each of which contains a whole page.\<close>

definition ram_ok :: "PhysicalMMap \<Rightarrow> bool" where
  "ram_ok mp \<longleftrightarrow> 0 < unat (num_mmap mp) \<and> unat (num_mmap mp) \<le> length (ram_sects mp) \<and>
     unat (num_mmap mp) < MAX_FREE_SEGMENTS \<and>
     sorted_wrt (\<lambda>x y. unat (fst x) + unat (snd x) \<le> unat (fst y)) (ram mp) \<and>
     (\<forall>x\<in>set (ram mp). page_up (unat (fst x)) + 4096 \<le> unat (fst x) + unat (snd x) \<and>
        unat (fst x) + unat (snd x) < 2 ^ 40)"

definition shrunk :: "PhysicalMMap \<Rightarrow> Segment list" where
  "shrunk mp = map (\<lambda>x. shrink_segment (mk_segment x)) (ram mp)"

lemma shrunk_areas:
  assumes "ram_ok mp"
  shows "all_addrs (shrunk mp) = (\<Union>x\<in>set (ram mp). ram_range x)" "ascending (shrunk mp)"
    "\<forall>g\<in>set (shrunk mp). area g \<and> ended g \<and> s_len g \<noteq> 0 \<and> hi g \<le> 2 ^ 40"
proof -
  let ?r = "\<lambda>x. shrink_segment (mk_segment x)"
  have r: "lo (?r x) = page_up (unat (fst x))" "hi (?r x) = page_down (unat (fst x) + unat (snd x))" "ended (?r x)"
    and b: "page_up (unat (fst x)) + 4096 \<le> unat (fst x) + unat (snd x)" "unat (fst x) + unat (snd x) < 2 ^ 40"
    if "x \<in> set (ram mp)" for x
    using shrink_segment_range [of "mk_segment x"] assms that
    by (auto simp: mk_segment_def hi_def lo_def ram_ok_def ended_def)
  have ar: "area (?r x) \<and> hi (?r x) \<le> 2 ^ 40 \<and> s_len (?r x) \<noteq> 0" if "x \<in> set (ram mp)" for x
  proof -
    let ?e = "unat (fst x) + unat (snd x)"
    have "page_up (unat (fst x)) < page_down ?e" using b [OF that] page_bounds(4) [of ?e] by linarith
    moreover have "page_down ?e \<le> 2 ^ 40" using b(2) [OF that] page_bounds(1) [of ?e] by linarith
    ultimately have "lo (?r x) < hi (?r x)" "hi (?r x) \<le> 2 ^ 40" using r [OF that] by simp_all
    then show ?thesis
      using r(1,2) [OF that] by (auto simp: area_def) (auto simp: page_up_def page_down_def lo_def hi_def)
  qed
  show "all_addrs (shrunk mp) = (\<Union>x\<in>set (ram mp). ram_range x)"
    by (auto simp: shrunk_def all_addrs_def addrs_def r ram_range_def)
  have "sorted_wrt (\<lambda>x y. hi (?r x) \<le> lo (?r y)) (ram mp)"
  proof (rule sorted_wrt_mono_rel)
    show "sorted_wrt (\<lambda>x y. unat (fst x) + unat (snd x) \<le> unat (fst y)) (ram mp)"
      using assms by (simp add: ram_ok_def)
    show "hi (?r x) \<le> lo (?r y)"
      if "x \<in> set (ram mp)" "y \<in> set (ram mp)" "unat (fst x) + unat (snd x) \<le> unat (fst y)" for x y
      using that(3) page_bounds(1) [of "unat (fst x) + unat (snd x)"] page_bounds(2) [of "unat (fst y)"]
      by (simp add: r that(1,2))
  qed
  then show "ascending (shrunk mp)" by (simp add: ascending_def shrunk_def sorted_wrt_map)
  show "\<forall>g\<in>set (shrunk mp). area g \<and> ended g \<and> s_len g \<noteq> 0 \<and> hi g \<le> 2 ^ 40"
    using ar r(3) by (auto simp: shrunk_def)
qed

text \<open>What is left of the RAM when one contiguous image \<open>E\<close> is excluded.\<close>

definition free_addrs :: "PhysicalMMap \<Rightarrow> nat set" where
  "free_addrs mp = (\<Union>x\<in>set (ram mp). ram_range x) - (\<Union>x\<in>set (sections mp). section_range x) - {0..<4096}"

text \<open>The kernel is loaded as one contiguous image (all its sections merge to one segment), no area of
  RAM lies completely inside of it, and some RAM is left.\<close>

definition image_ok :: "PhysicalMMap \<Rightarrow> Segment \<Rightarrow> bool" where
  "image_ok mp E \<longleftrightarrow> sections_ok mp \<and> excluded_segments mp = [E] \<and>
     (\<forall>x\<in>set (ram mp). \<not> (lo E \<le> page_up (unat (fst x)) \<and> page_down (unat (fst x) + unat (snd x)) \<le> hi E))"

lemma compute_free_segments_correct:
  assumes ram: "ram_ok mp" and img: "image_ok mp E"
    and ex: "sl_s (ex ! e) = E" "sl_next (ex ! e) = None"
    and s: "free_segments s = replicate MAX_FREE_SEGMENTS zero_SegmentList"
  shows "\<exists>q b js. mmu_compute_free_segments mp e ex s = Some (s\<lparr>free_segment_head := q, free_segments := b\<rparr>) \<and>
    seg_chain b q js \<and> distinct js \<and> all_addrs (segs b js) = free_addrs mp \<and> ascending (segs b js) \<and>
    (\<forall>g\<in>set (segs b js). area g \<and> 0 < lo g)"
proof -
  let ?n = "unat (num_mmap mp)" and ?xs = "ram mp"
  have n: "length ?xs = ?n" "0 < ?n" "?n < 32" "?n \<le> length (ram_sects mp)"
    using ram by (auto simp: ram_ok_def ram_def MAX_FREE_SEGMENTS_def)
  have len: "length (free_segments s) = 32" by (simp add: s MAX_FREE_SEGMENTS_def)
  define a where "a = copy_segments ?xs 0 None (free_segments s)"
  have "?xs \<noteq> []" using n(1,2) by (metis length_0_conv not_less_zero)
  then have a: "seg_chain a (Some 0) [0..<?n]" "segs a [0..<?n] = map mk_segment ?xs" "length a = 32"
    using copy_segments_spec [OF _ _ a_def] n len by auto
  note sh = shrunk_areas [OF ram]
  have "\<forall>g\<in>set (segs a [0..<?n]). s_len (shrink_segment g) \<noteq> 0"
    using sh(3) by (auto simp: a(2) shrunk_def)
  then obtain b where b: "shrink_free None (Some 0) (Some 0, a) = Some (Some 0, b)" "seg_chain b (Some 0) [0..<?n]"
    "segs b [0..<?n] = shrunk mp" "length b = length a"
    using shrink_free_spec [OF a(1), of None "Some 0"] a(2) by (auto simp: shrunk_def)
  have E: "paged E" "all_addrs [E] = (\<Union>x\<in>set (sections mp). section_range x)"
    using excluded_segments_correct [of mp] img by (auto simp: image_ok_def)
  have r: "lo (shrink_segment (mk_segment x)) = page_up (unat (fst x))"
    "hi (shrink_segment (mk_segment x)) = page_down (unat (fst x) + unat (snd x))" if "x \<in> set ?xs" for x
    using shrink_segment_range [of "mk_segment x"] ram that
    by (auto simp: mk_segment_def hi_def lo_def ram_ok_def ended_def)
  have nin: "\<forall>F\<in>set (shrunk mp). area F \<and> ended F \<and> \<not> (lo E \<le> lo F \<and> hi F \<le> hi E)"
    using sh(3) img by (auto simp: shrunk_def r image_ok_def)
  have "\<forall>F\<in>set (segs b [0..<?n]). \<not> inside (sl_s (ex ! e)) F"
  proof
    fix F assume "F \<in> set (segs b [0..<?n])"
    then have F: "ended F" "\<not> (lo E \<le> lo F \<and> hi F \<le> hi E)" using nin b(3) by auto
    show "\<not> inside (sl_s (ex ! e)) F"
      using F ended_end [of F] ended_end [of E] E(1)
      by (auto simp: ex inside_def paged_def word_le_nat_alt word_less_nat_alt lo_def)
  qed
  then obtain c js where c: "exclude_loop ex ?n None (Some 0) (Some e) (Some 0, b) = Some (Some 0, c)"
    "seg_chain c (Some 0) js" "distinct js" "segs c js = cut_out E (s_end (sl_s (b ! ?n))) (shrunk mp)"
    using exclude_loop_spec [OF b(2), of ?n ex e None "Some 0"] ex(2) n(3) a(3) b(3,4) by (auto simp: ex(1))
  note cut = cut_out_correct [OF E(1) sh(2) nin, of "s_end (sl_s (b ! ?n))"]
  have "js \<noteq> []" using c(2) by (cases js) auto
  then obtain q d ks where d: "skip_page_0 (Some 0, c) = Some (q, d)" "seg_chain d q ks" "distinct ks"
    "segs d ks = drop_page_0 (segs c js)" using skip_page_0_spec [OF c(2,3)] by blast
  have areas: "\<forall>g\<in>set (segs c js). area g" "ascending (segs c js)" using cut c(4) by auto
  note dr = drop_page_0_correct [OF areas]
  have "mmu_compute_free_segments mp e ex s = Some (s\<lparr>free_segment_head := q, free_segments := d\<rparr>)"
    using n len b(1) c(1) d(1) unfolding mmu_compute_free_segments_def
    by (simp add: Let_def ram_def [symmetric] a_def [symmetric])
  moreover have "all_addrs (segs d ks) = free_addrs mp"
    using dr(1) cut c(4) sh(1) E(2) by (auto simp: d(4) free_addrs_def)
  ultimately show ?thesis using d dr by (intro exI [of _ q] exI [of _ d] exI [of _ ks]) auto
qed

section \<open>The first page table\<close>

lemma first_page_table:
  assumes "m = pte_set_addr r i3 (init_empty_page_table r m0)" "valid_path q" "q \<noteq> []"
  shows "node m r q = None"
proof -
  let ?i = "last q"
  have i: "?i < 512" "?i \<noteq> 0" using assms(2,3) by (auto simp: valid_path_def)
  have "unat (8 * ?i) = 8 * unat ?i"
    using i(1) by (simp add: unat_word_ariths word_less_nat_alt)
  then have "r + 8 * ?i \<noteq> r" using i(2) by (metis add_cancel_left_right mult_eq_0_iff unsigned_0 unsigned_eq_0_iff zero_neq_numeral)
  then have "m (r + 8 * ?i) = 0" using i(1) by (simp add: assms(1) pte_set_addr_eq init_empty_page_table_at)
  then have "node m r [?i] = None" by (simp add: pte_present_def)
  moreover have "suffix [?i] q" using assms(3) by (metis append_butlast_last_id suffix_def)
  ultimately show ?thesis using node_None_suffix by blast
qed

lemma free_frames_no_list:
  assumes "free_frames s fs" "free_page_head s = NULL" "free_page_head s' = NULL"
    "free_segments s' = free_segments s" "free_segment_head s' = free_segment_head s"
  shows "free_frames s' fs"
proof -
  have nil: "flist m NULL ls \<longleftrightarrow> ls = []" for m ls by (cases ls) auto
  show ?thesis using assms unfolding free_frames_def by (simp add: nil)
qed

lemma PT_init_frame:
  assumes "PAGE_FAULT_IRQ < length (handlers s)"
  shows "\<exists>s'. PT_init s = Some s' \<and> free_segments s' = free_segments s \<and> free_segment_head s' = free_segment_head s \<and>
    free_page_head s' = free_page_head s \<and> next_kernel_heap_vaddr s' = next_kernel_heap_vaddr s \<and>
    next_kernel_thread_stack_vaddr s' = next_kernel_thread_stack_vaddr s \<and>
    handler (handlers s' ! PAGE_FAULT_IRQ) = Some Page_fault_handler"
  using assms by (auto simp: PT_init_def IRQ_set_handler_def Let_def PAGE_FAULT_IRQ_def)

lemma free_addrs_bound:
  assumes "ram_ok mp" "x \<in> free_addrs mp"
  shows "x < 2 ^ 40"
proof -
  obtain r where r: "r \<in> set (ram mp)" "x \<in> ram_range r" using assms(2) by (auto simp: free_addrs_def)
  then have "x < page_down (unat (fst r) + unat (snd r))" by (simp add: ram_range_def)
  also have "\<dots> \<le> unat (fst r) + unat (snd r)" by (rule page_bounds(1))
  also have "\<dots> < 2 ^ 40" using assms(1) r(1) by (auto simp: ram_ok_def)
  finally show ?thesis .
qed

lemma MMU_init_correct:
  assumes ram: "ram_ok mp" and img: "image_ok mp E"
    and room: "unat (num_kernel_sects mp) \<le> MAX_EXCLUDE_SEGMENTS" "length excl = MAX_EXCLUDE_SEGMENTS"
    and left: "\<exists>x\<in>free_addrs mp. x mod 4096 = 0" and hs: "PAGE_FAULT_IRQ < length (handlers s)"
  shows "\<exists>s' fs. MMU_init mp excl s = Some (0, s') \<and> pt_ok s' fs \<and> heap_cursor s' \<and> stack_room s' \<and>
    handler (handlers s' ! PAGE_FAULT_IRQ) = Some Page_fault_handler \<and> cr3 s' \<notin> set fs \<and>
    insert (unat (cr3 s')) (unat ` set fs) = {x \<in> free_addrs mp. x mod 4096 = 0}"
proof -
  define s0 where "s0 = s\<lparr>free_segments := replicate MAX_FREE_SEGMENTS zero_SegmentList, free_segment_head := None,
    free_page_head := NULL, free_page_tail := NULL, page_table := NULL,
    next_kernel_heap_vaddr := 0, next_kernel_thread_stack_vaddr := 0\<rparr>"
  obtain ex "is" where ex: "mmu_compute_excluded mp excl = Some (0, ex)" "seg_chain ex (Some 0) is"
    "segs ex is = [E]"
    using mmu_compute_excluded_list [of mp excl] img room by (auto simp: image_ok_def sections_ok_def)
  then have E: "sl_s (ex ! 0) = E" "sl_next (ex ! 0) = None" by (auto simp: segs_def Cons_eq_map_conv map_eq_Cons_conv)
  obtain q b js where f: "mmu_compute_free_segments mp 0 ex s0 = Some (s0\<lparr>free_segment_head := q, free_segments := b\<rparr>)"
    "seg_chain b q js" "distinct js" "all_addrs (segs b js) = free_addrs mp" "ascending (segs b js)"
    "\<forall>g\<in>set (segs b js). area g \<and> 0 < lo g"
    using compute_free_segments_correct [OF ram img E, of s0] by (auto simp: s0_def)
  define s1 where "s1 = s0\<lparr>free_segment_head := q, free_segments := b, next_kernel_heap_vaddr := MMAP_KERNEL_HEAP_START,
    next_kernel_thread_stack_vaddr := MMAP_KERNEL_STACKS_END - 8\<rparr>"
  let ?fs = "pages_of (segs b js)"
  have fr: "free_frames s1 ?fs" "free_page_head s1 = NULL"
    using free_frames_areas [of s1 js "segs b js"] f(2,3,5,6) by (simp_all add: s1_def s0_def)
  have P: "unat ` set ?fs = {x \<in> free_addrs mp. x mod 4096 = 0}"
    using pages_of_areas(1) [of "segs b js"] f(4-6) by simp
  then have ne: "?fs \<noteq> []" using left by auto
  then have q: "free_segment_head s1 \<noteq> None"
    using f(2) by (cases js) (auto simp: pages_of_def s1_def)
  obtain p gs where pg: "?fs = p # gs" using ne by (cases ?fs) auto
  define s2 where "s2 = (snd (MMU_alloc_frame s1))\<lparr>page_table := p\<rparr>"
  have al: "fst (MMU_alloc_frame s1) = p" "p \<noteq> NULL" "free_frames s2 gs" "free_page_head s2 = NULL" "p \<notin> set gs"
    using mmu.alloc_Cons [of s1 p gs] mmu.frames_usable [OF fr(1)] mmu.frames_distinct [OF fr(1)] fr pg
      MMU_alloc_frame_head(1) [OF q] free_frames_cong [of s2 "snd (MMU_alloc_frame s1)" gs]
    by (auto simp: s2_def usable_frame_def)
  have "handlers s2 = handlers s"
    by (simp add: s2_def s1_def s0_def MMU_alloc_frame_def Let_def split: option.split)
  then obtain s3 where s3: "PT_init s2 = Some s3" "free_segments s3 = free_segments s2"
    "free_segment_head s3 = free_segment_head s2" "free_page_head s3 = NULL"
    "next_kernel_heap_vaddr s3 = next_kernel_heap_vaddr s2"
    "next_kernel_thread_stack_vaddr s3 = next_kernel_thread_stack_vaddr s2"
    "handler (handlers s3 ! PAGE_FAULT_IRQ) = Some Page_fault_handler"
    using PT_init_frame [of s2] hs al(4) by auto
  define t where "t = PT_change p (PT_page_table_init p s3)"
  have init: "MMU_init mp excl s = Some (0, t)"
    using room(1) ex(1) f(1) s3(1) al(1,2) unfolding MMU_init_def
    by (auto simp: Let_def s0_def [symmetric] s1_def [symmetric] t_def s2_def split: prod.split)
  have tree: "node (pmem t) (cr3 t) q = Some a \<longleftrightarrow> q = [] \<and> a = p" if "valid_path q" for q a
    using first_page_table [OF _ that, of "pmem t" p] that
    by (cases "q = []") (auto simp: t_def PT_change_def PT_page_table_init_def)
  have pf: "pt_frame x" if "x \<in> set ?fs" for x
  proof -
    have "unat x < 2 ^ 40" using P that free_addrs_bound [OF ram] by blast
    then show ?thesis
      using mmu.frames_usable [OF fr(1) that] by (simp add: pt_frame_def word_less_nat_alt)
  qed
  have "free_frames t gs"
    using free_frames_no_list [OF al(3,4), of t] s3 by (simp add: t_def PT_change_def PT_page_table_init_def)
  then have ok: "pt_ok t gs" using pf pg tree al(5) unfolding pt_ok_def by auto
  have cur: "next_kernel_heap_vaddr t = MMAP_KERNEL_HEAP_START" "next_kernel_thread_stack_vaddr t = MMAP_KERNEL_STACKS_END - 8"
    "cr3 t = p" "handlers t = handlers s3"
    by (simp_all add: t_def PT_change_def PT_page_table_init_def s3 s2_def s1_def)
  have "heap_cursor t" unfolding heap_cursor_def by (rule exI [of _ 0]) (simp add: cur)
  moreover have "stack_room t" by (simp add: stack_room_def cur mmap_consts)
  moreover have "insert (unat (cr3 t)) (unat ` set gs) = {x \<in> free_addrs mp. x mod 4096 = 0}"
    using P pg cur(3) by auto
  ultimately show ?thesis using init ok al(5) s3(7) cur by (intro exI [of _ t] exI [of _ gs]) auto
qed

section \<open>A loop that does not end\<close>

lemma exclude_loop_deletes:
  assumes "f \<noteq> i" "prev \<noteq> Some f" "inside (sl_s (ex ! e)) (sl_s (a ! f))"
    "exclude_loop ex i prev (Some f) (Some e) (head, a) = Some r"
  shows False
proof -
  let ?P = "\<lambda>ex' i' prev' fc ec st. ex' = ex \<and> i' = i \<and> prev' = prev \<and> fc = Some f \<and> ec = Some e \<and>
    sl_s (snd st ! f) = sl_s (a ! f)"
  have "?P ex i prev (Some f) (Some e) (head, a) \<longrightarrow> False"
  proof (rule exclude_loop.raw_induct [where P = "\<lambda>ex' i' prev' fc ec st r'. ?P ex' i' prev' fc ec st \<longrightarrow> False", OF _ assms(4)], goal_cases)
    case (1 g ex' i' prev' fc ec st r')
    obtain hd' b where st: "st = (hd', b)" by fastforce
    show ?case
    proof
      assume "?P ex' i' prev' fc ec st"
      then have P: "ex' = ex" "i' = i" "prev' = prev" "fc = Some f" "ec = Some e" "sl_s (b ! f) = sl_s (a ! f)"
        by (auto simp: st)
      have ins: "s_base (sl_s (a ! f)) \<ge> s_base (sl_s (ex ! e))" "s_base (sl_s (a ! f)) < s_end (sl_s (ex ! e))"
        "s_end (sl_s (a ! f)) < s_end (sl_s (ex ! e))" using assms(3) by (auto simp: inside_def)
      define st' where "st' = (case prev of Some p \<Rightarrow> (hd', b[p := (b ! p)\<lparr>sl_next := sl_next (b ! f)\<rparr>])
        | None \<Rightarrow> (sl_next (b ! f), b))"
      have "g ex i prev (Some f) (Some e) st' = Some r'"
        using 1(2) ins by (simp add: P st st'_def Let_def leD)
      moreover have "sl_s (snd st' ! f) = sl_s (a ! f)"
        using P assms(2) by (auto simp: st'_def split: option.split) (metis nth_list_update_neq)
      ultimately show False using 1(1) [of ex i prev "Some f" "Some e" st' r'] by simp
    qed
  qed
  then show False by simp
qed

lemma compute_free_segments_hangs:
  assumes ram: "ram_ok mp" and ex: "sl_s (ex ! e) = E" "paged E"
    and s: "free_segments s = replicate MAX_FREE_SEGMENTS zero_SegmentList"
    and bad: "ram mp = x # xs" "lo E \<le> page_up (unat (fst x))" "page_down (unat (fst x) + unat (snd x)) < hi E"
  shows "mmu_compute_free_segments mp e ex s = None"
proof -
  let ?n = "unat (num_mmap mp)" and ?xs = "ram mp"
  have n: "length ?xs = ?n" "0 < ?n" "?n < 32" "?n \<le> length (ram_sects mp)"
    using ram by (auto simp: ram_ok_def ram_def MAX_FREE_SEGMENTS_def)
  have len: "length (free_segments s) = 32" by (simp add: s MAX_FREE_SEGMENTS_def)
  define a where "a = copy_segments ?xs 0 None (free_segments s)"
  have "?xs \<noteq> []" using bad(1) by simp
  have a: "seg_chain a (Some 0) [0..<?n]" "segs a [0..<?n] = map mk_segment ?xs" "length a = 32"
    using copy_segments_spec [OF _ _ a_def] n len \<open>?xs \<noteq> []\<close> by auto
  note sh = shrunk_areas [OF ram]
  have "\<forall>g\<in>set (segs a [0..<?n]). s_len (shrink_segment g) \<noteq> 0"
    using sh(3) by (auto simp: a(2) shrunk_def)
  then obtain b where b: "shrink_free None (Some 0) (Some 0, a) = Some (Some 0, b)" "segs b [0..<?n] = shrunk mp"
    using shrink_free_spec [OF a(1), of None "Some 0"] a(2) by (auto simp: shrunk_def)
  have up: "[0..<?n] = 0 # [1..<?n]" using n(2) by (simp add: upt_conv_Cons)
  then have F: "sl_s (b ! 0) = shrink_segment (mk_segment x)" using b(2) bad(1) by (simp add: shrunk_def)
  have "ended (mk_segment x)" "page_up (lo (mk_segment x)) + 4096 \<le> hi (mk_segment x)"
    using ram bad(1) by (auto simp: mk_segment_def hi_def lo_def ram_ok_def ended_def)
  note r = shrink_segment_range [OF this]
  have ar: "lo (shrink_segment (mk_segment x)) < hi (shrink_segment (mk_segment x))"
    using sh(3) bad(1) by (auto simp: shrunk_def area_def)
  have "inside E (sl_s (b ! 0))"
    using ar r ended_end [OF r(3)] ended_end [of E] ex(2) bad(2,3) unfolding F
    by (auto simp: inside_def paged_def word_le_nat_alt word_less_nat_alt lo_def mk_segment_def hi_def)
  then have "exclude_loop ex ?n None (Some 0) (Some e) (Some 0, b) = None"
    using exclude_loop_deletes [of 0 ?n None ex e b "Some 0"] n(2) ex(1) by (cases "exclude_loop ex ?n None (Some 0) (Some e) (Some 0, b)") auto
  then show ?thesis
    using n len b(1) unfolding mmu_compute_free_segments_def
    by (simp add: Let_def ram_def [symmetric] a_def [symmetric])
qed

section \<open>An example\<close>

text \<open>A machine with 128 MB: low memory, a hole, and the rest of the RAM, at the start of which the
  kernel is loaded.\<close>

definition map_example :: PhysicalMMap where
  "map_example = \<lparr>total_ram = 0x7FE0000, num_mmap = 2,
     ram_sects = [\<lparr>me_base = 0, me_length = 0x9FC00\<rparr>, \<lparr>me_base = 0x100000, me_length = 0x7EE0000\<rparr>],
     num_kernel_sects = 2,
     kernel_sects = [\<lparr>ks_base = 0x100000, ks_length = 0x8000, ks_name = 0\<rparr>, \<lparr>ks_base = 0x108000, ks_length = 0x4123, ks_name = 0\<rparr>]\<rparr>"

lemma map_example_sections: "sections map_example = [(0x100000, 0x8000), (0x108000, 0x4123)]"
  by (simp add: sections_def map_example_def)

lemma map_example_ram: "ram map_example = [(0, 0x9FC00), (0x100000, 0x7EE0000)]"
  by (simp add: ram_def map_example_def)

lemma map_example_excluded:
  "excluded_segments map_example = [\<lparr>s_base = 0x100000, s_end = 0x10D000, s_len = 0xD000\<rparr>]"
  by (simp add: excluded_segments_def map_example_sections mk_segment_def round_segment_def extend_segment_def PAGE_SIZE_def Let_def)

lemma map_example_ok:
  "ram_ok map_example" "image_ok map_example \<lparr>s_base = 0x100000, s_end = 0x10D000, s_len = 0xD000\<rparr>"
proof -
  show "ram_ok map_example"
    by (simp add: ram_ok_def map_example_ram) (simp add: map_example_def MAX_FREE_SEGMENTS_def page_up_def)
  have "sections_ok map_example"
    by (simp add: sections_ok_def map_example_sections) (simp add: map_example_def)
  then show "image_ok map_example \<lparr>s_base = 0x100000, s_end = 0x10D000, s_len = 0xD000\<rparr>"
    by (simp add: image_ok_def map_example_excluded map_example_ram lo_def hi_def page_up_def page_down_def)
qed

definition init_state_example :: "unit mm" where
  "init_state_example = mm_example\<lparr>handlers := replicate 256 \<lparr>handler = None, arg = NULL\<rparr>\<rparr>"

text \<open>The same machine with a small area of RAM inside the pages of the kernel.\<close>

definition bad_map_example :: PhysicalMMap where
  "bad_map_example = map_example\<lparr>ram_sects := [\<lparr>me_base = 0x101000, me_length = 0x2000\<rparr>, \<lparr>me_base = 0x200000, me_length = 0x100000\<rparr>]\<rparr>"

lemma bad_map_example_sel:
  "ram bad_map_example = [(0x101000, 0x2000), (0x200000, 0x100000)]" "sections bad_map_example = sections map_example"
  "num_kernel_sects bad_map_example = 2" "excluded_segments bad_map_example = excluded_segments map_example"
  by (simp_all add: ram_def bad_map_example_def map_example_def sections_def excluded_segments_def)

section \<open>Properties\<close>

text \<open>C30: the excluded segments are right: for the sections of the kernel in ascending order, the loops of
  \<open>mmu_compute_excluded\<close> end and return a list of segments at page boundaries, in ascending order
  with a gap between any two, that together cover exactly the pages from the one in which a section
  starts to the one in which it ends, for all sections.\<close>

theorem mmu_compute_excluded_correct:
  assumes "sections_ok mp" "unat (num_kernel_sects mp) \<le> length excl"
  shows "\<exists>ex is. mmu_compute_excluded mp excl = Some (0, ex) \<and> seg_chain ex (Some 0) is \<and>
    all_addrs (segs ex is) = (\<Union>x\<in>set (sections mp). section_range x) \<and> separated (segs ex is) \<and>
    (\<forall>g\<in>set (segs ex is). paged g)"
proof -
  obtain ex "is" where "mmu_compute_excluded mp excl = Some (0, ex)" "seg_chain ex (Some 0) is"
    "segs ex is = excluded_segments mp"
    using mmu_compute_excluded_list [of mp excl] assms by (auto simp: sections_ok_def)
  with excluded_segments_correct [OF assms(1)] show ?thesis by (intro exI [of _ ex] exI [of _ "is"]) simp
qed

theorem mmu_compute_excluded_correct_witness:
  "\<exists>ex is. mmu_compute_excluded map_example (replicate 128 zero_SegmentList) = Some (0, ex) \<and>
     all_addrs (segs ex is) = {0x100000..<0x10D000}"
proof -
  have ok: "sections_ok map_example" using map_example_ok(2) by (simp add: image_ok_def)
  have "(\<Union>x\<in>set (sections map_example). section_range x) = {0x100000..<0x10D000}"
    by (auto simp: map_example_sections section_range_def page_down_def page_up_def)
  moreover have "unat (num_kernel_sects map_example) \<le> length (replicate 128 zero_SegmentList)"
    by (simp add: map_example_def)
  ultimately show ?thesis
    using mmu_compute_excluded_correct [OF ok, of "replicate 128 zero_SegmentList"] by auto
qed

text \<open>C9: initialisation establishes the invariants of the memory manager. For a memory map of ascending areas of RAM and a
  kernel loaded as one contiguous image, \<open>MMU_init\<close> ends and returns 0 in a state in which
  the page tables and the cursors satisfy the invariant of the virtual memory, the page
  fault handler is installed, and the free frames and the frame of the first page table are exactly the whole pages of RAM that
  no section of the kernel touches, without the page at address 0.\<close>

theorem MMU_init_establishes:
  assumes "ram_ok mp" "image_ok mp E" "unat (num_kernel_sects mp) \<le> MAX_EXCLUDE_SEGMENTS"
    and "length excl = MAX_EXCLUDE_SEGMENTS" "\<exists>x\<in>free_addrs mp. x mod 4096 = 0"
    and "PAGE_FAULT_IRQ < length (handlers s)"
  shows "\<exists>s' fs. MMU_init mp excl s = Some (0, s') \<and> vm_inv s' \<and> free_frames s' fs \<and>
    handler (handlers s' ! PAGE_FAULT_IRQ) = Some Page_fault_handler \<and> cr3 s' \<notin> set fs \<and>
    insert (unat (cr3 s')) (unat ` set fs) = {x \<in> free_addrs mp. x mod 4096 = 0}"
proof -
  obtain s' fs where r: "MMU_init mp excl s = Some (0, s')" "pt_ok s' fs" "heap_cursor s'"
    "handler (handlers s' ! PAGE_FAULT_IRQ) = Some Page_fault_handler" "cr3 s' \<notin> set fs"
    "insert (unat (cr3 s')) (unat ` set fs) = {x \<in> free_addrs mp. x mod 4096 = 0}"
    using MMU_init_correct [OF assms] by blast
  then have "vm_inv s'" "free_frames s' fs" by (auto simp: vm_inv_def vm_ok_def pt_ok_def)
  with r show ?thesis by blast
qed

theorem MMU_init_establishes_witness:
  "\<exists>s'. MMU_init map_example (replicate 128 zero_SegmentList) init_state_example = Some (0, s') \<and> vm_inv s'"
proof -
  have "0x1000 \<in> free_addrs map_example"
    by (simp add: free_addrs_def map_example_ram map_example_sections ram_range_def section_range_def page_up_def page_down_def)
  then have "\<exists>x\<in>free_addrs map_example. x mod 4096 = 0" by (intro bexI [of _ "0x1000"]) auto
  moreover have "unat (num_kernel_sects map_example) \<le> MAX_EXCLUDE_SEGMENTS"
    by (simp add: map_example_def MAX_EXCLUDE_SEGMENTS_def)
  ultimately show ?thesis
    using MMU_init_establishes [OF map_example_ok, of "replicate 128 zero_SegmentList" init_state_example]
    by (auto simp: MAX_EXCLUDE_SEGMENTS_def init_state_example_def PAGE_FAULT_IRQ_def)
qed

text \<open>An area of RAM inside the kernel's pages hangs the boot: when the first area of RAM begins and
  ends inside the first excluded segment, \<open>MMU_init\<close> does not return, because the branch that
  unlinks the free segment does not go on to the next one.\<close>

theorem MMU_init_hangs:
  assumes "ram_ok mp" "sections_ok mp" "unat (num_kernel_sects mp) \<le> MAX_EXCLUDE_SEGMENTS"
    and "length excl = MAX_EXCLUDE_SEGMENTS" "excluded_segments mp = E # Es"
    and "ram mp = x # xs" "lo E \<le> page_up (unat (fst x))" "page_down (unat (fst x) + unat (snd x)) < hi E"
  shows "MMU_init mp excl s = None"
proof -
  obtain ex "is" where ex: "mmu_compute_excluded mp excl = Some (0, ex)" "seg_chain ex (Some 0) is"
    "segs ex is = E # Es"
    using mmu_compute_excluded_list [of mp excl] assms(2-5) by (auto simp: sections_ok_def)
  then have E: "sl_s (ex ! 0) = E" by (cases "is") auto
  have "paged E" using excluded_segments_correct(3) [OF assms(2)] assms(5) by simp
  then have "mmu_compute_free_segments mp 0 ex (s\<lparr>free_segments := replicate MAX_FREE_SEGMENTS zero_SegmentList,
      free_segment_head := None, free_page_head := NULL, free_page_tail := NULL, page_table := NULL,
      next_kernel_heap_vaddr := 0, next_kernel_thread_stack_vaddr := 0\<rparr>) = None"
    using assms(1,6-8) E by (intro compute_free_segments_hangs) auto
  then show ?thesis
    using assms(3) ex(1) unfolding MMU_init_def by (simp add: Let_def)
qed

theorem MMU_init_hangs_witness:
  "MMU_init bad_map_example (replicate 128 zero_SegmentList) init_state_example = None"
proof -
  have "ram_ok bad_map_example"
    by (simp add: ram_ok_def bad_map_example_sel) (simp add: bad_map_example_def map_example_def MAX_FREE_SEGMENTS_def page_up_def)
  moreover have "sections_ok bad_map_example"
    using map_example_ok(2) by (simp add: image_ok_def sections_ok_def bad_map_example_sel) (simp add: bad_map_example_def map_example_def)
  ultimately show ?thesis
    using MMU_init_hangs [of bad_map_example "replicate 128 zero_SegmentList"
        "\<lparr>s_base = 0x100000, s_end = 0x10D000, s_len = 0xD000\<rparr>" "[]" "(0x101000, 0x2000)" "[(0x200000, 0x100000)]"]
    by (simp add: bad_map_example_sel map_example_excluded MAX_EXCLUDE_SEGMENTS_def lo_def hi_def page_up_def page_down_def)
qed

end
