(* ===== verification/Boot.thy ===== *)
theory Boot
  imports Memory_Init String_Ops "HOL-Library.Monad_Syntax"
begin

text \<open>
  The information of the boot loader: \<^verbatim>\<open>src/src/boot.c\<close> walks the tags of the multiboot
  information, \<open>parse_mmap\<close> collects the available RAM and \<^verbatim>\<open>src/src/elf.c\<close> the sections of the kernel.

  The multiboot information is a read-only byte memory \<open>mb\<close>. The \<open>struct PhysicalMMap\<close> that is filled lies
  at the address \<open>dest\<close> of the word memory \<open>bwords\<close>, where the sort of \<^verbatim>\<open>utils.c\<close> works on its arrays:
  \<open>total_ram\<close> at offset 0, \<open>num_mmap\<close> at 8, \<open>ram_sects\<close> at 16, \<open>num_kernel_sects\<close> at 528 and \<open>kernel_sects\<close> at 536.
  \<open>None\<close> is a division by zero, an access outside of an array, or a walk over tags that does not end.
\<close>

section \<open>State\<close>

definition MULTIBOOT2_BOOTLOADER_MAGIC :: u32 where "MULTIBOOT2_BOOTLOADER_MAGIC = 0x36d76289"
definition MULTIBOOT_TAG_TYPE_END :: u32 where "MULTIBOOT_TAG_TYPE_END = 0"
definition MULTIBOOT_TAG_TYPE_MMAP :: u32 where "MULTIBOOT_TAG_TYPE_MMAP = 6"
definition MULTIBOOT_TAG_TYPE_ELF_SECTIONS :: u32 where "MULTIBOOT_TAG_TYPE_ELF_SECTIONS = 9"
definition MULTIBOOT_MEMORY_AVAILABLE :: u32 where "MULTIBOOT_MEMORY_AVAILABLE = 1"

lemmas boot_consts = MULTIBOOT_TAG_TYPE_END_def MULTIBOOT_TAG_TYPE_MMAP_def MULTIBOOT_TAG_TYPE_ELF_SECTIONS_def
  MULTIBOOT_MEMORY_AVAILABLE_def MAX_MMAP_ENTRIES_def MAX_KERNEL_SECTIONS_def

record 'd boot = "'d kbase" +
  bwords :: wmem

text \<open>A 32-bit member at a word boundary.\<close>

definition get32 :: "addr \<Rightarrow> wmem \<Rightarrow> u32" where
  "get32 a m = ucast (m a)"

definition set32 :: "addr \<Rightarrow> u32 \<Rightarrow> wmem \<Rightarrow> wmem" where
  "set32 a v m = m(a := push_bit 32 (drop_bit 32 (m a)) OR ucast v)"

definition num_mmap_at :: "addr \<Rightarrow> addr" where "num_mmap_at dest = dest + 8"
definition ram_sects_at :: "addr \<Rightarrow> u32 \<Rightarrow> addr" where "ram_sects_at dest i = dest + 16 + 16 * ucast i"
definition num_kernel_sects_at :: "addr \<Rightarrow> addr" where "num_kernel_sects_at dest = dest + 528"
definition kernel_sects_at :: "addr \<Rightarrow> u32 \<Rightarrow> addr" where "kernel_sects_at dest i = dest + 536 + 24 * ucast i"

section \<open>The memory map\<close>

text \<open>\<open>struct MultibootMMapEntry\<close>: address, length and type at 0, 8 and 16; \<open>struct MultibootMMapTag\<close>: the size of an entry at 8, the
  entries from 16 on.\<close>

fun mmap_loop :: "bmem \<Rightarrow> addr \<Rightarrow> nat \<Rightarrow> addr \<Rightarrow> ('d, 'a) boot_scheme \<Rightarrow> (('d, 'a) boot_scheme + ('d, 'a) boot_scheme)" where
  "mmap_loop mb dest 0 cur s = Inr s"
| "mmap_loop mb dest (Suc n) cur s =
     (if load32 (cur + 16) mb \<noteq> MULTIBOOT_MEMORY_AVAILABLE then mmap_loop mb dest n (cur + 24) s
      else
        let i = get32 (num_mmap_at dest) (bwords s)
        in if unat i = MAX_MMAP_ENTRIES
           then Inl (klog KLOG_LEVEL_EMERG ''max mmap entries exceeded in multiboot info'' [] s)
           else
             let m = (bwords s)(ram_sects_at dest i := load64 cur mb, ram_sects_at dest i + 8 := load64 (cur + 8) mb);
                 m = set32 (num_mmap_at dest) (i + 1) m
             in mmap_loop mb dest n (cur + 24) (s\<lparr>bwords := m\<rparr>))"

definition parse_mmap :: "bmem \<Rightarrow> addr \<Rightarrow> addr \<Rightarrow> ('d, 'a) boot_scheme \<Rightarrow> (int \<times> ('d, 'a) boot_scheme) option" where
  "parse_mmap mb mmap dest s =
     (if load32 (mmap + 8) mb = 0 then None
      else
        let entries = sint (load32 (mmap + 4) mb div load32 (mmap + 8) mb);
            s = s\<lparr>bwords := set32 (num_mmap_at dest) 0 (bwords s)\<rparr>
        in case mmap_loop mb dest (nat entries) (mmap + 16) s of
             Inl s \<Rightarrow> Some (- 1, s)
           | Inr s \<Rightarrow> do {
               let num = get32 (num_mmap_at dest) (bwords s);
               m \<leftarrow> sort_mmap_entry_array (ram_sects_at dest 0) (ucast num) (bwords s);
               let num = get32 (num_mmap_at dest) m;
               if num = 0 then None
               else Some (0, s\<lparr>bwords := m(dest := m (ram_sects_at dest (num - 1)) + m (ram_sects_at dest (num - 1) + 8))\<rparr>) })"

section \<open>The sections of the kernel\<close>

text \<open>\<open>struct ELFSectionHeader\<close> has 64 bytes: index of the name, type, address and size at 0, 4, 16 and 32.\<close>

fun elf_loop :: "bmem \<Rightarrow> addr \<Rightarrow> addr \<Rightarrow> nat \<Rightarrow> addr \<Rightarrow> wmem \<Rightarrow> wmem" where
  "elf_loop mb dest str_table 0 hdr m = m"
| "elf_loop mb dest str_table (Suc n) hdr m =
     (if load32 (hdr + 4) mb = 0 then elf_loop mb dest str_table n (hdr + 64) m
      else
        let i = get32 (num_kernel_sects_at dest) m; p = kernel_sects_at dest i;
            m = m(p := load64 (hdr + 16) mb, p + 8 := load64 (hdr + 32) mb, p + 16 := str_table + ucast (load32 hdr mb));
            m = set32 (num_kernel_sects_at dest) (i + 1) m
        in elf_loop mb dest str_table n (hdr + 64) m)"

definition ELF_parse_section_headers ::
  "bmem \<Rightarrow> addr \<Rightarrow> addr \<Rightarrow> u32 \<Rightarrow> u32 \<Rightarrow> ('d, 'a) boot_scheme \<Rightarrow> (int \<times> ('d, 'a) boot_scheme) option" where
  "ELF_parse_section_headers mb dest start num_headers str_table_index s =
     (if unat num_headers > MAX_KERNEL_SECTIONS
      then Some (- 1, klog KLOG_LEVEL_EMERG ''max kernel sections exceeded in elf file'' [] s)
      else do {
        let str_table = load64 (start + 64 * ucast str_table_index + 16) mb;
        let m = set32 (num_kernel_sects_at dest) 0 (bwords s);
        let m = elf_loop mb dest str_table (unat num_headers) start m;
        m \<leftarrow> sort_kernel_section_array (kernel_sects_at dest 0) (ucast (get32 (num_kernel_sects_at dest) m)) m;
        Some (0, s\<lparr>bwords := m\<rparr>) })"

text \<open>\<open>struct MultibootELFTag\<close>: number of headers and index of the string table at 8 and 16, the headers from 20 on.\<close>

definition parse_elf :: "bmem \<Rightarrow> addr \<Rightarrow> addr \<Rightarrow> ('d, 'a) boot_scheme \<Rightarrow> (int \<times> ('d, 'a) boot_scheme) option" where
  "parse_elf mb elf dest s =
     ELF_parse_section_headers mb dest (elf + 20) (load32 (elf + 8) mb) (load32 (elf + 16) mb) s"

section \<open>The tags\<close>

definition next_tag :: "bmem \<Rightarrow> addr \<Rightarrow> addr" where
  "next_tag mb tag = tag + ucast ((load32 (tag + 4) mb + 7) AND NOT 7)"

partial_function (option) tag_loop :: "bmem \<Rightarrow> addr \<Rightarrow> addr \<Rightarrow> ('d, 'a) boot_scheme \<Rightarrow> (int \<times> ('d, 'a) boot_scheme) option" where
  "tag_loop mb dest tag s =
     (if load32 tag mb = MULTIBOOT_TAG_TYPE_END then Some (0, s)
      else Option.bind
        (if load32 tag mb = MULTIBOOT_TAG_TYPE_MMAP then parse_mmap mb tag dest s
         else if load32 tag mb = MULTIBOOT_TAG_TYPE_ELF_SECTIONS then parse_elf mb tag dest s
         else Some (0, s))
        (\<lambda>(r, s). if r < 0 then Some (- 1, s) else tag_loop mb dest (next_tag mb tag) s))"

definition BOOT_parse_multiboot ::
  "bmem \<Rightarrow> addr \<Rightarrow> u32 \<Rightarrow> u32 \<Rightarrow> ('d, 'a) boot_scheme \<Rightarrow> (int \<times> ('d, 'a) boot_scheme) option" where
  "BOOT_parse_multiboot mb dest mb_magic mb_addr s =
     (let tag = ucast (mb_addr + 8)
      in if mb_magic \<noteq> MULTIBOOT2_BOOTLOADER_MAGIC
         then Some (- 1, klog KLOG_LEVEL_EMERG ''OS not booted by multiboot compliant bootloader'' [] s)
         else tag_loop mb dest tag s)"

text \<open>The structure as the memory manager reads it.\<close>

definition PhysicalMMap_at :: "wmem \<Rightarrow> addr \<Rightarrow> PhysicalMMap" where
  "PhysicalMMap_at m dest =
     \<lparr>total_ram = m dest, num_mmap = get32 (num_mmap_at dest) m,
      ram_sects = contents read_MMapEntry (ram_sects_at dest 0) sizeof_MMapEntry MAX_MMAP_ENTRIES m,
      num_kernel_sects = get32 (num_kernel_sects_at dest) m,
      kernel_sects = contents read_KernelSection (kernel_sects_at dest 0) sizeof_KernelSection MAX_KERNEL_SECTIONS m\<rparr>"

section \<open>The words of the structure\<close>

text \<open>All members lie at multiples of eight bytes from \<open>dest\<close>; \<open>outside K\<close> says that only the words in \<open>K\<close> differ.\<close>

definition outside :: "nat set \<Rightarrow> addr \<Rightarrow> wmem \<Rightarrow> wmem \<Rightarrow> bool" where
  "outside K dest m m' \<longleftrightarrow> (\<forall>k<163. k \<notin> K \<longrightarrow> m' (slot dest 8 k) = m (slot dest 8 k))"

lemma outside_refl [simp]: "outside K dest m m"
  by (simp add: outside_def)

lemma outside_trans [trans]: "outside K dest a b \<Longrightarrow> outside K dest b c \<Longrightarrow> outside K dest a c"
  by (auto simp: outside_def)

lemma word_inject: "j < 163 \<Longrightarrow> k < 163 \<Longrightarrow> slot dest 8 j = slot dest 8 k \<longleftrightarrow> j = k"
  using slot_inject [of 8 163 j k dest] by (simp add: fits_def)

lemma outside_upd: "j \<in> K \<Longrightarrow> j < 163 \<Longrightarrow> outside K dest m (m(slot dest 8 j := v))"
  by (auto simp: outside_def word_inject)

lemma word_at:
  "num_mmap_at dest = slot dest 8 1" "num_kernel_sects_at dest = slot dest 8 66"
  "slot (ram_sects_at dest 0) 16 i = slot dest 8 (2 + 2 * i)"
  "slot (kernel_sects_at dest 0) 24 i = slot dest 8 (67 + 3 * i)"
  by (simp_all add: slot_def num_mmap_at_def num_kernel_sects_at_def ram_sects_at_def kernel_sects_at_def algebra_simps)

lemma word_after:
  "slot dest 8 (2 + 2 * i) + 8 = slot dest 8 (3 + 2 * i)" "slot dest 8 (67 + 3 * i) + 8 = slot dest 8 (68 + 3 * i)"
  "slot dest 8 (67 + 3 * i) + 16 = slot dest 8 (69 + 3 * i)"
  by (simp_all add: slot_def algebra_simps)

lemma array_at:
  "i < 2 ^ 32 \<Longrightarrow> ram_sects_at dest (of_nat i) = slot (ram_sects_at dest 0) 16 i"
  "i < 2 ^ 32 \<Longrightarrow> kernel_sects_at dest (of_nat i) = slot (kernel_sects_at dest 0) 24 i"
proof -
  assume i: "i < 2 ^ 32"
  have "(ucast (of_nat i :: u32) :: u64) = of_nat i"
    using i by (subst word_unat_eq_iff) (simp add: unsigned_ucast_eq unat_of_nat take_bit_nat_eq_self take_bit_eq_mod)
  then show "ram_sects_at dest (of_nat i) = slot (ram_sects_at dest 0) 16 i"
    "kernel_sects_at dest (of_nat i) = slot (kernel_sects_at dest 0) 24 i"
    by (simp_all add: slot_def ram_sects_at_def kernel_sects_at_def algebra_simps)
qed

lemma get32_set32: "get32 a (set32 b v m) = (if a = b then v else get32 a m)"
  unfolding get32_def set32_def by (auto intro!: bit_word_eqI simp: bit_simps)

text \<open>The two arrays with their lengths.\<close>

definition ram_at :: "wmem \<Rightarrow> addr \<Rightarrow> MMapEntry list \<Rightarrow> bool" where
  "ram_at m dest xs \<longleftrightarrow> get32 (num_mmap_at dest) m = of_nat (length xs) \<and> length xs \<le> MAX_MMAP_ENTRIES \<and>
     contents read_MMapEntry (ram_sects_at dest 0) sizeof_MMapEntry (length xs) m = xs"

definition sects_at :: "wmem \<Rightarrow> addr \<Rightarrow> KernelSection list \<Rightarrow> bool" where
  "sects_at m dest xs \<longleftrightarrow> get32 (num_kernel_sects_at dest) m = of_nat (length xs) \<and> length xs \<le> MAX_KERNEL_SECTIONS \<and>
     contents read_KernelSection (kernel_sects_at dest 0) sizeof_KernelSection (length xs) m = xs"

lemma read_at:
  "read_MMapEntry m (slot (ram_sects_at dest 0) sizeof_MMapEntry i) = x \<longleftrightarrow>
     m (slot dest 8 (2 + 2 * i)) = me_base x \<and> m (slot dest 8 (3 + 2 * i)) = me_length x"
  "read_KernelSection m (slot (kernel_sects_at dest 0) sizeof_KernelSection i) = y \<longleftrightarrow>
     m (slot dest 8 (67 + 3 * i)) = ks_base y \<and> m (slot dest 8 (68 + 3 * i)) = ks_length y \<and>
     m (slot dest 8 (69 + 3 * i)) = ks_name y"
  unfolding read_MMapEntry_def read_KernelSection_def sizeof_MMapEntry_def sizeof_KernelSection_def word_at word_after
  by (auto intro: MMapEntry.equality KernelSection.equality)

lemma ram_at_alt: "ram_at m dest xs \<longleftrightarrow> get32 (slot dest 8 1) m = of_nat (length xs) \<and> length xs \<le> 32 \<and>
    (\<forall>i<length xs. m (slot dest 8 (2 + 2 * i)) = me_base (xs ! i) \<and> m (slot dest 8 (3 + 2 * i)) = me_length (xs ! i))"
  unfolding ram_at_def
  by (simp add: list_eq_iff_nth_eq read_at word_at(1) MAX_MMAP_ENTRIES_def del: One_nat_def)

lemma sects_at_alt: "sects_at m dest xs \<longleftrightarrow> get32 (slot dest 8 66) m = of_nat (length xs) \<and> length xs \<le> 32 \<and>
    (\<forall>i<length xs. m (slot dest 8 (67 + 3 * i)) = ks_base (xs ! i) \<and> m (slot dest 8 (68 + 3 * i)) = ks_length (xs ! i) \<and>
      m (slot dest 8 (69 + 3 * i)) = ks_name (xs ! i))"
  unfolding sects_at_def
  by (simp add: list_eq_iff_nth_eq read_at word_at(2) MAX_KERNEL_SECTIONS_def)

definition ram_words :: "nat set" where "ram_words = {..<66}"
definition sect_words :: "nat set" where "sect_words = {66..}"

lemma ram_at_outside: "outside sect_words dest m m' \<Longrightarrow> ram_at m' dest xs \<longleftrightarrow> ram_at m dest xs"
  by (auto simp: ram_at_alt outside_def sect_words_def get32_def)

lemma sects_at_outside: "outside ram_words dest m m' \<Longrightarrow> sects_at m' dest xs \<longleftrightarrow> sects_at m dest xs"
  by (auto simp: sects_at_alt outside_def ram_words_def get32_def)

section \<open>The memory map: what is collected\<close>

definition MMapEntry_of :: "bmem \<Rightarrow> addr \<Rightarrow> MMapEntry" where
  "MMapEntry_of mb p = \<lparr>me_base = load64 p mb, me_length = load64 (p + 8) mb\<rparr>"

definition available :: "bmem \<Rightarrow> addr \<Rightarrow> nat \<Rightarrow> MMapEntry list" where
  "available mb start n = map (MMapEntry_of mb)
     (filter (\<lambda>p. load32 (p + 16) mb = MULTIBOOT_MEMORY_AVAILABLE) (map (slot start 24) [0..<n]))"

lemma slots_Suc: "map (slot start l) [0..<Suc n] = start # map (slot (start + l) l) [0..<n]"
proof -
  have "map (slot start l) (map Suc [0..<n]) = map (slot (start + l) l) [0..<n]"
    by (auto simp: slot_def algebra_simps)
  moreover have "slot start l 0 = start" by (simp add: slot_def)
  ultimately show ?thesis by (simp only: upt_conv_Cons [OF zero_less_Suc] map_Suc_upt list.map)
qed

lemma available_Suc: "available mb start (Suc n) =
  (if load32 (start + 16) mb = MULTIBOOT_MEMORY_AVAILABLE then [MMapEntry_of mb start] else []) @ available mb (start + 24) n"
  unfolding available_def slots_Suc by simp

lemma available_0 [simp]: "available mb start 0 = []"
  by (simp add: available_def)

text \<open>One more entry.\<close>

lemma ram_at_snoc:
  assumes "ram_at m dest xs" "length xs < 32" and i: "i = get32 (num_mmap_at dest) m"
    and m': "m' = set32 (num_mmap_at dest) (i + 1)
      (m(ram_sects_at dest i := me_base x, ram_sects_at dest i + 8 := me_length x))"
  shows "ram_at m' dest (xs @ [x])" "outside ram_words dest m m'"
proof -
  let ?n = "length xs"
  have i': "i = of_nat ?n" using assms(1) i by (simp add: ram_at_def)
  have a: "ram_sects_at dest i = slot dest 8 (2 + 2 * ?n)"
    using assms(2) by (simp add: i' array_at word_at)
  have m'': "m' = set32 (slot dest 8 1) (of_nat (Suc ?n)) (m(slot dest 8 (2 + 2 * ?n) := me_base x, slot dest 8 (3 + 2 * ?n) := me_length x))"
    unfolding m' a word_at word_after by (simp add: i' add.commute)
  have "outside ram_words dest m (m(slot dest 8 (2 + 2 * ?n) := me_base x))"
    using assms(2) by (intro outside_upd) (auto simp: ram_words_def)
  also have "outside ram_words dest \<dots> (m(slot dest 8 (2 + 2 * ?n) := me_base x, slot dest 8 (3 + 2 * ?n) := me_length x))"
    using assms(2) by (intro outside_upd) (auto simp: ram_words_def)
  also have "outside ram_words dest \<dots> m'"
    unfolding m'' set32_def using assms(2) by (intro outside_upd) (auto simp: ram_words_def)
  finally show "outside ram_words dest m m'" .
  have w: "m' (slot dest 8 k) = (if k = 2 + 2 * ?n then me_base x else if k = 3 + 2 * ?n then me_length x else m (slot dest 8 k))"
    if "k < 163" "k \<noteq> 1" for k
    using that assms(2) by (simp add: m'' set32_def word_inject del: One_nat_def)
  have "m' (slot dest 8 (2 + 2 * j)) = me_base ((xs @ [x]) ! j) \<and> m' (slot dest 8 (3 + 2 * j)) = me_length ((xs @ [x]) ! j)"
    if "j < Suc ?n" for j
  proof -
    have "3 + 2 * j \<noteq> 2 + 2 * ?n" "2 + 2 * j \<noteq> 3 + 2 * ?n" by presburger+
    then show ?thesis using that assms(1,2) w [of "2 + 2 * j"] w [of "3 + 2 * j"]
      by (auto simp: ram_at_alt nth_append less_Suc_eq)
  qed
  moreover have "get32 (slot dest 8 1) m' = of_nat (Suc ?n)" by (simp add: m'' get32_set32)
  ultimately show "ram_at m' dest (xs @ [x])"
    using assms(2) by (auto simp: ram_at_alt)
qed

lemma mmap_loop_spec:
  assumes "ram_at (bwords s) dest xs"
  shows "if length xs + length (available mb cur n) \<le> 32
    then \<exists>m. mmap_loop mb dest n cur s = Inr (s\<lparr>bwords := m\<rparr>) \<and> ram_at m dest (xs @ available mb cur n) \<and>
           outside ram_words dest (bwords s) m
    else \<exists>m. mmap_loop mb dest n cur s =
           Inl (klog KLOG_LEVEL_EMERG ''max mmap entries exceeded in multiboot info'' [] (s\<lparr>bwords := m\<rparr>))"
  using assms
proof (induction n arbitrary: cur s xs)
  case 0
  then show ?case by (auto simp: ram_at_alt intro!: exI [of _ "bwords s"])
next
  case (Suc n)
  let ?i = "get32 (num_mmap_at dest) (bwords s)"
  have xs: "?i = of_nat (length xs)" "length xs \<le> 32" using Suc.prems by (auto simp: ram_at_alt word_at)
  then have ui: "unat ?i = length xs" by (simp add: unat_of_nat)
  consider (skip) "load32 (cur + 16) mb \<noteq> MULTIBOOT_MEMORY_AVAILABLE"
    | (full) "load32 (cur + 16) mb = MULTIBOOT_MEMORY_AVAILABLE" "length xs = 32"
    | (take) "load32 (cur + 16) mb = MULTIBOOT_MEMORY_AVAILABLE" "length xs < 32"
    using xs(2) by linarith
  then show ?case
  proof cases
    case skip
    then show ?thesis using Suc.IH [OF Suc.prems, of "cur + 24"] by (simp add: available_Suc)
  next
    case full
    have "s = s\<lparr>bwords := bwords s\<rparr>" by simp
    then show ?thesis using full ui by (auto simp: available_Suc MAX_MMAP_ENTRIES_def intro!: exI [of _ "bwords s"])
  next
    case take
    define m where "m = set32 (num_mmap_at dest) (?i + 1)
      ((bwords s)(ram_sects_at dest ?i := load64 cur mb, ram_sects_at dest ?i + 8 := load64 (cur + 8) mb))"
    have m: "ram_at m dest (xs @ [MMapEntry_of mb cur])" "outside ram_words dest (bwords s) m"
      using ram_at_snoc [OF Suc.prems take(2) refl, of m "MMapEntry_of mb cur"] by (simp_all add: m_def MMapEntry_of_def)
    have "mmap_loop mb dest (Suc n) cur s = mmap_loop mb dest n (cur + 24) (s\<lparr>bwords := m\<rparr>)"
      using take ui by (simp add: m_def MAX_MMAP_ENTRIES_def Let_def)
    then show ?thesis
      using Suc.IH [of "s\<lparr>bwords := m\<rparr>" "xs @ [MMapEntry_of mb cur]" "cur + 24"] m take(1) outside_trans [OF m(2)]
      by (auto simp: available_Suc split: if_splits)
  qed
qed

text \<open>The number of entries is that of the tag, although its size counts the 16 bytes before them too.\<close>

definition mmap_entries :: "bmem \<Rightarrow> addr \<Rightarrow> nat" where
  "mmap_entries mb tag = nat (sint (load32 (tag + 4) mb div load32 (tag + 8) mb))"

definition tag_ram :: "bmem \<Rightarrow> addr \<Rightarrow> MMapEntry list" where
  "tag_ram mb tag = available mb (tag + 16) (mmap_entries mb tag)"

definition mmap_tag_ok :: "bmem \<Rightarrow> addr \<Rightarrow> bool" where
  "mmap_tag_ok mb tag \<longleftrightarrow> load32 (tag + 8) mb \<noteq> 0 \<and> tag_ram mb tag \<noteq> [] \<and> length (tag_ram mb tag) \<le> MAX_MMAP_ENTRIES \<and>
     sorted (map me_base (tag_ram mb tag))"

lemma ram_at_Nil: "ram_at (set32 (num_mmap_at dest) 0 m) dest []" "outside ram_words dest m (set32 (num_mmap_at dest) v m)"
  by (simp add: ram_at_alt get32_set32 word_at del: One_nat_def)
    (unfold set32_def word_at, rule outside_upd, simp_all add: ram_words_def)

lemma parse_mmap_spec:
  assumes "mmap_tag_ok mb tag"
  shows "\<exists>m. parse_mmap mb tag dest s = Some (0, s\<lparr>bwords := m\<rparr>) \<and> ram_at m dest (tag_ram mb tag) \<and>
    m dest = me_base (last (tag_ram mb tag)) + me_length (last (tag_ram mb tag)) \<and> outside ram_words dest (bwords s) m"
proof -
  let ?xs = "tag_ram mb tag" let ?n = "length ?xs"
  let ?m0 = "set32 (num_mmap_at dest) 0 (bwords s)"
  have n: "0 < ?n" "?n \<le> 32" using assms by (auto simp: mmap_tag_ok_def MAX_MMAP_ENTRIES_def)
  obtain m where m: "mmap_loop mb dest (mmap_entries mb tag) (tag + 16) (s\<lparr>bwords := ?m0\<rparr>) = Inr (s\<lparr>bwords := m\<rparr>)"
    "ram_at m dest ?xs" "outside ram_words dest ?m0 m"
    using mmap_loop_spec [of "s\<lparr>bwords := ?m0\<rparr>" dest "[]" mb "tag + 16" "mmap_entries mb tag"] ram_at_Nil(1) n(2)
    by (auto simp: tag_ram_def)
  let ?num = "get32 (num_mmap_at dest) m" and ?p = "slot dest 8 (2 + 2 * (?n - 1))"
  have num: "?num = of_nat ?n" using m(2) by (simp add: ram_at_def)
  then have un: "unat (ucast ?num :: u64) = ?n"
    using n by (simp add: unsigned_ucast_eq unat_of_nat take_bit_nat_eq_self take_bit_eq_mod)
  have "sorted (map me_base (contents read_MMapEntry (ram_sects_at dest 0) sizeof_MMapEntry ?n m))"
    using m(2) assms by (simp add: ram_at_def mmap_tag_ok_def)
  then have sort: "sort_mmap_entry_array (ram_sects_at dest 0) (ucast ?num) m = Some m"
    unfolding sort_mmap_entry_array_def
    using n un by (intro msort.sort_gen_sorted) (simp_all add: fits_def sizeof_MMapEntry_def)
  have "?num - 1 = of_nat (?n - 1)" unfolding num by (subst of_nat_diff) (use n in linarith, simp)
  moreover have "?n - 1 < 2 ^ 32" using n by simp
  ultimately have p: "ram_sects_at dest (?num - 1) = ?p" by (simp only: array_at word_at)
  have "?num \<noteq> 0" using n un by auto
  then have "parse_mmap mb tag dest s = Some (0, s\<lparr>bwords := m(dest := m ?p + m (?p + 8))\<rparr>)"
    using assms m(1) sort p
    by (simp add: parse_mmap_def mmap_tag_ok_def mmap_entries_def Let_def)
  moreover have "m ?p = me_base (last ?xs)" "m (?p + 8) = me_length (last ?xs)"
    using m(2) n unfolding word_after by (auto simp: ram_at_alt last_conv_nth)
  moreover have up: "outside ram_words dest m (m(slot dest 8 0 := v))" for v
    by (rule outside_upd) (auto simp: ram_words_def)
  moreover have "ram_at (m(slot dest 8 0 := v)) dest ?xs" for v
    using m(2) n by (auto simp: ram_at_alt get32_def word_inject)
  ultimately show ?thesis
    using outside_trans [OF ram_at_Nil(2) outside_trans [OF m(3) up]] by (auto simp: slot_def)
qed

section \<open>The sections of the kernel: what is collected\<close>

definition KernelSection_of :: "bmem \<Rightarrow> addr \<Rightarrow> addr \<Rightarrow> KernelSection" where
  "KernelSection_of mb str_table p =
     \<lparr>ks_base = load64 (p + 16) mb, ks_length = load64 (p + 32) mb, ks_name = str_table + ucast (load32 p mb)\<rparr>"

definition used_sections :: "bmem \<Rightarrow> addr \<Rightarrow> addr \<Rightarrow> nat \<Rightarrow> KernelSection list" where
  "used_sections mb str_table start n = map (KernelSection_of mb str_table)
     (filter (\<lambda>p. load32 (p + 4) mb \<noteq> 0) (map (slot start 64) [0..<n]))"

lemma used_sections_Suc: "used_sections mb str_table start (Suc n) =
  (if load32 (start + 4) mb \<noteq> 0 then [KernelSection_of mb str_table start] else []) @ used_sections mb str_table (start + 64) n"
  unfolding used_sections_def slots_Suc by simp

lemma used_sections_0 [simp]: "used_sections mb str_table start 0 = []"
  by (simp add: used_sections_def)

lemma length_used_sections: "length (used_sections mb str_table start n) \<le> n"
  unfolding used_sections_def by (simp add: le_trans [OF length_filter_le])

lemma sects_at_snoc:
  assumes "sects_at m dest xs" "length xs < 32" and i: "i = get32 (num_kernel_sects_at dest) m"
    and m': "m' = set32 (num_kernel_sects_at dest) (i + 1)
      (m(kernel_sects_at dest i := ks_base x, kernel_sects_at dest i + 8 := ks_length x, kernel_sects_at dest i + 16 := ks_name x))"
  shows "sects_at m' dest (xs @ [x])" "outside sect_words dest m m'"
proof -
  let ?n = "length xs"
  have i': "i = of_nat ?n" using assms(1) i by (simp add: sects_at_def)
  have a: "kernel_sects_at dest i = slot dest 8 (67 + 3 * ?n)"
    using assms(2) by (simp add: i' array_at word_at)
  have m'': "m' = set32 (slot dest 8 66) (of_nat (Suc ?n))
      (m(slot dest 8 (67 + 3 * ?n) := ks_base x, slot dest 8 (68 + 3 * ?n) := ks_length x, slot dest 8 (69 + 3 * ?n) := ks_name x))"
    unfolding m' a word_at word_after by (simp add: i' add.commute)
  have w: "m' (slot dest 8 k) = (if k = 67 + 3 * ?n then ks_base x else if k = 68 + 3 * ?n then ks_length x
      else if k = 69 + 3 * ?n then ks_name x else m (slot dest 8 k))" if "k < 163" "k \<noteq> 66" for k
    using that assms(2) by (simp add: m'' set32_def word_inject)
  then show "outside sect_words dest m m'" by (auto simp: outside_def sect_words_def)
  have "m' (slot dest 8 (67 + 3 * j)) = ks_base ((xs @ [x]) ! j) \<and> m' (slot dest 8 (68 + 3 * j)) = ks_length ((xs @ [x]) ! j) \<and>
      m' (slot dest 8 (69 + 3 * j)) = ks_name ((xs @ [x]) ! j)"
    if "j < Suc ?n" for j
  proof -
    have "68 + 3 * j \<noteq> 67 + 3 * ?n" "67 + 3 * j \<noteq> 68 + 3 * ?n" "69 + 3 * j \<noteq> 67 + 3 * ?n" "67 + 3 * j \<noteq> 69 + 3 * ?n"
      "68 + 3 * j \<noteq> 69 + 3 * ?n" "69 + 3 * j \<noteq> 68 + 3 * ?n" by presburger+
    then show ?thesis using that assms(1,2) w [of "67 + 3 * j"] w [of "68 + 3 * j"] w [of "69 + 3 * j"]
      by (auto simp: sects_at_alt nth_append less_Suc_eq)
  qed
  moreover have "get32 (slot dest 8 66) m' = of_nat (Suc ?n)" by (simp add: m'' get32_set32)
  ultimately show "sects_at m' dest (xs @ [x])"
    using assms(2) by (auto simp: sects_at_alt)
qed

lemma elf_loop_spec:
  assumes "sects_at m dest xs" "length xs + n \<le> 32"
  shows "sects_at (elf_loop mb dest str_table n hdr m) dest (xs @ used_sections mb str_table hdr n) \<and>
    outside sect_words dest m (elf_loop mb dest str_table n hdr m)"
  using assms
proof (induction n arbitrary: hdr m xs)
  case (Suc n)
  show ?case
  proof (cases "load32 (hdr + 4) mb = 0")
    case True
    then show ?thesis using Suc.IH [OF Suc.prems(1)] Suc.prems(2) by (simp add: used_sections_Suc)
  next
    case False
    let ?i = "get32 (num_kernel_sects_at dest) m" and ?x = "KernelSection_of mb str_table hdr"
    define m1 where "m1 = set32 (num_kernel_sects_at dest) (?i + 1)
      (m(kernel_sects_at dest ?i := ks_base ?x, kernel_sects_at dest ?i + 8 := ks_length ?x, kernel_sects_at dest ?i + 16 := ks_name ?x))"
    have m1: "sects_at m1 dest (xs @ [?x])" "outside sect_words dest m m1"
      using sects_at_snoc [OF Suc.prems(1) _ refl m1_def] Suc.prems(2) by simp_all
    have "elf_loop mb dest str_table (Suc n) hdr m = elf_loop mb dest str_table n (hdr + 64) m1"
      using False by (simp add: m1_def KernelSection_of_def Let_def)
    then show ?thesis
      using Suc.IH [OF m1(1), of "hdr + 64"] Suc.prems(2) False outside_trans [OF m1(2)] by (auto simp: used_sections_Suc)
  qed
qed simp

text \<open>Sorting the sections stays within their array.\<close>

lemma kernel_mmap_swp_outside:
  assumes "i < 32" "k < 32"
  shows "outside sect_words dest m (kernel_mmap_swp (slot (kernel_sects_at dest 0) sizeof_KernelSection i)
    (slot (kernel_sects_at dest 0) sizeof_KernelSection k) m)"
  using assms unfolding kernel_mmap_swp_def write_KernelSection_def sizeof_KernelSection_def word_at word_after Let_def
  by (auto simp: outside_def sect_words_def word_inject)

lemma sort_sections:
  assumes "sects_at m dest xs"
  shows "\<exists>m' ys. sort_kernel_section_array (kernel_sects_at dest 0) (ucast (get32 (num_kernel_sects_at dest) m)) m = Some m' \<and>
    sects_at m' dest ys \<and> mset ys = mset xs \<and> sorted (map ks_base ys) \<and> outside sect_words dest m m'"
proof -
  let ?n = "length xs" and ?arr = "kernel_sects_at dest 0" and ?num = "get32 (num_kernel_sects_at dest) m"
  have n: "?n \<le> 32" and num: "?num = of_nat ?n" using assms by (simp_all add: sects_at_def MAX_KERNEL_SECTIONS_def)
  have un: "unat (ucast ?num :: u64) = ?n"
    using n by (simp add: num unsigned_ucast_eq unat_of_nat take_bit_nat_eq_self take_bit_eq_mod)
  then have fit: "fits sizeof_KernelSection (unat (ucast ?num :: u64))" using n by (simp add: fits_def sizeof_KernelSection_def)
  let ?c = "contents read_KernelSection ?arr sizeof_KernelSection ?n"
  obtain m' where m': "sort_kernel_section_array ?arr (ucast ?num) m = Some m'" "mset (?c m') = mset (?c m)" "sorted (map ks_base (?c m'))"
    using ksort.sort_gen_correct [OF fit, of ?arr m] unfolding un sort_kernel_section_array_def by blast
  \<comment> \<open>the number of sections lies before the array\<close>
  define R where "R a b \<longleftrightarrow> outside sect_words dest a b \<and> b (num_kernel_sects_at dest) = a (num_kernel_sects_at dest)" for a b :: wmem
  have "R m m'"
  proof (rule ksort.sort_gen_keeps [OF fit _ _ _ m'(1) [unfolded sort_kernel_section_array_def]])
    fix i k a assume "i < unat (ucast ?num :: u64)" "k < unat (ucast ?num :: u64)"
    then have ik: "i < 32" "k < 32" using n un by auto
    have "kernel_mmap_swp (slot ?arr sizeof_KernelSection i) (slot ?arr sizeof_KernelSection k) a (slot dest 8 66) = a (slot dest 8 66)"
      using ik unfolding kernel_mmap_swp_def write_KernelSection_def sizeof_KernelSection_def word_at word_after Let_def
      by (simp add: word_inject)
    then show "R a (kernel_mmap_swp (slot ?arr sizeof_KernelSection i) (slot ?arr sizeof_KernelSection k) a)"
      using kernel_mmap_swp_outside [OF ik] by (simp add: R_def word_at)
  qed (auto simp: R_def intro: outside_trans)
  then have "outside sect_words dest m m'" "get32 (num_kernel_sects_at dest) m' = ?num" by (simp_all add: R_def get32_def)
  moreover have "sects_at m' dest (?c m')" using calculation(2) n by (simp add: sects_at_def num MAX_KERNEL_SECTIONS_def)
  moreover have "?c m = xs" using assms by (simp add: sects_at_def)
  ultimately show ?thesis using m' by (intro exI [of _ m'] exI [of _ "?c m'"]) simp
qed

definition tag_sections :: "bmem \<Rightarrow> addr \<Rightarrow> KernelSection list" where
  "tag_sections mb tag = used_sections mb (load64 (tag + 20 + 64 * ucast (load32 (tag + 16) mb) + 16) mb) (tag + 20) (unat (load32 (tag + 8) mb))"

lemma parse_elf_spec:
  assumes "unat (load32 (tag + 8) mb) \<le> MAX_KERNEL_SECTIONS"
  shows "\<exists>m ys. parse_elf mb tag dest s = Some (0, s\<lparr>bwords := m\<rparr>) \<and> sects_at m dest ys \<and>
    mset ys = mset (tag_sections mb tag) \<and> sorted (map ks_base ys) \<and> outside sect_words dest (bwords s) m"
proof -
  let ?n = "unat (load32 (tag + 8) mb)" and ?str = "load64 (tag + 20 + 64 * ucast (load32 (tag + 16) mb) + 16) mb"
  define m0 where "m0 = set32 (num_kernel_sects_at dest) 0 (bwords s)"
  define m1 where "m1 = elf_loop mb dest ?str ?n (tag + 20) m0"
  have "outside sect_words dest (bwords s) m0"
    unfolding m0_def set32_def word_at by (rule outside_upd) (simp_all add: sect_words_def)
  moreover have "sects_at m0 dest []" by (simp add: m0_def sects_at_alt get32_set32 word_at)
  then have m1: "sects_at m1 dest (tag_sections mb tag)" "outside sect_words dest m0 m1"
    using elf_loop_spec [of m0 dest "[]" ?n mb ?str "tag + 20"] assms
    by (simp_all add: m1_def MAX_KERNEL_SECTIONS_def tag_sections_def)
  ultimately have out: "outside sect_words dest (bwords s) m1" using outside_trans by blast
  obtain m ys where m: "sort_kernel_section_array (kernel_sects_at dest 0) (ucast (get32 (num_kernel_sects_at dest) m1)) m1 = Some m"
    "sects_at m dest ys" "mset ys = mset (tag_sections mb tag)" "sorted (map ks_base ys)" "outside sect_words dest m1 m"
    using sort_sections [OF m1(1)] by blast
  have "parse_elf mb tag dest s = Some (0, s\<lparr>bwords := m\<rparr>)"
    using assms m(1) unfolding parse_elf_def ELF_parse_section_headers_def Let_def m0_def [symmetric] m1_def [symmetric] by simp
  then show ?thesis using m outside_trans [OF out m(5)] by blast
qed

section \<open>The walk over the tags\<close>

fun tags :: "bmem \<Rightarrow> addr \<Rightarrow> addr list \<Rightarrow> bool" where
  "tags mb tag [] \<longleftrightarrow> load32 tag mb = MULTIBOOT_TAG_TYPE_END"
| "tags mb tag (t # ts) \<longleftrightarrow> t = tag \<and> load32 tag mb \<noteq> MULTIBOOT_TAG_TYPE_END \<and> tags mb (next_tag mb tag) ts"

definition tags_of :: "bmem \<Rightarrow> u32 \<Rightarrow> addr list \<Rightarrow> addr list" where
  "tags_of mb ty ts = filter (\<lambda>t. load32 t mb = ty) ts"

definition tag_ok :: "bmem \<Rightarrow> addr \<Rightarrow> bool" where
  "tag_ok mb t \<longleftrightarrow> (load32 t mb = MULTIBOOT_TAG_TYPE_MMAP \<longrightarrow> mmap_tag_ok mb t) \<and>
     (load32 t mb = MULTIBOOT_TAG_TYPE_ELF_SECTIONS \<longrightarrow> unat (load32 (t + 8) mb) \<le> MAX_KERNEL_SECTIONS)"

text \<open>What a memory map tag and a sections tag leave in the structure.\<close>

definition ram_done :: "bmem \<Rightarrow> addr \<Rightarrow> wmem \<Rightarrow> addr \<Rightarrow> bool" where
  "ram_done mb dest m t \<longleftrightarrow> ram_at m dest (tag_ram mb t) \<and>
     m dest = me_base (last (tag_ram mb t)) + me_length (last (tag_ram mb t))"

definition sects_done :: "bmem \<Rightarrow> addr \<Rightarrow> wmem \<Rightarrow> addr \<Rightarrow> bool" where
  "sects_done mb dest m t \<longleftrightarrow> (\<exists>ys. sects_at m dest ys \<and> mset ys = mset (tag_sections mb t) \<and> sorted (map ks_base ys))"

lemma ram_done_outside:
  assumes "outside sect_words dest m m'" shows "ram_done mb dest m' t \<longleftrightarrow> ram_done mb dest m t"
proof -
  have "m' (slot dest 8 0) = m (slot dest 8 0)" using assms by (simp add: outside_def sect_words_def)
  then show ?thesis using ram_at_outside [OF assms] by (simp add: ram_done_def slot_def)
qed

lemma sects_done_outside: "outside ram_words dest m m' \<Longrightarrow> sects_done mb dest m' t \<longleftrightarrow> sects_done mb dest m t"
  by (simp add: sects_done_def sects_at_outside)

lemma tag_loop_step:
  assumes t: "load32 tag mb \<noteq> MULTIBOOT_TAG_TYPE_END" "tag_ok mb tag"
  obtains m1 where "tag_loop mb dest tag s = tag_loop mb dest (next_tag mb tag) (s\<lparr>bwords := m1\<rparr>)"
    "if load32 tag mb = MULTIBOOT_TAG_TYPE_MMAP then ram_done mb dest m1 tag
     else \<forall>t. ram_done mb dest (bwords s) t \<longrightarrow> ram_done mb dest m1 t"
    "if load32 tag mb = MULTIBOOT_TAG_TYPE_ELF_SECTIONS then sects_done mb dest m1 tag
     else \<forall>t. sects_done mb dest (bwords s) t \<longrightarrow> sects_done mb dest m1 t"
proof -
  let ?M = "load32 tag mb = MULTIBOOT_TAG_TYPE_MMAP" and ?E = "load32 tag mb = MULTIBOOT_TAG_TYPE_ELF_SECTIONS"
  consider (M) ?M | (E) "\<not> ?M" ?E | (O) "\<not> ?M" "\<not> ?E" by blast
  then show ?thesis
  proof cases
    case M
    then obtain m where "parse_mmap mb tag dest s = Some (0, s\<lparr>bwords := m\<rparr>)" "ram_done mb dest m tag" "outside ram_words dest (bwords s) m"
      using parse_mmap_spec [of mb tag dest s] t(2) by (auto simp: tag_ok_def ram_done_def)
    moreover have "\<not> ?E" using M by (simp add: boot_consts)
    ultimately show ?thesis using M t(1) by (intro that [of m]) (simp_all add: tag_loop.simps [of mb dest tag] sects_done_outside)
  next
    case E
    then obtain m where "parse_elf mb tag dest s = Some (0, s\<lparr>bwords := m\<rparr>)" "sects_done mb dest m tag" "outside sect_words dest (bwords s) m"
      using parse_elf_spec [of tag mb dest s] t(2) by (auto simp: tag_ok_def sects_done_def)
    then show ?thesis using E t(1) by (intro that [of m]) (simp_all add: tag_loop.simps [of mb dest tag] ram_done_outside)
  next
    case O
    then show ?thesis using t(1) by (intro that [of "bwords s"]) (simp_all add: tag_loop.simps [of mb dest tag])
  qed
qed

lemma tag_loop_spec:
  assumes "tags mb tag ts" "\<forall>t\<in>set ts. tag_ok mb t"
  shows "\<exists>m. tag_loop mb dest tag s = Some (0, s\<lparr>bwords := m\<rparr>) \<and>
    (if tags_of mb MULTIBOOT_TAG_TYPE_MMAP ts = [] then (\<forall>t. ram_done mb dest (bwords s) t \<longrightarrow> ram_done mb dest m t)
     else ram_done mb dest m (last (tags_of mb MULTIBOOT_TAG_TYPE_MMAP ts))) \<and>
    (if tags_of mb MULTIBOOT_TAG_TYPE_ELF_SECTIONS ts = [] then (\<forall>t. sects_done mb dest (bwords s) t \<longrightarrow> sects_done mb dest m t)
     else sects_done mb dest m (last (tags_of mb MULTIBOOT_TAG_TYPE_ELF_SECTIONS ts)))"
  using assms
proof (induction ts arbitrary: tag s)
  case Nil
  then show ?case by (subst tag_loop.simps) (auto simp: tags_of_def intro!: exI [of _ "bwords s"])
next
  case (Cons t ts)
  then have t: "t = tag" "load32 tag mb \<noteq> MULTIBOOT_TAG_TYPE_END" "tags mb (next_tag mb tag) ts" "tag_ok mb tag" by simp_all
  let ?M = "load32 tag mb = MULTIBOOT_TAG_TYPE_MMAP" and ?E = "load32 tag mb = MULTIBOOT_TAG_TYPE_ELF_SECTIONS"
  obtain m1 where m1: "tag_loop mb dest tag s = tag_loop mb dest (next_tag mb tag) (s\<lparr>bwords := m1\<rparr>)"
    "if ?M then ram_done mb dest m1 tag else \<forall>t. ram_done mb dest (bwords s) t \<longrightarrow> ram_done mb dest m1 t"
    "if ?E then sects_done mb dest m1 tag else \<forall>t. sects_done mb dest (bwords s) t \<longrightarrow> sects_done mb dest m1 t"
    using tag_loop_step [OF t(2,4)] by blast
  from Cons.IH [OF t(3), of "s\<lparr>bwords := m1\<rparr>"] Cons.prems(2) obtain m where
    "tag_loop mb dest (next_tag mb tag) (s\<lparr>bwords := m1\<rparr>) = Some (0, s\<lparr>bwords := m\<rparr>)"
    "if tags_of mb MULTIBOOT_TAG_TYPE_MMAP ts = [] then (\<forall>t. ram_done mb dest m1 t \<longrightarrow> ram_done mb dest m t)
     else ram_done mb dest m (last (tags_of mb MULTIBOOT_TAG_TYPE_MMAP ts))"
    "if tags_of mb MULTIBOOT_TAG_TYPE_ELF_SECTIONS ts = [] then (\<forall>t. sects_done mb dest m1 t \<longrightarrow> sects_done mb dest m t)
     else sects_done mb dest m (last (tags_of mb MULTIBOOT_TAG_TYPE_ELF_SECTIONS ts))"
    by auto
  then show ?case using m1 t(1) by (intro exI [of _ m]) (auto simp: tags_of_def)
qed

text \<open>Tags that do not fit into the arrays.\<close>

definition tag_too_long :: "bmem \<Rightarrow> addr \<Rightarrow> bool" where
  "tag_too_long mb t \<longleftrightarrow>
     load32 t mb = MULTIBOOT_TAG_TYPE_MMAP \<and> load32 (t + 8) mb \<noteq> 0 \<and> length (tag_ram mb t) > MAX_MMAP_ENTRIES \<or>
     load32 t mb = MULTIBOOT_TAG_TYPE_ELF_SECTIONS \<and> unat (load32 (t + 8) mb) > MAX_KERNEL_SECTIONS"

lemma tag_loop_too_long:
  assumes "tag_too_long mb tag"
  shows "\<exists>m msg. tag_loop mb dest tag s = Some (- 1, klog KLOG_LEVEL_EMERG msg [] (s\<lparr>bwords := m\<rparr>))"
proof (cases "load32 tag mb = MULTIBOOT_TAG_TYPE_MMAP")
  case True
  let ?m0 = "set32 (num_mmap_at dest) 0 (bwords s)"
  obtain m where "mmap_loop mb dest (mmap_entries mb tag) (tag + 16) (s\<lparr>bwords := ?m0\<rparr>)
      = Inl (klog KLOG_LEVEL_EMERG ''max mmap entries exceeded in multiboot info'' [] (s\<lparr>bwords := m\<rparr>))"
    using mmap_loop_spec [of "s\<lparr>bwords := ?m0\<rparr>" dest "[]" mb "tag + 16" "mmap_entries mb tag"] ram_at_Nil(1) True assms
    by (auto simp: tag_too_long_def tag_ram_def boot_consts)
  then show ?thesis
    using True assms by (subst tag_loop.simps) (auto simp: tag_too_long_def parse_mmap_def mmap_entries_def boot_consts)
next
  case False
  then have "parse_elf mb tag dest s = Some (- 1, klog KLOG_LEVEL_EMERG ''max kernel sections exceeded in elf file'' [] s)"
    "load32 tag mb = MULTIBOOT_TAG_TYPE_ELF_SECTIONS"
    using assms by (auto simp: tag_too_long_def parse_elf_def ELF_parse_section_headers_def)
  then show ?thesis by (subst tag_loop.simps) (auto simp: boot_consts intro!: exI [of _ "bwords s"])
qed

lemma tag_loop_rejects:
  assumes "tags mb tag ts" "\<forall>t\<in>set ts. tag_ok mb t \<or> tag_too_long mb t" "\<exists>t\<in>set ts. tag_too_long mb t"
  shows "\<exists>m msg. tag_loop mb dest tag s = Some (- 1, klog KLOG_LEVEL_EMERG msg [] (s\<lparr>bwords := m\<rparr>))"
  using assms
proof (induction ts arbitrary: tag s)
  case (Cons t ts)
  then have t: "t = tag" "load32 tag mb \<noteq> MULTIBOOT_TAG_TYPE_END" "tags mb (next_tag mb tag) ts" by simp_all
  show ?case
  proof (cases "tag_too_long mb tag")
    case False
    then have "tag_ok mb tag" using Cons.prems(2) t(1) by simp
    then obtain m1 where "tag_loop mb dest tag s = tag_loop mb dest (next_tag mb tag) (s\<lparr>bwords := m1\<rparr>)"
      by (rule tag_loop_step [OF t(2)])
    then show ?thesis using Cons.IH [OF t(3), of "s\<lparr>bwords := m1\<rparr>"] Cons.prems(2,3) False t(1) by auto
  qed (rule tag_loop_too_long)
qed simp

lemma PhysicalMMap_ram: "ram_at m dest xs \<Longrightarrow> ram (PhysicalMMap_at m dest) = map (\<lambda>e. (me_base e, me_length e)) xs"
proof -
  assume r: "ram_at m dest xs"
  let ?c = "\<lambda>n. contents read_MMapEntry (ram_sects_at dest 0) sizeof_MMapEntry n m"
  have "unat (of_nat (length xs) :: u32) = length xs" "length xs \<le> 32"
    using r by (simp_all add: ram_at_def MAX_MMAP_ENTRIES_def unat_of_nat)
  moreover have "take (length xs) (?c 32) = ?c (length xs)" using calculation(2) by (simp add: contents_def take_map)
  ultimately show ?thesis using r by (simp add: ram_def PhysicalMMap_at_def ram_at_def MAX_MMAP_ENTRIES_def)
qed

lemma PhysicalMMap_sections: "sects_at m dest xs \<Longrightarrow> sections (PhysicalMMap_at m dest) = map (\<lambda>k. (ks_base k, ks_length k)) xs"
proof -
  assume r: "sects_at m dest xs"
  let ?c = "\<lambda>n. contents read_KernelSection (kernel_sects_at dest 0) sizeof_KernelSection n m"
  have "unat (of_nat (length xs) :: u32) = length xs" "length xs \<le> 32"
    using r by (simp_all add: sects_at_def MAX_KERNEL_SECTIONS_def unat_of_nat)
  moreover have "take (length xs) (?c 32) = ?c (length xs)" using calculation(2) by (simp add: contents_def take_map)
  ultimately show ?thesis using r by (simp add: sections_def PhysicalMMap_at_def sects_at_def MAX_KERNEL_SECTIONS_def)
qed

section \<open>An example\<close>

text \<open>A memory map with two areas of RAM and a reserved one between them, and the sections of a kernel in descending order.\<close>

definition mb_example :: bmem where
  "mb_example = (\<lambda>_. 0)(0x1008 := 6, 0x100C := 0x58, 0x1010 := 24,
     0x1021 := 0xFC, 0x1022 := 0x09, 0x1028 := 1,
     0x1031 := 0xFC, 0x1032 := 0x09, 0x1039 := 0x04, 0x1040 := 2,
     0x104A := 0x10, 0x1052 := 0xEE, 0x1053 := 0x07, 0x1058 := 1,
     0x1060 := 9, 0x1064 := 0x94, 0x1068 := 2, 0x106C := 64,
     0x1078 := 1, 0x1085 := 0x80, 0x1086 := 0x10, 0x1094 := 0x23, 0x1095 := 0x41,
     0x10B8 := 1, 0x10C6 := 0x10, 0x10D5 := 0x80)"

lemmas load_simps = load64_def load32_def load16_def

lemma mb_example_tags: "tags mb_example 0x1008 [0x1008, 0x1060]"
  by (simp add: next_tag_def boot_consts load_simps mb_example_def)

lemma mb_example_ram: "tag_ram mb_example 0x1008 =
  [\<lparr>me_base = 0, me_length = 0x9FC00\<rparr>, \<lparr>me_base = 0x100000, me_length = 0x7EE0000\<rparr>]"
proof -
  have "mmap_entries mb_example 0x1008 = Suc (Suc (Suc 0))"
    by (simp add: mmap_entries_def load_simps mb_example_def)
  then show ?thesis
    by (simp add: tag_ram_def available_Suc MMapEntry_of_def boot_consts load_simps mb_example_def)
qed

lemma mb_example_sections: "map (\<lambda>k. (ks_base k, ks_length k)) (tag_sections mb_example 0x1060) = [(0x108000, 0x4123), (0x100000, 0x8000)]"
proof -
  have n: "unat (load32 (0x1060 + 8) mb_example) = Suc (Suc 0)" by (simp add: load_simps mb_example_def)
  show ?thesis
    unfolding tag_sections_def n by (simp add: used_sections_Suc KernelSection_of_def load_simps mb_example_def)
qed

lemma mb_example_ok: "\<forall>t\<in>set [0x1008, 0x1060]. tag_ok mb_example t"
  by (simp add: tag_ok_def mmap_tag_ok_def mb_example_ram) (simp add: boot_consts load_simps mb_example_def)

definition boot_state_example :: "(u16 \<Rightarrow> u8) boot" where
  "boot_state_example = kbase.extend kbase_example \<lparr>bwords = (\<lambda>_. 0)\<rparr>"

text \<open>The same with a sections tag of 33 headers.\<close>

definition mb_long_example :: bmem where
  "mb_long_example = mb_example(0x1068 := 33)"

lemma mb_long_example_tags: "tags mb_long_example 0x1008 [0x1008, 0x1060]" "tag_ok mb_long_example 0x1008"
  "tag_too_long mb_long_example 0x1060"
proof -
  show "tags mb_long_example 0x1008 [0x1008, 0x1060]"
    by (simp add: next_tag_def boot_consts load_simps mb_example_def mb_long_example_def)
  have "mmap_entries mb_long_example 0x1008 = Suc (Suc (Suc 0))"
    by (simp add: mmap_entries_def load_simps mb_example_def mb_long_example_def)
  then have "tag_ram mb_long_example 0x1008 =
      [\<lparr>me_base = 0, me_length = 0x9FC00\<rparr>, \<lparr>me_base = 0x100000, me_length = 0x7EE0000\<rparr>]"
    by (simp add: tag_ram_def available_Suc MMapEntry_of_def boot_consts load_simps mb_example_def mb_long_example_def)
  then show "tag_ok mb_long_example 0x1008"
    by (simp add: tag_ok_def mmap_tag_ok_def) (simp add: boot_consts load_simps mb_example_def mb_long_example_def)
  show "tag_too_long mb_long_example 0x1060"
    by (simp add: tag_too_long_def boot_consts load_simps mb_example_def mb_long_example_def)
qed

section \<open>Properties\<close>

text \<open>C11: the information of the boot loader is read correctly: for tags that end with an end tag and fit into the arrays, with
  the available areas of the memory map in ascending order, \<open>BOOT_parse_multiboot\<close> returns 0, and the structure it filled describes
  exactly the available areas of the last memory map tag, the end of the highest of them as the amount of RAM, and the used sections
  of the last sections tag, sorted by address.\<close>

theorem BOOT_parse_multiboot_correct:
  assumes "tags mb (ucast (mb_addr + 8)) ts" "\<forall>t\<in>set ts. tag_ok mb t"
    and "tags_of mb MULTIBOOT_TAG_TYPE_MMAP ts \<noteq> []" "tags_of mb MULTIBOOT_TAG_TYPE_ELF_SECTIONS ts \<noteq> []"
    and "mt = last (tags_of mb MULTIBOOT_TAG_TYPE_MMAP ts)" "et = last (tags_of mb MULTIBOOT_TAG_TYPE_ELF_SECTIONS ts)"
  shows "\<exists>m. BOOT_parse_multiboot mb dest MULTIBOOT2_BOOTLOADER_MAGIC mb_addr s = Some (0, s\<lparr>bwords := m\<rparr>) \<and>
    ram (PhysicalMMap_at m dest) = map (\<lambda>e. (me_base e, me_length e)) (tag_ram mb mt) \<and>
    total_ram (PhysicalMMap_at m dest) = me_base (last (tag_ram mb mt)) + me_length (last (tag_ram mb mt)) \<and>
    mset (sections (PhysicalMMap_at m dest)) = mset (map (\<lambda>k. (ks_base k, ks_length k)) (tag_sections mb et)) \<and>
    sorted (map fst (sections (PhysicalMMap_at m dest)))"
proof -
  obtain m where m: "tag_loop mb dest (ucast (mb_addr + 8)) s = Some (0, s\<lparr>bwords := m\<rparr>)" "ram_done mb dest m mt" "sects_done mb dest m et"
    using tag_loop_spec [OF assms(1,2), of dest s] assms(3-6) by auto
  obtain ys where ys: "sects_at m dest ys" "mset ys = mset (tag_sections mb et)" "sorted (map ks_base ys)"
    using m(3) by (auto simp: sects_done_def)
  have r: "ram_at m dest (tag_ram mb mt)" "m dest = me_base (last (tag_ram mb mt)) + me_length (last (tag_ram mb mt))"
    using m(2) by (simp_all add: ram_done_def)
  have "mset (map (\<lambda>k. (ks_base k, ks_length k)) ys) = mset (map (\<lambda>k. (ks_base k, ks_length k)) (tag_sections mb et))"
    using ys(2) by simp
  then show ?thesis
    using m(1) r(2) ys(3) PhysicalMMap_ram [OF r(1)] PhysicalMMap_sections [OF ys(1)]
    by (intro exI [of _ m]) (simp add: BOOT_parse_multiboot_def PhysicalMMap_at_def comp_def)
qed

theorem BOOT_parse_multiboot_correct_witness:
  "\<exists>m. BOOT_parse_multiboot mb_example 0x5000 0x36d76289 0x1000 boot_state_example = Some (0, boot_state_example\<lparr>bwords := m\<rparr>) \<and>
    ram (PhysicalMMap_at m 0x5000) = [(0, 0x9FC00), (0x100000, 0x7EE0000)] \<and> total_ram (PhysicalMMap_at m 0x5000) = 0x7FE0000 \<and>
    mset (sections (PhysicalMMap_at m 0x5000)) = {#(0x100000, 0x8000), (0x108000, 0x4123)#}"
proof -
  have t: "tags mb_example (ucast (0x1000 + 8 :: u32)) [0x1008, 0x1060]" using mb_example_tags by (simp del: tags.simps)
  have o: "tags_of mb_example MULTIBOOT_TAG_TYPE_MMAP [0x1008, 0x1060] = [0x1008]"
    "tags_of mb_example MULTIBOOT_TAG_TYPE_ELF_SECTIONS [0x1008, 0x1060] = [0x1060]"
    by (simp_all add: tags_of_def boot_consts load_simps mb_example_def)
  have "0x1008 = last (tags_of mb_example MULTIBOOT_TAG_TYPE_MMAP [0x1008, 0x1060])"
    "0x1060 = last (tags_of mb_example MULTIBOOT_TAG_TYPE_ELF_SECTIONS [0x1008, 0x1060])" by (simp_all add: o)
  note BOOT_parse_multiboot_correct [OF t mb_example_ok _ _ this, of "0x5000" boot_state_example, unfolded mb_example_sections]
  then obtain m where "BOOT_parse_multiboot mb_example 0x5000 MULTIBOOT2_BOOTLOADER_MAGIC 0x1000 boot_state_example = Some (0, boot_state_example\<lparr>bwords := m\<rparr>)"
    "ram (PhysicalMMap_at m 0x5000) = [(0, 0x9FC00), (0x100000, 0x7EE0000)]" "total_ram (PhysicalMMap_at m 0x5000) = 0x7FE0000"
    "mset (sections (PhysicalMMap_at m 0x5000)) = {#(0x100000, 0x8000), (0x108000, 0x4123)#}"
    by (auto simp: o mb_example_ram add_mset_commute)
  then show ?thesis by (intro exI [of _ m]) (simp add: MULTIBOOT2_BOOTLOADER_MAGIC_def)
qed

text \<open>Boot information that does not fit is rejected: when a memory map tag has more available areas, or a sections tag more
  headers, than the arrays of \<open>struct PhysicalMMap\<close> have elements, \<open>BOOT_parse_multiboot\<close> returns -1 and logs an emergency.\<close>

theorem BOOT_parse_multiboot_rejects:
  assumes "tags mb (ucast (mb_addr + 8)) ts" "\<forall>t\<in>set ts. tag_ok mb t \<or> tag_too_long mb t" "\<exists>t\<in>set ts. tag_too_long mb t"
  shows "\<exists>m msg. BOOT_parse_multiboot mb dest MULTIBOOT2_BOOTLOADER_MAGIC mb_addr s =
    Some (- 1, klog KLOG_LEVEL_EMERG msg [] (s\<lparr>bwords := m\<rparr>))"
  using tag_loop_rejects [OF assms] by (simp add: BOOT_parse_multiboot_def)

theorem BOOT_parse_multiboot_rejects_witness:
  "\<exists>m msg. BOOT_parse_multiboot mb_long_example 0x5000 0x36d76289 0x1000 boot_state_example =
    Some (- 1, klog KLOG_LEVEL_EMERG msg [] (boot_state_example\<lparr>bwords := m\<rparr>))"
  using BOOT_parse_multiboot_rejects [of mb_long_example "0x1000" "[0x1008, 0x1060]" "0x5000" boot_state_example] mb_long_example_tags
  by (simp add: MULTIBOOT2_BOOTLOADER_MAGIC_def del: tags.simps)

end
