(* ===== verification/Process_Start.thy ===== *)
theory Process_Start
  imports Fs
begin

text \<open>
  The creation of a process (\<open>PROC_create_process\<close> of \<^verbatim>\<open>src/src/proc.c\<close>): where the new structure and the new stack lie, what the
  first switch to the process loads, and that the other processes and the heap are left as they were.
\<close>

section \<open>Stacks\<close>

lemma alloc_stack_loop_frame:
  "next_kernel_heap_vaddr (alloc_stack_loop n s) = next_kernel_heap_vaddr s \<and> mm.more (alloc_stack_loop n s) = mm.more s \<and>
   next_kernel_thread_stack_vaddr (alloc_stack_loop n s) = next_kernel_thread_stack_vaddr s - of_nat n * PAGE_SIZE \<and>
   handlers (alloc_stack_loop n s) = handlers s"
proof (induction n arbitrary: s)
  case (Suc n)
  obtain r t where eq: "PT_demand_allocate (next_kernel_thread_stack_vaddr s) s = (r, t)" by fastforce
  then have "same_cursors s t" using PT_demand_allocate_cursors [of s "next_kernel_thread_stack_vaddr s"] by simp
  then show ?case using eq by (simp add: same_cursors_def Suc.IH distrib_right diff_diff_eq)
qed simp

lemma MMU_alloc_stack_spec:
  assumes "stack_room s" "MMU_alloc_stack s = (stk, t)"
  shows "stk = next_kernel_thread_stack_vaddr s" "mm.more t = mm.more s" "next_kernel_heap_vaddr t = next_kernel_heap_vaddr s"
    "next_kernel_thread_stack_vaddr t = stk - 0xA000" "handlers t = handlers s" "vm_inv s \<Longrightarrow> vm_inv t"
proof -
  have "next_kernel_thread_stack_vaddr s \<noteq> MMAP_KERNEL_HEAP_START" using assms(1) by (auto simp: stack_room_def mmap_consts)
  then have t: "stk = next_kernel_thread_stack_vaddr s" "t = IRQ_enable (alloc_stack_loop 10 (IRQ_disable s))"
    using assms(2) by (simp_all add: MMU_alloc_stack_def Let_def KERNEL_THREAD_STACK_SIZE_PAGES_def)
  have "mm.more (IRQ_disable u) = mm.more u" "mm.more (IRQ_enable u) = mm.more u" for u :: "('a, 'b) mm_scheme"
    by (simp_all add: IRQ_disable_def IRQ_enable_def Let_def)
  then show "stk = next_kernel_thread_stack_vaddr s" "mm.more t = mm.more s" "next_kernel_heap_vaddr t = next_kernel_heap_vaddr s"
    "next_kernel_thread_stack_vaddr t = stk - 0xA000" "handlers t = handlers s"
    using t alloc_stack_loop_frame [of 10 "IRQ_disable s"] by (simp_all add: PAGE_SIZE_def)
  show "vm_inv s \<Longrightarrow> vm_inv t" using MMU_alloc_stack_inv [of s] assms by simp
qed

text \<open>The heap does not take stack addresses.\<close>

lemma MMU_alloc_page_stacks [simp]: "next_kernel_thread_stack_vaddr (snd (MMU_alloc_page s)) = next_kernel_thread_stack_vaddr s"
proof -
  have "next_kernel_thread_stack_vaddr (snd (PT_demand_allocate va u)) = next_kernel_thread_stack_vaddr u" for va and u :: "('a, 'b) mm_scheme"
    using PT_demand_allocate_cursors [of u va] by (simp add: same_cursors_def)
  then show ?thesis by (simp add: MMU_alloc_page_def Let_def case_prod_beta klog_def IRQ_disable_def IRQ_enable_def)
qed

lemma alloc_more_pages_stacks [simp]: "next_kernel_thread_stack_vaddr (snd (alloc_more_pages n s)) = next_kernel_thread_stack_vaddr s"
  by (induction n arbitrary: s) (simp_all add: Let_def case_prod_beta)

lemma MMU_alloc_pages_stacks [simp]: "next_kernel_thread_stack_vaddr (snd (MMU_alloc_pages n s)) = next_kernel_thread_stack_vaddr s"
  by (simp add: MMU_alloc_pages_def Let_def case_prod_beta IRQ_disable_def IRQ_enable_def)

lemma increase_loop_stacks [simp]:
  "next_kernel_thread_stack_vaddr (increase_loop pool n prev cur s) = next_kernel_thread_stack_vaddr s"
proof -
  obtain m h where "increase_loop pool n prev cur s = s\<lparr>vmem := m, pool_free_head := h\<rparr>"
    using increase_loop_frame [of s pool n prev cur] unfolding only_heap_def by blast
  then show ?thesis by simp
qed

lemma kmalloc_stacks: "next_kernel_thread_stack_vaddr (snd (kmalloc sz s)) = next_kernel_thread_stack_vaddr s"
  by (simp add: kmalloc_def kmalloc_alloc_def kmalloc_increase_pool_def Let_def case_prod_beta split: option.split)

text \<open>Nor does it change the table of interrupt handlers.\<close>

lemma MMU_alloc_page_handlers [simp]: "handlers (snd (MMU_alloc_page s)) = handlers s"
proof -
  have "handlers (snd (PT_demand_allocate va u)) = handlers u" for va and u :: "('a, 'b) mm_scheme"
    using PT_demand_allocate_cursors [of u va] by (simp add: same_cursors_def)
  then show ?thesis by (simp add: MMU_alloc_page_def Let_def case_prod_beta klog_def IRQ_disable_def IRQ_enable_def)
qed

lemma alloc_more_pages_handlers [simp]: "handlers (snd (alloc_more_pages n s)) = handlers s"
  by (induction n arbitrary: s) (simp_all add: Let_def case_prod_beta)

lemma MMU_alloc_pages_handlers [simp]: "handlers (snd (MMU_alloc_pages n s)) = handlers s"
  by (simp add: MMU_alloc_pages_def Let_def case_prod_beta IRQ_disable_def IRQ_enable_def)

lemma kmalloc_handlers: "handlers (snd (kmalloc sz s)) = handlers s"
proof -
  have "handlers (increase_loop pool n prev cur u) = handlers u" for pool n prev cur and u :: "('a, 'b) kheap_scheme"
  proof -
    obtain m h where "increase_loop pool n prev cur u = u\<lparr>vmem := m, pool_free_head := h\<rparr>"
      using increase_loop_frame [of u pool n prev cur] unfolding only_heap_def by blast
    then show ?thesis by simp
  qed
  then show ?thesis by (simp add: kmalloc_def kmalloc_alloc_def kmalloc_increase_pool_def Let_def case_prod_beta split: option.split)
qed

section \<open>Creation\<close>

lemma psys_more:
  fixes s t :: "('d, 'a) psys_scheme"
  assumes "kheap.more t = kheap.more s"
  shows "lists t = lists s" "proc_of t = proc_of s" "ready_queue t = ready_queue s" "procs_list t = procs_list s"
    "process_exit_addr t = process_exit_addr s" "curr_proc t = curr_proc s" "psys.more t = psys.more s"
  using assms by (cases s; cases t; simp)+

text \<open>What holds of the processes: the ready queue and the list of all processes are lists of headers at offsets 0 and 16, in
  memory the heap will not hand out.\<close>

definition procs_ok :: "('d, 'a) psys_scheme \<Rightarrow> addr list \<Rightarrow> addr list \<Rightarrow> (addr \<times> bkind) set \<Rightarrow> bool" where
  "procs_ok s ps qs live \<longleftrightarrow> ll_list (lists s) (ready_queue s) ps \<and> ll_list (lists s) (procs_list s) qs \<and>
     hoff (lists s) (ready_queue s) = 0 \<and> hoff (lists s) (procs_list s) = 16 \<and>
     ll_foot (lists s) (ready_queue s) ps \<inter> ll_foot (lists s) (procs_list s) qs = {} \<and>
     (\<forall>a \<in> ll_foot (lists s) (ready_queue s) ps \<union> ll_foot (lists s) (procs_list s) qs. held live a)"

text \<open>A list that has nothing to do with the processes, in memory the heap will not hand out.\<close>

definition apart :: "('d, 'a) psys_scheme \<Rightarrow> addr list \<Rightarrow> addr list \<Rightarrow> (addr \<times> bkind) set \<Rightarrow> addr \<Rightarrow> addr list \<Rightarrow> bool" where
  "apart s ps qs live k es \<longleftrightarrow> ll_list (lists s) k es \<and> (\<forall>a\<in>ll_foot (lists s) k es. held live a) \<and>
     ll_foot (lists s) k es \<inter> (ll_foot (lists s) (ready_queue s) ps \<union> ll_foot (lists s) (procs_list s) qs) = {}"

definition new_headers :: "addr \<Rightarrow> lheap \<Rightarrow> lheap" where
  "new_headers new h = h\<lparr>nxt := (nxt h)(new := NULL, new + 16 := NULL), prv := (prv h)(new := NULL, new + 16 := NULL)\<rparr>"

lemma new_headers_simps [simp]:
  "hoff (new_headers new h) = hoff h" "LL_nhead (new_headers new h) = LL_nhead h" "ll_foot (new_headers new h) = ll_foot h"
  by (simp_all add: new_headers_def fun_eq_iff LL_nhead_def ll_foot_def ll_nodes_def)

lemma new_headers_list:
  "ll_list h l ds \<Longrightarrow> new \<notin> ll_foot h l ds \<Longrightarrow> new + 16 \<notin> ll_foot h l ds \<Longrightarrow> ll_list (new_headers new h) l ds"
  by (subst ll_list_cong [of _ _ h]) (auto simp: new_headers_def)

lemma create_lists:
  fixes h r q new
  defines "h2 \<equiv> LL_enqueue q new (LL_enqueue r new (new_headers new h))"
  assumes r: "ll_list h r ps" "hoff h r = 0" and q: "ll_list h q qs" "hoff h q = 16"
    and d: "ll_foot h r ps \<inter> ll_foot h q qs = {}"
    and n: "new \<notin> ll_foot h r ps \<union> ll_foot h q qs" "new + 16 \<notin> ll_foot h r ps \<union> ll_foot h q qs"
  shows "ll_list h2 r (ps @ [new])" "ll_list h2 q (qs @ [new])" "hoff h2 = hoff h"
    "ll_foot h2 r (ps @ [new]) = insert new (ll_foot h r ps)" "ll_foot h2 q (qs @ [new]) = insert (new + 16) (ll_foot h q qs)"
    "\<And>k es. ll_list h k es \<Longrightarrow> ll_foot h k es \<inter> (ll_foot h r ps \<union> ll_foot h q qs \<union> {new, new + 16}) = {} \<Longrightarrow> ll_list h2 k es"
proof -
  let ?h0 = "new_headers new h" and ?h1 = "LL_enqueue r new (new_headers new h)"
  have nh: "LL_nhead h r new = new" "LL_nhead h q new = new + 16" using r q by (simp_all add: LL_nhead_def add.commute)
  have r0: "ll_list ?h0 r ps" and q0: "ll_list ?h0 q qs" using r q n by (auto intro!: new_headers_list)
  have r1: "ll_list ?h1 r (ps @ [new])" using n nh by (intro LL_enqueue_list [OF r0]) auto
  have q1: "ll_list ?h1 q qs" using d n nh by (intro LL_enqueue_frame [OF r0 q0]) auto
  have ne: "new + 16 \<noteq> new" by simp
  have rq: "r \<notin> ll_foot h q qs" using d sentinel_in_foot by blast
  have f: "ll_foot h r [new] = {r, new}" "ll_foot h q [new] = {q, new + 16}" by (auto simp: nh)
  show "ll_list h2 q (qs @ [new])" unfolding h2_def using n nh by (intro LL_enqueue_list [OF q1]) auto
  show "ll_list h2 r (ps @ [new])" unfolding h2_def using d n nh ne rq by (intro LL_enqueue_frame [OF q1 r1]) (auto simp: f)
  show "hoff h2 = hoff h" by (simp add: h2_def fun_eq_iff LL_enqueue_def)
  show "ll_foot h2 r (ps @ [new]) = insert new (ll_foot h r ps)" "ll_foot h2 q (qs @ [new]) = insert (new + 16) (ll_foot h q qs)"
    by (auto simp: h2_def nh)
  fix k es
  assume k: "ll_list h k es" "ll_foot h k es \<inter> (ll_foot h r ps \<union> ll_foot h q qs \<union> {new, new + 16}) = {}"
  have k0: "ll_list ?h0 k es" using k by (intro new_headers_list) auto
  have k1: "ll_list ?h1 k es" using k nh by (intro LL_enqueue_frame [OF r0 k0]) auto
  show "ll_list h2 k es" unfolding h2_def using k nh by (intro LL_enqueue_frame [OF q1 k1]) auto
qed

text \<open>The state after the allocation of the structure and of the stack: \<open>new\<close> was allocated in \<open>u\<close>, the stack taken from \<open>v\<close>.\<close>

lemma kinv_stack_words:
  assumes K: "kinv s F live" and r: "0x10000000000 + 0xA000 \<le> unat stk" "unat stk < 0x20000000000"
  shows "kinv (s\<lparr>vmem := (vmem s)(stk := a, stk - 8 := b, stk - 16 := c)\<rparr>) F live"
proof (rule kinv_mem [OF K])
  fix x k assume x: "(x, k) \<in> live \<union> free_blocks F"
  note ok = kinvD(7) [OF K x]
  have "0xF0000000000 \<le> unat x" "unat x + bsize k \<le> 2 ^ 44" "16 \<le> bsize k"
    using ok block_words(4,6) [OF kinvD(1) [OF K] ok] by (simp_all add: block_ok_def)
  moreover from this have "unat (x + 8) = unat x + 8" by (simp add: unat_word_ariths)
  moreover have "unat (stk - 8) \<le> unat stk" "unat (stk - 16) \<le> unat stk" using r by (simp_all add: unat_sub_if')
  ultimately have "y \<notin> {stk, stk - 8, stk - 16}" if "y \<in> {x, x + 8}" for y using r that by auto
  then show "((vmem s)(stk := a, stk - 8 := b, stk - 16 := c)) x = vmem s x \<and>
      ((vmem s)(stk := a, stk - 8 := b, stk - 16 := c)) (x + 8) = vmem s (x + 8)" by auto
qed

text \<open>After the allocations; \<open>stk\<close> is the top of the new stack.\<close>

lemma create_alloc:
  fixes s :: "('d, 'a) psys_scheme"
  assumes K: "kinv s F live" and c: "cursor_at s n" "n + 5 \<le> 2 ^ 28" and st: "stack_room s"
  defines "stk \<equiv> next_kernel_thread_stack_vaddr s"
  shows "\<exists>new u w F' j. kmalloc sizeof_Process s = (new, u) \<and> new \<noteq> NULL \<and>
    MMU_alloc_stack (u\<lparr>proc_of := (proc_of u)(new := zero_Process), lists := new_headers new (lists u)\<rparr>) = (stk, w) \<and>
    kinv w F' (insert (new - HEADER_SIZE, kind_of sizeof_Process) live) \<and> (new - HEADER_SIZE, kind_of sizeof_Process) \<notin> live \<and>
    cursor_at w j \<and> j \<le> n + 5 \<and> next_kernel_thread_stack_vaddr w = stk - 0xA000 \<and> handlers w = handlers s \<and>
    kheap.more w = kheap.more (s\<lparr>proc_of := (proc_of s)(new := zero_Process), lists := new_headers new (lists s)\<rparr>)"
proof -
  have sz: "0 < unat sizeof_Process" "unat sizeof_Process < 2 ^ 40" "pages_for sizeof_Process = 1"
    by (simp_all add: sizeof_Process_def pages_for_def)
  obtain new u where m: "kmalloc sizeof_Process s = (new, u)" by fastforce
  have room: "n + 4 + pages_for sizeof_Process \<le> 2 ^ 28" using c(2) sz by simp
  note A = kmalloc_room [OF K c(1) room sz(1,2) m]
  let ?x = "(new - HEADER_SIZE, kind_of sizeof_Process)"
  obtain F1 j where K1: "kinv u F1 (insert ?x live)" and j: "cursor_at u j" "j \<le> n + 5" using A(4,5) sz(3) by (auto simp: add.commute)
  define v where "v = u\<lparr>proc_of := (proc_of u)(new := zero_Process), lists := new_headers new (lists u)\<rparr>"
  have v: "next_kernel_thread_stack_vaddr v = stk" "handlers v = handlers s"
    using kmalloc_stacks [of sizeof_Process s] kmalloc_handlers [of sizeof_Process s] m by (simp_all add: stk_def v_def)
  obtain p w where pw: "MMU_alloc_stack v = (p, w)" by fastforce
  have "stack_room v" using st v by (simp add: stack_room_def stk_def)
  note W = MMU_alloc_stack_spec [OF this pw]
  have Kv: "kinv v F1 (insert ?x live)" using K1 by (subst kinv_cong [of _ u]) (simp_all add: v_def)
  have Kw: "kinv w F1 (insert ?x live)" by (rule kinv_advance [OF Kv W(2) W(6)]) (simp_all add: W(3) kinvD(1) [OF Kv])
  have "kheap.more v = kheap.more (s\<lparr>proc_of := (proc_of s)(new := zero_Process), lists := new_headers new (lists s)\<rparr>)"
    using A(2) unfolding v_def by (cases s; cases u; simp)
  moreover have "cursor_at w j" using j(1) W(3) by (simp add: cursor_at_def v_def)
  ultimately show ?thesis
    using m A(1,3) pw W v j(2) Kw mm_more_kheap [OF W(2)]
    by (intro exI [of _ new] exI [of _ u] exI [of _ w] exI [of _ F1] exI [of _ j]) (simp add: v_def)
qed

lemma Process_size: "bsize (kind_of sizeof_Process) = 512"
  by (simp add: kind_of_def sizeof_Process_def NUM_POOLS_def upt_rec pool_block_size_def HEADER_SIZE_def)

lemma PROC_create_process_spec:
  fixes s :: "('d, 'a) psys_scheme"
  assumes K: "kinv s F live" and c: "cursor_at s n" "n + 5 \<le> 2 ^ 28" and st: "stack_room s" and ok: "procs_ok s ps qs live"
  defines "stk \<equiv> next_kernel_thread_stack_vaddr s"
  shows "\<exists>new t F' j. PROC_create_process nm entry a s = Some (0, t) \<and> new \<noteq> NULL \<and>
    kinv t F' (insert (new - HEADER_SIZE, kind_of sizeof_Process) live) \<and> (new - HEADER_SIZE, kind_of sizeof_Process) \<notin> live \<and>
    cursor_at t j \<and> j \<le> n + 5 \<and> next_kernel_thread_stack_vaddr t = stk - 0xA000 \<and> handlers t = handlers s \<and> curr_proc t = curr_proc s \<and>
    procs_ok t (ps @ [new]) (qs @ [new]) (insert (new - HEADER_SIZE, kind_of sizeof_Process) live) \<and>
    proc_of t = (proc_of s)(new := zero_Process\<lparr>p_stack := stk, p_rsp := stk - 16, p_rbp := stk - 8, p_rip := entry, p_rdi := a,
      p_cs := 0x10, p_name := nm\<rparr>) \<and> vmem t (stk - 16) = process_exit_addr s \<and>
    ready_queue t = ready_queue s \<and> procs_list t = procs_list s \<and> psys.more t = psys.more s \<and>
    (\<forall>k es. apart s ps qs live k es \<longrightarrow> apart t (ps @ [new]) (qs @ [new]) (insert (new - HEADER_SIZE, kind_of sizeof_Process) live) k es)"
proof -
  obtain new u w F1 j where m: "kmalloc sizeof_Process s = (new, u)" "new \<noteq> NULL"
    "MMU_alloc_stack (u\<lparr>proc_of := (proc_of u)(new := zero_Process), lists := new_headers new (lists u)\<rparr>) = (stk, w)"
    and Kw: "kinv w F1 (insert (new - HEADER_SIZE, kind_of sizeof_Process) live)" "(new - HEADER_SIZE, kind_of sizeof_Process) \<notin> live"
    and W: "cursor_at w j" "j \<le> n + 5" "next_kernel_thread_stack_vaddr w = stk - 0xA000" "handlers w = handlers s"
      "kheap.more w = kheap.more (s\<lparr>proc_of := (proc_of s)(new := zero_Process), lists := new_headers new (lists s)\<rparr>)"
    using create_alloc [OF K c st] unfolding stk_def by blast
  let ?x = "(new - HEADER_SIZE, kind_of sizeof_Process)"
  have r: "0x10000000000 + 0xA000 \<le> unat stk" "unat stk < 0x20000000000" using st by (simp_all add: stack_room_def mmap_consts stk_def)
  note V = psys_more [OF W(5)]
  define h2 where "h2 = LL_enqueue (procs_list s) new (LL_enqueue (ready_queue s) new (new_headers new (lists s)))"
  define t where "t = klog KLOG_LEVEL_INFO ''starting process %s'' [nm] (w\<lparr>vmem := (vmem w)(stk := NULL, stk - 8 := NULL, stk - 16 := process_exit_addr s),
     proc_of := (proc_of s)(new := zero_Process\<lparr>p_stack := stk, p_rsp := stk - 16, p_rbp := stk - 8, p_rip := entry, p_rdi := a,
      p_cs := 0x10, p_name := nm\<rparr>), lists := h2\<rparr>)"
  have "stk \<noteq> NULL" using r by auto
  then have res: "PROC_create_process nm entry a s = Some (0, t)"
    using m by (simp add: PROC_create_process_def Let_def new_headers_def [symmetric] proc_queue_enqueue_def V) (simp add: t_def h2_def)
  have fresh: "\<not> held live new" "\<not> held live (new + 16)" "held (insert ?x live) new" "held (insert ?x live) (new + 16)"
    using fresh_not_held [OF Kw, of 0] fresh_not_held [OF Kw, of 16] by (simp_all add: Process_size)
  note P = ok [unfolded procs_ok_def]
  have nin: "new \<notin> ll_foot (lists s) (ready_queue s) ps \<union> ll_foot (lists s) (procs_list s) qs"
    "new + 16 \<notin> ll_foot (lists s) (ready_queue s) ps \<union> ll_foot (lists s) (procs_list s) qs" using P fresh by blast+
  have C: "ll_list h2 (ready_queue s) (ps @ [new])" "ll_list h2 (procs_list s) (qs @ [new])" "hoff h2 = hoff (lists s)"
    "ll_foot h2 (ready_queue s) (ps @ [new]) = insert new (ll_foot (lists s) (ready_queue s) ps)"
    "ll_foot h2 (procs_list s) (qs @ [new]) = insert (new + 16) (ll_foot (lists s) (procs_list s) qs)"
    using create_lists(1-5) [of "lists s" "ready_queue s" ps "procs_list s" qs new] P nin by (simp_all add: h2_def)
  have sub: "held live y \<Longrightarrow> held (insert ?x live) y" for y by (rule held_mono) auto
  have T: "lists t = h2" "ready_queue t = ready_queue s" "procs_list t = procs_list s" "psys.more t = psys.more s" "curr_proc t = curr_proc s"
    "vmem t (stk - 16) = process_exit_addr s" "next_kernel_thread_stack_vaddr t = stk - 0xA000" "cursor_at t j" "handlers t = handlers s"
    using W(1,3,4) by (simp_all add: t_def klog_def V cursor_at_def)
  have pok: "procs_ok t (ps @ [new]) (qs @ [new]) (insert ?x live)"
    unfolding procs_ok_def T C(3-5) using C(1,2) P nin fresh sub by auto
  have Kt: "kinv t F1 (insert ?x live)"
    using kinv_stack_words [OF Kw(1) r, of NULL NULL "process_exit_addr s"] by (subst kinv_cong [of _ "w\<lparr>vmem := (vmem w)(stk := NULL, stk - 8 := NULL, stk - 16 := process_exit_addr s)\<rparr>"])
      (simp_all add: t_def klog_def)
  have other: "apart t (ps @ [new]) (qs @ [new]) (insert ?x live) k es" if k: "apart s ps qs live k es" for k es
  proof -
    have "ll_list h2 k es"
      using k P nin fresh unfolding h2_def apart_def by (intro create_lists(6) [of "lists s" "ready_queue s" ps "procs_list s" qs]) auto
    moreover have "ll_foot h2 k es = ll_foot (lists s) k es" by (simp add: ll_foot_def ll_nodes_def LL_nhead_def C(3))
    ultimately show ?thesis using k fresh sub unfolding apart_def T C(4,5) by auto
  qed
  show ?thesis
    by (intro exI [of _ new] exI [of _ t] exI [of _ F1] exI [of _ j] conjI allI impI)
      (use res m(2) Kw(2) Kt W(2) pok other T in \<open>auto simp: t_def klog_def\<close>)
qed


definition create_example :: "unit psys" where
  "create_example = sched_example\<lparr>lists := LL_init 0x910 16 sched_lists\<rparr>"

lemma create_example_ok:
  "kinv create_example (\<lambda>_. []) {}" "cursor_at create_example 0" "stack_room create_example" "procs_ok create_example [0x2000, 0x3000] [] {}"
proof -
  have "kinv create_example (\<lambda>_. []) {} = kinv heap_example (\<lambda>_. []) {}"
    by (rule kinv_cong) (simp_all add: create_example_def sched_example_def kheap.extend_def psys.fields_def)
  then show "kinv create_example (\<lambda>_. []) {}" using heap_init_kinv [OF heap_example_init(1)] by simp
  show "cursor_at create_example 0"
    using heap_example_init(2) by (simp add: cursor_at_def create_example_def sched_example_def kheap.extend_def psys.fields_def)
  show "stack_room create_example"
    by (simp add: stack_room_def create_example_def sched_example_def kheap.extend_def psys.fields_def heap_example_def mm.extend_def
        kheap.fields_def vm_example_def mmap_consts)
  have p: "procs_list create_example = 0x910" "ready_queue create_example = 0x900" "lists create_example = LL_init 0x910 16 sched_lists"
    by (simp_all add: create_example_def sched_example_def kheap.extend_def psys.fields_def)
  show "procs_ok create_example [0x2000, 0x3000] [] {}"
    by (simp add: procs_ok_def p ll_list_def ll_list_Nil LL_init_def LL_nhead_def sched_lists_def held_def below_heap_def)
qed


section \<open>The first process to run\<close>

text \<open>The main process finds a process ready and switches to it, asleep itself.\<close>

lemma PROC_run_switches:
  fixes s :: "('d, 'a) psys_scheme"
  assumes r: "ll_list (lists s) (ready_queue s) (p # rs)" and sys: "syscalls_ready s" and ne: "curr_proc s \<noteq> p"
  shows "\<exists>t. PROC_run dev drv ctx s = Inl (fst (PROC_load_context p ctx s), t) \<and> curr_proc t = p \<and> ready_queue t = ready_queue s \<and>
    procs_list t = procs_list s \<and> ll_list (lists t) (ready_queue s) rs \<and> (\<forall>q. q \<noteq> curr_proc s \<longrightarrow> proc_of t q = proc_of s q) \<and> psys.more t = psys.more s \<and>
    (\<forall>k es. ll_list (lists s) k es \<and> ll_foot (lists s) (ready_queue s) (p # rs) \<inter> ll_foot (lists s) k es = {} \<longrightarrow> ll_list (lists t) k es)"
proof -
  define s1 where "s1 = IRQ_enable ((IRQ_disable s)\<lparr>sleep_curr := True\<rparr>)"
  have f: "lists s1 = lists s" "ready_queue s1 = ready_queue s" "curr_proc s1 = curr_proc s" "sleep_curr s1" "proc_of s1 = proc_of s" "procs_list s1 = procs_list s"
    "handlers s1 = handlers s" "psys.more s1 = psys.more s" by (simp_all add: s1_def IRQ_disable_def IRQ_enable_def Let_def)
  then have sys1: "syscalls_ready s1" using sys by (simp add: syscalls_ready_def)
  have run: "PROC_run dev drv ctx s = Inl (yield dev drv ctx s1)"
    using LL_empty_list [OF r] by (simp add: PROC_run_def PROC_queue_empty_def s1_def Let_def)
  let ?s = "s1\<lparr>cpu := (cpu s1)\<lparr>c_rbx := 0\<rparr>\<rparr>"
  note Y = yield_defined [OF sys1, of dev drv ctx]
  have rep: "ll_list (lists ?s) (ready_queue ?s) (p # rs)" using r by (simp add: f)
  have pk: "pick_next (main_proc ?s) (curr_proc ?s) (sleep_curr ?s) (p # rs) = (p, False, rs)" using f by (simp add: pick_next_def)
  note R = PROC_reschedule_lists [OF rep _ pk] and M = yield_more [OF sys1, of dev drv ctx]
  let ?u = "PROC_reschedule ?s"
  have n: "next_proc ?u = p" "ll_list (lists ?u) (ready_queue s) rs" using R f by simp_all
  have pl: "procs_list ?u = procs_list s"
    by (simp add: PROC_reschedule_def PROC_queue_empty_def proc_queue_dequeue_eq f Let_def proc_queue_enqueue_def)
  have "fst (context_switch ctx ?u) = fst (PROC_load_context p ctx s)"
    using ne n(1) by (simp add: context_switch_def f PROC_load_context_def PROC_save_context_def Let_def)
  moreover have "\<forall>q. q \<noteq> curr_proc s \<longrightarrow> proc_of (snd (context_switch ctx ?u)) q = proc_of s q"
    using n(1) by (simp add: context_switch_def f PROC_load_context_def PROC_save_context_def Let_def)
  moreover have "procs_list (snd (context_switch ctx ?u)) = procs_list s"
    using pl by (simp add: context_switch_def PROC_load_context_def PROC_save_context_def Let_def)
  moreover have "ll_list (lists ?u) k es" if "ll_list (lists s) k es" "ll_foot (lists s) (ready_queue s) (p # rs) \<inter> ll_foot (lists s) k es = {}" for k es
    using resched_heap_other(1) [OF rep, of k es] that f by simp
  ultimately show ?thesis
    using M n by (intro exI [of _ "snd (context_switch ctx ?u)"]) (auto simp: run Y context_switch_sel f prod_eq_iff)
qed

text \<open>Two processes are created while nobody else is there, and the first one runs.\<close>

lemma first_processes:
  fixes s :: "('d, 'a) psys_scheme"
  assumes K: "kinv s F live" and c: "cursor_at s n" "n + 10 \<le> 2 ^ 28" and ok: "procs_ok s [] [] live"
    and st: "next_kernel_thread_stack_vaddr s = MMAP_KERNEL_STACKS_END - 8" "syscalls_ready s" "below_heap (curr_proc s)" "length ctx = 15"
  shows "\<exists>u v p q t ctx'. PROC_create_process nm1 e1 a1 s = Some (0, u) \<and> PROC_create_process nm2 e2 a2 u = Some (0, v) \<and>
    PROC_run dev drv ctx v = Inl (ctx', t) \<and>
    curr_proc t = p \<and> ll_list (lists t) (ready_queue t) [q] \<and> ll_list (lists t) (procs_list t) [p, q] \<and>
    ctx' ! 10 = e1 \<and> ctx' ! 9 = a1 \<and> p_name (proc_of t p) = nm1 \<and> p_rip (proc_of t q) = e2 \<and> p_rdi (proc_of t q) = a2 \<and> p_name (proc_of t q) = nm2 \<and>
    psys.more t = psys.more s \<and> (\<forall>k es. apart s [] [] live k es \<longrightarrow> ll_list (lists t) k es)"
proof -
  let ?k = "kind_of sizeof_Process" and ?top = "MMAP_KERNEL_STACKS_END - 8 :: addr"
  have room: "stack_room s" "n + 5 \<le> 2 ^ 28" using st(1) c(2) by (simp_all add: stack_room_def mmap_consts)
  obtain p u F1 j where u: "PROC_create_process nm1 e1 a1 s = Some (0, u)" "kinv u F1 (insert (p - HEADER_SIZE, ?k) live)" "(p - HEADER_SIZE, ?k) \<notin> live"
    "cursor_at u j" "j \<le> n + 5" "next_kernel_thread_stack_vaddr u = ?top - 0xA000" "handlers u = handlers s" "curr_proc u = curr_proc s"
    "procs_ok u [p] [p] (insert (p - HEADER_SIZE, ?k) live)"
    "proc_of u p = zero_Process\<lparr>p_stack := ?top, p_rsp := ?top - 16, p_rbp := ?top - 8, p_rip := e1, p_rdi := a1, p_cs := 0x10, p_name := nm1\<rparr>"
    "psys.more u = psys.more s" "\<And>k es. apart s [] [] live k es \<Longrightarrow> apart u [p] [p] (insert (p - HEADER_SIZE, ?k) live) k es"
    using PROC_create_process_spec [OF K c(1) room(2,1) ok, of nm1 e1 a1, unfolded st(1)] by auto
  have room2: "stack_room u" "j + 5 \<le> 2 ^ 28" using u(5,6) c(2) by (simp_all add: stack_room_def mmap_consts)
  let ?L = "insert (p - HEADER_SIZE, ?k) live"
  obtain q v F2 where v: "PROC_create_process nm2 e2 a2 u = Some (0, v)" "kinv v F2 (insert (q - HEADER_SIZE, ?k) ?L)" "(q - HEADER_SIZE, ?k) \<notin> ?L"
    "handlers v = handlers u" "curr_proc v = curr_proc u" "procs_ok v [p, q] [p, q] (insert (q - HEADER_SIZE, ?k) ?L)"
    "p_rip (proc_of v q) = e2" "p_rdi (proc_of v q) = a2" "p_name (proc_of v q) = nm2" "\<And>x. x \<noteq> q \<Longrightarrow> proc_of v x = proc_of u x"
    "psys.more v = psys.more u" "\<And>k es. apart u [p] [p] ?L k es \<Longrightarrow> apart v [p, q] [p, q] (insert (q - HEADER_SIZE, ?k) ?L) k es"
    using PROC_create_process_spec [OF u(2,4) room2(2,1) u(9), of nm2 e2 a2] by auto
  have "\<not> below_heap p" "\<not> below_heap q"
    using live_held(2) [OF u(2) insertI1, of 0] live_held(2) [OF v(2) insertI1, of 0] by (simp_all add: Process_size)
  then have ne: "curr_proc v \<noteq> p" "curr_proc v \<noteq> q" "p \<noteq> q" using st(3) u(8) v(3,5) by auto
  have pv: "proc_of v p = proc_of u p" using v(10) ne(3) by simp
  have sys: "syscalls_ready v" using st(2) u(7) v(4) by (simp add: syscalls_ready_def)
  note P = v(6) [unfolded procs_ok_def]
  obtain t where t: "PROC_run dev drv ctx v = Inl (fst (PROC_load_context p ctx v), t)" "curr_proc t = p" "ready_queue t = ready_queue v"
    "procs_list t = procs_list v" "ll_list (lists t) (ready_queue v) [q]" "\<And>x. x \<noteq> curr_proc v \<Longrightarrow> proc_of t x = proc_of v x" "psys.more t = psys.more v"
    "\<And>k es. ll_list (lists v) k es \<Longrightarrow> ll_foot (lists v) (ready_queue v) [p, q] \<inter> ll_foot (lists v) k es = {} \<Longrightarrow> ll_list (lists t) k es"
    using PROC_run_switches [OF conjunct1 [OF P] sys ne(1), of dev drv ctx] by blast
  have "ll_list (lists t) (procs_list v) [p, q]" using t(8) P by blast
  moreover have "ll_list (lists t) k es" if "apart s [] [] live k es" for k es
  proof -
    have "apart v [p, q] [p, q] (insert (q - HEADER_SIZE, ?k) ?L) k es" by (rule v(12) [OF u(12) [OF that]])
    then show ?thesis by (intro t(8)) (auto simp: apart_def)
  qed
  moreover have "fst (PROC_load_context p ctx v) ! 10 = e1" "fst (PROC_load_context p ctx v) ! 9 = a1"
    using st(4) by (simp_all add: PROC_load_context_def Let_def pv u(10))
  ultimately show ?thesis
    using t ne u(1,10,11) v(1,7,8,9,11) pv
    by (intro exI [of _ u] exI [of _ v] exI [of _ p] exI [of _ q] exI [of _ t] exI [of _ "fst (PROC_load_context p ctx v)"]) simp
qed

end
