(* ===== verification/Device_Start.thy ===== *)
theory Device_Start
  imports Ata Process_Start
begin

text \<open>
  What the start of the devices leaves alone and what it leaves behind: the enumeration of the bus (\<open>PCI_enum\<close>), the registration of the
  keyboard (\<open>ps2_init_module\<close>) and the search for disks (\<open>ata_init_module\<close>), which \<open>FS_temp_dev_init\<close> of
  \<^verbatim>\<open>src/src/fs.c\<close> composes.
\<close>

section \<open>What is kept\<close>

text \<open>The fields of the kernel's state that no device driver assigns while it is started.\<close>

definition start_fields :: "('d, 'a) ata_scheme \<Rightarrow> _" where
  "start_fields s = ((ready_queue s, procs_list s, proc_of s, process_exit_addr s, main_proc s, curr_proc s),
     (f_inodes s, f_blocks s, f_chars s, pci_dev_list s, ps2_cdev s, ps2_name s, ata_name s), next_kernel_thread_stack_vaddr s)"

text \<open>The system call stays installed, and the links of the headers that are static or lie in a block of \<open>live\<close> are the same, but
  for those in \<open>W\<close>.\<close>

definition keeps :: "addr set \<Rightarrow> (addr \<times> bkind) set \<Rightarrow> ('d, 'a) ata_scheme \<Rightarrow> ('d, 'a) ata_scheme \<Rightarrow> bool" where
  "keeps W live s t \<longleftrightarrow> start_fields t = start_fields s \<and> (syscalls_ready s \<longrightarrow> syscalls_ready t) \<and>
     (\<forall>a. held live a \<longrightarrow> hoff (lists t) a = hoff (lists s) a \<and>
        (a \<notin> W \<longrightarrow> nxt (lists t) a = nxt (lists s) a \<and> prv (lists t) a = prv (lists s) a))"

lemma keeps_refl [simp]: "keeps W live s s"
  by (simp add: keeps_def)

lemma keeps_trans: "keeps V live s t \<Longrightarrow> keeps W live' t u \<Longrightarrow> V \<subseteq> W \<Longrightarrow> live \<subseteq> live' \<Longrightarrow> keeps W live s u"
  using held_mono [of live _ live'] by (simp add: keeps_def) blast

lemma keeps_trans_fresh:
  assumes "keeps V live s t" "keeps W live' t u" "\<forall>a\<in>W. held live a \<longrightarrow> a \<in> V" "live \<subseteq> live'"
  shows "keeps V live s u"
proof -
  have "a \<notin> W \<and> held live' a" if "held live a" "a \<notin> V" for a using that assms(3) held_mono [OF _ assms(4)] by blast
  then show ?thesis using assms(1,2) held_mono [OF _ assms(4)] by (simp add: keeps_def)
qed

lemma keeps_fields:
  assumes "keeps W live s t"
  shows "ready_queue t = ready_queue s" "procs_list t = procs_list s" "proc_of t = proc_of s" "process_exit_addr t = process_exit_addr s"
    "main_proc t = main_proc s" "curr_proc t = curr_proc s" "f_inodes t = f_inodes s" "f_blocks t = f_blocks s" "f_chars t = f_chars s"
    "pci_dev_list t = pci_dev_list s" "ps2_cdev t = ps2_cdev s" "ps2_name t = ps2_name s" "ata_name t = ata_name s"
    "next_kernel_thread_stack_vaddr t = next_kernel_thread_stack_vaddr s" "syscalls_ready s \<Longrightarrow> syscalls_ready t"
  using assms by (simp_all add: keeps_def start_fields_def)

lemma keeps_list:
  assumes "keeps W live s t" "ll_list (lists s) l ds" "\<forall>a\<in>ll_foot (lists s) l ds. held live a \<and> a \<notin> W"
  shows "ll_list (lists t) l ds" "ll_foot (lists t) l ds = ll_foot (lists s) l ds" "hoff (lists t) l = hoff (lists s) l"
proof -
  have l: "l \<in> ll_foot (lists s) l ds" by (simp add: ll_foot_def)
  then show o: "hoff (lists t) l = hoff (lists s) l" using assms(1,3) by (simp add: keeps_def)
  then have "LL_nhead (lists t) l = LL_nhead (lists s) l" by (simp add: LL_nhead_def fun_eq_iff)
  then show "ll_foot (lists t) l ds = ll_foot (lists s) l ds" by (simp add: ll_foot_def ll_nodes_def)
  show "ll_list (lists t) l ds" using assms o by (subst ll_list_cong [of _ _ "lists s"]) (auto simp: keeps_def)
qed

lemma keeps_devst [simp]: "keeps W live s (t\<lparr>devst := d\<rparr>) = keeps W live s t"
  by (simp add: keeps_def start_fields_def syscalls_ready_def)

lemma keeps_klog [simp]: "keeps W live s (klog l f a t) = keeps W live s t"
  by (simp add: keeps_def start_fields_def syscalls_ready_def klog_def)

lemma kheap_more_start:
  fixes s t :: "('d, 'a) ata_scheme"
  assumes "kheap.more t = kheap.more s" "next_kernel_thread_stack_vaddr t = next_kernel_thread_stack_vaddr s" "handlers t = handlers s"
  shows "keeps W live s t"
proof -
  have "start_fields t = start_fields s" "lists t = lists s"
    using assms unfolding start_fields_def by (cases s; cases t; simp)+
  then show ?thesis using assms(3) by (simp add: keeps_def syscalls_ready_def)
qed

lemma kmalloc_keeps:
  fixes s t :: "('d, 'a) ata_scheme"
  assumes "kinv s F live" "kmalloc sz s = (p, t)"
  shows "keeps W L s t"
  using kheap_more_start [OF kmalloc_more [OF assms]] kmalloc_stacks [of sz s] kmalloc_handlers [of sz s] assms(2) by simp

lemma keeps_enqueue:
  assumes "l \<in> W" "prv (lists s) l \<in> W \<or> \<not> held live (prv (lists s) l)" "d + hoff (lists s) l \<in> W \<or> \<not> held live (d + hoff (lists s) l)"
  shows "keeps W live s (s\<lparr>lists := LL_enqueue l d (lists s)\<rparr>)"
  using assms by (auto simp: keeps_def start_fields_def syscalls_ready_def LL_enqueue_links)

section \<open>Enumeration of the bus\<close>

lemma pci_read_config_devst: "\<exists>v d. pci_read_config dev bus slt func off s = (v, s\<lparr>devst := d\<rparr>)"
  by (simp add: pci_read_config_def outl_def inl_def Let_def split: prod.split) (metis prod.collapse)

lemma read_registers_devst: "\<exists>vs d. read_registers dev bus slt func offs s = (vs, s\<lparr>devst := d\<rparr>)"
proof (induction offs arbitrary: s)
  case Nil
  show ?case by (intro exI [of _ "[]"] exI [of _ "devst s"]) simp
next
  case (Cons off offs)
  obtain v d where "pci_read_config dev bus slt func (off * 4) s = (v, s\<lparr>devst := d\<rparr>)"
    using pci_read_config_devst [of dev bus slt func "off * 4" s] by blast
  moreover obtain vs e where "read_registers dev bus slt func offs (s\<lparr>devst := d\<rparr>) = (vs, s\<lparr>devst := e\<rparr>)"
    using Cons.IH [of "s\<lparr>devst := d\<rparr>"] by auto
  ultimately show ?case by simp blast
qed

lemma pci_read_config_header_devst: "\<exists>h d. pci_read_config_header dev bus slt func s = (h, s\<lparr>devst := d\<rparr>)"
  using read_registers_devst [of dev bus slt func "[0, 1, 2, 3]" s] by (auto simp: pci_read_config_header_def simp del: read_registers.simps)

lemma pci_read_config_vendor_devst: "\<exists>v d. pci_read_config_vendor dev bus slt func s = (v, s\<lparr>devst := d\<rparr>)"
  using pci_read_config_devst [of dev bus slt func 0 s] by (auto simp: pci_read_config_vendor_def Let_def)

text \<open>The tail of the list of devices is its sentinel or a block of the heap, so no other static header is written.\<close>

definition enum_inv :: "('d, 'a) ata_scheme \<Rightarrow> bool" where
  "enum_inv s \<longleftrightarrow> (\<exists>F live. kinv s F live) \<and> below_heap (pci_dev_list s) \<and> hoff (lists s) (pci_dev_list s) = 0 \<and>
     (prv (lists s) (pci_dev_list s) = pci_dev_list s \<or> \<not> below_heap (prv (lists s) (pci_dev_list s)))"

lemma enum_inv_devst: "enum_inv s \<Longrightarrow> enum_inv (s\<lparr>devst := d\<rparr>)"
proof -
  have "kinv (s\<lparr>devst := d\<rparr>) F live = kinv s F live" for F live by (rule kinv_cong) simp_all
  then show "enum_inv s \<Longrightarrow> enum_inv (s\<lparr>devst := d\<rparr>)" by (simp add: enum_inv_def)
qed

lemma enum_add:
  fixes s :: "('d, 'a) ata_scheme" and l f a x
  assumes I: "enum_inv s" and al: "kmalloc sizeof_PCIDevice s = (new, u)" "new \<noteq> NULL"
  defines "t \<equiv> klog l f a (u\<lparr>pcidev_of := (pcidev_of u)(new := x), lists := LL_enqueue (pci_dev_list u) new
      ((lists u)\<lparr>nxt := (nxt (lists u))(new := NULL), prv := (prv (lists u))(new := NULL)\<rparr>)\<rparr>)"
  shows "enum_inv t" "keeps {pci_dev_list s} {} s t"
proof -
  obtain F live where K: "kinv s F live" using I by (auto simp: enum_inv_def)
  have sz: "unat sizeof_PCIDevice < 2 ^ 40" by (simp add: sizeof_PCIDevice_def)
  obtain F' where K': "kinv u F' (insert (new - HEADER_SIZE, kind_of sizeof_PCIDevice) live)"
    using kmalloc_spec [OF K sz al(1)] al(2) by auto
  have n: "\<not> below_heap new" using heap_header [OF K', of new "kind_of sizeof_PCIDevice" 0] kind_of_PCIDevice by simp
  have k: "keeps {pci_dev_list s} {} s u" by (rule kmalloc_keeps [OF K al(1)])
  note f = keeps_fields [OF k]
  have U: "lists u = lists s" using kmalloc_more [OF K al(1)] by (cases s; cases u; simp)
  have l: "below_heap (pci_dev_list s)" "hoff (lists s) (pci_dev_list s) = 0"
    "prv (lists s) (pci_dev_list s) = pci_dev_list s \<or> \<not> below_heap (prv (lists s) (pci_dev_list s))" using I by (auto simp: enum_inv_def)
  have ne: "new \<noteq> pci_dev_list s" using n l(1) by blast
  have "kinv t F' (insert (new - HEADER_SIZE, kind_of sizeof_PCIDevice) live)"
    using K' by (subst kinv_cong [of _ u]) (simp_all add: t_def klog_def)
  moreover have "pci_dev_list t = pci_dev_list s" "hoff (lists t) (pci_dev_list s) = 0" "prv (lists t) (pci_dev_list s) = new"
    using l by (simp_all add: t_def klog_def U f LL_enqueue_links)
  ultimately show "enum_inv t" using l(1) n unfolding enum_inv_def by auto
  have "keeps {pci_dev_list s} {} u t"
    using l n ne unfolding t_def by (auto simp: keeps_def start_fields_def syscalls_ready_def klog_def U f LL_enqueue_links held_def)
  then show "keeps {pci_dev_list s} {} s t" using k keeps_trans by blast
qed

lemma func_loop_keeps:
  fixes s :: "('d, 'a) ata_scheme"
  shows "enum_inv s \<Longrightarrow> keeps {pci_dev_list s} {} s (snd (func_loop dev bus slt fs s)) \<and> enum_inv (snd (func_loop dev bus slt fs s))"
proof (induction fs arbitrary: s)
  case (Cons f fs)
  obtain h d where d: "pci_read_config_header dev bus slt f s = (h, s\<lparr>devst := d\<rparr>)" using pci_read_config_header_devst [of dev bus slt f s] by blast
  have I: "enum_inv (s\<lparr>devst := d\<rparr>)" by (rule enum_inv_devst [OF Cons.prems])
  obtain new u where al: "kmalloc sizeof_PCIDevice (s\<lparr>devst := d\<rparr>) = (new, u)" by fastforce
  have k0: "keeps {pci_dev_list s} {} s (s\<lparr>devst := d\<rparr>)" by simp
  show ?case
  proof (cases "ch_vendor_id h = 0xffff \<or> new = NULL")
    case True
    obtain F live where K: "kinv (s\<lparr>devst := d\<rparr>) F live" using I by (auto simp: enum_inv_def)
    have sz: "unat sizeof_PCIDevice < 2 ^ 40" by (simp add: sizeof_PCIDevice_def)
    have k: "keeps {pci_dev_list s} {} (s\<lparr>devst := d\<rparr>) u" by (rule kmalloc_keeps [OF K al])
    have U: "lists u = lists s" using kmalloc_more [OF K al] by (cases s; cases u; simp)
    have "enum_inv u" if "new = NULL"
      using kmalloc_spec [OF K sz al] that I keeps_fields(10) [OF k] by (auto simp: enum_inv_def U)
    then show ?thesis using True d al I keeps_trans [OF k0 k] by (auto simp: Let_def)
  next
    case False
    define t where "t = klog KLOG_LEVEL_INFO ''enumerated PCI device with class 0x%X on bus %d slot %d func %d''
      [ucast (ch_class h), ucast bus, ucast slt, ucast f]
      (u\<lparr>pcidev_of := (pcidev_of u)(new := new_PCIDevice bus slt f h), lists := LL_enqueue (pci_dev_list u) new
         ((lists u)\<lparr>nxt := (nxt (lists u))(new := NULL), prv := (prv (lists u))(new := NULL)\<rparr>)\<rparr>)"
    have st: "func_loop dev bus slt (f # fs) s = func_loop dev bus slt fs t"
      using d False al by (simp add: t_def new_PCIDevice_def Let_def)
    have t: "enum_inv t" "keeps {pci_dev_list s} {} (s\<lparr>devst := d\<rparr>) t"
      using enum_add [OF I al] False by (simp_all add: t_def)
    have k: "keeps {pci_dev_list s} {} s t" using keeps_trans [OF k0 t(2)] by simp
    show ?thesis using Cons.IH [OF t(1)] keeps_trans [OF k] unfolding st keeps_fields(10) [OF k] by blast
  qed
qed simp

lemma pci_enum_device_keeps:
  assumes "enum_inv s"
  shows "keeps {pci_dev_list s} {} s (snd (pci_enum_device dev bus slt s)) \<and> enum_inv (snd (pci_enum_device dev bus slt s))"
proof -
  obtain v d where d: "pci_read_config_vendor dev bus slt 0 s = (v, s\<lparr>devst := d\<rparr>)" using pci_read_config_vendor_devst [of dev bus slt 0 s] by blast
  let ?s = "s\<lparr>devst := d\<rparr>" and ?t = "snd (func_loop dev bus slt [0, 1, 2, 3] (s\<lparr>devst := d\<rparr>))"
  have I: "enum_inv ?s" and k: "keeps {pci_dev_list s} {} s ?s" by (simp_all add: enum_inv_devst [OF assms])
  have "keeps {pci_dev_list s} {} ?s ?t" "enum_inv ?t" using func_loop_keeps [OF I, of dev bus slt "[0, 1, 2, 3]"] by auto
  moreover from this(1) have "keeps {pci_dev_list s} {} s ?t" by (rule keeps_trans [OF k]) simp_all
  ultimately show ?thesis using I k d by (simp add: pci_enum_device_def del: func_loop.simps)
qed

lemma slot_loop_keeps: "enum_inv s \<Longrightarrow> keeps {pci_dev_list s} {} s (slot_loop dev bus ss s) \<and> enum_inv (slot_loop dev bus ss s)"
proof (induction ss arbitrary: s)
  case (Cons k ss)
  note P = pci_enum_device_keeps [OF Cons.prems, of dev bus "of_nat k"]
  show ?case using P Cons.IH [of "snd (pci_enum_device dev bus (of_nat k) s)"] keeps_fields(10) [OF conjunct1 [OF P]] keeps_trans by fastforce
qed simp

lemma bus_loop_keeps: "enum_inv s \<Longrightarrow> keeps {pci_dev_list s} {} s (bus_loop dev bs s) \<and> enum_inv (bus_loop dev bs s)"
proof (induction bs arbitrary: s)
  case (Cons b bs)
  note P = slot_loop_keeps [OF Cons.prems, of dev "of_nat b" "[0..<32]"]
  show ?case using P Cons.IH [of "slot_loop dev (of_nat b) [0..<32] s"] keeps_fields(10) [OF conjunct1 [OF P]] keeps_trans
    by (fastforce simp del: upt_rec_numeral)
qed simp

section \<open>The keyboard\<close>

text \<open>The lists of \<^verbatim>\<open>fs.c\<close> as they are initialised: the third with the address of the second.\<close>

definition files_static :: "('d, 'a) ata_scheme \<Rightarrow> bool" where
  "files_static s \<longleftrightarrow> ll_list (lists s) (f_inodes s) [] \<and> prv (lists s) (f_blocks s) = f_blocks s \<and> prv (lists s) (f_chars s) = f_blocks s \<and>
     hoff (lists s) (f_inodes s) = 32 \<and> hoff (lists s) (f_blocks s) = 40 \<and> hoff (lists s) (f_chars s) = 16 \<and>
     distinct [f_inodes s, f_blocks s, f_chars s, ps2_cdev s + 16] \<and>
     below_heap (f_inodes s) \<and> below_heap (f_blocks s) \<and> below_heap (f_chars s) \<and> below_heap (ps2_cdev s + 16)"

definition file_headers :: "('d, 'a) ata_scheme \<Rightarrow> addr set" where
  "file_headers s = {f_inodes s, f_blocks s, f_chars s, ps2_cdev s + 16}"

lemma ps2_init_module_spec:
  fixes s :: "('d, 'a) ata_scheme"
  assumes K: "kinv s F live" and c: "cursor_at s n" "n + 5 \<le> 2 ^ 28" and st: "files_static s"
  shows "\<exists>new t F' j. ps2_init_module s = (0, t) \<and> kinv t F' (insert (new - HEADER_SIZE, kind_of sizeof_INode) live) \<and>
    (new - HEADER_SIZE, kind_of sizeof_INode) \<notin> live \<and> cursor_at t j \<and> j \<le> n + 5 \<and> keeps (file_headers s) live s t \<and>
    ll_list (lists t) (f_inodes s) [new] \<and> prv (lists t) (f_blocks s) = f_blocks s \<and>
    in_name (inode_of t new) = ps2_name s \<and> in_cdev (inode_of t new) = ps2_cdev s \<and> in_fops (inode_of t new) = ps2_fops_addr s \<and>
    pcidev_of t = pcidev_of s \<and> bytes t = bytes s"
proof -
  let ?c = "ps2_cdev s"
  define s1 where "s1 = FS_cdev_init ?c (ps2_fops_addr s) s"
  have K1: "kinv s1 F live" using K by (subst kinv_cong [of _ s]) (simp_all add: s1_def FS_cdev_init_def)
  have c1: "cursor_at s1 n" using c(1) by (simp add: cursor_at_def s1_def FS_cdev_init_def)
  have sz: "0 < unat sizeof_INode" "unat sizeof_INode < 2 ^ 40" "pages_for sizeof_INode = 1" by (simp_all add: sizeof_INode_def pages_for_def)
  obtain new u where al: "kmalloc sizeof_INode s1 = (new, u)" by fastforce
  have room: "n + 4 + pages_for sizeof_INode \<le> 2 ^ 28" using c(2) sz by simp
  note A = kmalloc_room [OF K1 c1 room sz(1,2) al]
  let ?x = "(new - HEADER_SIZE, kind_of sizeof_INode)"
  obtain F' j where K2: "kinv u F' (insert ?x live)" and j: "cursor_at u j" "j \<le> n + 5" using A(4,5) sz(3) by (auto simp: add.commute)
  have k1: "keeps (file_headers s) live s s1"
    by (simp add: keeps_def start_fields_def s1_def FS_cdev_init_def syscalls_ready_def file_headers_def)
  have k2: "keeps (file_headers s) live s u" using keeps_trans [OF k1 kmalloc_keeps [OF K1 al]] by blast
  have U: "lists u = lists s1" "cdev_of u = cdev_of s1" "inode_of u = inode_of s1" "pcidev_of u = pcidev_of s1" "bytes u = bytes s1"
    using A(2) by (cases s1; cases u; simp)+
  have L1: "nxt (lists s1) = (nxt (lists s))(?c + 16 := NULL)" "prv (lists s1) = (prv (lists s))(?c + 16 := NULL)" "hoff (lists s1) = hoff (lists s)"
    "cdev_of s1 ?c = \<lparr>cd_fops = ps2_fops_addr s, cd_inode = NULL\<rparr>" "pcidev_of s1 = pcidev_of s" "bytes s1 = bytes s"
    "ps2_cdev s1 = ?c" "ps2_name s1 = ps2_name s"
    by (simp_all add: s1_def FS_cdev_init_def)
  have "unat (32 :: u64) + 16 < bsize (kind_of sizeof_INode)" by (simp add: kind_of_INode pool_block_size_def)
  note new = fresh_not_held [OF K2 A(3) this]
  then have "\<not> below_heap (new + 32)" by (simp add: held_def)
  then have ne: "new + 32 \<noteq> f_inodes s" "new + 32 \<noteq> f_blocks s" "new + 32 \<noteq> f_chars s" "new + 32 \<noteq> ?c + 16"
    using st unfolding files_static_def by metis+
  define h where "h = LL_enqueue (f_chars s) ?c (LL_enqueue (f_inodes s) new (lists s1))"
  define t where "t = u\<lparr>inode_of := (inode_of u)(new := (inode_of u new)\<lparr>in_fops := ps2_fops_addr s, in_cdev := ?c, in_name := ps2_name s,
      in_type := FILE_TYPE_CHAR_DEVICE\<rparr>), cdev_of := (cdev_of u)(?c := (cdev_of u ?c)\<lparr>cd_inode := new\<rparr>), lists := h\<rparr>"
  note f = keeps_fields [OF k2]
  have res: "ps2_init_module s = (0, t)"
    using al A(1) by (simp add: ps2_init_module_def s1_def [symmetric] FS_register_cdev_def L1 U f t_def h_def Let_def)
  note S = st [unfolded files_static_def ll_list_Nil]
  have links: "nxt h = (nxt (lists s1))(new + 32 := f_inodes s, f_inodes s := new + 32, ?c + 16 := f_chars s, f_blocks s := ?c + 16)"
    "prv h = (prv (lists s1))(new + 32 := f_inodes s, f_inodes s := new + 32, ?c + 16 := f_blocks s, f_chars s := ?c + 16)"
    "hoff h = hoff (lists s)"
    using S ne unfolding h_def LL_enqueue_links by (auto simp: fun_eq_iff L1 LL_enqueue_def)
  have ino: "ll_list h (f_inodes s) [new]"
    using S ne by (simp add: ll_list_def LL_nhead_def links add.commute)
  have blk: "prv h (f_blocks s) = f_blocks s" using S ne by (auto simp: links L1)
  have kt: "keeps (file_headers s) live u t"
    using new(1) by (auto simp: keeps_def start_fields_def syscalls_ready_def t_def links U L1 file_headers_def)
  have Kt: "kinv t F' (insert ?x live)" using K2 by (subst kinv_cong [of _ u]) (simp_all add: t_def)
  have ct: "cursor_at t j" using j(1) by (simp add: cursor_at_def t_def)
  show ?thesis
    by (intro exI [of _ new] exI [of _ t] exI [of _ F'] exI [of _ j])
      (use res Kt A(3) ct j(2) keeps_trans [OF k2 kt] ino blk in \<open>simp add: t_def U L1\<close>)
qed

section \<open>What a drive promises when it is looked for\<close>

text \<open>A later read of the port shows \<open>P\<close>, and the states of the hardware that reads of the port lead to.\<close>

inductive answers :: "'d device \<Rightarrow> u16 \<Rightarrow> (u8 \<Rightarrow> bool) \<Rightarrow> 'd \<Rightarrow> bool" for dev p P where
  Now: "P (ucast (fst (dev_in dev p 8 d))) \<Longrightarrow> answers dev p P d"
| Later: "answers dev p P (snd (dev_in dev p 8 d)) \<Longrightarrow> answers dev p P d"

inductive polls :: "'d device \<Rightarrow> u16 \<Rightarrow> 'd \<Rightarrow> 'd \<Rightarrow> bool" for dev p where
  Start: "polls dev p d d"
| Read: "polls dev p (snd (dev_in dev p 8 d)) e \<Longrightarrow> polls dev p d e"

text \<open>After the command IDENTIFY a drive that is there (its status is not 0) ends to be busy, and then shows an error or gets its data ready.
  \<open>base\<close> and \<open>cntl\<close> are the ports of the command block and of the alternate status.\<close>

definition identifies :: "'d device \<Rightarrow> bool" where
  "identifies dev \<longleftrightarrow> (\<forall>d base cntl. let (v, d1) = dev_in dev (ucast (base + 7 :: u32)) 8 (dev_out dev (ucast (base + 7)) 8 0xEC d) in
     (ucast v :: u8) \<noteq> 0 \<longrightarrow> answers dev cntl (\<lambda>v. v AND 0x80 = 0) d1 \<and>
       (\<forall>e v2 d2 v3 d3. polls dev cntl d1 e \<and> dev_in dev cntl 8 e = (v2, d2) \<and> (ucast v2 :: u8) AND 0x80 = 0 \<and>
          dev_in dev cntl 8 d2 = (v3, d3) \<and> (ucast v3 :: u8) AND 1 = 0 \<longrightarrow> answers dev cntl (\<lambda>v. v AND 8 \<noteq> 0) d3))"

lemma wait_not_busy_ends:
  fixes s :: "('d, 'a) ata_scheme"
  assumes "answers dev p (\<lambda>v. v AND 0x80 = 0) (devst s)" "p = ata_cntl_port ata s"
  shows "\<exists>e v d. polls dev p (devst s) e \<and> dev_in dev p 8 e = (v, d) \<and> (ucast v :: u8) AND 0x80 = 0 \<and>
    ata_wait_not_busy dev ata s = Some (s\<lparr>devst := d\<rparr>)"
  using assms
proof (induction "devst s" arbitrary: s rule: answers.induct)
  case Now
  obtain v d where r: "dev_in dev p 8 (devst s) = (v, d)" by fastforce
  moreover have "(ucast v :: u8) AND 0x80 = 0" using Now r by simp
  moreover from this have "ata_wait_not_busy dev ata s = Some (s\<lparr>devst := d\<rparr>)"
    using Now(2) r by (subst ata_wait_not_busy.simps) (simp add: inb_def ATA_SR_BSY_def)
  ultimately show ?case using polls.Start [of dev p "devst s"] by blast
next
  case Later
  obtain v d where r: "dev_in dev p 8 (devst s) = (v, d)" by fastforce
  show ?case
  proof (cases "(ucast v :: u8) AND 0x80 = 0")
    case True
    then have "ata_wait_not_busy dev ata s = Some (s\<lparr>devst := d\<rparr>)"
      using Later.prems r by (subst ata_wait_not_busy.simps) (simp add: inb_def ATA_SR_BSY_def)
    then show ?thesis using polls.Start [of dev p "devst s"] r True by blast
  next
    case False
    let ?s = "s\<lparr>devst := d\<rparr>"
    have "ata_wait_not_busy dev ata s = ata_wait_not_busy dev ata ?s"
      using False Later.prems r by (subst ata_wait_not_busy.simps) (simp add: inb_def ATA_SR_BSY_def)
    moreover have "snd (dev_in dev p 8 (devst s)) = devst ?s" "p = ata_cntl_port ata ?s"
      using Later.prems r by (simp_all add: ata_cntl_port_def)
    ultimately show ?thesis using Later.hyps(2) [of ?s] polls.Read [of dev p "devst s"] by fastforce
  qed
qed

lemma wait_data_ready_ends:
  fixes s :: "('d, 'a) ata_scheme"
  assumes "answers dev p (\<lambda>v. v AND 8 \<noteq> 0) (devst s)" "p = ata_cntl_port ata s"
  shows "\<exists>d. ata_wait_data_ready dev ata s = Some (s\<lparr>devst := d\<rparr>)"
  using assms
proof (induction "devst s" arbitrary: s rule: answers.induct)
  case Now
  obtain v d where r: "dev_in dev p 8 (devst s) = (v, d)" by fastforce
  moreover have "(ucast v :: u8) AND 8 \<noteq> 0" using Now r by simp
  ultimately show ?case using Now(2) by (subst ata_wait_data_ready.simps) (simp add: inb_def ATA_SR_DRQ_def, blast)
next
  case Later
  obtain v d where r: "dev_in dev p 8 (devst s) = (v, d)" by fastforce
  let ?s = "s\<lparr>devst := d\<rparr>"
  have "snd (dev_in dev p 8 (devst s)) = devst ?s" "p = ata_cntl_port ata ?s"
    using Later.prems r by (simp_all add: ata_cntl_port_def)
  then obtain d' where "ata_wait_data_ready dev ata ?s = Some (?s\<lparr>devst := d'\<rparr>)" using Later.hyps(2) [of ?s] by blast
  then show ?case using Later.prems r by (subst ata_wait_data_ready.simps) (simp add: inb_def ATA_SR_DRQ_def, blast)
qed

section \<open>The search for disks\<close>

text \<open>A registered disk, and the list of block devices: as long as no disk is registered only its link to the tail can be relied on, as
  the registration of the keyboard has changed the other one.\<close>

definition is_disk :: "('d, 'a) ata_scheme \<Rightarrow> addr \<Rightarrow> bool" where
  "is_disk s b \<longleftrightarrow> bd_name (bdev_of s b) = ata_name s \<and> read_block_fn (bdev_of s b) = Ata_read_block \<and> blk_size (bdev_of s b) = ATA_BLOCK_SIZE \<and>
     bd_type (bdev_of s b) = MASS_STORAGE"

definition disks_at :: "('d, 'a) ata_scheme \<Rightarrow> addr list \<Rightarrow> (addr \<times> bkind) set \<Rightarrow> bool" where
  "disks_at s bs live \<longleftrightarrow> hoff (lists s) (f_blocks s) = 40 \<and> below_heap (f_blocks s) \<and>
     (if bs = [] then prv (lists s) (f_blocks s) = f_blocks s else ll_list (lists s) (f_blocks s) bs) \<and>
     (\<forall>b\<in>set bs. (b - HEADER_SIZE, kind_of sizeof_ATADevice) \<in> live \<and> is_disk s b)"

definition disk_headers :: "('d, 'a) ata_scheme \<Rightarrow> addr list \<Rightarrow> addr set" where
  "disk_headers s bs = insert (f_blocks s) ((\<lambda>b. b + 40) ` set bs)"

text \<open>The states of a probe: apart from the new structure at \<open>ata\<close> only hardware, log and the buffer have changed.\<close>

definition probing :: "addr \<Rightarrow> ('d, 'a) ata_scheme \<Rightarrow> ('d, 'a) ata_scheme \<Rightarrow> bool" where
  "probing ata u t \<longleftrightarrow> t = u\<lparr>lists := LL_init (ata_blocked ata) 0 (LL_init (ata_requests ata) 0 (lists u)),
     ata_of := ata_of t, devst := devst t, klogs := klogs t, bytes := bytes t\<rparr>"

lemma probing_intros:
  assumes "probing ata u t"
  shows "probing ata u (t\<lparr>devst := d\<rparr>)" "probing ata u (t\<lparr>ata_of := g\<rparr>)" "probing ata u (t\<lparr>bytes := b\<rparr>)" "probing ata u (klog l f a t)"
  using assms unfolding probing_def by (cases t; cases u; simp add: klog_def)+

lemma probing_quiet:
  assumes "probing ata u t"
  shows "probing ata u (outb dev port v t)" "probing ata u (snd (inb dev port t))" "probing ata u (ata_400ns_delay dev ata' t)"
    "probing ata u (ata_write_lba dev ata' lba cnt t)" "probing ata u (snd (ata_check_err dev ata' t))"
  using assms by (simp_all add: outb_def inb_def ata_400ns_delay_def ata_write_lba_def ata_check_err_def Let_def case_prod_beta probing_intros)

lemma probing_read_loop: "probing ata u t \<Longrightarrow> probing ata u (ata_read_loop dev ata' n buff t)"
  by (induction n arbitrary: t buff) (simp_all add: inw_def Let_def case_prod_beta probing_intros)

lemma probing_header_0:
  assumes "probing ata u t"
  shows "probing ata u (snd (snd (PCI_read_config_header_0 dev pd hdr t)))"
proof -
  obtain vs d where "read_registers dev (pd_bus (pcidev_of t pd)) (pd_slot (pcidev_of t pd)) (pd_func (pcidev_of t pd)) [4, 5, 6, 7, 8, 9] t = (vs, t\<lparr>devst := d\<rparr>)"
    using read_registers_devst [of dev "pd_bus (pcidev_of t pd)" "pd_slot (pcidev_of t pd)" "pd_func (pcidev_of t pd)" "[4, 5, 6, 7, 8, 9]" t] by blast
  then show ?thesis using assms by (simp add: PCI_read_config_header_0_def Let_def probing_intros del: read_registers.simps)
qed

lemma ATADevice_size: "bsize (kind_of sizeof_ATADevice) = 512" "0 < unat sizeof_ATADevice" "unat sizeof_ATADevice < 2 ^ 40" "pages_for sizeof_ATADevice = 1"
  by (simp_all add: kind_of_def sizeof_ATADevice_def NUM_POOLS_def HEADER_SIZE_def pool_block_size_def upt_conv_Cons pages_for_def)

lemma probing_sel:
  assumes "probing ata u t"
  shows "lists t = LL_init (ata_blocked ata) 0 (LL_init (ata_requests ata) 0 (lists u))" "start_fields t = start_fields u"
    "kinv t F live = kinv u F live" "cursor_at t n = cursor_at u n" "handlers t = handlers u" "pcidev_of t = pcidev_of u" "bdev_of t = bdev_of u"
    "inode_of t = inode_of u"
proof -
  note e = assms [unfolded probing_def]
  show "lists t = LL_init (ata_blocked ata) 0 (LL_init (ata_requests ata) 0 (lists u))" by (subst e) simp
  show "start_fields t = start_fields u" unfolding start_fields_def by (subst e, simp)+
  show "kinv t F live = kinv u F live" by (rule kinv_cong) (subst e, simp)+
  show "cursor_at t n = cursor_at u n" by (subst e) (simp add: cursor_at_def)
  show "handlers t = handlers u" "pcidev_of t = pcidev_of u" "bdev_of t = bdev_of u" "inode_of t = inode_of u" by (subst e, simp)+
qed

text \<open>What a probe can rely on, and what it has to leave to the next.\<close>

definition probe_inv :: "('d, 'a) ata_scheme \<Rightarrow> (addr \<times> bkind) set \<Rightarrow> nat \<Rightarrow> addr list \<Rightarrow> bool" where
  "probe_inv s live n bs \<longleftrightarrow> (\<exists>F. kinv s F live) \<and> cursor_at s n \<and> disks_at s bs live \<and> syscalls_ready s"

lemma disk_headers_held:
  assumes "disks_at s bs live" "kinv s F live" "a \<in> disk_headers s bs"
  shows "held live a"
proof -
  have "held live (b + 40)" if "b \<in> set bs" for b
    using live_held(1) [OF assms(2), of b "kind_of sizeof_ATADevice" 40] assms(1) that by (simp add: disks_at_def ATADevice_size)
  then show ?thesis using assms(1,3) by (auto simp: disks_at_def disk_headers_def held_def)
qed

lemma disk_headers_foot: "hoff h (f_blocks s) = 40 \<Longrightarrow> ll_foot h (f_blocks s) bs = disk_headers s bs"
  by (auto simp: ll_foot_def ll_nodes_def LL_nhead_def disk_headers_def add.commute)

lemma disks_at_keeps:
  assumes "disks_at s bs live" "keeps {} live s t" "\<exists>F. kinv s F live" "bdev_of t = bdev_of s"
  shows "disks_at t bs live"
proof -
  obtain F where K: "kinv s F live" using assms(3) by blast
  note D = assms(1) [unfolded disks_at_def] and f = keeps_fields [OF assms(2)]
  have b: "held live (f_blocks s)" using D by (simp add: held_def)
  then have o: "hoff (lists t) (f_blocks s) = 40" "prv (lists t) (f_blocks s) = prv (lists s) (f_blocks s)" using assms(2) D by (simp_all add: keeps_def)
  have "ll_list (lists t) (f_blocks s) bs" if "ll_list (lists s) (f_blocks s) bs"
    using keeps_list(1) [OF assms(2) that] disk_headers_held [OF assms(1) K] D by (simp add: disk_headers_foot)
  then show ?thesis using D o by (auto simp: disks_at_def f is_disk_def assms(4))
qed

definition probe_done ::
  "('d, 'a) ata_scheme \<Rightarrow> (addr \<times> bkind) set \<Rightarrow> nat \<Rightarrow> addr list \<Rightarrow> ('d, 'a) ata_scheme \<Rightarrow> (addr \<times> bkind) set \<Rightarrow> addr list \<Rightarrow> bool" where
  "probe_done s live n bs t live' bs' \<longleftrightarrow> (\<exists>j\<le>n. probe_inv t live' j bs') \<and> live \<subseteq> live' \<and> keeps (disk_headers s bs) live s t \<and>
     (\<forall>a\<in>disk_headers t bs'. held live a \<longrightarrow> a \<in> disk_headers s bs) \<and> pcidev_of t = pcidev_of s \<and> inode_of t = inode_of s"

lemma probing_facts:
  fixes s :: "('d, 'a) ata_scheme"
  assumes I: "probe_inv s live n bs" "n + 5 \<le> 2 ^ 28" and al: "kmalloc sizeof_ATADevice s = (ata, u)" and p: "probing ata u t"
  shows "ata \<noteq> NULL" "(ata - HEADER_SIZE, kind_of sizeof_ATADevice) \<notin> live" "\<exists>F. kinv t F (insert (ata - HEADER_SIZE, kind_of sizeof_ATADevice) live)"
    "\<exists>j\<le>n + 5. cursor_at t j" "keeps {} live s t" "bdev_of t = bdev_of s" "pcidev_of t = pcidev_of s" "inode_of t = inode_of s" "syscalls_ready t"
    "\<not> held live (ata + 40)"
proof -
  obtain F where K: "kinv s F live" and c: "cursor_at s n" "syscalls_ready s" using I by (auto simp: probe_inv_def)
  have room: "n + 4 + pages_for sizeof_ATADevice \<le> 2 ^ 28" using I(2) by (simp add: ATADevice_size)
  note A = kmalloc_room [OF K c(1) room ATADevice_size(2,3) al]
  let ?x = "(ata - HEADER_SIZE, kind_of sizeof_ATADevice)"
  obtain F' where K': "kinv u F' (insert ?x live)" using A(4) by blast
  show "ata \<noteq> NULL" "?x \<notin> live" by (rule A(1,3))+
  show "\<exists>F. kinv t F (insert ?x live)" using K' by (auto simp: probing_sel [OF p])
  show "\<exists>j\<le>n + 5. cursor_at t j" using A(5) by (auto simp: probing_sel [OF p] ATADevice_size add.commute)
  have new: "\<not> held live (ata_blocked ata)" "\<not> held live (ata_requests ata)" "\<not> held live (ata + 40)"
    using fresh_not_held(1) [OF K' A(3)] by (simp_all add: ATADevice_size ata_blocked_def ata_requests_def)
  then show "\<not> held live (ata + 40)" by simp
  have U: "lists u = lists s" "bdev_of u = bdev_of s" "pcidev_of u = pcidev_of s" "inode_of u = inode_of s" using A(2) by (cases s; cases u; simp)+
  then show "bdev_of t = bdev_of s" "pcidev_of t = pcidev_of s" "inode_of t = inode_of s" by (simp_all add: probing_sel [OF p])
  have k: "keeps {} live s u" by (rule kmalloc_keeps [OF K al])
  have "keeps {} live u t" using new unfolding keeps_def syscalls_ready_def probing_sel [OF p] by (auto simp: LL_init_def)
  then show ks: "keeps {} live s t" using keeps_trans [OF k] by blast
  show "syscalls_ready t" by (rule keeps_fields(15) [OF ks c(2)])
qed

lemma keeps_wider: "keeps V live s t \<Longrightarrow> V \<subseteq> W \<Longrightarrow> keeps W live s t"
  by (auto simp: keeps_def)

lemma kfree_pool:
  assumes K: "kinv s F live" and x: "(b, Pool i) \<in> live"
  shows "\<exists>m h. kfree (b + HEADER_SIZE) s = Some (s\<lparr>vmem := m, pool_free_head := h\<rparr>)"
proof -
  have i: "i < 6" "vmem s b = pool_ptr s i" using kinvD(7) [OF K, of "(b, Pool i)"] x by (auto simp: block_ok_def)
  then have "kfree (b + HEADER_SIZE) s = Some (s\<lparr>vmem := (vmem s)(b + 8 := pool_free_head s ! i), pool_free_head := (pool_free_head s)[i := b]\<rparr>)"
    using find_pool_ptr [OF K i] kinvD(3) [OF K i(1)] by (simp add: kfree_def Let_def)
  then show ?thesis by blast
qed

lemma ATADevice_pool: "kind_of sizeof_ATADevice = Pool 3"
  by (simp add: kind_of_def sizeof_ATADevice_def NUM_POOLS_def HEADER_SIZE_def pool_block_size_def upt_conv_Cons)

lemma probe_fails:
  fixes s :: "('d, 'a) ata_scheme"
  assumes I: "probe_inv s live n bs" "n + 5 \<le> 2 ^ 28" and al: "kmalloc sizeof_ATADevice s = (ata, u)" and p: "probing ata u t"
  shows "\<exists>t'. kfree ata t = Some t' \<and> probe_done s live (n + 5) bs t' live bs"
proof -
  note P = probing_facts [OF assms]
  let ?x = "(ata - HEADER_SIZE, kind_of sizeof_ATADevice)"
  obtain F where K: "kinv t F (insert ?x live)" using P(3) by blast
  obtain t' F' where t': "kfree ata t = Some t'" "kinv t' F' live"
    using kfree_spec [OF K insertI1] P(2) by auto
  have "\<exists>m h. kfree ata t = Some (t\<lparr>vmem := m, pool_free_head := h\<rparr>)"
    using kfree_pool [OF K, of "ata - HEADER_SIZE" 3] by (simp add: ATADevice_pool)
  then obtain m h where e: "t' = t\<lparr>vmem := m, pool_free_head := h\<rparr>" using t'(1) by auto
  obtain j where j: "j \<le> n + 5" "cursor_at t j" using P(4) by blast
  have k: "keeps {} live s t'" using P(5) by (simp add: e keeps_def start_fields_def syscalls_ready_def)
  have "\<exists>F. kinv s F live" "disks_at s bs live" using I by (auto simp: probe_inv_def)
  then have D: "disks_at t' bs live" using P(6) by (intro disks_at_keeps [OF _ k]) (simp_all add: e)
  have "probe_inv t' live j bs"
    using t'(2) j D P(9) unfolding probe_inv_def by (auto simp: e cursor_at_def syscalls_ready_def)
  moreover have "disk_headers t' bs = disk_headers s bs" by (simp add: disk_headers_def keeps_fields [OF k])
  ultimately show ?thesis using t' j k P(7,8) keeps_wider [OF k] by (auto simp: probe_done_def e)
qed

lemma probe_registers:
  fixes s :: "('d, 'a) ata_scheme"
  assumes I: "probe_inv s live n bs" "n + 5 \<le> 2 ^ 28" and al: "kmalloc sizeof_ATADevice s = (ata, u)" and p: "probing ata u t"
    and w: "lists w = lists t" "start_fields w = start_fields t" "\<And>F live. kinv w F live = kinv t F live" "\<And>n. cursor_at w n = cursor_at t n"
      "syscalls_ready t \<Longrightarrow> syscalls_ready w" "\<forall>b. b \<noteq> ata \<longrightarrow> bdev_of w b = bdev_of t b" "is_disk w ata" "pcidev_of w = pcidev_of t" "inode_of w = inode_of t"
  shows "probe_done s live (n + 5) bs (snd (BLK_register ata w)) (insert (ata - HEADER_SIZE, kind_of sizeof_ATADevice) live) (bs @ [ata])"
proof -
  note P = probing_facts [OF I al p]
  let ?x = "(ata - HEADER_SIZE, kind_of sizeof_ATADevice)" and ?l = "f_blocks s"
  have k0: "keeps {} live t w" using w(1,2,5) by (simp add: keeps_def)
  have k: "keeps {} live s w" by (rule keeps_trans [OF P(5) k0]) simp_all
  note f = keeps_fields [OF k]
  define t' where "t' = w\<lparr>lists := LL_enqueue ?l ata (lists w)\<rparr>"
  have res: "snd (BLK_register ata w) = t'" by (simp add: BLK_register_def t'_def f)
  obtain F where Ks: "kinv s F live" using I(1) by (auto simp: probe_inv_def)
  note D = I(1) [unfolded probe_inv_def disks_at_def]
  have nin: "ata \<notin> set bs" using D P(2) by blast
  have bd: "\<forall>b\<in>set bs. bdev_of w b = bdev_of s b" using w(6) P(6) nin by metis
  have "hoff (lists w) ?l = 40" "prv (lists w) ?l = prv (lists s) ?l" using k D by (simp_all add: keeps_def held_def)
  note L = this
  note foot = disk_headers_foot [of "lists w" s bs, OF L(1)] disk_headers_foot [of "lists s" s bs]
  have h: "held live a" if "a \<in> disk_headers s bs" for a using disk_headers_held [OF _ Ks that] I(1) by (simp add: probe_inv_def)
  have lw: "ll_list (lists w) ?l bs" if "bs \<noteq> []" using keeps_list(1) [OF k, of ?l bs] D h foot(2) that by simp
  have new: "ata + 40 \<notin> disk_headers s bs" using h P(10) by blast
  have list: "ll_list (lists t') ?l (bs @ [ata])"
  proof (cases "bs = []")
    case True
    then have "prv (lists w) ?l = ?l" using D L by simp
    then show ?thesis using new True L by (simp add: t'_def ll_list_def LL_nhead_def LL_enqueue_links disk_headers_def add.commute)
  next
    case False
    have "LL_nhead (lists w) ?l ata \<notin> ll_foot (lists w) ?l bs" using new foot(1) L by (simp add: LL_nhead_def add.commute)
    then show ?thesis using lw [OF False] unfolding t'_def by (simp add: LL_enqueue_list)
  qed
  have tail: "prv (lists w) ?l \<in> disk_headers s bs"
    using prv_in_foot [OF lw] D L by (cases "bs = []") (auto simp: foot(1) disk_headers_def)
  have "keeps (disk_headers s bs) live w t'"
    unfolding t'_def using tail new P(10) L by (intro keeps_enqueue) (simp_all add: disk_headers_def)
  then have kt: "keeps (disk_headers s bs) live s t'" using keeps_trans [OF k] by blast
  obtain j where j: "j \<le> n + 5" "cursor_at t j" using P(4) by blast
  have "\<exists>F. kinv t' F (insert ?x live)"
  proof -
    have "kinv t' F' live' = kinv w F' live'" for F' live' by (rule kinv_cong) (simp_all add: t'_def)
    then show ?thesis using P(3) w(3) by simp
  qed
  moreover have "cursor_at t' j = cursor_at w j" by (simp add: t'_def cursor_at_def)
  moreover have "syscalls_ready t'" using w(5) P(9) by (simp add: t'_def syscalls_ready_def)
  moreover have "disks_at t' (bs @ [ata]) (insert ?x live)"
    using list D L bd w(7) by (auto simp: disks_at_def is_disk_def t'_def f LL_enqueue_def)
  ultimately have "probe_inv t' (insert ?x live) j (bs @ [ata])" using j w(4) by (simp add: probe_inv_def)
  moreover have "\<forall>a\<in>disk_headers t' (bs @ [ata]). held live a \<longrightarrow> a \<in> disk_headers s bs"
    using P(10) by (auto simp: disk_headers_def keeps_fields [OF kt])
  ultimately show ?thesis using j kt w(8,9) P(7,8) unfolding probe_done_def res by (auto simp: t'_def)
qed

lemma IRQ_clear_mask_devst: "\<exists>d. IRQ_clear_mask dev ATA_PRIMARY_IRQ s = s\<lparr>devst := d\<rparr>"
  by (auto simp: IRQ_clear_mask_def ATA_PRIMARY_IRQ_def PIC_MASTER_REMAP_BASE_def outb_def inb_def Let_def split: prod.split)

text \<open>The last part of a probe, which registers the disk.\<close>

lemma probe_succeeds:
  fixes s :: "('d, 'a) ata_scheme"
  assumes I: "probe_inv s live n bs" "n + 5 \<le> 2 ^ 28" and al: "kmalloc sizeof_ATADevice s = (ata, u)" and p: "probing ata u t"
  shows "\<exists>t'. ata_probe_register dev hdr iden ata t = Some (0, t') \<and>
    probe_done s live (n + 5) bs t' (insert (ata - HEADER_SIZE, kind_of sizeof_ATADevice) live) (bs @ [ata])"
proof -
  note P = probing_facts [OF assms]
  define t1 where "t1 = t\<lparr>bdev_of := (bdev_of t)(ata := (bdev_of t ata)\<lparr>total_len := ATA_BLOCK_SIZE * load64 (iden + 2 * 100) (bytes t),
      blk_size := ATA_BLOCK_SIZE, bd_type := MASS_STORAGE, read_block_fn := Ata_read_block, bd_name := ata_name t\<rparr>)\<rparr>"
  define t2 where "t2 = t1\<lparr>ata_of := (ata_of t1)(ata := (ata_of t1 ata)\<lparr>ata_irq := ATA_PRIMARY_IRQ, ata_master := bar4 hdr, ata_slave := 0\<rparr>)\<rparr>"
  define t3 where "t3 = t2\<lparr>handlers := (handlers t2)[46 := \<lparr>handler = Some Ata_isr, arg = ata\<rparr>]\<rparr>"
  have irq: "ata_irq (ata_of t2 ata) = ATA_PRIMARY_IRQ" "ata_irq (ata_of t3 ata) = ATA_PRIMARY_IRQ" "unat ATA_PRIMARY_IRQ = 46"
    by (simp_all add: t2_def t3_def ATA_PRIMARY_IRQ_def)
  have "length (handlers t2) = 256" using P(9) by (simp add: t2_def t1_def syscalls_ready_def)
  then have h: "IRQ_set_handler (int (unat ATA_PRIMARY_IRQ)) (Some Ata_isr) ata t2 = Some t3" by (simp add: IRQ_set_handler_def irq t3_def)
  obtain d where d: "IRQ_clear_mask dev ATA_PRIMARY_IRQ t3 = t3\<lparr>devst := d\<rparr>" using IRQ_clear_mask_devst [of dev t3] by blast
  define w where "w = outb dev (ata_cntl_port ata (t3\<lparr>devst := d\<rparr>)) 0 (t3\<lparr>devst := d\<rparr>)"
  note D = w_def outb_def t3_def t2_def t1_def
  have kc: "kinv w F l = kinv t F l" "cursor_at w k = cursor_at t k" for F l k by (rule kinv_cong) (simp_all add: D cursor_at_def)
  have "probe_done s live (n + 5) bs (snd (BLK_register ata w)) (insert (ata - HEADER_SIZE, kind_of sizeof_ATADevice) live) (bs @ [ata])"
    by (rule probe_registers [OF I al p])
      (simp_all add: kc, simp_all add: D start_fields_def syscalls_ready_def SYSCALL_TRAP_NUMBER_def is_disk_def)
  then show ?thesis
    unfolding ata_probe_register_def Let_def t1_def [symmetric] t2_def [symmetric] irq(1) h bind.bind_lunit irq(2) d w_def [symmetric] by blast
qed

text \<open>The part that waits for the drive.\<close>

lemma probe_identify:
  fixes s :: "('d, 'a) ata_scheme"
  assumes I: "probe_inv s live n bs" "n + 5 \<le> 2 ^ 28" and al: "kmalloc sizeof_ATADevice s = (ata, u)" and p: "probing ata u t"
    and id: "answers dev (ata_cntl_port ata t) (\<lambda>v. v AND 0x80 = 0) (devst t)"
      "\<And>e v2 d2 v3 d3. polls dev (ata_cntl_port ata t) (devst t) e \<Longrightarrow> dev_in dev (ata_cntl_port ata t) 8 e = (v2, d2) \<Longrightarrow>
         (ucast v2 :: u8) AND 0x80 = 0 \<Longrightarrow> dev_in dev (ata_cntl_port ata t) 8 d2 = (v3, d3) \<Longrightarrow> (ucast v3 :: u8) AND 1 = 0 \<Longrightarrow>
         answers dev (ata_cntl_port ata t) (\<lambda>v. v AND 8 \<noteq> 0) d3"
  shows "\<exists>r t' live' bs'. ata_probe_identify dev hdr iden ata t = Some (r, t') \<and> probe_done s live (n + 5) bs t' live' bs'"
proof -
  let ?cntl = "ata_cntl_port ata t"
  obtain e v2 d2 where w: "polls dev ?cntl (devst t) e" "dev_in dev ?cntl 8 e = (v2, d2)" "(ucast v2 :: u8) AND 0x80 = 0"
    "ata_wait_not_busy dev ata t = Some (t\<lparr>devst := d2\<rparr>)"
    using wait_not_busy_ends [OF id(1) refl] by blast
  obtain v3 d3 where v3: "dev_in dev ?cntl 8 d2 = (v3, d3)" by fastforce
  let ?t = "t\<lparr>devst := d3\<rparr>"
  have c: "ata_check_err dev ata (t\<lparr>devst := d2\<rparr>) = ((ucast v3 :: u8) AND 1 \<noteq> 0, ?t)"
    using v3 by (simp add: ata_check_err_def inb_def ATA_SR_ERR_def ata_cntl_port_def)
  have p1: "probing ata u ?t" by (intro probing_intros p)
  note start = ata_probe_identify_def w(4) bind.bind_lunit c Let_def case_prod_conv
  show ?thesis
  proof (cases "(ucast v3 :: u8) AND 1 = 0")
    case False
    have "probing ata u (klog KLOG_LEVEL_WARN ''ata device uses unsupported ATAPI interface'' [] ?t)" by (intro probing_intros p1)
    from probe_fails [OF I al this] show ?thesis unfolding start using False by auto
  next
    case True
    have "answers dev (ata_cntl_port ata ?t) (\<lambda>v. v AND 8 \<noteq> 0) (devst ?t)" using id(2) w v3 True by (simp add: ata_cntl_port_def)
    from wait_data_ready_ends [OF this refl] obtain d4 where d4: "ata_wait_data_ready dev ata ?t = Some (?t\<lparr>devst := d4\<rparr>)" by blast
    define t2 where "t2 = ata_read_loop dev ata (unat (ATA_BLOCK_SIZE div 2)) iden (?t\<lparr>devst := d4\<rparr>)"
    have rd: "ata_read dev ata iden ?t = Some t2" by (simp add: ata_read_def d4 t2_def)
    have p2: "probing ata u t2" unfolding t2_def by (intro probing_read_loop probing_intros p1)
    then have "probing ata u (klog KLOG_LEVEL_WARN ''ata uses unsupported 28-bit LBA'' [] t2)" by (intro probing_intros)
    from probe_fails [OF I al this] probe_succeeds [OF I al p2, of dev hdr iden] show ?thesis
      unfolding start rd using True by (cases "load16 (iden + 2 * 83) (bytes t2) AND push_bit 10 1 = 0") auto
  qed
qed

lemma ata_probe_spec:
  fixes s :: "('d, 'a) ata_scheme"
  assumes I: "probe_inv s live n bs" "n + 5 \<le> 2 ^ 28" and dev: "identifies dev"
  shows "\<exists>r t live' bs'. ata_probe dev hdr0 iden pd s = Some (r, t) \<and> probe_done s live (n + 5) bs t live' bs'"
proof -
  obtain ata u where al: "kmalloc sizeof_ATADevice s = (ata, u)" by fastforce
  define s1 where "s1 = PROC_queue_init (ata_blocked ata) (u\<lparr>lists := LL_init (ata_requests ata) 0 (lists u)\<rparr>)"
  have p1: "probing ata u s1" unfolding probing_def by (cases u) (simp add: s1_def PROC_queue_init_def)
  obtain r0 hdr s2 where s2: "PCI_read_config_header_0 dev pd hdr0 s1 = (r0, hdr, s2)" using prod_cases3 by blast
  have p2: "probing ata u s2" using probing_header_0 [OF p1, of dev pd hdr0] s2 by simp
  define s3 where "s3 = s2\<lparr>ata_of := (ata_of s2)(ata := (ata_of s2 ata)
    \<lparr>ata_base := (if bar0 hdr = 0 \<or> bar0 hdr = 1 then ATA_LEGACY_PRIMARY_BASE else bar0 hdr)\<rparr>)\<rparr>"
  define s4 where "s4 = s3\<lparr>ata_of := (ata_of s3)(ata := (ata_of s3 ata)
    \<lparr>ata_cntl_base := (if bar1 hdr = 0 \<or> bar1 hdr = 1 then ATA_LEGACY_PRIMARY_CNTL else bar1 hdr)\<rparr>)\<rparr>"
  define s5 where "s5 = ata_write_lba dev ata 0 1 (ata_400ns_delay dev ata (outb dev (ata_port ata DRIVE_REG_OFF s4) ATA_SELECT_MASTER s4))"
  have p5: "probing ata u s5" unfolding s5_def s4_def s3_def by (intro probing_quiet probing_intros p2)
  define s6 where "s6 = outb dev (ata_port ata CMD_REG_OFF s5) ATA_CMD_IDENTIFY s5"
  have p6: "probing ata u s6" unfolding s6_def by (intro probing_quiet p5)
  obtain v s7 where s7: "inb dev (ata_port ata STATUS_REG_OFF s6) s6 = (v, s7)" by fastforce
  have p7: "probing ata u s7" using probing_quiet(2) [OF p6, of dev "ata_port ata STATUS_REG_OFF s6"] s7 by simp
  note P = probing_facts [OF I al p7]
  note start = ata_probe_def al case_prod_conv Let_def s1_def [symmetric] s2 s3_def [symmetric] s4_def [symmetric] s5_def [symmetric] s6_def [symmetric] s7
  show ?thesis
  proof (cases "v = 0")
    case True
    have "probing ata u (klog KLOG_LEVEL_WARN ''ata device not found'' [] s7)" by (intro probing_intros p7)
    from probe_fails [OF I al this] show ?thesis unfolding start using P(1) True by auto
  next
    case False
    obtain vv where vv: "dev_in dev (ucast (ata_base (ata_of s5 ata) + 7)) 8 (dev_out dev (ucast (ata_base (ata_of s5 ata) + 7)) 8 0xEC (devst s5)) =
        (vv, devst s7)" "v = ucast vv"
      using s7 by (auto simp: s6_def outb_def inb_def ata_port_def ata_regs ATA_CMD_IDENTIFY_def split: prod.splits)
    note id = dev [unfolded identifies_def, rule_format, of "ata_base (ata_of s5 ata)" "devst s5", unfolded vv(1) Let_def case_prod_conv,
      rule_format, OF False [unfolded vv(2)], of "ata_cntl_port ata s7"]
    have "\<exists>r t' live' bs'. ata_probe_identify dev hdr iden ata s7 = Some (r, t') \<and> probe_done s live (n + 5) bs t' live' bs'"
      using probe_identify [OF I al p7] id by blast
    then show ?thesis unfolding start using P(1) False by simp
  qed
qed

lemma probe_done_refl: "probe_inv s live n bs \<Longrightarrow> probe_done s live n bs s live bs"
  by (auto simp: probe_done_def)

lemma probe_done_mono: "probe_done s live n bs t live' bs' \<Longrightarrow> n \<le> m \<Longrightarrow> probe_done s live m bs t live' bs'"
  unfolding probe_done_def using le_trans by blast

lemma probe_done_trans:
  assumes "probe_done s live n bs t live1 bs1" "probe_done t live1 m bs1 u live2 bs2"
  shows "probe_done s live m bs u live2 bs2"
proof -
  have "keeps (disk_headers s bs) live s u" using assms keeps_trans_fresh unfolding probe_done_def by blast
  moreover have "\<forall>a\<in>disk_headers u bs2. held live a \<longrightarrow> a \<in> disk_headers s bs"
    using assms held_mono [of live _ live1] unfolding probe_done_def by blast
  ultimately show ?thesis using assms by (auto simp: probe_done_def)
qed

lemma probe_step:
  fixes t :: "('d, 'a) ata_scheme"
  assumes "probe_done s live n bs t live1 bs1" "n + 5 \<le> 2 ^ 28" "identifies dev"
  shows "\<exists>r u live2 bs2. ata_probe dev hdr0 iden pd t = Some (r, u) \<and> probe_done s live (n + 5) bs u live2 bs2"
proof -
  obtain j where j: "j \<le> n" "probe_inv t live1 j bs1" using assms(1) by (auto simp: probe_done_def)
  with ata_probe_spec [OF j(2) _ assms(3), of hdr0 iden pd] assms(2) obtain r u live2 bs2 where
    "ata_probe dev hdr0 iden pd t = Some (r, u)" "probe_done t live1 (j + 5) bs1 u live2 bs2" by auto
  then show ?thesis using probe_done_trans [OF assms(1)] probe_done_mono [of s live "j + 5" bs u live2 bs2 "n + 5"] j(1) by auto
qed

lemma probe_all_spec:
  fixes t :: "('d, 'a) ata_scheme"
  assumes dev: "identifies dev"
  shows "probe_done s live n bs t live1 bs1 \<Longrightarrow> n + 5 * length es \<le> 2 ^ 28 \<Longrightarrow>
    \<exists>u live2 bs2. probe_all (ata_probe dev hdr0 iden) es t = Some u \<and> probe_done s live (n + 5 * length es) bs u live2 bs2"
proof (induction es arbitrary: t n live1 bs1)
  case (Cons e es)
  obtain r u live2 bs2 where u: "ata_probe dev hdr0 iden e t = Some (r, u)" "probe_done s live (n + 5) bs u live2 bs2"
    using probe_step [OF Cons.prems(1) _ dev, of hdr0 iden e] Cons.prems(2) by auto
  with Cons.IH [OF u(2)] Cons.prems(2) show ?case by (auto simp: add.assoc)
qed auto

text \<open>The driver finds its disks among the devices of the bus, whose list it leaves alone.\<close>

lemma ata_init_module_spec:
  fixes s :: "('d, 'a) ata_scheme"
  assumes I: "probe_inv s live n bs" and ds: "n + 5 * length ds \<le> 2 ^ 28" "ll_list (lists s) (pci_dev_list s) ds"
      "\<forall>a\<in>ll_foot (lists s) (pci_dev_list s) ds. held live a \<and> a \<notin> disk_headers s bs" and dev: "identifies dev"
  shows "\<exists>t live' bs'. ata_init_module dev hdr0 iden s = Some (0, t) \<and> probe_done s live (n + 5 * length ds) bs t live' bs'"
proof -
  let ?I = "\<lambda>k t. \<exists>live' bs'. probe_done s live (n + 5 * k) bs t live' bs'" and ?c = "pcidev_of s"
  have inv: "bus_at ds ?c t" if "probe_done s live m bs t live' bs'" for m t live' bs'
    using keeps_list(1) [OF _ ds(2,3), of t] that keeps_fields(10) [of "disk_headers s bs" live s t] by (auto simp: probe_done_def bus_at_def)
  have keep: "?I (Suc k) u" if k: "k < length ds" and t: "?I k t" and u: "ata_probe dev hdr0 iden d t = Some (r, u)" for k d t r u
  proof -
    obtain live' bs' where "probe_done s live (n + 5 * k) bs t live' bs'" using t by blast
    moreover have "n + 5 * k + 5 \<le> 2 ^ 28" using k ds(1) by simp
    ultimately have "\<exists>live2 bs2. probe_done s live (n + 5 * k + 5) bs u live2 bs2" using probe_step [OF _ _ dev, of s live _ bs t _ _ hdr0 iden d] u by fastforce
    then show ?thesis by (simp add: add.assoc add.commute [of 5])
  qed
  let ?es = "filter (\<lambda>d. matches ata_pci_driver (?c d)) ds"
  have "PCI_register (ata_probe dev hdr0 iden) ata_pci_driver s = map_option (Pair 0) (probe_all (ata_probe dev hdr0 iden) ?es s)"
  proof (rule PCI_register_spec [of ?I])
    show "?I 0 s" using probe_done_refl [OF I] by auto
    show "?I (Suc k) t" if "?I k t" for k t using that probe_done_mono [of s live "n + 5 * k" bs t _ _ "n + 5 * Suc k"] by fastforce
  qed (use inv keep in blast)+
  moreover have "n + 5 * length ?es \<le> 2 ^ 28" using ds(1) length_filter_le [of "\<lambda>d. matches ata_pci_driver (?c d)" ds] by linarith
  moreover from this obtain u live2 bs2 where "probe_all (ata_probe dev hdr0 iden) ?es s = Some u" "probe_done s live (n + 5 * length ?es) bs u live2 bs2"
    using probe_all_spec [OF dev probe_done_refl [OF I], of ?es hdr0 iden] by auto
  ultimately show ?thesis
    using probe_done_mono [of s live "n + 5 * length ?es" bs u live2 bs2 "n + 5 * length ds"] by (simp add: ata_init_module_def) blast
qed

section \<open>FS_temp_dev_init\<close>

definition FS_temp_dev_init ::
  "'d device \<Rightarrow> PCIConfigHeader_0 \<Rightarrow> addr \<Rightarrow> ('d, 'a) ata_scheme \<Rightarrow> ('d, 'a) ata_scheme option" where
  "FS_temp_dev_init dev hdr0 iden s =
     (let (_, s) = ps2_init_module s;
          s = klog KLOG_LEVEL_INFO ''ps2 device driver registered'' [] s
      in map_option (\<lambda>(_, s). klog KLOG_LEVEL_INFO ''ata device driver registered'' [] s) (ata_init_module dev hdr0 iden s))"

lemma kinv_klog: "kinv (klog l f a s) F live = kinv s F live"
  by (rule kinv_cong) (simp_all add: klog_def)

lemma probe_inv_klog: "probe_inv (klog l f a s) live n bs = probe_inv s live n bs"
  by (simp add: probe_inv_def kinv_klog) (simp add: klog_def cursor_at_def disks_at_def is_disk_def syscalls_ready_def)

lemma probe_done_klog: "probe_done s live n bs (klog l f a t) live' bs' = probe_done s live n bs t live' bs'"
  by (simp add: probe_done_def probe_inv_klog) (simp add: klog_def disk_headers_def)

text \<open>Afterwards the keyboard is the one character device and the list of block devices consists of the disks found, if there are any;
  the devices of the bus, and whatever else is static or in use on the heap, are as before.\<close>

lemma FS_temp_dev_init_spec:
  fixes s :: "('d, 'a) ata_scheme"
  assumes K: "kinv s F live" and c: "cursor_at s n" "n + 5 + 5 * length ds \<le> 2 ^ 28" and st: "files_static s" "syscalls_ready s"
    and ds: "ll_list (lists s) (pci_dev_list s) ds" "\<forall>a\<in>ll_foot (lists s) (pci_dev_list s) ds. held live a \<and> a \<notin> file_headers s" and dev: "identifies dev"
  shows "\<exists>t live' bs new. FS_temp_dev_init dev hdr0 iden s = Some t \<and> (\<exists>j\<le>n + 5 + 5 * length ds. probe_inv t live' j bs) \<and> live \<subseteq> live' \<and>
    keeps (file_headers s) live s t \<and> ll_list (lists t) (f_inodes s) [new] \<and> (new - HEADER_SIZE, kind_of sizeof_INode) \<in> live' \<and>
    in_name (inode_of t new) = ps2_name s \<and> in_cdev (inode_of t new) = ps2_cdev s \<and> in_fops (inode_of t new) = ps2_fops_addr s \<and>
    pcidev_of t = pcidev_of s"
proof -
  have "n + 5 \<le> 2 ^ 28" using c(2) by simp
  from ps2_init_module_spec [OF K c(1) this st(1)] obtain new u F' j where
    u: "ps2_init_module s = (0, u)" "kinv u F' (insert (new - HEADER_SIZE, kind_of sizeof_INode) live)" "(new - HEADER_SIZE, kind_of sizeof_INode) \<notin> live"
      "cursor_at u j" "j \<le> n + 5" "keeps (file_headers s) live s u" "ll_list (lists u) (f_inodes s) [new]" "prv (lists u) (f_blocks s) = f_blocks s"
      "in_name (inode_of u new) = ps2_name s" "in_cdev (inode_of u new) = ps2_cdev s" "in_fops (inode_of u new) = ps2_fops_addr s"
      "pcidev_of u = pcidev_of s" by blast
  let ?L = "insert (new - HEADER_SIZE, kind_of sizeof_INode) live"
  note S = st(1) [unfolded files_static_def] and f = keeps_fields [OF u(6)]
  have o: "hoff (lists u) a = hoff (lists s) a" if "below_heap a" for a using u(6) that by (simp add: keeps_def held_def)
  define v where "v = klog KLOG_LEVEL_INFO ''ps2 device driver registered'' [] u"
  have kv: "keeps (file_headers s) live s v" using u(6) by (simp add: v_def)
  have V: "lists v = lists u" "inode_of v = inode_of u" "pcidev_of v = pcidev_of s" "f_blocks v = f_blocks s" "pci_dev_list v = pci_dev_list s"
    using u(12) by (simp_all add: v_def klog_def f)
  have I: "probe_inv v ?L j []"
    unfolding v_def probe_inv_klog using u(2,4,8) f(15) [OF st(2)] S o by (auto simp: probe_inv_def disks_at_def f)
  have dh: "disk_headers v [] = {f_blocks s}" by (simp add: disk_headers_def V)
  have hm: "held live a \<Longrightarrow> held ?L a" for a by (rule held_mono) auto
  note P = keeps_list [OF kv ds]
  have "\<forall>a\<in>ll_foot (lists v) (pci_dev_list v) ds. held ?L a \<and> a \<notin> disk_headers v []"
    unfolding V(5) P(2) dh using ds(2) hm by (auto simp: file_headers_def)
  then obtain t live' bs where t: "ata_init_module dev hdr0 iden v = Some (0, t)" "probe_done v ?L (j + 5 * length ds) [] t live' bs"
    using ata_init_module_spec [OF I _ _ _ dev, of ds hdr0 iden] P(1) c(2) u(5) V(5) by auto
  define t' where "t' = klog KLOG_LEVEL_INFO ''ata device driver registered'' [] t"
  have d: "probe_done v ?L (n + 5 + 5 * length ds) [] t' live' bs"
    unfolding t'_def probe_done_klog using probe_done_mono [OF t(2)] u(5) by simp
  have kt: "keeps {f_blocks s} ?L v t'" using d by (simp add: probe_done_def dh)
  have "keeps (file_headers s) live s t'" by (rule keeps_trans_fresh [OF kv kt]) (auto simp: file_headers_def)
  moreover have "ll_list (lists t') (f_inodes s) [new]"
  proof (rule keeps_list(1) [OF kt])
    show "ll_list (lists v) (f_inodes s) [new]" using u(7) by (simp add: V)
    have "unat (32 :: u64) + 16 < bsize (kind_of sizeof_INode)" by (simp add: kind_of_INode pool_block_size_def)
    note nh = fresh_not_held [OF u(2,3) this]
    have "held live (f_blocks s)" "held ?L (f_inodes s)" "f_inodes s \<noteq> f_blocks s" using S by (simp_all add: held_def)
    then show "\<forall>a\<in>ll_foot (lists v) (f_inodes s) [new]. held ?L a \<and> a \<notin> {f_blocks s}"
      using nh S o [of "f_inodes s"] by (auto simp: V LL_nhead_def add.commute)
  qed
  moreover have "FS_temp_dev_init dev hdr0 iden s = Some t'" by (simp add: FS_temp_dev_init_def u(1) v_def [symmetric] t(1) t'_def)
  ultimately show ?thesis
    using d u(9-11) by (intro exI [of _ t'] exI [of _ live'] exI [of _ bs] exI [of _ new]) (auto simp: probe_done_def V)
qed

end
