(* ===== verification/Kmain.thy ===== *)
theory Kmain
  imports Fat Boot Device_Start
begin

text \<open>
  The start of the kernel: \<^verbatim>\<open>src/src/kmain.c\<close>. The operations of all components are composed in the order of the source, on one state.

  The memory map that the boot loader's information is parsed into is a static structure of \<^verbatim>\<open>kmain.c\<close>; \<open>mmap_words\<close> is the word memory
  it lies in, and \<open>on_boot\<close> runs the parser on it. The addresses of static objects, of functions and of string literals are the
  linker's choice (\<open>kmain_syms\<close>). \<open>panic\<close> halts until the next interrupt and then returns, so \<open>kmain\<close> goes on after it. The program runs up
  to the first switch to another process, the result of \<open>PROC_run\<close>.
\<close>

section \<open>State\<close>

record 'd kmain_state = "'d fatfs" +
  mmap_words :: wmem

definition to_boot :: "('d, 'a) kmain_state_scheme \<Rightarrow> 'd boot" where
  "to_boot s = kbase.extend (kbase.truncate s) \<lparr>bwords = mmap_words s\<rparr>"

definition of_boot :: "'d boot \<Rightarrow> ('d, 'a) kmain_state_scheme \<Rightarrow> ('d, 'a) kmain_state_scheme" where
  "of_boot b s = s\<lparr>irq_semaphore := irq_semaphore b, int_flag := int_flag b, handlers := handlers b, klogs := klogs b,
     devst := devst b, mmap_words := bwords b\<rparr>"

definition on_boot ::
  "('d boot \<Rightarrow> (int \<times> 'd boot) option) \<Rightarrow> ('d, 'a) kmain_state_scheme \<Rightarrow> (int \<times> ('d, 'a) kmain_state_scheme) option" where
  "on_boot f s = map_option (\<lambda>(r, b). (r, of_boot b s)) (f (to_boot s))"

record kmain_syms =
  hw_syms :: symbols
  sym_map :: addr
  str_keyboard_io :: addr
  fn_keyboard_io :: addr
  str_filesystem :: addr
  fn_filesystem_init :: addr

section \<open>kmain\<close>

definition kpanic :: "('d, 'a) kmain_state_scheme \<Rightarrow> ('d, 'a) kmain_state_scheme" where
  "kpanic s = klog KLOG_LEVEL_EMERG ''KERNEL PANIC'' [] s"

text \<open>Up to \<open>MMU_init\<close>; \<open>excl\<close> is what the uninitialised array of \<open>MMU_init\<close> holds.\<close>

definition kmain_memory ::
  "'d device \<Rightarrow> ('d hw \<Rightarrow> 'd hw) \<Rightarrow> kmain_syms \<Rightarrow> bmem \<Rightarrow> SegmentList list \<Rightarrow> u32 \<Rightarrow> u32 \<Rightarrow>
   ('d, 'a) kmain_state_scheme \<Rightarrow> ('d, 'a) kmain_state_scheme option" where
  "kmain_memory dev IDT_init syms mb excl mb_magic mb_addr s = do {
     s \<leftarrow> on_con (\<lambda>c. Some (VGA_clear c)) s;
     s \<leftarrow> on_con (HW_init dev IDT_init (hw_syms syms)) s;
     let s = klog KLOG_LEVEL_INFO ''starting up kernel'' [] s;
     (r, s) \<leftarrow> on_boot (BOOT_parse_multiboot mb (sym_map syms) mb_magic mb_addr) s;
     let s = (if r < 0 then kpanic s else s);
     (r, s) \<leftarrow> MMU_init (PhysicalMMap_at (mmap_words s) (sym_map syms)) excl s;
     Some (if r < 0 then kpanic s else s) }"

definition kmain ::
  "'d device \<Rightarrow> ('d hw \<Rightarrow> 'd hw) \<Rightarrow>
   (irq_handler \<Rightarrow> u32 \<Rightarrow> u32 \<Rightarrow> addr \<Rightarrow> ('d, 'a) kmain_state_scheme \<Rightarrow> ('d, 'a) kmain_state_scheme) \<Rightarrow> frame \<Rightarrow>
   kmain_syms \<Rightarrow> bmem \<Rightarrow> SegmentList list \<Rightarrow> PCIConfigHeader_0 \<Rightarrow> addr \<Rightarrow> u32 \<Rightarrow> u32 \<Rightarrow> ('d, 'a) kmain_state_scheme \<Rightarrow>
   (frame \<times> ('d, 'a) kmain_state_scheme + ('d, 'a) kmain_state_scheme) option" where
  "kmain dev IDT_init drv ctx syms mb excl hdr0 iden mb_magic mb_addr s = do {
     s \<leftarrow> kmain_memory dev IDT_init syms mb excl mb_magic mb_addr s;
     let (_, s) = PCI_enum dev s;
     s \<leftarrow> FS_temp_dev_init dev hdr0 iden s;
     let s = klog KLOG_LEVEL_INFO ''creating threads'' [] s;
     (_, s) \<leftarrow> PROC_create_process (str_keyboard_io syms) (fn_keyboard_io syms) NULL s;
     (_, s) \<leftarrow> PROC_create_process (str_filesystem syms) (fn_filesystem_init syms) NULL s;
     Some (PROC_run dev drv ctx s) }"

section \<open>What MMU_init leaves alone\<close>

definition init_keeps :: "('d, 'a) mm_scheme \<Rightarrow> ('d, 'a) mm_scheme \<Rightarrow> bool" where
  "init_keeps s t \<longleftrightarrow> mm.more t = mm.more s \<and> next_kernel_heap_vaddr t = next_kernel_heap_vaddr s \<and>
     next_kernel_thread_stack_vaddr t = next_kernel_thread_stack_vaddr s \<and> irq_semaphore t = irq_semaphore s \<and> int_flag t = int_flag s"

lemma compute_free_segments_keeps: "mmu_compute_free_segments mp h ex s = Some t \<Longrightarrow> init_keeps s t \<and> handlers t = handlers s"
  by (auto simp: mmu_compute_free_segments_def init_keeps_def Let_def bind_eq_Some_conv split: if_splits)

lemma MMU_alloc_frame_keeps: "init_keeps s (snd (MMU_alloc_frame s)) \<and> handlers (snd (MMU_alloc_frame s)) = handlers s"
  by (simp add: MMU_alloc_frame_def init_keeps_def Let_def split: option.split)

lemma PT_init_keeps:
  "PT_init s = Some t \<Longrightarrow> init_keeps s t \<and> handlers t = (handlers s)[PAGE_FAULT_IRQ := \<lparr>handler = Some Page_fault_handler, arg = NULL\<rparr>]"
  by (auto simp: PT_init_def init_keeps_def IRQ_set_handler_def PAGE_FAULT_IRQ_def Let_def split: if_splits)

lemma MMU_init_frame:
  assumes "MMU_init mp excl s = Some (0, t)"
  shows "mm.more t = mm.more s" "next_kernel_heap_vaddr t = MMAP_KERNEL_HEAP_START"
    "next_kernel_thread_stack_vaddr t = MMAP_KERNEL_STACKS_END - 8" "irq_semaphore t = irq_semaphore s" "int_flag t = int_flag s"
    "handlers t = (handlers s)[PAGE_FAULT_IRQ := \<lparr>handler = Some Page_fault_handler, arg = NULL\<rparr>]"
proof -
  define s0 where "s0 = s\<lparr>free_segments := replicate MAX_FREE_SEGMENTS zero_SegmentList, free_segment_head := None,
    free_page_head := NULL, free_page_tail := NULL, page_table := NULL,
    next_kernel_heap_vaddr := 0, next_kernel_thread_stack_vaddr := 0\<rparr>"
  let ?s2 = "\<lambda>s. s\<lparr>next_kernel_heap_vaddr := MMAP_KERNEL_HEAP_START, next_kernel_thread_stack_vaddr := MMAP_KERNEL_STACKS_END - 8\<rparr>"
  obtain h ex s1 where s1: "mmu_compute_free_segments mp h ex s0 = Some s1"
    and rest: "(let (p, s) = MMU_alloc_frame (?s2 s1); s = s\<lparr>page_table := p\<rparr>
      in if p = NULL then Some (- 1, s) else map_option (\<lambda>s. (0, PT_change p (PT_page_table_init p s))) (PT_init s)) = Some (0 :: int, t)"
    using assms unfolding MMU_init_def s0_def [symmetric] by (clarsimp simp: bind_eq_Some_conv Let_def split: if_splits)
  obtain p s3 where s3: "MMU_alloc_frame (?s2 s1) = (p, s3)" by fastforce
  obtain s4 where s4: "PT_init (s3\<lparr>page_table := p\<rparr>) = Some s4" "t = PT_change p (PT_page_table_init p s4)"
    using rest s3 by (auto simp: Let_def split: if_splits)
  show "mm.more t = mm.more s" "next_kernel_heap_vaddr t = MMAP_KERNEL_HEAP_START"
    "next_kernel_thread_stack_vaddr t = MMAP_KERNEL_STACKS_END - 8" "irq_semaphore t = irq_semaphore s" "int_flag t = int_flag s"
    "handlers t = (handlers s)[PAGE_FAULT_IRQ := \<lparr>handler = Some Page_fault_handler, arg = NULL\<rparr>]"
    using compute_free_segments_keeps [OF s1] MMU_alloc_frame_keeps [of "?s2 s1"] PT_init_keeps [OF s4(1)] s3
    by (simp_all add: init_keeps_def s4(2) PT_change_def PT_page_table_init_def s0_def)
qed

section \<open>From the boot information to free memory\<close>

text \<open>What the boot loader reports: the available areas \<open>xs\<close> and the sections \<open>ys\<close> of the kernel, as start and length.\<close>

definition boot_info :: "bmem \<Rightarrow> u32 \<Rightarrow> (addr \<times> u64) list \<Rightarrow> (addr \<times> u64) list \<Rightarrow> bool" where
  "boot_info mb mb_addr xs ys \<longleftrightarrow> (\<exists>ts. tags mb (ucast (mb_addr + 8)) ts \<and> (\<forall>t\<in>set ts. tag_ok mb t) \<and>
     tags_of mb MULTIBOOT_TAG_TYPE_MMAP ts \<noteq> [] \<and> tags_of mb MULTIBOOT_TAG_TYPE_ELF_SECTIONS ts \<noteq> [] \<and>
     xs = map (\<lambda>e. (me_base e, me_length e)) (tag_ram mb (last (tags_of mb MULTIBOOT_TAG_TYPE_MMAP ts))) \<and>
     ys = map (\<lambda>k. (ks_base k, ks_length k)) (tag_sections mb (last (tags_of mb MULTIBOOT_TAG_TYPE_ELF_SECTIONS ts))))"

text \<open>Fewer areas than there are free segments, in order and apart, each with a whole page, below 1 TB; sections that make up, page by page, one image
  \<open>E\<close>, which covers no area completely.\<close>

definition machine_ok :: "(addr \<times> u64) list \<Rightarrow> (addr \<times> u64) list \<Rightarrow> Segment \<Rightarrow> bool" where
  "machine_ok xs ys E \<longleftrightarrow> xs \<noteq> [] \<and> length xs < MAX_FREE_SEGMENTS \<and> sorted_wrt (\<lambda>x y. unat (fst x) + unat (snd x) \<le> unat (fst y)) xs \<and>
     (\<forall>x\<in>set xs. page_up (unat (fst x)) + 4096 \<le> unat (fst x) + unat (snd x) \<and> unat (fst x) + unat (snd x) < 2 ^ 40 \<and>
        \<not> (lo E \<le> page_up (unat (fst x)) \<and> page_down (unat (fst x) + unat (snd x)) \<le> hi E)) \<and>
     ys \<noteq> [] \<and> distinct (map fst ys) \<and> (\<forall>y\<in>set ys. unat (fst y) + unat (snd y) + 4096 < 2 ^ 64) \<and>
     merge_list (map (\<lambda>y. round_segment (mk_segment y)) (sort_key fst ys)) = [E]"

text \<open>The pages that are free then: the whole pages of the areas without those of the image and without page 0.\<close>

definition free_pages :: "(addr \<times> u64) list \<Rightarrow> (addr \<times> u64) list \<Rightarrow> nat set" where
  "free_pages xs ys = {p \<in> (\<Union>x\<in>set xs. ram_range x) - (\<Union>y\<in>set ys. section_range y) - {0..<4096}. p mod 4096 = 0}"

lemma PhysicalMMap_numbers:
  "ram_at m dest xs \<Longrightarrow> unat (num_mmap (PhysicalMMap_at m dest)) = length xs \<and> length xs \<le> 32 \<and>
     length (ram_sects (PhysicalMMap_at m dest)) = 32"
  "sects_at m dest ys \<Longrightarrow> unat (num_kernel_sects (PhysicalMMap_at m dest)) = length ys \<and> length ys \<le> 32 \<and>
     length (kernel_sects (PhysicalMMap_at m dest)) = 32"
  by (simp_all add: PhysicalMMap_at_def ram_at_def sects_at_def contents_def MAX_MMAP_ENTRIES_def MAX_KERNEL_SECTIONS_def unat_of_nat)

lemma boot_map_ok:
  assumes info: "boot_info mb mb_addr xs ys" and ok: "machine_ok xs ys E"
  shows "\<exists>m. BOOT_parse_multiboot mb dest MULTIBOOT2_BOOTLOADER_MAGIC mb_addr s = Some (0, s\<lparr>bwords := m\<rparr>) \<and>
    ram_ok (PhysicalMMap_at m dest) \<and> image_ok (PhysicalMMap_at m dest) E \<and>
    unat (num_kernel_sects (PhysicalMMap_at m dest)) \<le> 32 \<and> {p \<in> free_addrs (PhysicalMMap_at m dest). p mod 4096 = 0} = free_pages xs ys"
proof -
  obtain ts where ts: "tags mb (ucast (mb_addr + 8)) ts" "\<forall>t\<in>set ts. tag_ok mb t"
    "tags_of mb MULTIBOOT_TAG_TYPE_MMAP ts \<noteq> []" "tags_of mb MULTIBOOT_TAG_TYPE_ELF_SECTIONS ts \<noteq> []"
    and xs: "xs = map (\<lambda>e. (me_base e, me_length e)) (tag_ram mb (last (tags_of mb MULTIBOOT_TAG_TYPE_MMAP ts)))"
    and ys: "ys = map (\<lambda>k. (ks_base k, ks_length k)) (tag_sections mb (last (tags_of mb MULTIBOOT_TAG_TYPE_ELF_SECTIONS ts)))"
    using info by (auto simp: boot_info_def)
  obtain m zs where m: "tag_loop mb dest (ucast (mb_addr + 8)) s = Some (0, s\<lparr>bwords := m\<rparr>)"
    "ram_at m dest (tag_ram mb (last (tags_of mb MULTIBOOT_TAG_TYPE_MMAP ts)))" "sects_at m dest zs"
    "mset zs = mset (tag_sections mb (last (tags_of mb MULTIBOOT_TAG_TYPE_ELF_SECTIONS ts)))" "sorted (map ks_base zs)"
    using tag_loop_spec [OF ts(1,2), of dest s] ts(3,4) by (auto simp: ram_done_def sects_done_def)
  let ?mp = "PhysicalMMap_at m dest" and ?zs = "map (\<lambda>k. (ks_base k, ks_length k)) zs"
  note N = PhysicalMMap_numbers(1) [OF m(2)] PhysicalMMap_numbers(2) [OF m(3)]
  have ram: "ram ?mp = xs" and sec: "sections ?mp = ?zs" using PhysicalMMap_ram [OF m(2)] PhysicalMMap_sections [OF m(3)] xs by simp_all
  have ms: "mset ?zs = mset ys" using m(4) ys by simp
  then have set: "set ?zs = set ys" by (rule mset_eq_setD)
  have "sorted (map fst ?zs)" using m(5) by (simp add: comp_def)
  moreover have "inj_on fst (set ys)" using ok by (simp add: machine_ok_def distinct_map)
  ultimately have srt: "sort_key fst ys = ?zs" using ms by (intro sort_key_inj_key_eq) simp_all
  have "ram_ok ?mp" using ok N(1) ram xs by (auto simp: ram_ok_def machine_ok_def)
  moreover have "image_ok ?mp E"
  proof -
    have "sorted (map (\<lambda>x. unat (fst x)) ?zs)" using m(5) by (simp add: comp_def sorted_map word_le_nat_alt)
    moreover have "0 < length zs" using ok ms by (auto simp: machine_ok_def)
    ultimately show ?thesis
      using ok N(2) set srt unfolding image_ok_def sections_ok_def excluded_segments_def sec ram by (auto simp: machine_ok_def)
  qed
  moreover have "{p \<in> free_addrs ?mp. p mod 4096 = 0} = free_pages xs ys" by (simp only: free_addrs_def free_pages_def ram sec set)
  ultimately show ?thesis using m(1) N(2) by (intro exI [of _ m]) (simp add: BOOT_parse_multiboot_def)
qed

section \<open>The first half of the start\<close>

text \<open>The static data before the start: an empty heap, empty lists of processes and of bus devices, the lists of \<^verbatim>\<open>fs.c\<close>, all at places of their
  own below the heap, and the main process running.\<close>

definition static_ok :: "('d, 'a) ata_scheme \<Rightarrow> bool" where
  "static_ok s \<longleftrightarrow> pool_free_head s = replicate 6 NULL \<and> (\<forall>i<6. pool_ptr s i \<noteq> NULL) \<and> files_static s \<and>
     (\<forall>l\<in>{ready_queue s, procs_list s, pci_dev_list s}. ll_list (lists s) l [] \<and> below_heap l) \<and>
     hoff (lists s) (ready_queue s) = 0 \<and> hoff (lists s) (procs_list s) = 16 \<and> hoff (lists s) (pci_dev_list s) = 0 \<and>
     distinct [ready_queue s, procs_list s, pci_dev_list s] \<and> {ready_queue s, procs_list s, pci_dev_list s} \<inter> file_headers s = {} \<and>
     below_heap (curr_proc s)"

text \<open>The fields above the memory manager that the first half does not change.\<close>

definition same_static :: "('d, 'a) ata_scheme \<Rightarrow> ('d, 'a) ata_scheme \<Rightarrow> bool" where
  "same_static s t \<longleftrightarrow> start_fields t = start_fields (s\<lparr>next_kernel_thread_stack_vaddr := next_kernel_thread_stack_vaddr t\<rparr>) \<and>
     (lists t, pool_free_head t, pools_base t, ps2_fops_addr t) = (lists s, pool_free_head s, pools_base s, ps2_fops_addr s)"

lemma same_static_fields:
  assumes "same_static s t"
  shows "lists t = lists s" "pool_free_head t = pool_free_head s" "pools_base t = pools_base s" "ps2_fops_addr t = ps2_fops_addr s"
    "ready_queue t = ready_queue s" "procs_list t = procs_list s" "curr_proc t = curr_proc s" "f_inodes t = f_inodes s" "f_blocks t = f_blocks s"
    "f_chars t = f_chars s" "pci_dev_list t = pci_dev_list s" "ps2_cdev t = ps2_cdev s" "ps2_name t = ps2_name s" "ata_name t = ata_name s"
    "process_exit_addr t = process_exit_addr s"
  using assms by (simp_all add: same_static_def start_fields_def)

lemma static_ok_same: "same_static s t \<Longrightarrow> static_ok t = static_ok s"
  by (simp add: static_ok_def files_static_def file_headers_def pool_ptr_def same_static_fields)

definition boot_handlers :: "('d, 'a) psys_scheme \<Rightarrow> bool" where
  "boot_handlers s \<longleftrightarrow> syscalls_ready s \<and>
     handler (handlers s ! nat COM1_COM3_IRQ) = Some X86_serial_isr \<and> handler (handlers s ! PAGE_FAULT_IRQ) = Some Page_fault_handler"

lemma kmain_memory_spec:
  fixes s :: "('d, 'a) kmain_state_scheme"
  assumes hw: "length (stack_tops (hw_syms syms)) = 4" "idt_only IDT_init"
    and info: "boot_info mb mb_addr xs ys" "machine_ok xs ys E" "free_pages xs ys \<noteq> {}" and excl: "length excl = MAX_EXCLUDE_SEGMENTS"
  shows "\<exists>u fs. kmain_memory dev IDT_init syms mb excl MULTIBOOT2_BOOTLOADER_MAGIC mb_addr s = Some u \<and> pt_ok u fs \<and>
    heap_cursor u \<and> cr3 u \<notin> set fs \<and> insert (unat (cr3 u)) (unat ` set fs) = free_pages xs ys \<and>
    next_kernel_heap_vaddr u = MMAP_KERNEL_HEAP_START \<and> next_kernel_thread_stack_vaddr u = MMAP_KERNEL_STACKS_END - 8 \<and>
    same_static s u \<and> irq_semaphore u = 0 \<and> int_flag u \<and> boot_handlers u"
proof -
  let ?c0 = "VGA_clear (to_con s)"
  obtain c where c: "HW_init dev IDT_init (hw_syms syms) ?c0 = Some c" "int_flag c" "irq_semaphore c = 0"
    "handlers c = (replicate 256 \<lparr>handler = None, arg = NULL\<rparr>)
      [123 := \<lparr>handler = Some IRQ_syscall_handler, arg = NULL\<rparr>, 36 := \<lparr>handler = Some X86_serial_isr, arg = gdev_addr ?c0\<rparr>]"
    using HW_init_state [OF hw, of dev ?c0] by blast
  define s1 where "s1 = klog KLOG_LEVEL_INFO ''starting up kernel'' [] (of_con c s)"
  let ?mp = "\<lambda>m. PhysicalMMap_at m (sym_map syms)"
  obtain m where m: "BOOT_parse_multiboot mb (sym_map syms) MULTIBOOT2_BOOTLOADER_MAGIC mb_addr (to_boot s1) = Some (0, (to_boot s1)\<lparr>bwords := m\<rparr>)"
    and mp: "ram_ok (?mp m)" "image_ok (?mp m) E" "unat (num_kernel_sects (?mp m)) \<le> 32" "{p \<in> free_addrs (?mp m). p mod 4096 = 0} = free_pages xs ys"
    using boot_map_ok [OF info(1,2), of "sym_map syms" "to_boot s1"] by blast
  define s2 where "s2 = s1\<lparr>mmap_words := m\<rparr>"
  have b: "of_boot ((to_boot s1)\<lparr>bwords := m\<rparr>) s1 = s2"
    by (simp add: of_boot_def to_boot_def s2_def kbase.defs)
  have s2: "handlers s2 = handlers c" "irq_semaphore s2 = 0" "int_flag s2" using c(2,3) by (simp_all add: s2_def s1_def of_con_def klog_def)
  have left: "\<exists>x\<in>free_addrs (?mp m). x mod 4096 = 0" using mp(4) info(3) by blast
  have "unat (num_kernel_sects (?mp m)) \<le> MAX_EXCLUDE_SEGMENTS" "PAGE_FAULT_IRQ < length (handlers s2)"
    using mp(3) s2 c(4) by (simp_all add: MAX_EXCLUDE_SEGMENTS_def PAGE_FAULT_IRQ_def)
  from MMU_init_correct [OF mp(1,2) this(1) excl left this(2)] obtain u fs where
    u: "MMU_init (?mp m) excl s2 = Some (0, u)" "pt_ok u fs" "heap_cursor u" "cr3 u \<notin> set fs"
    "insert (unat (cr3 u)) (unat ` set fs) = free_pages xs ys" using mp(4) by auto
  note F = MMU_init_frame [OF u(1)]
  have "kmain_memory dev IDT_init syms mb excl MULTIBOOT2_BOOTLOADER_MAGIC mb_addr s = Some u"
    using c(1) m b u(1) by (simp add: kmain_memory_def on_con_def on_boot_def s1_def [symmetric]) (simp add: s2_def)
  moreover have "same_static s2 u"
    using F(1) unfolding same_static_def start_fields_def by (cases u; cases s2; simp)
  then have "same_static s u" by (simp add: same_static_def start_fields_def s2_def s1_def of_con_def klog_def)
  moreover have "boot_handlers u"
    using F(6) s2(1) c(4) by (simp add: boot_handlers_def syscalls_ready_def SYSCALL_TRAP_NUMBER_def COM1_COM3_IRQ_def PAGE_FAULT_IRQ_def)
  ultimately show ?thesis using u F s2 by (intro exI [of _ u] exI [of _ fs]) simp
qed

section \<open>Devices\<close>

lemma length_pci_devices: "length (pci_devices cfg) \<le> 32768"
proof -
  have bound: "length (concat (map f xs)) \<le> k * length xs" if "\<And>x. length (f x) \<le> k" for f :: "nat \<Rightarrow> PCIDevice list" and k xs
    using that by (induction xs) (auto intro: add_mono)
  have "length (found cfg b k [0, 1, 2, 3]) \<le> 4" for b k
    using length_takeWhile_le [of "Pci.present cfg b k" "[0, 1, 2, 3]"] by (simp add: found_def)
  then have "length (concat (map (\<lambda>k. found cfg (of_nat b) (of_nat k) [0, 1, 2, 3]) [0..<32])) \<le> 4 * length [0 :: nat..<32]" for b
    by (intro bound)
  then have "length (pci_devices cfg) \<le> (4 * length [0 :: nat..<32]) * length [0 :: nat..<256]" unfolding pci_devices_def by (rule bound)
  then show ?thesis by simp
qed

text \<open>The lists of devices: those of the bus, the keyboard and the disks. \<open>L\<close> lists them with their elements.\<close>

definition device_lists :: "('d, 'a) ata_scheme \<Rightarrow> addr list \<Rightarrow> addr \<Rightarrow> addr list \<Rightarrow> (addr \<times> addr list) set" where
  "device_lists s ds i bs = {(pci_dev_list s, ds), (f_inodes s, [i])} \<union> (if bs = [] then {} else {(f_blocks s, bs)})"

text \<open>After the enumeration of the bus.\<close>

lemma enum_start:
  fixes u :: "('d, 'a) ata_scheme"
  assumes mem: "pt_ok u fs" "heap_cursor u" "next_kernel_heap_vaddr u = MMAP_KERNEL_HEAP_START" and st: "static_ok u" and dev: "config_space dev cfg"
  shows "\<exists>v ds live F n. PCI_enum dev u = (0, v) \<and> kinv v F live \<and> cursor_at v n \<and> n \<le> 131072 \<and> keeps {pci_dev_list u} {} u v \<and>
    files_static v \<and> ll_list (lists v) (pci_dev_list u) ds \<and> ll_foot (lists v) (pci_dev_list u) ds = insert (pci_dev_list u) (set ds) \<and>
    map (pcidev_of v) ds = pci_devices cfg \<and> (\<forall>d\<in>set ds. held live d \<and> \<not> below_heap d)"
proof -
  note S = st [unfolded static_ok_def]
  have h: "heap_init u" using mem S by (auto simp: heap_init_def vm_inv_def vm_ok_def)
  have c0: "cursor_at u 0" using mem(3) by (simp add: cursor_at_def)
  have "devices_at u [] 0" using heap_init_kinv [OF h] c0 S by (auto simp: devices_at_def pci_ok_def)
  then obtain n where n: "n \<le> 131072" "devices_at (bus_loop dev [0..<256] u) (pci_devices cfg) n"
    using bus_loop_spec [OF dev, of u "[]" 0 "[0..<256]"] by (auto simp: pci_devices_def)
  define v where "v = bus_loop dev [0..<256] u"
  have "enum_inv u" using heap_init_kinv [OF h] S by (auto simp: enum_inv_def ll_list_Nil)
  then have kv: "keeps {pci_dev_list u} {} u v" unfolding v_def using bus_loop_keeps by blast
  note f = keeps_fields [OF kv]
  obtain ds live F where ds: "kinv v F live" "cursor_at v n" "ll_list (lists v) (pci_dev_list u) ds" "hoff (lists v) (pci_dev_list u) = 0"
    "\<forall>d\<in>set ds. (d - HEADER_SIZE, kind_of sizeof_PCIDevice) \<in> live" "map (pcidev_of v) ds = pci_devices cfg"
    using n(2) f(10) by (auto simp: devices_at_def pci_ok_def v_def)
  have same: "nxt (lists v) a = nxt (lists u) a" "prv (lists v) a = prv (lists u) a" "hoff (lists v) a = hoff (lists u) a"
    if "below_heap a" "a \<noteq> pci_dev_list u" for a using kv that by (simp_all add: keeps_def held_def)
  have "files_static v" using S same unfolding files_static_def file_headers_def ll_list_Nil by (auto simp: f)
  moreover have "\<forall>a\<in>set ds. held live a \<and> \<not> below_heap a"
    using live_held [OF ds(1), of _ "kind_of sizeof_PCIDevice" 0] ds(5) kind_of_PCIDevice by simp
  moreover have "ll_foot (lists v) (pci_dev_list u) ds = insert (pci_dev_list u) (set ds)"
    using ds(4) by (simp add: ll_foot_def ll_nodes_def LL_nhead_def)
  moreover have "PCI_enum dev u = (0, v)" by (simp add: PCI_enum_def v_def)
  ultimately show ?thesis using ds n(1) kv by blast
qed

text \<open>The processes and the lists of devices after \<open>FS_temp_dev_init\<close>; \<open>v\<close> is the state before it.\<close>

lemma devices_apart:
  fixes u v t :: "('d, 'a) ata_scheme"
  assumes st: "static_ok u" and kv: "keeps {pci_dev_list u} {} u v" and kt: "keeps (file_headers u) live v t" "live \<subseteq> live'"
    and pci: "ll_list (lists v) (pci_dev_list u) ds"
      "\<forall>a\<in>ll_foot (lists v) (pci_dev_list u) ds. held live a \<and> a \<notin> file_headers u \<and> a \<notin> {ready_queue u, procs_list u}"
    and ino: "ll_list (lists t) (f_inodes u) [i]" "(i - HEADER_SIZE, kind_of sizeof_INode) \<in> live'"
    and K: "kinv t F live'" and D: "disks_at t bs live'"
  shows "procs_ok t [] [] live'" "\<forall>(k, es)\<in>device_lists u ds i bs. apart t [] [] live' k es"
proof -
  let ?R = "{ready_queue u, procs_list u}"
  note S = st [unfolded static_ok_def] and f = keeps_fields [OF kv] and g = keeps_fields [OF kt(1)]
  have below: "below_heap a" if "a \<in> file_headers u \<union> ?R" for a using that S unfolding files_static_def file_headers_def by auto
  have in_files: "f_inodes u \<in> file_headers u" "f_blocks u \<in> file_headers u" by (simp_all add: file_headers_def)
  have hm: "held live a \<Longrightarrow> held live' a" for a using held_mono kt(2) by blast
  have ho: "hoff (lists t) a = hoff (lists u) a" if "below_heap a" for a using kv kt(1) that by (simp add: keeps_def held_def)
  have procs: "ll_list (lists t) l []" if "l \<in> ?R" for l
  proof -
    have l: "ll_list (lists u) l []" "\<forall>a\<in>ll_foot (lists u) l []. held {} a \<and> a \<notin> {pci_dev_list u}" using S that by (auto simp: held_def)
    have "\<forall>a\<in>ll_foot (lists v) l []. held live a \<and> a \<notin> file_headers u" using S that by (auto simp: held_def)
    then show ?thesis by (rule keeps_list(1) [OF kt(1) keeps_list(1) [OF kv l]])
  qed
  have R: "held live' a" if "a \<in> ?R" for a using below that by (auto simp: held_def)
  show "procs_ok t [] [] live'" using procs S R ho by (simp add: procs_ok_def g f)
  have ap: "apart t [] [] live' k es" if "ll_list (lists t) k es" "\<forall>a\<in>ll_foot (lists t) k es. held live' a \<and> a \<notin> ?R" for k es
    using that by (auto simp: apart_def g f)
  have "apart t [] [] live' (pci_dev_list u) ds"
    using keeps_list(1,2) [OF kt(1) pci(1)] pci(2) hm by (intro ap) auto
  moreover have "apart t [] [] live' (f_inodes u) [i]"
  proof (rule ap [OF ino(1)])
    have "ll_foot (lists t) (f_inodes u) [i] = {f_inodes u, i + 32}"
      using S ho [of "f_inodes u"] unfolding files_static_def by (auto simp: LL_nhead_def add.commute)
    moreover have "held live' (i + 32)" "\<not> below_heap (i + 32)"
      using live_held [OF K ino(2), of 32] by (simp_all add: kind_of_INode pool_block_size_def)
    ultimately show "\<forall>a\<in>ll_foot (lists t) (f_inodes u) [i]. held live' a \<and> a \<notin> ?R" using below S in_files by (auto simp: held_def)
  qed
  moreover have "apart t [] [] live' (f_blocks u) bs" if "bs \<noteq> []"
  proof (rule ap)
    have b: "f_blocks t = f_blocks u" by (simp add: g f)
    show "ll_list (lists t) (f_blocks u) bs" using D that by (simp add: disks_at_def b)
    have foot: "ll_foot (lists t) (f_blocks u) bs = disk_headers t bs" using D disk_headers_foot [of "lists t" t bs] by (simp add: disks_at_def b)
    have "\<not> below_heap (x + 40)" if "x \<in> set bs" for x
      using live_held(2) [OF K, of x "kind_of sizeof_ATADevice" 40] D that by (simp add: disks_at_def ATADevice_size)
    then have "a \<notin> ?R" if "a \<in> disk_headers t bs" for a using that below S in_files by (auto simp: disk_headers_def b)
    then show "\<forall>a\<in>ll_foot (lists t) (f_blocks u) bs. held live' a \<and> a \<notin> ?R" using disk_headers_held [OF D K] by (simp add: foot)
  qed
  ultimately show "\<forall>(k, es)\<in>device_lists u ds i bs. apart t [] [] live' k es" by (simp add: device_lists_def)
qed

lemma devices_start:
  fixes u :: "('d, 'a) ata_scheme"
  assumes mem: "pt_ok u fs" "heap_cursor u" "next_kernel_heap_vaddr u = MMAP_KERNEL_HEAP_START" and st: "static_ok u" "syscalls_ready u"
    and dev: "config_space dev cfg" "identifies dev"
  shows "\<exists>t live n ds i bs. FS_temp_dev_init dev hdr0 iden (snd (PCI_enum dev u)) = Some t \<and> probe_inv t live n bs \<and> n \<le> 300000 \<and>
    start_fields t = start_fields u \<and> procs_ok t [] [] live \<and> (\<forall>(k, es)\<in>device_lists u ds i bs. apart t [] [] live k es) \<and>
    map (pcidev_of t) ds = pci_devices cfg \<and> in_name (inode_of t i) = ps2_name u \<and> in_cdev (inode_of t i) = ps2_cdev u"
proof -
  obtain v ds live F n where v: "PCI_enum dev u = (0, v)" "kinv v F live" "cursor_at v n" "n \<le> 131072" "keeps {pci_dev_list u} {} u v" "files_static v"
    "ll_list (lists v) (pci_dev_list u) ds" "ll_foot (lists v) (pci_dev_list u) ds = insert (pci_dev_list u) (set ds)"
    "map (pcidev_of v) ds = pci_devices cfg" "\<forall>d\<in>set ds. held live d \<and> \<not> below_heap d"
    using enum_start [OF mem st(1) dev(1)] by blast
  note S = st(1) [unfolded static_ok_def] and f = keeps_fields [OF v(5)]
  let ?R = "{ready_queue u, procs_list u}"
  have fh: "file_headers v = file_headers u" by (simp add: file_headers_def f)
  have below: "below_heap a" if "a \<in> file_headers u \<union> ?R" for a using that S unfolding files_static_def file_headers_def by auto
  have pci: "held live (pci_dev_list u)" "pci_dev_list u \<notin> file_headers u \<union> ?R" using S by (auto simp: held_def)
  have out: "\<forall>a\<in>ll_foot (lists v) (pci_dev_list u) ds. held live a \<and> a \<notin> file_headers u \<and> a \<notin> ?R"
  proof
    fix a assume "a \<in> ll_foot (lists v) (pci_dev_list u) ds"
    then consider "a = pci_dev_list u" | "held live a" "\<not> below_heap a" using v(8,10) by blast
    then show "held live a \<and> a \<notin> file_headers u \<and> a \<notin> ?R" using pci below [of a] by cases auto
  qed
  have "length ds \<le> 32768" using v(9) length_pci_devices [of cfg] map_eq_imp_length_eq [of "pcidev_of v" ds "\<lambda>x. x" "pci_devices cfg"] by simp
  then have len: "n + 5 + 5 * length ds \<le> 2 ^ 28" "n + 5 + 5 * length ds \<le> 300000" using v(4) by simp_all
  have pl: "ll_list (lists v) (pci_dev_list v) ds" "\<forall>a\<in>ll_foot (lists v) (pci_dev_list v) ds. held live a \<and> a \<notin> file_headers v"
    using v(7) out by (simp_all add: f fh)
  obtain t live' bs i j where
    t: "FS_temp_dev_init dev hdr0 iden v = Some t" "j \<le> n + 5 + 5 * length ds" "probe_inv t live' j bs" "live \<subseteq> live'" "keeps (file_headers u) live v t"
      "ll_list (lists t) (f_inodes u) [i]" "(i - HEADER_SIZE, kind_of sizeof_INode) \<in> live'" "in_name (inode_of t i) = ps2_name u" "in_cdev (inode_of t i) = ps2_cdev u"
      "pcidev_of t = pcidev_of v"
    using FS_temp_dev_init_spec [OF v(2,3) len(1) v(6) f(15) [OF st(2)] pl dev(2), of hdr0 iden, unfolded f(7,11,12) fh] by blast
  obtain F' where Kt: "kinv t F' live'" and D: "disks_at t bs live'" using t(3) by (auto simp: probe_inv_def)
  have "start_fields t = start_fields u" using v(5) t(5) by (simp add: keeps_def)
  then show ?thesis
    using t v(1,9) len(2) devices_apart [OF st(1) v(5) t(5,4) v(7) out t(6,7) Kt D]
    by (intro exI [of _ t] exI [of _ live'] exI [of _ j] exI [of _ ds] exI [of _ i] exI [of _ bs]) auto
qed

section \<open>An example\<close>

text \<open>A machine with 128 MB, an IDE controller in slot 1 of bus 0, and a disk that is ready at once. The state of the hardware is the last address
  written to the bus.\<close>

definition boot_dev_example :: "u32 device" where
  "boot_dev_example = \<lparr>dev_in = (\<lambda>p w a. (if p = 0xCFC \<and> w = 32 then registers_example a else if w = 16 then 0x400 else 0x48, a)),
     dev_out = (\<lambda>p w v a. if p = 0xCF8 \<and> w = 32 then v else a)\<rparr>"

lemma boot_dev_example_bus: "config_space boot_dev_example bus_example"
  by (simp add: config_space_def boot_dev_example_def bus_example_def)

lemma boot_dev_example_drive: "identifies boot_dev_example"
  by (auto simp: identifies_def boot_dev_example_def intro!: answers.Now)

definition syms_example :: kmain_syms where
  "syms_example = \<lparr>hw_syms = symbols_example, sym_map = 0x5000, str_keyboard_io = 0x700, fn_keyboard_io = 0x108000,
     str_filesystem = 0x710, fn_filesystem_init = 0x108100\<rparr>"

definition hdr0_example :: PCIConfigHeader_0 where
  "hdr0_example = \<lparr>h0_hdr = header_of 0 0 0 0, bar0 = 0, bar1 = 0, bar2 = 0, bar3 = 0, bar4 = 0, bar5 = 0\<rparr>"

definition start_lists :: lheap where
  "start_lists = Files_init 0x5000 0x5020 0x5040 (LL_init 0x7800 0 (LL_init 0x910 16 (LL_init 0x900 0 sched_lists)))"

definition kmain_example :: "u32 kmain_state" where
  "kmain_example = (kbase.extend \<lparr>irq_semaphore = 0, int_flag = False, handlers = [], klogs = [], devst = 0\<rparr>
     (kbase.more (fatfs.extend fat_example (kmain_state.fields (\<lambda>_. 0)))))\<lparr>lists := start_lists\<rparr>"

lemma kmain_example_static: "static_ok kmain_example"
proof -
  note D = kmain_example_def kbase.extend_def fatfs.extend_def kmain_state.fields_def fat_example_def kernel.extend_def fatfs.fields_def example_defs
  have "ready_queue kmain_example = 0x900" "procs_list kmain_example = 0x910" "pci_dev_list kmain_example = 0x7800" "f_inodes kmain_example = 0x5000"
    "f_blocks kmain_example = 0x5020" "f_chars kmain_example = 0x5040" "ps2_cdev kmain_example = 0x5400" "curr_proc kmain_example = 0x1000"
    "lists kmain_example = start_lists" "pool_free_head kmain_example = replicate 6 NULL" "pools_base kmain_example = 0x100000"
    by (simp_all add: D)
  note F = this
  have "\<forall>i<6. pool_ptr kmain_example i \<noteq> NULL" using heap_example_init(1) by (simp add: heap_init_def pool_ptr_def F heap_example_sel)
  then show ?thesis
    by (simp add: static_ok_def files_static_def file_headers_def F ll_list_Nil start_lists_def Files_init_def LL_init_def below_heap_def)
qed

lemma mb_example_info: "boot_info mb_example 0x1000 [(0, 0x9FC00), (0x100000, 0x7EE0000)] [(0x108000, 0x4123), (0x100000, 0x8000)]"
proof -
  have o: "tags_of mb_example MULTIBOOT_TAG_TYPE_MMAP [0x1008, 0x1060] = [0x1008]"
    "tags_of mb_example MULTIBOOT_TAG_TYPE_ELF_SECTIONS [0x1008, 0x1060] = [0x1060]"
    by (simp_all add: tags_of_def boot_consts load_simps mb_example_def)
  show ?thesis unfolding boot_info_def
    by (intro exI [of _ "[0x1008, 0x1060]"]) (use mb_example_tags mb_example_ok mb_example_ram mb_example_sections in \<open>simp add: o del: tags.simps\<close>)
qed

lemma mb_example_machine:
  "machine_ok [(0, 0x9FC00), (0x100000, 0x7EE0000)] [(0x108000, 0x4123), (0x100000, 0x8000)] \<lparr>s_base = 0x100000, s_end = 0x10D000, s_len = 0xD000\<rparr>"
  by (simp add: machine_ok_def MAX_FREE_SEGMENTS_def page_up_def page_down_def lo_def hi_def mk_segment_def round_segment_def extend_segment_def
      PAGE_SIZE_def Let_def)

lemma mb_example_free: "free_pages [(0, 0x9FC00), (0x100000, 0x7EE0000)] [(0x108000, 0x4123), (0x100000, 0x8000)] \<noteq> {}"
proof -
  have "0x1000 \<in> free_pages [(0, 0x9FC00), (0x100000, 0x7EE0000)] [(0x108000, 0x4123), (0x100000, 0x8000)]"
    by (simp add: free_pages_def ram_range_def section_range_def page_up_def page_down_def)
  then show ?thesis by blast
qed

lemmas machine_example = mb_example_info mb_example_machine mb_example_free

section \<open>Properties\<close>

text \<open>C3: memory after the first half of the start. For a machine whose boot information is well formed, with the kernel image inside its memory,
  \<open>kmain\<close> gets to the end of \<open>MMU_init\<close> without a panic, whatever the static variables of the memory manager held before. Every whole page
  of the memory reported, but for those of the image and page 0, is on the free list exactly once or is the page table in \<open>cr3\<close>; the memory manager and
  the still empty heap satisfy their invariants, interrupts are enabled, and the handlers of system calls, of the serial port and of page faults are installed.\<close>

theorem kmain_memory_correct:
  fixes s :: "('d, 'a) kmain_state_scheme"
  assumes "length (stack_tops (hw_syms syms)) = 4" "idt_only IDT_init" "boot_info mb mb_addr xs ys" "machine_ok xs ys E" "free_pages xs ys \<noteq> {}"
    "length excl = MAX_EXCLUDE_SEGMENTS" "static_ok s"
  shows "\<exists>u fs. kmain_memory dev IDT_init syms mb excl MULTIBOOT2_BOOTLOADER_MAGIC mb_addr s = Some u \<and> pt_ok u fs \<and> distinct (cr3 u # fs) \<and>
    unat ` set (cr3 u # fs) = free_pages xs ys \<and> kinv u (\<lambda>_. []) {} \<and> irq_semaphore u = 0 \<and> int_flag u \<and> boot_handlers u"
proof -
  obtain u fs where u: "kmain_memory dev IDT_init syms mb excl MULTIBOOT2_BOOTLOADER_MAGIC mb_addr s = Some u" "pt_ok u fs" "heap_cursor u" "cr3 u \<notin> set fs"
    "insert (unat (cr3 u)) (unat ` set fs) = free_pages xs ys" "same_static s u" "irq_semaphore u = 0" "int_flag u" "boot_handlers u"
    using kmain_memory_spec [OF assms(1-6), of dev s] by blast
  have "static_ok u" using assms(7) static_ok_same [OF u(6)] by simp
  then have "heap_init u" using u(2,3) by (auto simp: heap_init_def vm_inv_def vm_ok_def static_ok_def)
  then have "kinv u (\<lambda>_. []) {}" by (rule heap_init_kinv)
  moreover have "distinct fs" using u(2) by (auto simp: pt_ok_def free_frames_def)
  ultimately show ?thesis using u by (intro exI [of _ u] exI [of _ fs]) simp
qed

theorem kmain_memory_correct_witness:
  "\<exists>u. kmain_memory boot_dev_example (\<lambda>s. s) syms_example mb_example (replicate 128 zero_SegmentList) MULTIBOOT2_BOOTLOADER_MAGIC 0x1000 kmain_example = Some u \<and>
     kinv u (\<lambda>_. []) {} \<and> int_flag u \<and> boot_handlers u"
proof -
  have "length (stack_tops (hw_syms syms_example)) = 4" "idt_only (\<lambda>s :: u32 hw. s)" by (simp_all add: syms_example_def symbols_example_def idt_only_def)
  from kmain_memory_correct [OF this machine_example _ kmain_example_static, of "replicate 128 zero_SegmentList" boot_dev_example] show ?thesis
    by (auto simp: MAX_EXCLUDE_SEGMENTS_def)
qed



end
