(* ===== verification/Procs.thy ===== *)
theory Procs
  imports Fat Device_Start
begin

text \<open>
  The processes that \<open>kmain\<close> creates: \<^verbatim>\<open>src/src/procs\<close>.

  A process runs until it gives up the processor: the result \<open>Inl\<close> is the frame and the state with which the next process goes on,
  \<open>Inr\<close> is the state in which the function returns. \<open>while (1) yield()\<close> gives up the processor each time the process is scheduled.
  The addresses of string literals and of local variables are arguments.
\<close>

section \<open>The file system\<close>

text \<open>\<open>dump_block\<close>: the loop over the bytes of the block; \<open>i\<close> is compared with the block size as an unsigned number.\<close>

fun dump_loop :: "'d device \<Rightarrow> addr \<Rightarrow> nat list \<Rightarrow> ('d, 'a) fatfs_scheme \<Rightarrow> ('d, 'a) fatfs_scheme option" where
  "dump_loop dev buff [] s = Some s"
| "dump_loop dev buff (i # is) s = do {
     s \<leftarrow> kprintk dev ''%x '' [Int_arg (ucast (bytes s (buff + of_nat i)))] s;
     s \<leftarrow> (if i \<noteq> 0 \<and> i mod 32 = 0 then kprintk dev [CHR 0x0A] [] s else Some s);
     dump_loop dev buff is s }"

definition dump_block ::
  "'d device \<Rightarrow> ('d, 'a) reader \<Rightarrow> addr \<Rightarrow> u64 \<Rightarrow> ('d, 'a) fatfs_scheme \<Rightarrow> ('d, 'a) fatfs_scheme option" where
  "dump_block dev rd blk block s =
     (let (buff, s) = kmalloc (blk_size (bdev_of s blk)) s
      in if buff = NULL then Some (klog KLOG_LEVEL_WARN ''could not allocate memory'' [] s)
         else do {
           let s = klog KLOG_LEVEL_WARN ''doing second read'' [] s;
           (_, s) \<leftarrow> read_block rd blk block buff s;
           let s = klog KLOG_LEVEL_WARN ''done doing second read'' [] s;
           dump_loop dev buff [0..<unat (blk_size (bdev_of s blk))] s })"

text \<open>The part behind the first read.\<close>

definition filesystem_mount ::
  "'d device \<Rightarrow> (irq_handler \<Rightarrow> u32 \<Rightarrow> u32 \<Rightarrow> addr \<Rightarrow> ('d, 'a) fatfs_scheme \<Rightarrow> ('d, 'a) fatfs_scheme) \<Rightarrow> frame \<Rightarrow>
   ('d, 'a) reader \<Rightarrow> addr \<Rightarrow> addr \<Rightarrow> addr \<Rightarrow> addr \<Rightarrow> ('d, 'a) fatfs_scheme \<Rightarrow>
   (frame \<times> ('d, 'a) fatfs_scheme + ('d, 'a) fatfs_scheme) option" where
  "filesystem_mount dev drv ctx rd str_ata_1 mbr fat blk s = do {
     (_, s) \<leftarrow> FS_process_mbr blk mbr s;
     (part, s) \<leftarrow> BLK_open str_ata_1 s;
     if part = NULL then Some (Inr (klog KLOG_LEVEL_WARN ''failed to create block device'' [] s))
     else do { (_, s) \<leftarrow> FS_register_fs (FS_register_fat32 rd fat) part s; Some (Inl (yield dev drv ctx s)) } }"

definition filesystem_init ::
  "'d device \<Rightarrow> (irq_handler \<Rightarrow> u32 \<Rightarrow> u32 \<Rightarrow> addr \<Rightarrow> ('d, 'a) fatfs_scheme \<Rightarrow> ('d, 'a) fatfs_scheme) \<Rightarrow> frame \<Rightarrow>
   ('d, 'a) reader \<Rightarrow> addr \<Rightarrow> addr \<Rightarrow> addr \<Rightarrow> addr \<Rightarrow> ('d, 'a) fatfs_scheme \<Rightarrow>
   (frame \<times> ('d, 'a) fatfs_scheme + ('d, 'a) fatfs_scheme) option" where
  "filesystem_init dev drv ctx rd str_ata str_ata_1 mbr fat s = do {
     (blk, s) \<leftarrow> BLK_open str_ata s;
     if blk = NULL then Some (Inr (klog KLOG_LEVEL_WARN ''failed to create block device'' [] s))
     else do {
       (_, s) \<leftarrow> read_block rd blk 0 mbr s;
       filesystem_mount dev drv ctx rd str_ata_1 mbr fat blk s } }"

section \<open>The keyboard\<close>

text \<open>One round of the loop: the character is read into \<open>buff\<close> and printed, or the process blocks. A process that blocked goes on with
  the same round. The loop ends only by blocking.\<close>

definition keyboard_io_round ::
  "'d device \<Rightarrow> (addr \<Rightarrow> (('d, 'a) fatfs_scheme, (frame \<times> ('d, 'a) fatfs_scheme) + (u8 list \<times> ('d, 'a) fatfs_scheme)) FileOps) \<Rightarrow>
   addr \<Rightarrow> addr \<Rightarrow> ('d, 'a) fatfs_scheme \<Rightarrow> (frame \<times> ('d, 'a) fatfs_scheme + ('d, 'a) fatfs_scheme) option" where
  "keyboard_io_round dev fops f buff s =
     (case FS_read fops f buff 1 s of
        Inl next \<Rightarrow> Some (Inl next)
      | Inr (cs, s) \<Rightarrow>
          let s = s\<lparr>bytes := store_bytes buff cs (bytes s)\<rparr>
          in map_option Inr (kprintk dev ''%c'' [Int_arg (scast (bytes s buff))] s))"

partial_function (option) keyboard_io_loop ::
  "'d device \<Rightarrow> (addr \<Rightarrow> (('d, 'a) fatfs_scheme, (frame \<times> ('d, 'a) fatfs_scheme) + (u8 list \<times> ('d, 'a) fatfs_scheme)) FileOps) \<Rightarrow>
   addr \<Rightarrow> addr \<Rightarrow> ('d, 'a) fatfs_scheme \<Rightarrow> (frame \<times> ('d, 'a) fatfs_scheme) option" where
  "keyboard_io_loop dev fops f buff s = do {
     r \<leftarrow> keyboard_io_round dev fops f buff s;
     case r of Inl next \<Rightarrow> Some next | Inr s \<Rightarrow> keyboard_io_loop dev fops f buff s }"

definition keyboard_io ::
  "'d device \<Rightarrow> (addr \<Rightarrow> (('d, 'a) fatfs_scheme, (frame \<times> ('d, 'a) fatfs_scheme) + (u8 list \<times> ('d, 'a) fatfs_scheme)) FileOps) \<Rightarrow>
   addr \<Rightarrow> addr \<Rightarrow> ('d, 'a) fatfs_scheme \<Rightarrow> (frame \<times> ('d, 'a) fatfs_scheme + ('d, 'a) fatfs_scheme) option" where
  "keyboard_io dev fops str_ps2 buff s = do {
     (f, s) \<leftarrow> FS_open fops str_ps2 0 s;
     if f = NULL then Some (Inr (klog KLOG_LEVEL_WARN ''failed to initialize keyboard driver'' [] s))
     else map_option Inl (keyboard_io_loop dev fops f buff s) }"

section \<open>The stress test\<close>

text \<open>One round of \<open>test_func\<close>, with its local variable \<open>i\<close>: the round prints and yields, and the process goes on with \<open>i - 1\<close>.\<close>

definition test_func_round ::
  "'d device \<Rightarrow> (irq_handler \<Rightarrow> u32 \<Rightarrow> u32 \<Rightarrow> addr \<Rightarrow> ('d, 'a) fatfs_scheme \<Rightarrow> ('d, 'a) fatfs_scheme) \<Rightarrow> frame \<Rightarrow>
   u32 \<Rightarrow> ('d, 'a) fatfs_scheme \<Rightarrow> (frame \<times> ('d, 'a) fatfs_scheme + ('d, 'a) fatfs_scheme) option" where
  "test_func_round dev drv ctx i s =
     (if i \<noteq> 0 then map_option (\<lambda>s. Inl (yield dev drv ctx s)) (kprintk dev (''test: %d'' @ [CHR 0x0A]) [Int_arg i] s)
      else Some (Inr s))"

definition test_func ::
  "'d device \<Rightarrow> (irq_handler \<Rightarrow> u32 \<Rightarrow> u32 \<Rightarrow> addr \<Rightarrow> ('d, 'a) fatfs_scheme \<Rightarrow> ('d, 'a) fatfs_scheme) \<Rightarrow> frame \<Rightarrow>
   addr \<Rightarrow> ('d, 'a) fatfs_scheme \<Rightarrow> (frame \<times> ('d, 'a) fatfs_scheme + ('d, 'a) fatfs_scheme) option" where
  "test_func dev drv ctx a s = test_func_round dev drv ctx (load32 a (bytes s)) s"

text \<open>The bytes of an \<open>int\<close>.\<close>

definition int_bytes :: "u32 \<Rightarrow> u8 list" where
  "int_bytes v = map (\<lambda>k. ucast (drop_bit (8 * k) v)) [0..<4]"

text \<open>\<open>tests\<close>: the name, the address of the local variable and its value, for each of the four calls.\<close>

fun create_tests :: "addr \<Rightarrow> (addr \<times> addr \<times> u32) list \<Rightarrow> ('d, 'a) fatfs_scheme \<Rightarrow> ('d, 'a) fatfs_scheme option" where
  "create_tests fn_test [] s = Some s"
| "create_tests fn_test ((name, val, _) # ts) s =
     Option.bind (PROC_create_process name fn_test val s) (\<lambda>(_, s). create_tests fn_test ts s)"

definition stress_test_proc ::
  "'d device \<Rightarrow> (irq_handler \<Rightarrow> u32 \<Rightarrow> u32 \<Rightarrow> addr \<Rightarrow> ('d, 'a) fatfs_scheme \<Rightarrow> ('d, 'a) fatfs_scheme) \<Rightarrow> frame \<Rightarrow>
   addr \<Rightarrow> (nat \<Rightarrow> addr) \<Rightarrow> (nat \<Rightarrow> addr) \<Rightarrow> ('d, 'a) fatfs_scheme \<Rightarrow> (frame \<times> ('d, 'a) fatfs_scheme) option" where
  "stress_test_proc dev drv ctx fn_test name val s = do {
     let ts = map (\<lambda>(k, v). (name k, val k, v)) [(1, 20), (2, 30), (3, 40), (4, 50)];
     let s = s\<lparr>bytes := fold (\<lambda>(_, a, v). store_bytes a (int_bytes v)) ts (bytes s)\<rparr>;
     s \<leftarrow> create_tests fn_test ts s;
     Some (yield dev drv ctx s) }"

section \<open>String literals and names\<close>

text \<open>A string that lies below the heap, and one that the buffer of a sector does not overlap.\<close>

definition literal :: "bmem \<Rightarrow> addr \<Rightarrow> string \<Rightarrow> bool" where
  "literal m a str \<longleftrightarrow> cstr m a (chars str) \<and> range_below a (Suc (length str))"

definition beside :: "addr \<Rightarrow> string \<Rightarrow> addr \<Rightarrow> bool" where
  "beside a str buff \<longleftrightarrow> range_below buff 512 \<and> (unat a + Suc (length str) \<le> unat buff \<or> unat buff + 512 \<le> unat a)"

lemma literal_cong:
  assumes "literal m a str" "\<And>k. k \<le> length str \<Longrightarrow> unat (a + of_nat k) = unat a + k \<Longrightarrow> m' (a + of_nat k) = m (a + of_nat k)"
  shows "literal m' a str"
proof -
  have "m' (a + of_nat k) = m (a + of_nat k)" if k: "k \<le> length str" for k
  proof (rule assms(2) [OF k])
    show "unat (a + of_nat k) = unat a + k"
      using assms(1) k by (subst unat_add_no_wrap) (simp_all add: literal_def range_below_def unat_of_nat_u64)
  qed
  then show ?thesis using assms(1) by (simp add: literal_def cstr_nth chars_def)
qed

lemma literal_below: "literal m a str \<Longrightarrow> (\<And>x. below_heap x \<Longrightarrow> m' x = m x) \<Longrightarrow> literal m' a str"
  by (rule literal_cong) (auto simp: literal_def range_below_def below_heap_def)

lemma literal_sector:
  assumes "literal m a str" "beside a str buff" "length bs = 512"
  shows "literal (store_bytes buff bs m) a str"
  using assms(1)
proof (rule literal_cong)
  fix k assume k: "k \<le> length str" "unat (a + of_nat k) = unat a + k"
  have "\<not> unat (a + of_nat k - buff) < 512"
    using assms(1,2) k by (auto simp: unat_sub_if' beside_def literal_def range_below_def)
  then show "store_bytes buff bs m (a + of_nat k) = m (a + of_nat k)" using assms(3) by (simp add: store_bytes_def)
qed

lemma find_name_first:
  assumes "cstr m name cs" "\<And>x. x \<in> set xs \<Longrightarrow> \<exists>ds. cstr m (nm x) ds \<and> ds \<noteq> cs" "cstr m (nm y) cs"
  shows "find_name m name nm (xs @ y # zs) = Some (Some y)"
  using assms(2)
proof (induction xs)
  case Nil
  then show ?case using strcmp_cstr [OF assms(1,3)] by auto
next
  case (Cons x xs)
  obtain ds where "cstr m (nm x) ds" "ds \<noteq> cs" using Cons.prems by auto
  with strcmp_cstr [OF assms(1)] obtain r where "strcmp m name (nm x) = Some r" "r \<noteq> 0" by metis
  then show ?case using Cons by simp
qed

lemma find_name_none:
  assumes "cstr m name cs" "\<And>x. x \<in> set xs \<Longrightarrow> \<exists>ds. cstr m (nm x) ds \<and> ds \<noteq> cs"
  shows "find_name m name nm xs = Some None"
  using assms(2)
proof (induction xs)
  case (Cons x xs)
  obtain ds where "cstr m (nm x) ds" "ds \<noteq> cs" using Cons.prems by auto
  with strcmp_cstr [OF assms(1)] obtain r where "strcmp m name (nm x) = Some r" "r \<noteq> 0" by metis
  then show ?case using Cons by simp
qed simp

section \<open>Mounting\<close>

text \<open>A disk whose first partition holds a FAT32 file system with tables of less than 2 GB.\<close>

definition part_start :: "(u64 \<Rightarrow> u8 list) \<Rightarrow> u64" where
  "part_start disk = of_nat (le32 (disk 0) 454)"

definition fat_count :: "u8 list \<Rightarrow> nat" where
  "fat_count boot = unat (boot ! 16) * fat_sectors boot"

definition fat32_disk :: "(u64 \<Rightarrow> u8 list) \<Rightarrow> bool" where
  "fat32_disk disk \<longleftrightarrow> le16 (disk 0) 510 = 0xaa55 \<and> disk 0 ! 450 = FS_TYPE_FAT32 \<and> le32 (disk 0) 454 \<noteq> 0 \<and>
     (let boot = disk (part_start disk)
      in (boot ! 66 = 0x28 \<or> boot ! 66 = 0x29) \<and> 0 < boot ! 13 \<and> 0 < fat_count boot \<and> fat_count boot * 512 < 2 ^ 31)"

lemma mbr_sector:
  assumes "length bs = 512"
  shows "unat (mbr_boot_sig (store_bytes mbr bs m) mbr) = le16 bs 510" "partition_type (store_bytes mbr bs m) mbr 0 = bs ! 450"
    "unat (start_lba (store_bytes mbr bs m) mbr 0) = le32 bs 454"
  using load_sector(2) [OF assms, of 510 mbr m] load_sector(1) [OF assms, of 450 mbr m] load_sector(3) [OF assms, of 454 mbr m]
  by (simp_all add: mbr_boot_sig_def partition_type_def start_lba_def part_record_def add.assoc)

text \<open>The state that the disk driver leaves: the disks are registered, under the same name.\<close>

definition disks_named :: "('d, 'a) fatfs_scheme \<Rightarrow> addr list \<Rightarrow> (addr \<times> bkind) set \<Rightarrow> bool" where
  "disks_named s bs live \<longleftrightarrow> bs \<noteq> [] \<and> disks_at s bs live \<and> literal (bytes s) (ata_name s) ''ata''"

lemma disks_named_sector:
  assumes D: "disks_named s bs live" and K: "kinv s F live" and b: "beside (ata_name s) ''ata'' mbr" "length sect = 512"
    and t: "t = s\<lparr>bytes := store_bytes mbr sect (bytes s), devst := x\<rparr>"
  shows "blocks_ok t bs live" "disk_ok t bs (hd bs) (chars ''ata'')" "kinv t F live" "hd bs \<noteq> NULL" "range_below mbr 512"
    "\<forall>b\<in>set bs. cstr (bytes t) (bd_name (bdev_of t b)) (chars ''ata'') \<and> literal (bytes t) (bd_name (bdev_of t b)) ''ata'' \<and>
       read_block_fn (bdev_of t b) = Ata_read_block \<and> blk_size (bdev_of t b) = 512"
proof -
  show K': "kinv t F live" using K by (simp add: t)
  show r: "range_below mbr 512" using b(1) by (simp add: beside_def)
  have l: "literal (bytes t) (ata_name s) ''ata''" using literal_sector [OF _ b] D by (simp add: disks_named_def t)
  then show N: "\<forall>b\<in>set bs. cstr (bytes t) (bd_name (bdev_of t b)) (chars ''ata'') \<and> literal (bytes t) (bd_name (bdev_of t b)) ''ata'' \<and>
       read_block_fn (bdev_of t b) = Ata_read_block \<and> blk_size (bdev_of t b) = 512"
    using D by (auto simp: disks_named_def disks_at_def is_disk_def literal_def ATA_BLOCK_SIZE_def t)
  have L: "(b - HEADER_SIZE, kind_of sizeof_ATADevice) \<in> live" if "b \<in> set bs" for b using D that by (auto simp: disks_named_def disks_at_def)
  have h: "hd bs \<in> set bs" using D by (simp add: disks_named_def)
  have "held live (b + 40)" if "b \<in> set bs" for b using live_held(1) [OF K L [OF that], of 40] by (simp add: ATADevice_size)
  then show "blocks_ok t bs live" using D K' by (auto simp: blocks_ok_def disks_named_def disks_at_def t)
  show "disk_ok t bs (hd bs) (chars ''ata'')" using N h by (auto simp: disk_ok_def literal_def chars_def)
  show "hd bs \<noteq> NULL" using live_held(2) [OF K L [OF h], of 0] by (auto simp: ATADevice_size below_heap_def)
qed

lemma BLK_open_find:
  assumes "ll_list (lists s) (f_blocks s) bs" "find_name (bytes s) name (\<lambda>d. bd_name (bdev_of s d)) bs = Some r"
  shows "BLK_open name s =
    Some (case r of Some d \<Rightarrow> (d, s) | None \<Rightarrow> (NULL, klog KLOG_LEVEL_DEBUG ''failed to open block device %s'' [name] s))"
  using LL_for_each_list [OF assms(1)] assms(2) by (simp add: BLK_open_def split: option.split)

lemma open_disk:
  fixes s :: "('d, 'a) fatfs_scheme"
  assumes D: "disks_named s bs live" and n: "literal (bytes s) name ''ata''"
  shows "BLK_open name s = Some (hd bs, s)"
proof -
  obtain d ds where bs: "bs = d # ds" using D by (cases bs) (auto simp: disks_named_def)
  have "find_name (bytes s) name (\<lambda>d. bd_name (bdev_of s d)) ([] @ d # ds) = Some (Some d)"
    using D n by (intro find_name_first [of _ _ "chars ''ata''"]) (simp_all add: bs disks_named_def disks_at_def is_disk_def literal_def)
  then show ?thesis using BLK_open_find [of s bs name "Some d"] D by (simp add: bs disks_named_def disks_at_def)
qed

lemma read_first_sector:
  fixes s :: "('d, 'a) fatfs_scheme"
  assumes "disks_named s bs live" "sector_device rd (hd bs) disk"
  shows "\<exists>x. read_block rd (hd bs) 0 mbr s = Some (0, s\<lparr>bytes := store_bytes mbr (disk 0) (bytes s), devst := x\<rparr>)"
proof -
  have "read_block_fn (bdev_of s (hd bs)) = Ata_read_block" using assms(1) by (cases bs) (auto simp: disks_named_def disks_at_def is_disk_def)
  then show ?thesis using assms(2) by (subst read_block.simps) (simp add: sector_device_def)
qed

text \<open>The first partition, once the table is processed.\<close>

lemma first_partition:
  fixes t :: "('d, 'a) fatfs_scheme"
  assumes P: "partitions d (chars ''ata'') mbr t live' u ps (filter (\<lambda>i. start_lba (bytes t) mbr i \<noteq> 0) [0..<4])"
    and bl: "blocks_ok u (bs @ ps) live'" "blocks_keep bs t u" "d \<in> set bs"
    and N: "\<forall>b\<in>set bs. literal (bytes t) (bd_name (bdev_of t b)) ''ata'' \<and> read_block_fn (bdev_of t b) = Ata_read_block \<and>
       blk_size (bdev_of t b) = 512"
    and m: "bytes t = store_bytes mbr (disk 0) m" and dev: "sector_device rd d disk" and fat: "fat32_disk disk"
    and n: "literal (bytes u) name ''ata_1''"
  shows "\<exists>p. BLK_open name u = Some (p, u) \<and> p \<noteq> NULL \<and> fs_type (bdev_of u p) = FS_TYPE_FAT32 \<and> partition_on rd disk p u \<and>
    blk_size (bdev_of u p) = 512 \<and> sect_start (part_of u p) = part_start disk"
proof -
  have len: "length (disk 0) = 512" using dev by (simp add: sector_device_def)
  note S = mbr_sector [OF len, of mbr m, folded m]
  have "start_lba (bytes t) mbr 0 \<noteq> 0" using S(3) fat by (auto simp: fat32_disk_def)
  moreover have "[0..<4] = (0 :: nat) # [1..<4]" by (simp add: upt_rec)
  ultimately obtain p ps' where p: "ps = p # ps'" "part_dev d (chars ''ata'') mbr (blk_size (bdev_of t d)) (bytes t) live' u p 0"
    using P by (auto simp: partitions_def list_all2_Cons2)
  have d: "bdev_of u d = bdev_of t d" "blk_size (bdev_of t d) = 512" "read_block_fn (bdev_of t d) = Ata_read_block"
    using bl(2,3) N by (auto simp: blocks_keep_def)
  have st: "(ucast (start_lba (bytes t) mbr 0) :: u64) = part_start disk"
    using S(3) unfolding part_start_def by (simp flip: S(3))
  obtain F where K: "kinv u F live'" using bl(1) by (auto simp: blocks_ok_def)
  have "p \<noteq> NULL"
    using live_held(2) [OF K, of p "kind_of sizeof_PartBlockDev" 0] p(2) by (auto simp: part_dev_def below_heap_def kind_of_part pool_block_size_def)
  moreover have "BLK_open name u = Some (p, u)"
  proof -
    have "literal (bytes u) (bd_name (bdev_of u b)) ''ata''" if b: "b \<in> set bs" for b
    proof -
      have "literal (bytes t) (bd_name (bdev_of u b)) ''ata''" using bl(2) N b by (simp add: blocks_keep_def)
      then show ?thesis by (rule literal_below) (use bl(2) in \<open>simp add: blocks_keep_def\<close>)
    qed
    then have "find_name (bytes u) name (\<lambda>d. bd_name (bdev_of u d)) (bs @ p # ps') = Some (Some p)"
      using n p(2) by (intro find_name_first [of _ _ "chars ''ata_1''"])
        (auto simp: literal_def part_dev_def chars_def intro!: exI [of _ "chars ''ata''"])
    then show ?thesis using BLK_open_find [of u "bs @ ps" name "Some p"] bl(1) by (simp add: p(1) blocks_ok_def)
  qed
  ultimately show ?thesis
    using p(2) d dev S(2) st fat by (intro exI [of _ p]) (simp add: part_dev_def partition_on_def fat32_disk_def)
qed

lemma mount_no_signature:
  fixes t :: "('d, 'a) fatfs_scheme"
  assumes bl: "ll_list (lists t) (f_blocks t) bs" "\<forall>b\<in>set bs. cstr (bytes t) (bd_name (bdev_of t b)) (chars ''ata'')"
    and lit: "literal (bytes t) str_ata_1 ''ata_1''" and no: "mbr_boot_sig (bytes t) mbr \<noteq> 0xaa55"
  shows "\<exists>v. filesystem_mount hw drv ctx rd str_ata_1 mbr fat d t = Some (Inr v) \<and> lists v = lists t"
proof -
  let ?u = "klog KLOG_LEVEL_WARN ''%s device does not have valid MBR signature'' [bd_name (bdev_of t d)] t"
  have p: "FS_process_mbr d mbr t = Some (- 1, ?u)" using no by (simp add: FS_process_mbr_def)
  have "find_name (bytes ?u) str_ata_1 (\<lambda>d. bd_name (bdev_of ?u d)) bs = Some None"
    using bl(2) lit by (intro find_name_none [of _ _ "chars ''ata_1''"]) (auto simp: literal_def chars_def intro!: exI [of _ "chars ''ata''"])
  moreover have "ll_list (lists ?u) (f_blocks ?u) bs" using bl(1) by (simp add: klog_def)
  ultimately show ?thesis using BLK_open_find [of ?u bs str_ata_1 None] by (simp add: filesystem_mount_def p) (simp add: klog_def)
qed

lemma mount_fat32:
  fixes t :: "('d, 'a) fatfs_scheme"
  assumes bl: "blocks_ok t bs live" "disk_ok t bs d (chars ''ata'')" "range_below mbr 512" and c: "cursor_at t n" "n + 2 ^ 21 \<le> 2 ^ 28"
    and N: "\<forall>b\<in>set bs. literal (bytes t) (bd_name (bdev_of t b)) ''ata'' \<and> read_block_fn (bdev_of t b) = Ata_read_block \<and>
       blk_size (bdev_of t b) = 512"
    and m: "bytes t = store_bytes mbr (disk 0) m" and dev: "sector_device rd d disk" and fat: "fat32_disk disk"
    and lit: "literal (bytes t) str_ata_1 ''ata_1''" and boot: "boot = disk (part_start disk)" "N = fat_count boot"
  shows "\<exists>v tbl F' live'. filesystem_mount hw drv ctx rd str_ata_1 mbr fat d t = Some (Inl (yield hw drv ctx v)) \<and>
    geometry boot (fat_of v tbl) \<and> kinv v F' live' \<and>
    (\<forall>k<N * 512. bytes v (fat_table (fat_of v tbl) + of_nat k) = sectors disk (part_start disk) (Suc (le16 boot 14)) N ! k)"
proof -
  have len: "length (disk 0) = 512" using dev by (simp add: sector_device_def)
  have g: "n + 32 \<le> 2 ^ 28" "mbr_boot_sig (bytes t) mbr = 0xaa55" "d \<in> set bs"
    using c mbr_sector(1) [OF len, of mbr m] fat bl(2) by (simp_all add: word_unat_eq_iff fat32_disk_def m disk_ok_def)
  obtain u ps live' j where U: "FS_process_mbr d mbr t = Some (0, u)" "blocks_ok u (bs @ ps) live'"
      "partitions d (chars ''ata'') mbr t live' u ps (filter (\<lambda>i. start_lba (bytes t) mbr i \<noteq> 0) [0..<4])" "blocks_keep bs t u"
      "cursor_at u j" "j \<le> n + 32"
    using FS_process_mbr_spec [OF bl c(1) g(1,2) refl] by blast
  have "literal (bytes u) str_ata_1 ''ata_1''" by (rule literal_below [OF lit]) (use U(4) in \<open>simp add: blocks_keep_def\<close>)
  from first_partition [OF U(3,2,4) g(3) N m dev fat this] obtain p where
    P: "BLK_open str_ata_1 u = Some (p, u)" "p \<noteq> NULL" "fs_type (bdev_of u p) = FS_TYPE_FAT32" "partition_on rd disk p u"
      "blk_size (bdev_of u p) = 512" "sect_start (part_of u p) = part_start disk" by blast
  obtain F1 where K1: "kinv u F1 live'" using U(2) by (auto simp: blocks_ok_def)
  have j: "j + 2 ^ 20 \<le> 2 ^ 28" using U(6) c(2) by simp
  have B: "boot = disk (sect_start (part_of u p))" "boot ! 66 = 0x28 \<or> boot ! 66 = 0x29" "0 < boot ! 13" "N = unat (boot ! 16) * fat_sectors boot"
    "0 < N" "N * 512 < 2 ^ 31" using fat P(6) by (simp_all add: fat32_disk_def Let_def fat_count_def boot)
  obtain v tbl F' L where V: "FS_register_fat32 rd fat p u = Some (0, v)" "geometry boot (fat_of v tbl)" "kinv v F' (live' \<union> L)"
      "\<forall>k<N * 512. bytes v (fat_table (fat_of v tbl) + of_nat k) = sectors disk (part_start disk) (Suc (le16 boot 14)) N ! k"
    using FS_register_fat32_spec [OF K1 U(5) j P(4,5) B, of fat] unfolding P(6) by blast
  have "filesystem_mount hw drv ctx rd str_ata_1 mbr fat d t = Some (Inl (yield hw drv ctx v))"
    using P(2,3) V(1) by (simp add: filesystem_mount_def U(1) P(1) FS_register_fs_def)
  then show ?thesis using V(2-4) by blast
qed


section \<open>Texts of the processes\<close>

text \<open>The screen is ready for \<open>n\<close> more characters.\<close>

definition screen_ok :: "nat \<Rightarrow> ('d, 'a) fatfs_scheme \<Rightarrow> bool" where
  "screen_ok n s \<longleftrightarrow> (\<exists>Y. cursor_ok (to_con s) Y) \<and> unat (disp_x (to_con s)) + n < 2 ^ 32"

lemma kprintk_directives:
  fixes s :: "('d, 'a) fatfs_scheme"
  assumes "\<forall>d\<in>set ds. literal_ok d" "tx = concat (map text_of ds)" "0x0D \<notin> set tx" "screen_ok (length tx + n) s"
  shows "\<exists>t. kprintk dev (concat (map fmt_of ds)) (concat (map args_of ds)) s = Some t \<and>
    terminal_of (to_con t) = fold term_put tx (terminal_of (to_con s)) \<and> screen_ok n t \<and> bytes t = bytes s"
proof -
  have s: "\<exists>Y. cursor_ok (to_con s) Y" "unat (disp_x (to_con s)) + length (concat (map text_of ds)) < 2 ^ 32"
    using assms(2,4) by (simp_all add: screen_ok_def)
  obtain c where c: "printk_loop dev (concat (map fmt_of ds)) (concat (map args_of ds)) (to_con s) = Some c" "shows_text (to_con s) c tx"
    using printk_loop_directives [of ds "to_con s" dev, OF assms(1) _ s] assms(2,3) by auto
  then show ?thesis using assms(4) by (auto simp: kprintk_def on_con_def printk_def shows_text_def screen_ok_def)
qed

lemma test_func_round_prints:
  fixes s :: "('d, 'a) fatfs_scheme"
  assumes "i \<noteq> 0" "tx = chars ''test: '' @ int_text (sint i) @ [0x0A]" "screen_ok (length tx) s"
  shows "\<exists>t. test_func_round dev drv ctx i s = Some (Inl (yield dev drv ctx t)) \<and>
    terminal_of (to_con t) = fold term_put tx (terminal_of (to_con s))"
proof -
  let ?ds = "map Lit ''test: '' @ [Num W_int Conv_d (ucast i), Lit (CHR 0x0A)]"
  have "ucast (ucast i :: u64) = i" by (rule bit_word_eqI) (auto simp: bit_simps)
  then have e: "concat (map text_of ?ds) = tx" "concat (map fmt_of ?ds) = ''test: %d'' @ [CHR 0x0A]" "concat (map args_of ?ds) = [Int_arg i]"
    by (simp_all add: assms(2) chars_def)
  have "0x0D \<notin> set (int_text k)" for k using no_return(1) [of 97 "nat k"] no_return(1) [of 97 "nat (- k)"] by (simp add: int_text_def)
  then have "\<forall>d\<in>set ?ds. literal_ok d" "0x0D \<notin> set tx" using assms(2) by (simp_all add: literal_ok_def chars_def)
  from kprintk_directives [of ?ds tx 0 s dev, unfolded e, OF this(1) refl this(2)] assms(3) show ?thesis
    using assms(1) by (auto simp: test_func_round_def)
qed

text \<open>The dump of a sector: its bytes in hexadecimal, a line break after the first 33 and then after every 32.\<close>

definition dump_text :: "u8 list \<Rightarrow> nat \<Rightarrow> u8 list" where
  "dump_text bs i = hex_text 97 (unat (bs ! i)) @ [0x20] @ (if i \<noteq> 0 \<and> i mod 32 = 0 then [0x0A] else [])"

lemma dump_loop_prints:
  fixes s :: "('d, 'a) fatfs_scheme"
  assumes "\<forall>i\<in>set is. bytes s (buff + of_nat i) = bs ! i" "screen_ok (length (concat (map (dump_text bs) is))) s"
  shows "\<exists>t. dump_loop dev buff is s = Some t \<and> terminal_of (to_con t) = fold term_put (concat (map (dump_text bs) is)) (terminal_of (to_con s))"
  using assms
proof (induction "is" arbitrary: s)
  case (Cons i "is")
  let ?n = "length (concat (map (dump_text bs) is))" and ?b = "bs ! i"
  let ?ds = "[Num W_int Conv_x (ucast ?b), Lit CHR '' '']" and ?t1 = "hex_text 97 (unat ?b) @ [0x20]"
  let ?nl = "if i \<noteq> 0 \<and> i mod 32 = 0 then [0x0A] else [] :: u8 list"
  have u: "(ucast (ucast ?b :: u64) :: u32) = ucast ?b" by (rule bit_word_eqI) (auto simp: bit_simps)
  have ub: "unat (ucast ?b :: u32) = unat ?b"
    using unsigned_less [of ?b, where 'a = nat] by (simp add: unsigned_ucast_eq take_bit_nat_eq_self)
  have e: "concat (map text_of ?ds) = ?t1" "concat (map fmt_of ?ds) = ''%x ''" "concat (map args_of ?ds) = [Int_arg (ucast ?b)]"
    by (simp_all add: u ub)
  have no: "0x0D \<notin> set ?t1" using no_return(2) [of 97 "unat ?b"] by (auto simp: hex_text_def)
  have dt: "dump_text bs i = ?t1 @ ?nl" by (simp add: dump_text_def)
  have "length (concat (map (dump_text bs) (i # is))) = length ?t1 + (length ?nl + ?n)" unfolding list.map concat.simps dt by simp
  from Cons.prems(2) [unfolded this] have "screen_ok (length ?t1 + (length ?nl + ?n)) s" .
  from kprintk_directives [of ?ds ?t1 "length ?nl + ?n" s dev, unfolded e, OF _ refl no this] obtain u where
    u: "kprintk dev ''%x '' [Int_arg (ucast ?b)] s = Some u" "terminal_of (to_con u) = fold term_put ?t1 (terminal_of (to_con s))"
      "screen_ok (length ?nl + ?n) u" "bytes u = bytes s" by (auto simp: literal_ok_def)
  obtain v where v: "(if i \<noteq> 0 \<and> i mod 32 = 0 then kprintk dev [CHR 0x0A] [] u else Some u) = Some v"
      "terminal_of (to_con v) = fold term_put ?nl (terminal_of (to_con u))" "screen_ok ?n v" "bytes v = bytes u"
    using kprintk_directives [of "[Lit (CHR 0x0A)]" "[0x0A]" ?n u dev] u(3) by (cases "i \<noteq> 0 \<and> i mod 32 = 0") (auto simp: literal_ok_def)
  obtain t where "dump_loop dev buff is v = Some t"
      "terminal_of (to_con t) = fold term_put (concat (map (dump_text bs) is)) (terminal_of (to_con v))"
    using Cons.IH [of v] Cons.prems(1) v(3,4) u(4) by auto
  moreover have "bytes s (buff + of_nat i) = ?b" using Cons.prems(1) by simp
  ultimately show ?case using u(1,2) v(1,2) by (simp add: dt)
qed simp

lemma terminal_of_more:
  fixes c d :: "'d hw"
  assumes "kbase.more c = kbase.more d"
  shows "terminal_of c = terminal_of d"
  using assms by (cases c; cases d) (simp add: terminal_of_def)

lemma screen_con:
  fixes s t :: "('d, 'a) fatfs_scheme"
  assumes "con t = con s"
  shows "terminal_of (to_con t) = terminal_of (to_con s)" "screen_ok n t = screen_ok n s"
proof -
  have m: "kbase.more (to_con t) = kbase.more (to_con s)" by (simp add: to_con_def kbase.defs assms)
  then show "terminal_of (to_con t) = terminal_of (to_con s)" by (rule terminal_of_more)
  have "disp_x (to_con t) = disp_x (to_con s)" "disp_y (to_con t) = disp_y (to_con s)"
    using m by (cases "to_con s"; cases "to_con t"; simp)+
  then show "screen_ok n t = screen_ok n s" by (simp add: screen_ok_def cursor_ok_def)
qed

text \<open>\<open>dump_block\<close> shows the sector of a partition.\<close>

theorem dump_block_shows:
  fixes s :: "('d, 'a) fatfs_scheme"
  assumes K: "kinv s F live" "cursor_at s n" "n + 5 \<le> 2 ^ 28" and P: "partition_on rd disk part s" "blk_size (bdev_of s part) = 512"
    and sect: "sect = disk (block + sect_start (part_of s part))" and tx: "tx = concat (map (dump_text sect) [0..<512])" "screen_ok (length tx) s"
  shows "\<exists>t. dump_block dev rd part block s = Some t \<and> terminal_of (to_con t) = fold term_put tx (terminal_of (to_con s))"
proof -
  obtain buff s1 where m: "kmalloc 512 s = (buff, s1)" by fastforce
  have "n + 4 + pages_for 512 \<le> 2 ^ 28" "0 < unat (512 :: u64)" "unat (512 :: u64) < 2 ^ 40" using K(3) by (simp_all add: pages_for_def)
  note A = kmalloc_room [OF K(1,2) this m]
  note M = fat_more [OF A(2)]
  let ?s2 = "klog KLOG_LEVEL_WARN ''doing second read'' [] s1"
  have P2: "partition_on rd disk part ?s2" using P(1) by (simp add: partition_on_def M)
  obtain x where x: "read_block rd part block buff ?s2 = Some (0, ?s2\<lparr>bytes := store_bytes buff sect (bytes s1), devst := x\<rparr>)"
    using partition_read [OF P2, of block buff] by (auto simp: sect M)
  define u where "u = klog KLOG_LEVEL_WARN ''done doing second read'' [] (?s2\<lparr>bytes := store_bytes buff sect (bytes s1), devst := x\<rparr>)"
  have "con s1 = con s" using A(2) by (cases s; cases s1; simp)
  then have "con u = con s" by (simp add: u_def klog_def)
  note S = screen_con [OF this]
  have len: "length sect = 512" using P(1) by (simp add: sect partition_on_def sector_device_def)
  have b: "\<forall>i\<in>set [0..<512]. bytes u (buff + of_nat i) = sect ! i"
    using load_sector(1) [OF len, of _ buff "bytes s1"] by (simp add: u_def)
  have "dump_block dev rd part block s = dump_loop dev buff [0..<512] u"
    unfolding dump_block_def P(2) m using A(1) x P(2) by (simp add: u_def M del: upt_rec_numeral)
  moreover have "screen_ok (length (concat (map (dump_text sect) [0..<512]))) u" using tx S(2) by simp
  from dump_loop_prints [OF b this, of dev] obtain t where "dump_loop dev buff [0..<512] u = Some t"
    "terminal_of (to_con t) = fold term_put tx (terminal_of (to_con u))" unfolding tx(1) by blast
  ultimately show ?thesis using S(1) by simp
qed

section \<open>Echo\<close>

text \<open>The serial line and the part of the hardware that \<open>q\<close> looks at are different devices.\<close>

definition quiet :: "'d device \<Rightarrow> ('d \<Rightarrow> 'x) \<Rightarrow> bool" where
  "quiet dev q \<longleftrightarrow> (\<forall>d v. q (dev_out dev COM1_PORT 8 v d) = q d) \<and> (\<forall>d. q (snd (dev_in dev (COM1_PORT + LINE_STATUS_REG_OFFSET) 8 d)) = q d)"

text \<open>What printing leaves alone of the interrupt state and the hardware.\<close>

definition base_eq :: "('d \<Rightarrow> 'x) \<Rightarrow> ('d, 'a) kbase_scheme \<Rightarrow> ('d, 'a) kbase_scheme \<Rightarrow> bool" where
  "base_eq q s t \<longleftrightarrow> irq_semaphore t = irq_semaphore s \<and> int_flag t = int_flag s \<and> handlers t = handlers s \<and> klogs t = klogs s \<and>
     q (devst t) = q (devst s)"

lemma base_eq_section:
  assumes "irq_ok s" "irq_semaphore s + 1 \<noteq> 0" "base_eq q (IRQ_disable s) t"
  shows "base_eq q s (IRQ_enable t)"
  using assms by (auto simp: base_eq_def irq_ok_def IRQ_enable_def IRQ_disable_def atomic_get_def atomic_add_def atomic_sub_def Let_def)

lemma display_char_base:
  assumes "irq_ok s" "irq_semaphore s + 1 \<noteq> 0" "quiet dev q"
  shows "base_eq q s (display_char dev c s)"
proof -
  have "base_eq q (IRQ_disable s) (placed c (scrolled (IRQ_disable s)))"
    by (simp add: base_eq_def placed_def scrolled_def scroll_def Let_def)
  then have v: "base_eq q s (VGA_display_char c s)" unfolding VGA_display_char_eq by (rule base_eq_section [OF assms(1,2)])
  let ?t = "VGA_display_char c s"
  have t: "irq_ok ?t" "irq_semaphore ?t + 1 \<noteq> 0" using v assms(1,2) by (simp_all add: base_eq_def irq_ok_def)
  have "base_eq q (IRQ_disable ?t) (let s = producer_add_char c (IRQ_disable ?t); (e, s) = is_transmit_empty dev s
      in if e then consumer_write_next dev s else s)"
    using assms(3) by (simp add: base_eq_def quiet_def producer_add_char_def is_transmit_empty_def inb_def consumer_write_next_def outb_def
        Let_def case_prod_beta)
  from base_eq_section [OF t this] v show ?thesis
    by (simp add: base_eq_def display_char_def SER_write_char_def x86_write_def Let_def case_prod_beta)
qed

lemma to_con_base [simp]:
  "irq_semaphore (to_con s) = irq_semaphore s" "int_flag (to_con s) = int_flag s" "handlers (to_con s) = handlers s" "klogs (to_con s) = klogs s"
  "devst (to_con s) = devst s"
  by (simp_all add: to_con_def kbase.defs)

text \<open>Outside of the console and the interrupt state nothing changes.\<close>

lemma of_con_more:
  fixes s :: "('d, 'a) fatfs_scheme"
  shows "curr_proc (of_con c s) = curr_proc s" "sleep_curr (of_con c s) = sleep_curr s" "blocked_procs (of_con c s) = blocked_procs s"
    "ofile_of (of_con c s) = ofile_of s" "ps2_data (of_con c s) = ps2_data s" "ps2_pos (of_con c s) = ps2_pos s" "user_pos (of_con c s) = user_pos s"
    "shift_pressed (of_con c s) = shift_pressed s" "irq_semaphore (of_con c s) = irq_semaphore c" "int_flag (of_con c s) = int_flag c"
    "handlers (of_con c s) = handlers c"
  by (simp_all add: of_con_def)

lemma kprintk_char:
  "kprintk dev ''%c'' [Int_arg (scast (c :: u8))] s = Some (of_con (display_char dev c (to_con s)) s)"
proof -
  have "ucast (scast c :: u32) = c" by (rule bit_word_eqI) (auto simp: bit_simps)
  then show ?thesis by (simp add: kprintk_def on_con_def printk_def)
qed

text \<open>The process at the keyboard: it runs, its file is one of the open ones, and the screen is ready for \<open>n\<close> more characters.\<close>

definition at_keyboard ::
  "('d \<Rightarrow> u8 list) \<Rightarrow> addr set \<Rightarrow> addr \<Rightarrow> addr list \<Rightarrow> addr list \<Rightarrow> kbd \<Rightarrow> nat \<Rightarrow> ('d, 'a) fatfs_scheme \<Rightarrow> bool" where
  "at_keyboard q FD c ws rs k n s \<longleftrightarrow> kb_rep q FD s k \<and> running s c rs \<and> waiting s (blocked_procs s) ws rs \<and> NULL \<notin> set ws \<and> irq_semaphore s = 0 \<and>
     LL_nhead (lists s) (blocked_procs s) c \<notin> ll_foot (lists s) (blocked_procs s) ws \<union> ll_foot (lists s) (ready_queue s) rs \<and>
     (\<exists>Y. cursor_ok (to_con s) Y) \<and> unat (disp_x (to_con s)) + n < 2 ^ 32"

lemma at_keyboard_sched: "at_keyboard q FD c ws rs k n s \<Longrightarrow> kb_sched s"
  by (auto simp: at_keyboard_def kb_sched_def running_def)

lemma at_keyboard_print:
  fixes s :: "('d, 'a) fatfs_scheme"
  assumes K: "at_keyboard q FD c ws rs k (Suc n) s" and dev: "quiet dev q" and ch: "ch \<noteq> 0x0D"
    and t: "t = of_con (display_char dev ch (to_con s)) s"
  shows "at_keyboard q FD c ws rs k n t" "terminal_of (to_con t) = term_put ch (terminal_of (to_con s))"
proof -
  obtain Y where Y: "cursor_ok (to_con s) Y" "unat (disp_x (to_con s)) + length [ch] < 2 ^ 32" using K by (auto simp: at_keyboard_def)
  have i: "irq_ok (to_con s)" "irq_semaphore (to_con s) + 1 \<noteq> 0" using K by (auto simp: at_keyboard_def running_def irq_ok_def)
  note B = display_char_base [OF i dev, of ch]
  have P: "shows_text (to_con s) (display_char dev ch (to_con s)) [ch]" using display_char_prints [OF ch] Y by (simp add: prints_def) blast
  then show "terminal_of (to_con t) = term_put ch (terminal_of (to_con s))" by (simp add: t shows_text_def)
  show "at_keyboard q FD c ws rs k n t"
    using K B P by (auto simp: at_keyboard_def t of_con_more base_eq_def kb_rep_def kb_ring_def running_def waiting_def cell_free_def syscalls_ready_def
        irq_ok_def shows_text_def)
qed

lemma keyboard_io_round_echo:
  fixes s :: "('d, 'a) fatfs_scheme"
  assumes K: "at_keyboard q FD c ws rs (sh, codes, un) (Suc n) s" and dev: "quiet dev q" and f: "f \<in> FD" "un f = ch # cs" "ch \<noteq> 0x0D"
    and fops: "fops (of_fops (ofile_of s f)) = ps2_fops dev drv ctx"
  shows "\<exists>t. keyboard_io_round dev fops f buff s = Some (Inr t) \<and> at_keyboard q FD c ws rs (sh, codes, un(f := cs)) n t \<and>
    terminal_of (to_con t) = term_put ch (terminal_of (to_con s)) \<and> ofile_of t = ofile_of s"
proof -
  have rep: "kb_rep q FD s (sh, codes, un)" "un f \<noteq> []" using K f by (simp_all add: at_keyboard_def)
  obtain p where p: "ps2_read dev drv ctx f buff 1 s = Inr ([ch], s\<lparr>user_pos := p\<rparr>)" "kb_rep q FD (s\<lparr>user_pos := p\<rparr>) (sh, codes, un(f := cs))"
    using ps2_read_available [OF rep(1) at_keyboard_sched [OF K] f(1) rep(2), of dev drv ctx buff 1] f(2) by auto
  define u where "u = s\<lparr>user_pos := p, bytes := store_bytes buff [ch] (bytes s)\<rparr>"
  have u: "to_con u = to_con s" "lists u = lists s" "bytes u buff = ch" "ofile_of u = ofile_of s"
    using store_bytes_at [of 0 "[ch]" buff "bytes s"] by (simp_all add: u_def to_con_def kbase.defs)
  have "at_keyboard q FD c ws rs (sh, codes, un(f := cs)) (Suc n) u"
  proof -
    have "running u c rs = running s c rs" "waiting u (blocked_procs u) ws rs = waiting s (blocked_procs s) ws rs"
      by (simp_all add: u_def running_def waiting_def cell_free_def syscalls_ready_def irq_ok_def)
    moreover have "kb_rep q FD u (sh, codes, un(f := cs))" using p(2) by (simp add: u_def kb_rep_def kb_ring_def)
    ultimately show ?thesis using K unfolding at_keyboard_def u by (simp add: u_def)
  qed
  note P = at_keyboard_print [OF this dev f(3) refl]
  have "keyboard_io_round dev fops f buff s = Some (Inr (of_con (display_char dev ch (to_con u)) u))"
    using p(1) fops u(3) kprintk_char [of dev ch u] by (simp add: keyboard_io_round_def FS_read_def ps2_fops_def Let_def u_def del: fun_upd_apply)
  then show ?thesis using P u by (auto simp: of_con_more)
qed

lemma keyboard_io_round_blocks:
  fixes s :: "('d, 'a) fatfs_scheme"
  assumes K: "at_keyboard q FD c ws rs (sh, codes, un) n s" and f: "f \<in> FD" "un f = []"
    and fops: "fops (of_fops (ofile_of s f)) = ps2_fops dev drv ctx"
  shows "\<exists>ctx' t. keyboard_io_round dev fops f buff s = Some (Inl (ctx', t)) \<and> kb_rep q FD t (sh, codes, un) \<and>
    terminal_of (to_con t) = terminal_of (to_con s) \<and> LL_for_each (blocked_procs t) (lists t) = Some (ws @ [c]) \<and>
    waiting t (blocked_procs t) (ws @ [c]) (tl rs) \<and> irq_ok t \<and> irq_semaphore t = 0"
proof -
  have A: "kb_rep q FD s (sh, codes, un)" "running s c rs" "waiting s (blocked_procs s) ws rs" "irq_semaphore s = 0"
    "LL_nhead (lists s) (blocked_procs s) c \<notin> ll_foot (lists s) (blocked_procs s) ws \<union> ll_foot (lists s) (ready_queue s) rs"
    using K by (simp_all add: at_keyboard_def)
  obtain ctx' t where t: "ps2_read dev drv ctx f buff 1 s = Inl (ctx', t)" "psys.more t = psys.more s" "kb_rep q FD t (sh, codes, un)"
      "waiting t (blocked_procs t) (ws @ [c]) (tl rs)" "irq_ok t" "irq_semaphore t = 0"
    using ps2_read_blocks [OF A(1) f A(2-5), of dev drv ctx buff 1] by blast
  have "con t = con s" using t(2) by (cases s; cases t; simp)
  then have "terminal_of (to_con t) = terminal_of (to_con s)" by (rule screen_con)
  moreover have "LL_for_each (blocked_procs t) (lists t) = Some (ws @ [c])" using t(4) by (intro LL_for_each_list) (simp add: waiting_def)
  ultimately show ?thesis using t fops by (simp add: keyboard_io_round_def FS_read_def ps2_fops_def)
qed


section \<open>Examples\<close>

text \<open>One disk with one partition, at sector \<open>0x800\<close>; its structure is a block of the heap.\<close>

definition mount_disk :: "u64 \<Rightarrow> u8 list" where
  "mount_disk b = (if b = 0 then (replicate 512 0)[450 := 0x0C, 455 := 8, 510 := 0x55, 511 := 0xAA] else fat_disk_example b)"

definition mount_rd :: "(drive, unit) reader" where
  "mount_rd d b dst s = Some (0, s\<lparr>bytes := store_bytes dst (mount_disk b) (bytes s)\<rparr>)"

definition mount_base :: "drive fatfs" where
  "mount_base = fat_example\<lparr>bytes := (\<lambda>_. 0)(0x5100 := 0x61, 0x5101 := 0x74, 0x5102 := 0x61, 0x5108 := 0x61, 0x5109 := 0x74, 0x510A := 0x61,
     0x510B := 0x5F, 0x510C := 0x31), lists := Files_init 0x5000 0x5020 0x5040 (lists fat_example)\<rparr>"

definition mount_dev :: addr where
  "mount_dev = fst (kmalloc sizeof_ATADevice mount_base)"

definition mount_example :: "drive fatfs" where
  "mount_example = (snd (kmalloc sizeof_ATADevice mount_base))
     \<lparr>bdev_of := (\<lambda>_. \<lparr>read_block_fn = Ata_read_block, blk_size = 512, total_len = 0, bd_name = 0x5100, bd_type = MASS_STORAGE, fs_type = 0\<rparr>),
      lists := LL_enqueue 0x5020 mount_dev (lists mount_base)\<rparr>"

lemma mount_base_sel:
  "ata_name mount_base = 0x5100" "f_blocks mount_base = 0x5020" "kinv mount_base (\<lambda>_. []) {}" "cursor_at mount_base 0"
  "hoff (lists mount_base) 0x5020 = 40"
proof -
  show "hoff (lists mount_base) 0x5020 = 40" by (simp add: mount_base_def Files_init_def)
  show "ata_name mount_base = 0x5100" "f_blocks mount_base = 0x5020"
    by (simp_all add: mount_base_def fat_example_def kernel.extend_def fatfs.fields_def example_defs)
  show "kinv mount_base (\<lambda>_. []) {}" using fat_example_heap(1) by (subst kinv_cong [of _ fat_example]) (auto simp: mount_base_def)
  show "cursor_at mount_base 0" using fat_example_heap(2) by (simp add: cursor_at_def mount_base_def)
qed

lemma mount_base_str: "literal (bytes mount_base) 0x5100 ''ata''" "literal (bytes mount_base) 0x5108 ''ata_1''"
  by (simp_all add: literal_def range_below_def chars_def mount_base_def)

lemma heap_more_names:
  fixes s t :: "('d, 'a) fatfs_scheme"
  assumes "kheap.more t = kheap.more s"
  shows "ata_name t = ata_name s" "f_blocks t = f_blocks s"
  using assms by (cases s; cases t; simp)+

lemma mount_example_ok:
  "\<exists>F live. disks_named mount_example [mount_dev] live \<and> kinv mount_example F live" "\<exists>n \<le> 5. cursor_at mount_example n"
  "ata_name mount_example = 0x5100" "bytes mount_example = bytes mount_base"
proof -
  obtain d s where m: "kmalloc sizeof_ATADevice mount_base = (d, s)" by fastforce
  have "0 + 4 + pages_for sizeof_ATADevice \<le> 2 ^ 28" by (simp add: ATADevice_size)
  note A = kmalloc_room [OF mount_base_sel(3,4) this ATADevice_size(2,3) m]
  note ms = heap_more_names [OF A(2)] fat_more [OF A(2)]
  have e: "mount_dev = d" by (simp add: mount_dev_def m)
  have x: "mount_example = s\<lparr>bdev_of := (\<lambda>_. \<lparr>read_block_fn = Ata_read_block, blk_size = 512, total_len = 0, bd_name = 0x5100,
      bd_type = MASS_STORAGE, fs_type = 0\<rparr>), lists := LL_enqueue 0x5020 d (lists mount_base)\<rparr>" by (simp add: mount_example_def m e)
  show n: "ata_name mount_example = 0x5100" "bytes mount_example = bytes mount_base" unfolding x by (simp_all add: ms(1,3) mount_base_sel(1))
  obtain F where K: "kinv s F {(d - HEADER_SIZE, kind_of sizeof_ATADevice)}" using A(4) by blast
  then have K': "kinv mount_example F {(d - HEADER_SIZE, kind_of sizeof_ATADevice)}" unfolding x by (subst kinv_cong [of _ s]) auto
  have "ll_list (lists mount_base) 0x5020 []" by (simp add: ll_list_Nil Files_init_def mount_base_def)
  moreover have "\<not> below_heap (d + 40)" using live_held(2) [OF K, of d "kind_of sizeof_ATADevice" 40] by (simp add: ATADevice_size)
  then have "d + 40 \<noteq> 0x5020" by (auto simp: below_heap_def)
  ultimately have "ll_list (LL_enqueue 0x5020 d (lists mount_base)) 0x5020 ([] @ [d])"
    by (intro LL_enqueue_list) (simp_all add: LL_nhead_def Files_init_def mount_base_def ll_foot_def ll_nodes_def)
  then have "disks_named mount_example [mount_dev] {(d - HEADER_SIZE, kind_of sizeof_ATADevice)}"
    unfolding disks_named_def disks_at_def n(2) n(1) e using mount_base_str(1) mount_base_sel(5)
    by (simp add: x ms(1,2) mount_base_sel(1,2) is_disk_def ATA_BLOCK_SIZE_def below_heap_def)
  with K' show "\<exists>F live. disks_named mount_example [mount_dev] live \<and> kinv mount_example F live" by blast
  show "\<exists>n \<le> 5. cursor_at mount_example n" using A(5) by (auto simp: x cursor_at_def ATADevice_size)
qed

lemma mount_disk_ok: "sector_device mount_rd d mount_disk" "part_start mount_disk = 0x800" "fat32_disk mount_disk"
proof -
  have "length (mount_disk b) = 512" for b by (simp add: mount_disk_def fat_disk_example_def boot_sector_example_def)
  moreover have "mount_rd d b dst s = Some (0, s\<lparr>bytes := store_bytes dst (mount_disk b) (bytes s), devst := devst s\<rparr>)" for b dst s
    by (simp add: mount_rd_def)
  ultimately show "sector_device mount_rd d mount_disk" unfolding sector_device_def by blast
  have m: "le32 (mount_disk 0) 454 = 0x800" "le16 (mount_disk 0) 510 = 0xaa55" "mount_disk 0 ! 450 = 0x0C"
    by (simp_all add: le32_def le16_def mount_disk_def nth_list_update)
  show st: "part_start mount_disk = 0x800" by (simp add: part_start_def m)
  have b: "mount_disk 0x800 = boot_sector_example" by (simp add: mount_disk_def fat_disk_example_def)
  show "fat32_disk mount_disk"
    by (simp add: fat32_disk_def m st b Let_def FS_TYPE_FAT32_def)
      (simp add: fat_count_def fat_sectors_def le32_def le16_def boot_sector_example_def)
qed


text \<open>The processes of the example of the scheduler, a cleared screen, and two characters that the running process has not read yet.\<close>

definition echo_example :: "drive fatfs" where
  "echo_example = fat_example\<lparr>lists := sched_lists, ps2_data := (replicate 128 0)[0 := 0x68, 1 := 0x69], ps2_pos := 2,
     con := kbase.more (VGA_clear hw_example)\<rparr>"

lemma echo_example_sel:
  "lists echo_example = sched_lists" "curr_proc echo_example = 0x1000" "sleep_curr echo_example = False" "ready_queue echo_example = 0x900"
  "irq_semaphore echo_example = 0" "int_flag echo_example = True" "handlers echo_example = handlers sched_example"
  "blocked_procs echo_example = 0x700" "user_pos echo_example = (\<lambda>_. 0)" "ps2_pos echo_example = 2" "shift_pressed echo_example = 0"
  "ps2_data echo_example = (replicate 128 0)[0 := 0x68, 1 := 0x69]" "con echo_example = kbase.more (VGA_clear hw_example)"
  using sched_example_sel(2,5,6)
  by (simp_all add: echo_example_def fat_example_def kernel.extend_def fatfs.fields_def example_defs)

lemma echo_example_ok: "at_keyboard (\<lambda>_. []) {0x7000} 0x1000 [0x4000, 0x5000] [0x2000, 0x3000] (False, [], \<lambda>_. [0x68, 0x69])
    (length [0x68, 0x69 :: u8]) echo_example"
proof -
  have "kb_rep (\<lambda>_. []) {0x7000} echo_example (False, [], \<lambda>_. [0x68, 0x69])"
    by (auto simp: kb_rep_def kb_ring_def echo_example_sel less_Suc_eq)
  moreover have "running echo_example 0x1000 [0x2000, 0x3000]" "waiting echo_example 0x700 [0x4000, 0x5000] [0x2000, 0x3000]"
    using sched_example_lists(1,2)
    by (simp_all add: running_def waiting_def cell_free_def syscalls_ready_def irq_ok_def LL_nhead_def sched_lists_def echo_example_sel)
  moreover have "cursor_ok (to_con echo_example) 0" "disp_x (to_con echo_example) = 0"
    by (simp_all add: to_con_def kbase.defs echo_example_sel cursor_ok_def VGA_clear_def hw_example_def console.extend_def hw.fields_def)
  ultimately show ?thesis unfolding at_keyboard_def using sched_example_lists(3) by (auto simp: echo_example_sel)
qed


end
