(* ===== verification/Spec2Isabelle.thy ===== *)
theory Spec2Isabelle
  imports Sort_Utils String_Ops Scheduler Keyboard_Bounds Kmain Procs
begin

text \<open>
  \<^bold>\<open>Verification of the marimba kernel.\<close>

  Marimba is a small kernel for x86-64 written in C (\<^verbatim>\<open>src/src\<close>). The boot loader leaves a Multiboot 2 structure in memory;
  \<open>kmain\<close> starts the screen, the processor, the memory manager, the serial port, the processes, the PCI bus and the drivers, creates
  the first processes and runs the scheduler. The drivers are interrupt driven: a process that reads a key or a sector blocks on a
  queue of the driver, and the interrupt handler puts it back on the ready queue. This development models all of the C code that
  has a behaviour of its own, at the level of its addresses and machine words, and proves what the parts promise each other.

  \<^bold>\<open>How the code is modelled.\<close>
  \<^item> Pointers are 64-bit words. A C structure is a \<open>record\<close>, kept in a map from the address of the instance to the record (\<open>bdev_of\<close>,
    \<open>inode_of\<close>, \<open>fat_of\<close>, \<open>proc_of\<close>, \<open>pcidev_of\<close>, ...). Structures that the code reads or writes as raw memory (page tables, free frames, block
    headers of the heap, Multiboot tags, boot sectors, strings, the descriptor tables) are memory: functions from addresses to
    bytes or 64-bit words, with the byte order written out.
  \<^item> Integers keep their width: \<open>u8\<close>, \<open>u16\<close>, \<open>u32\<close>, \<open>u64\<close> are words, so additions wrap as in C; a signed \<open>int\<close> is a word of 32 bits that is read with
    \<open>sint\<close> where its width matters, and an \<open>int\<close> where it is a result code (0, -1, ...).
  \<^item> State is passed explicitly. Every theory extends the record of the theory below, and operations are polymorphic in the rest of the record:
    \<open>kbase\<close> (interrupt counter, handlers, log, hardware) - \<open>mm\<close> (frames, page tables, address cursors) - \<open>kheap\<close> (pools of the heap) - \<open>psys\<close> (list headers,
    processes, queues) - \<open>files\<close> - \<open>ps2\<close> - \<open>pci\<close> - \<open>ata\<close> - \<open>kernel\<close> - \<open>fatfs\<close> - \<open>kmain_state\<close>. The console is a second chain \<open>kbase\<close> - \<open>serial\<close> -
    \<open>console\<close> - \<open>hw\<close>; \<open>Kernel_State.on_con\<close> runs its operations on the component \<open>con\<close> of the whole kernel, sharing \<open>kbase\<close>.
  \<^item> Intrusive lists (\<^verbatim>\<open>list.h\<close>) are a heap \<open>lheap\<close> of headers with next, previous and offset; the theorems speak about them through \<open>ll_list h l ds\<close>:
    the list at \<open>l\<close> holds the structures \<open>ds\<close>.
  \<^item> A fallible function returns its C result with the state; \<open>panic\<close> writes to the log and execution continues, as it does after
    the single \<open>hlt\<close> of \<^verbatim>\<open>panic.c\<close>.
  \<^item> A loop over a known range is recursion over the list of its indices or over a number. A loop that the code does not bound (walking pointers,
    polling a device, walking tags) is a \<open>partial_function (option)\<close>: \<open>None\<close> is the run that never ends. No fuel is used anywhere; wherever a
    property says that such a function succeeds it is proved to be \<open>Some\<close>.
  \<^item> Blocking is a value: an operation that may block returns \<open>Inl\<close> with the frame and state of the process that runs next, or \<open>Inr\<close> with its result.

  \<^bold>\<open>Parameters.\<close> The hardware behind the ports is a record \<open>'d device\<close> of two functions on an arbitrary state \<open>'d\<close>; what a driver relies on is a predicate
  on it (\<open>keyboard\<close>, \<open>config_space\<close>, \<open>answers\<close>, \<open>polls\<close>, \<open>identifies\<close>, the transmitter of \<open>Serial\<close>), satisfied in the witnesses by concrete devices. The addresses
  of static variables and string literals are fields or arguments. The handlers of drivers, as called from the
  interrupt dispatcher, are an argument \<open>drv\<close>; \<open>read_block\<close> of a physical device is an argument \<open>rd\<close> of the file system. \<open>IDT_init\<close>, which a script
  generates, is represented by the entries it writes.

  \<^bold>\<open>Theories, sources, results.\<close>
  \<^item> \<open>Prelude\<close>: types, word lemmas and the collections of facts. \<open>Fifo_Spec\<close>: the locale \<open>fifo_heap\<close>, the contract of a queue that is threaded through a
    shared heap, with its footprint.
  \<^item> \<open>Linked_List\<close> (\<^verbatim>\<open>list.c, list.h\<close>): all list operations; interpretation \<open>ll\<close> of \<open>fifo_heap\<close>; first in first out, deletion, separation.
  \<^item> \<open>String_Ops\<close> (\<^verbatim>\<open>string.c\<close>), \<open>Sort_Utils\<close> (\<^verbatim>\<open>utils.c\<close>): the generic selection sort with its callbacks. Locales \<open>sort_compare\<close> and
    \<open>sort_callbacks\<close> say what the sort needs of compare and swap; \<open>ksort\<close> interprets both for kernel sections, \<open>msort\<close> only the first for memory
    maps, whose swap does not keep the contract, and the array is corrupted.
  \<^item> \<open>Kernel_Base\<close> (\<^verbatim>\<open>klog.h, io.h, atomic.c\<close>), \<open>Interrupts\<close> (\<^verbatim>\<open>arch/x86_64/interrupts.c\<close>): masks, handlers, dispatch; nesting of critical sections.
  \<^item> \<open>Frames\<close> (first part of \<^verbatim>\<open>mmu.c\<close>): the allocator of physical frames; locale \<open>frame_pool\<close>, interpretation \<open>mmu\<close>; conservation of frames and refinement
    of a queue.
  \<^item> \<open>Paging\<close>, \<open>Address_Space\<close> (\<^verbatim>\<open>arch/x86_64/paging.c\<close>): page tables in memory, the abstraction to a map from pages to frames, demand
    allocation and the page fault handler. \<open>Virtual_Memory\<close> (rest of \<^verbatim>\<open>mmu.c\<close>): pages and stacks; isolation in every history of operations.
  \<^item> \<open>Heap_Spec\<close>: the locale \<open>block_heap\<close>, the contract of an allocator of blocks. \<open>Kmalloc\<close> (\<^verbatim>\<open>kmalloc.c\<close>): the invariant \<open>kinv\<close> of the heap,
    interpretation \<open>hp\<close>; live blocks never overlap, and blocks given back in any order leave the heap as it was.
  \<^item> \<open>Proc\<close>, \<open>Scheduler\<close> (\<^verbatim>\<open>proc.c, arch/x86_64/proc.c, syscall.c\<close>): contexts, queues, blocking, round robin, wake-up in order. \<open>Process_Start\<close>: a new
    process starts at its entry point with its argument on a stack of its own.
  \<^item> \<open>Segments\<close>, \<open>Memory_Init\<close> (\<^verbatim>\<open>mmu.c: MMU_init\<close>): removing the kernel image from the free memory; \<open>MMU_init\<close> establishes the invariant of the memory
    manager. \<open>Boot\<close> (\<^verbatim>\<open>boot.c, elf.c\<close>): parsing of the Multiboot tags and of the ELF sections.
  \<^item> \<open>Serial\<close> (\<^verbatim>\<open>drivers/serial\<close>), \<open>Vga\<close> (\<^verbatim>\<open>vga.c\<close>), \<open>Printk\<close> (\<^verbatim>\<open>printk.c, klog.h, panic.c\<close>), \<open>Hw_Init\<close> (\<^verbatim>\<open>hw_init.c\<close>): bytes leave the port in order, the screen is a
    scrolling terminal, formatted output shows the formatted text, descriptors decode to what they should.
  \<^item> \<open>Fs\<close> (\<^verbatim>\<open>fs.c\<close>): directory of devices, block devices, partitions. \<open>Fat\<close> (\<^verbatim>\<open>fs/fat.c\<close>): the FAT32 file system. \<open>Ps2\<close> (\<^verbatim>\<open>drivers/keyboard\<close>), \<open>Pci\<close>
    (\<^verbatim>\<open>drivers/pci.c\<close>), \<open>Ata\<close> (\<^verbatim>\<open>drivers/disk/ata.c\<close>): the drivers, as refinements of an abstract keyboard and of a disk that serves reads in order.
    \<open>Keyboard_Bounds\<close>: no run of the keyboard driver leaves its buffer.
  \<^item> \<open>Kernel_State\<close>, \<open>Device_Start\<close>, \<open>Kmain\<close> (\<^verbatim>\<open>kmain.c\<close>): everything on one state; \<open>kmain\<close> from the boot information to the first processes.
    \<open>Procs\<close> (\<^verbatim>\<open>procs\<close>): the processes themselves; the file system is mounted from the disk that \<open>kmain\<close> found, and typed characters reach the screen.

  \<^bold>\<open>Not modelled.\<close> The assembly files (entry to long mode, stubs of the interrupt vectors, stack setup), whose effect the model of a frame and of \<open>IRET\<close>
  takes over; the scripts that generate the table of vectors and the table itself; the host tests; declarations without code (prototypes, constants and
  structures that nothing uses); timing, and interrupts between two instructions of a section that does not disable them: interrupts
  occur between operations, in any order.
\<close>

end
